(* ===== verification/Prelude.thy ===== *)
theory Prelude
  imports Main "HOL-Library.Word"
begin

unbundle bit_operations_syntax

section \<open>Prelude: outcomes, the kernel monad and shared lemmas\<close>

text \<open>
  The notions every component of the development shares.

  A kernel routine is a function from the kernel state to an \<^emph>\<open>outcome\<close>. It returns a value
  and a state (\<open>Ret\<close>), or it stops (\<open>Stop\<close>): in a \<^verbatim>\<open>panic()\<close>, in behaviour that C leaves
  undefined (a null dereference, an index outside an array), spinning on a lock that is
  never released by the thread that runs, or by giving the CPU away through \<^verbatim>\<open>swtch()\<close> (in
  \<^verbatim>\<open>sleep()\<close>, \<^verbatim>\<open>yield()\<close> or \<^verbatim>\<open>exit()\<close>, and in the scheduler when it dispatches a process).

  Locks and sleep channels are addresses in the C code; here they are named by the object
  they belong to.
\<close>

subsection \<open>Names of kernel objects\<close>

datatype slock_id = BufLock nat | InodeLock nat

datatype lockid =
    KmemLock | PidLock | WaitLock | ProcLock nat | TicksLock
  | BcacheLock | SleepLk slock_id | LogLock | ItableLock | FtableLock
  | PipeLock "64 word" | ConsLock | UartTxLock | VdiskLock | PrLock

datatype chan =
    ChanProc nat | ChanTicks | ChanSleep slock_id | ChanLog
  | ChanPipeRead "64 word" | ChanPipeWrite "64 word" | ChanConsR
  | ChanUartR | ChanDiskFree | ChanBuf nat

subsection \<open>Outcomes\<close>

datatype why = Asleep chan | Yielded | Exited | Dispatched nat

datatype stop = Panic string | Fault string | Spin lockid | Switch why

datatype ('a, 's) outcome = Ret 'a 's | Stop stop 's

type_synonym ('s, 'a) M = "'s \<Rightarrow> ('a, 's) outcome"

named_theorems monad_simps "unfolding of the kernel monad's combinators"

definition returnM :: "'a \<Rightarrow> ('s, 'a) M" where
  "returnM x = (\<lambda>s. Ret x s)"

definition bindM :: "('s, 'a) M \<Rightarrow> ('a \<Rightarrow> ('s, 'b) M) \<Rightarrow> ('s, 'b) M" where
  "bindM m f = (\<lambda>s. case m s of Ret x t \<Rightarrow> f x t | Stop r t \<Rightarrow> Stop r t)"

definition seqM :: "('s, 'a) M \<Rightarrow> ('s, 'b) M \<Rightarrow> ('s, 'b) M" where
  "seqM m n = bindM m (\<lambda>_. n)"

definition stopM :: "stop \<Rightarrow> ('s, 'a) M" where
  "stopM r = (\<lambda>s. Stop r s)"

definition panic :: "string \<Rightarrow> ('s, 'a) M" where
  "panic msg = stopM (Panic msg)"

definition gets :: "('s \<Rightarrow> 'a) \<Rightarrow> ('s, 'a) M" where
  "gets f = (\<lambda>s. Ret (f s) s)"

definition modify :: "('s \<Rightarrow> 's) \<Rightarrow> ('s, unit) M" where
  "modify f = (\<lambda>s. Ret () (f s))"

definition whenM :: "bool \<Rightarrow> ('s, unit) M \<Rightarrow> ('s, unit) M" where
  "whenM b m = (if b then m else returnM ())"

lemma returnM_apply [monad_simps, simp]: "returnM x s = Ret x s"
  by (simp add: returnM_def)

lemma stopM_apply [monad_simps, simp]: "stopM r s = Stop r s"
  by (simp add: stopM_def)

lemma panic_apply [monad_simps, simp]: "panic msg s = Stop (Panic msg) s"
  by (simp add: panic_def)

lemma gets_apply [monad_simps, simp]: "gets f s = Ret (f s) s"
  by (simp add: gets_def)

lemma modify_apply [monad_simps, simp]: "modify f s = Ret () (f s)"
  by (simp add: modify_def)

lemma bindM_apply [monad_simps]:
  "bindM m f s = (case m s of Ret x t \<Rightarrow> f x t | Stop r t \<Rightarrow> Stop r t)"
  by (simp add: bindM_def)

lemma seqM_apply [monad_simps]:
  "seqM m n s = (case m s of Ret x t \<Rightarrow> n t | Stop r t \<Rightarrow> Stop r t)"
  by (simp add: seqM_def bindM_def)

lemma whenM_apply [monad_simps, simp]: "whenM b m s = (if b then m s else Ret () s)"
  by (simp add: whenM_def)

text \<open>The two laws that drive execution: a step whose outcome is known is consumed.\<close>

lemma bindM_Ret [simp]: "m s = Ret x t \<Longrightarrow> bindM m f s = f x t"
  by (simp add: bindM_def)

lemma bindM_Stop [simp]: "m s = Stop r t \<Longrightarrow> bindM m f s = Stop r t"
  by (simp add: bindM_def)

lemma seqM_Ret [simp]: "m s = Ret x t \<Longrightarrow> seqM m n s = n t"
  by (simp add: seqM_def)

lemma seqM_Stop [simp]: "m s = Stop r t \<Longrightarrow> seqM m n s = Stop r t"
  by (simp add: seqM_def)

lemma bindM_returnM [simp]: "bindM (returnM x) f = f x"
  by (simp add: bindM_def fun_eq_iff)

lemma bindM_gets: "bindM (gets f) g s = g (f s) s"
  by (simp add: bindM_def)

lemma bindM_eq_Ret:
  "bindM m f s = Ret y u \<longleftrightarrow> (\<exists>x t. m s = Ret x t \<and> f x t = Ret y u)"
  by (auto simp: bindM_def split: outcome.splits)

lemma seqM_eq_Ret:
  "seqM m n s = Ret y u \<longleftrightarrow> (\<exists>x t. m s = Ret x t \<and> n t = Ret y u)"
  by (simp add: seqM_def bindM_eq_Ret)

text \<open>Congruences for recursion through the monad.\<close>

lemma bindM_cong [fundef_cong]:
  "m s = m' s' \<Longrightarrow> (\<And>x t. m' s' = Ret x t \<Longrightarrow> f x t = f' x t) \<Longrightarrow> bindM m f s = bindM m' f' s'"
  by (auto simp: bindM_def split: outcome.split)

lemma seqM_cong [fundef_cong]:
  "m s = m' s' \<Longrightarrow> (\<And>x t. m' s' = Ret x t \<Longrightarrow> n t = n' t) \<Longrightarrow> seqM m n s = seqM m' n' s'"
  by (auto simp: seqM_def intro: bindM_cong)

lemma if_apply_cong [fundef_cong]:
  "b = b' \<Longrightarrow> s = s' \<Longrightarrow> (b' \<Longrightarrow> m s' = m' s') \<Longrightarrow> (\<not> b' \<Longrightarrow> n s' = n' s')
   \<Longrightarrow> (if b then m else n) s = (if b' then m' else n') s'"
  by simp

subsection \<open>Loops\<close>

text \<open>
  A \<^verbatim>\<open>for\<close> loop over a table runs its body for every index in order; a body that breaks out
  of the loop returns \<open>Some\<close> value.
\<close>

primrec forM :: "'i list \<Rightarrow> ('i \<Rightarrow> ('s, unit) M) \<Rightarrow> ('s, unit) M" where
  "forM [] body = returnM ()"
| "forM (i # is) body = seqM (body i) (forM is body)"

primrec searchM :: "'i list \<Rightarrow> ('i \<Rightarrow> ('s, 'r option) M) \<Rightarrow> ('s, 'r option) M" where
  "searchM [] body = returnM None"
| "searchM (i # is) body =
     bindM (body i) (\<lambda>r. case r of None \<Rightarrow> searchM is body | Some v \<Rightarrow> returnM (Some v))"

lemma forM_append: "forM (xs @ ys) body = seqM (forM xs body) (forM ys body)"
  by (induction xs) (auto simp: fun_eq_iff monad_simps split: outcome.splits)

lemma forM_modify:
  assumes "\<And>i s. i \<in> set xs \<Longrightarrow> P s \<Longrightarrow> body i s = Ret () (f i s) \<and> P (f i s)"
    and "P s"
  shows "forM xs body s = Ret () (fold f xs s) \<and> P (fold f xs s)"
  using assms by (induction xs arbitrary: s) (auto simp: monad_simps)

text \<open>The results of running a routine \<open>n\<close> times in a row.\<close>

primrec repeatM :: "nat \<Rightarrow> ('s, 'a) M \<Rightarrow> ('s, 'a list) M" where
  "repeatM 0 m = returnM []"
| "repeatM (Suc n) m = bindM m (\<lambda>x. bindM (repeatM n m) (\<lambda>xs. returnM (x # xs)))"

subsection \<open>Weakest preconditions\<close>

text \<open>
  \<open>wp m Q s\<close>: started in \<open>s\<close>, the routine \<open>m\<close> returns, and what it returns satisfies
  \<open>Q\<close>. It is total correctness: a panic, an undefined access and a switch all falsify it.
\<close>

definition wp :: "('s, 'a) M \<Rightarrow> ('a \<Rightarrow> 's \<Rightarrow> bool) \<Rightarrow> 's \<Rightarrow> bool" where
  "wp m Q s \<longleftrightarrow> (case m s of Ret x t \<Rightarrow> Q x t | Stop _ _ \<Rightarrow> False)"

named_theorems wp_rules "weakest preconditions of the monad's combinators"

lemma wp_returnM [wp_rules]: "wp (returnM x) Q s = Q x s"
  and wp_gets [wp_rules]: "wp (gets f) Q s = Q (f s) s"
  and wp_modify [wp_rules]: "wp (modify f) Q s = Q () (f s)"
  and wp_panic [wp_rules]: "wp (panic msg) Q s = False"
  and wp_stopM [wp_rules]: "wp (stopM r) Q s = False"
  by (simp_all add: wp_def)

lemma wp_bindM [wp_rules]: "wp (bindM m f) Q s = wp m (\<lambda>x. wp (f x) Q) s"
  by (simp add: wp_def bindM_def split: outcome.splits)

lemma wp_seqM [wp_rules]: "wp (seqM m n) Q s = wp m (\<lambda>_. wp n Q) s"
  by (simp add: seqM_def wp_bindM)

lemma wp_whenM [wp_rules]: "wp (whenM b m) Q s = (if b then wp m Q s else Q () s)"
  by (simp add: wp_def)

lemma wp_if [wp_rules]: "wp (if b then m else n) Q s = (if b then wp m Q s else wp n Q s)"
  by simp

lemma wp_mono: "wp m Q s \<Longrightarrow> (\<And>x t. Q x t \<Longrightarrow> R x t) \<Longrightarrow> wp m R s"
  by (auto simp: wp_def split: outcome.splits)

lemma wp_Ret: "wp m Q s \<Longrightarrow> \<exists>x t. m s = Ret x t \<and> Q x t"
  by (auto simp: wp_def split: outcome.splits)

lemma wpI: "m s = Ret x t \<Longrightarrow> Q x t \<Longrightarrow> wp m Q s"
  by (simp add: wp_def)

lemma wp_conj: "wp m Q s \<Longrightarrow> wp m R s \<Longrightarrow> wp m (\<lambda>x t. Q x t \<and> R x t) s"
  by (auto simp: wp_def split: outcome.splits)

lemma wp_forM:
  assumes "\<And>i s. i \<in> set xs \<Longrightarrow> I s \<Longrightarrow> wp (body i) (\<lambda>_. I) s" and "I s"
  shows "wp (forM xs body) (\<lambda>_. I) s"
  using assms
proof (induction xs arbitrary: s)
  case Nil
  then show ?case by (simp add: wp_def)
next
  case (Cons i xs)
  have "wp (body i) (\<lambda>_. I) s" using Cons.prems by simp
  then show ?case
    using Cons by (auto simp: wp_rules intro: wp_mono)
qed

subsection \<open>Frames\<close>

text \<open>
  \<open>keeps f m\<close>: whenever \<open>m\<close> returns, the part \<open>f\<close> of the state is what it was.
\<close>

definition keeps :: "('s \<Rightarrow> 'b) \<Rightarrow> ('s, 'a) M \<Rightarrow> bool" where
  "keeps f m \<longleftrightarrow> (\<forall>s x t. m s = Ret x t \<longrightarrow> f t = f s)"

named_theorems keeps_rules "frame rules of the monad's combinators"

lemma keepsD: "keeps f m \<Longrightarrow> m s = Ret x t \<Longrightarrow> f t = f s"
  by (simp add: keeps_def)

lemma keeps_returnM [keeps_rules]: "keeps f (returnM x)"
  and keeps_gets [keeps_rules]: "keeps f (gets g)"
  and keeps_stopM [keeps_rules]: "keeps f (stopM r)"
  and keeps_panic [keeps_rules]: "keeps f (panic msg)"
  and keeps_Ret [keeps_rules]: "keeps f (Ret x)"
  and keeps_Stop [keeps_rules]: "keeps f (Stop r)"
  by (simp_all add: keeps_def)

lemma keeps_modify: "(\<And>s. f (g s) = f s) \<Longrightarrow> keeps f (modify g)"
  by (simp add: keeps_def)

lemma keeps_bindM [keeps_rules]: "keeps f m \<Longrightarrow> (\<And>x. keeps f (n x)) \<Longrightarrow> keeps f (bindM m n)"
  by (fastforce simp: keeps_def bindM_eq_Ret)

lemma keeps_seqM [keeps_rules]: "keeps f m \<Longrightarrow> keeps f n \<Longrightarrow> keeps f (seqM m n)"
  by (simp add: seqM_def keeps_bindM)

lemma keeps_if [keeps_rules]:
  "(b \<Longrightarrow> keeps f m) \<Longrightarrow> (\<not> b \<Longrightarrow> keeps f n) \<Longrightarrow> keeps f (if b then m else n)"
  by simp

lemma keeps_whenM [keeps_rules]: "(b \<Longrightarrow> keeps f m) \<Longrightarrow> keeps f (whenM b m)"
  by (simp add: whenM_def keeps_returnM)

lemma keeps_option [keeps_rules]:
  "keeps f m \<Longrightarrow> (\<And>x. keeps f (n x)) \<Longrightarrow> keeps f (case e of None \<Rightarrow> m | Some x \<Rightarrow> n x)"
  by (cases e) simp_all

lemma keeps_forM [keeps_rules]:
  "(\<And>i. i \<in> set xs \<Longrightarrow> keeps f (body i)) \<Longrightarrow> keeps f (forM xs body)"
  by (induction xs) (simp_all add: keeps_rules)

lemma keeps_searchM [keeps_rules]:
  "(\<And>i. i \<in> set xs \<Longrightarrow> keeps f (body i)) \<Longrightarrow> keeps f (searchM xs body)"
proof (induction xs)
  case Nil
  then show ?case by (simp add: keeps_rules)
next
  case (Cons x xs)
  then show ?case by (auto intro!: keeps_rules)
qed

subsection \<open>C integers\<close>

text \<open>
  The C types of \<^verbatim>\<open>kernel/types.h\<close>. A 32-bit \<^verbatim>\<open>int\<close> is an \<open>int\<close> whose arithmetic is wrapped
  into its range where it can leave it.
\<close>

type_synonym u8 = "8 word"
type_synonym u16 = "16 word"
type_synonym u32 = "32 word"
type_synonym u64 = "64 word"

definition s32 :: "int \<Rightarrow> int" where
  "s32 x = (x + 2 ^ 31) mod 2 ^ 32 - 2 ^ 31"

lemma s32_id: "- (2 ^ 31) \<le> x \<Longrightarrow> x < 2 ^ 31 \<Longrightarrow> s32 x = x"
  by (simp add: s32_def)

lemma s32_range: "- (2 ^ 31) \<le> s32 x \<and> s32 x < 2 ^ 31"
proof -
  have "0 \<le> (x + 2 ^ 31) mod 2 ^ 32 \<and> (x + 2 ^ 31) mod 2 ^ 32 < (2 ^ 32 :: int)"
    by (simp only: zero_less_power zero_less_numeral pos_mod_sign pos_mod_bound simp_thms)
  then show ?thesis by (simp add: s32_def)
qed

text \<open>The conversion of an unsigned 64-bit value to \<^verbatim>\<open>int\<close>.\<close>

definition int_of_u64 :: "u64 \<Rightarrow> int" where
  "int_of_u64 w = sint (ucast w :: u32)"

lemma int_of_u64_small:
  assumes "unat w < 2 ^ 31"
  shows "int_of_u64 w = int (unat w)"
proof -
  have l: "uint w < 2 ^ 31"
    using assms by (simp only: unat_eq_nat_uint nat_less_iff uint_nonnegative) simp
  have "uint (ucast w :: u32) = uint w"
    using l by (simp add: unsigned_ucast_eq take_bit_int_eq_self)
  moreover have "int (unat w) = uint w"
    by simp
  moreover have "signed_take_bit 31 (uint w) = uint w"
    using l uint_ge_0 [of w] by (intro signed_take_bit_int_eq_self) linarith+
  ultimately show ?thesis
    by (simp add: int_of_u64_def sint_uint)
qed

end
