(* ===== verification/Machine.thy ===== *)
theory Machine
  imports Prelude
begin

section \<open>The machine: memory, address arithmetic and per-CPU state\<close>

text \<open>
  What the kernel sees of the RISC-V board: byte-addressed physical memory, little-endian
  64-bit accesses to it, the Sv39 address macros of \<^verbatim>\<open>kernel/riscv.h\<close>, the memory layout of
  \<^verbatim>\<open>kernel/memlayout.h\<close>, the interrupt-enable bit of the running hart, \<^verbatim>\<open>struct cpu\<close> of
  \<^verbatim>\<open>kernel/proc.h\<close> and the spin locks (\<^verbatim>\<open>struct spinlock\<close>, one per lock of the kernel).
  The record \<open>mach\<close> is the root of the kernel state; every component extends it with
  its own globals.
\<close>

subsection \<open>State\<close>

type_synonym mem = "u64 \<Rightarrow> u8"

record cpu =
  c_proc :: "nat option"
  noff :: int
  intena :: bool

record spinlock =
  locked :: u32
  lk_name :: string
  lk_cpu :: "nat option"

record mach =
  phys :: mem
  hart :: nat
  sie :: bool
  cpus :: "nat \<Rightarrow> cpu"
  locks :: "lockid \<Rightarrow> spinlock"

subsection \<open>Memory accesses\<close>

definition ld64 :: "mem \<Rightarrow> u64 \<Rightarrow> u64" where
  "ld64 m a = ucast (m a) OR push_bit 8 (ucast (m (a + 1))) OR push_bit 16 (ucast (m (a + 2)))
     OR push_bit 24 (ucast (m (a + 3))) OR push_bit 32 (ucast (m (a + 4)))
     OR push_bit 40 (ucast (m (a + 5))) OR push_bit 48 (ucast (m (a + 6)))
     OR push_bit 56 (ucast (m (a + 7)))"

definition st64 :: "mem \<Rightarrow> u64 \<Rightarrow> u64 \<Rightarrow> mem" where
  "st64 m a v = m(a := ucast v, a + 1 := ucast (drop_bit 8 v), a + 2 := ucast (drop_bit 16 v),
     a + 3 := ucast (drop_bit 24 v), a + 4 := ucast (drop_bit 32 v),
     a + 5 := ucast (drop_bit 40 v), a + 6 := ucast (drop_bit 48 v),
     a + 7 := ucast (drop_bit 56 v))"

subsection \<open>Address macros\<close>

abbreviation (input) PGSIZE :: u64 where "PGSIZE \<equiv> 4096"

definition PGROUNDUP :: "u64 \<Rightarrow> u64" where
  "PGROUNDUP sz = (sz + PGSIZE - 1) AND NOT (PGSIZE - 1)"

definition PGROUNDDOWN :: "u64 \<Rightarrow> u64" where
  "PGROUNDDOWN a = a AND NOT (PGSIZE - 1)"

abbreviation (input) PTE_V :: u64 where "PTE_V \<equiv> 1"
abbreviation (input) PTE_R :: u64 where "PTE_R \<equiv> 2"
abbreviation (input) PTE_W :: u64 where "PTE_W \<equiv> 4"
abbreviation (input) PTE_X :: u64 where "PTE_X \<equiv> 8"
abbreviation (input) PTE_U :: u64 where "PTE_U \<equiv> 16"

definition PA2PTE :: "u64 \<Rightarrow> u64" where
  "PA2PTE pa = push_bit 10 (drop_bit 12 pa)"

definition PTE2PA :: "u64 \<Rightarrow> u64" where
  "PTE2PA pte = push_bit 12 (drop_bit 10 pte)"

definition PTE_FLAGS :: "u64 \<Rightarrow> u64" where
  "PTE_FLAGS pte = pte AND 0x3FF"

definition PX :: "nat \<Rightarrow> u64 \<Rightarrow> u64" where
  "PX level va = drop_bit (12 + 9 * level) va AND 0x1FF"

definition MAXVA :: u64 where
  "MAXVA = push_bit (9 + 9 + 9 + 12 - 1) 1"

subsection \<open>Memory layout\<close>

definition UART0 :: u64 where "UART0 = 0x10000000"
definition VIRTIO0 :: u64 where "VIRTIO0 = 0x10001000"
definition PLIC :: u64 where "PLIC = 0x0c000000"

definition KERNBASE :: u64 where
  "KERNBASE = 0x80000000"

definition PHYSTOP :: u64 where
  "PHYSTOP = KERNBASE + 128 * 1024 * 1024"

definition TRAMPOLINE :: u64 where
  "TRAMPOLINE = MAXVA - PGSIZE"

definition KSTACK :: "nat \<Rightarrow> u64" where
  "KSTACK p = TRAMPOLINE - (of_nat p + 1) * 2 * PGSIZE"

definition TRAPFRAME :: u64 where
  "TRAPFRAME = TRAMPOLINE - PGSIZE"

subsection \<open>Bits of addresses\<close>

text \<open>
  Address arithmetic is reasoned about bitwise: an aligned address has no low bits, so adding
  an offset below the alignment is a disjoint \<open>OR\<close>.
\<close>

definition aligned :: "nat \<Rightarrow> u64 \<Rightarrow> bool" where
  "aligned k a \<longleftrightarrow> (\<forall>n < k. \<not> bit a n)"

abbreviation page_aligned :: "u64 \<Rightarrow> bool" where
  "page_aligned \<equiv> aligned 12"

lemma less_exp_bits:
  assumes "(off :: u64) < 2 ^ k" "bit off n"
  shows "n < k"
proof -
  have "off AND mask k = off" using assms(1) by (rule less_mask_eq)
  then show ?thesis using assms(2) by (metis bit_and_iff bit_mask_iff)
qed

lemma aligned_mod: "aligned k a \<longleftrightarrow> take_bit k a = 0"
proof
  assume "aligned k a"
  then show "take_bit k a = 0"
    by (intro bit_word_eqI) (auto simp: aligned_def bit_take_bit_iff)
next
  assume "take_bit k a = 0"
  then have "\<not> bit (take_bit k a) n" for n by simp
  then show "aligned k a" by (simp add: aligned_def bit_take_bit_iff)
qed

lemma page_aligned_mod: "page_aligned a \<longleftrightarrow> a mod PGSIZE = 0"
  by (simp add: aligned_mod take_bit_eq_mod)

lemma aligned_0 [simp]: "aligned k 0"
  by (simp add: aligned_def)

lemma aligned_mono: "aligned k a \<Longrightarrow> j \<le> k \<Longrightarrow> aligned j a"
  by (auto simp: aligned_def)

lemma aligned_add_or:
  assumes "aligned k a" "off < 2 ^ k"
  shows "a + off = a OR off"
proof (rule disjunctive_add_eq_or)
  show "a AND off = 0"
    using assms less_exp_bits [OF assms(2)]
    by (intro bit_word_eqI) (auto simp: bit_and_iff aligned_def)
qed

lemma aligned_add_bit:
  assumes "aligned k a" "off < 2 ^ k"
  shows "bit (a + off) n \<longleftrightarrow> (if n < k then bit off n else bit a n)"
  using assms less_exp_bits [OF assms(2), of n]
  by (auto simp: aligned_add_or [OF assms] bit_or_iff aligned_def)

lemma aligned_add_inj:
  assumes "aligned k a" "aligned k b" "i < 2 ^ k" "j < 2 ^ k" "a + i = b + j"
  shows "a = b \<and> i = j"
proof -
  have e: "bit (a + i) n = bit (b + j) n" for n using assms(5) by simp
  have "bit a n = bit b n" for n
    using e [of n] assms(1,2)
    by (cases "n < k")
      (auto simp: aligned_add_bit [OF assms(1,3)] aligned_add_bit [OF assms(2,4)] aligned_def)
  then have "a = b" by (simp add: bit_eq_iff)
  then show ?thesis using assms(5) by simp
qed

lemma aligned_add:
  assumes "aligned k a" "aligned k b"
  shows "aligned k (a + b)"
proof -
  have "take_bit k (a + b) = take_bit k (take_bit k a + take_bit k b)"
    by (simp only: take_bit_eq_mask mask_eqs)
  then show ?thesis using assms by (simp add: aligned_mod)
qed

lemma bit_low_ones:
  "bit (511 :: int) n \<longleftrightarrow> n < 9" "bit (1023 :: int) n \<longleftrightarrow> n < 10" "bit (4095 :: int) n \<longleftrightarrow> n < 12"
proof -
  have "bit (mask k :: int) n \<longleftrightarrow> n < k" for k by (simp add: bit_mask_iff)
  from this [of 9] this [of 10] this [of 12]
  show "bit (511 :: int) n \<longleftrightarrow> n < 9" "bit (1023 :: int) n \<longleftrightarrow> n < 10" "bit (4095 :: int) n \<longleftrightarrow> n < 12"
    by (simp_all add: mask_eq_exp_minus_1)
qed

lemma bit_PGROUNDDOWN: "bit (PGROUNDDOWN a) n \<longleftrightarrow> 12 \<le> n \<and> bit a n"
  by (auto simp: PGROUNDDOWN_def bit_simps bit_low_ones dest: bit_imp_le_length)

lemma PGROUNDDOWN_aligned [simp]: "page_aligned (PGROUNDDOWN a)"
  by (simp add: aligned_def bit_PGROUNDDOWN)

lemma PGROUNDDOWN_add:
  assumes "page_aligned a" "off < PGSIZE"
  shows "PGROUNDDOWN (a + off) = a"
proof -
  have o: "off < 2 ^ 12" using assms(2) by simp
  show ?thesis
    using assms(1)
    by (auto intro!: bit_word_eqI
        simp: bit_PGROUNDDOWN aligned_add_bit [OF assms(1) o] aligned_def not_less [symmetric])
qed

lemma PGROUNDDOWN_id [simp]: "page_aligned a \<Longrightarrow> PGROUNDDOWN a = a"
  using PGROUNDDOWN_add [of a 0] by simp

lemma page_offset: "a - PGROUNDDOWN a = take_bit 12 a"
proof -
  have "PGROUNDDOWN a + take_bit 12 a = PGROUNDDOWN a OR take_bit 12 a"
    by (rule disjunctive_add_eq_or) (auto intro!: bit_word_eqI simp: bit_simps bit_PGROUNDDOWN)
  also have "\<dots> = a" by (auto intro!: bit_word_eqI simp: bit_simps bit_PGROUNDDOWN)
  finally show ?thesis by (metis add_diff_cancel_left')
qed

lemma page_offset_less: "a - PGROUNDDOWN a < PGSIZE"
  by (simp add: page_offset take_bit_eq_mod word_mod_less_divisor)

lemma PGROUNDUP_down: "PGROUNDUP sz = PGROUNDDOWN (sz + 4095)"
proof -
  have "sz + PGSIZE - 1 = sz + 4095" by (simp add: algebra_simps)
  then show ?thesis by (simp only: PGROUNDUP_def PGROUNDDOWN_def)
qed

lemma PGROUNDUP_aligned [simp]: "page_aligned (PGROUNDUP sz)"
  by (simp add: PGROUNDUP_down)

text \<open>The same facts in terms of the numbers the addresses stand for.\<close>

lemma page_aligned_unat: "page_aligned a \<longleftrightarrow> unat a mod 4096 = 0"
  by (simp add: page_aligned_mod unat_mod_distrib word_unat_eq_iff)

lemma unat_PGROUNDDOWN: "unat (PGROUNDDOWN a) = unat a - unat a mod 4096"
proof -
  have "take_bit 12 a = a mod 4096" by (simp add: take_bit_eq_mod)
  then have e: "PGROUNDDOWN a = a - a mod 4096" using page_offset [of a] by (simp add: algebra_simps)
  have "unat (a mod 4096) = unat a mod 4096" by (simp add: unat_mod_distrib)
  moreover from this have "a mod 4096 \<le> a" by (simp add: word_le_nat_alt)
  ultimately show ?thesis by (simp add: e unat_sub)
qed

lemma unat_PGROUNDUP:
  "unat a + 4095 < 2 ^ 64 \<Longrightarrow> unat (PGROUNDUP a) = (unat a + 4095) div 4096 * 4096"
  by (simp add: PGROUNDUP_down unat_PGROUNDDOWN unat_word_ariths minus_mod_eq_div_mult [symmetric])

lemma round_up_bounds:
  fixes e x :: nat
  shows "e \<le> (e + 4095) div 4096 * 4096"
    and "x mod 4096 = 0 \<Longrightarrow> e \<le> x \<Longrightarrow> (e + 4095) div 4096 * 4096 \<le> x"
proof -
  define q r where "q = (e + 4095) div 4096" and "r = (e + 4095) mod 4096"
  then have d: "e + 4095 = q * 4096 + r" and l: "r < 4096"
    by (simp_all only: div_mult_mod_eq zero_less_numeral mod_less_divisor)
  have "e \<le> q * 4096" using d l by linarith
  then show "e \<le> (e + 4095) div 4096 * 4096" by (simp only: q_def)
  assume "x mod 4096 = 0" "e \<le> x"
  then obtain y where y: "x = y * 4096" by (metis mod_0_imp_dvd dvd_def mult.commute)
  then have "q * 4096 \<le> x" using d \<open>e \<le> x\<close> by simp
  then show "(e + 4095) div 4096 * 4096 \<le> x" by (simp only: q_def)
qed

lemma PGROUNDUP_bounds:
  assumes "unat a + 4095 < 2 ^ 64"
  shows "a \<le> PGROUNDUP a" "page_aligned x \<Longrightarrow> a \<le> x \<Longrightarrow> PGROUNDUP a \<le> x"
  using round_up_bounds(1) [of "unat a"] round_up_bounds(2) [of "unat x" "unat a"]
  by (simp_all add: word_le_nat_alt unat_PGROUNDUP [OF assms] page_aligned_unat)

subsection \<open>Little-endian accesses\<close>

lemma bytes_join:
  "ucast (ucast v :: u8) OR push_bit 8 (ucast (ucast (drop_bit 8 v) :: u8))
   OR push_bit 16 (ucast (ucast (drop_bit 16 v) :: u8))
   OR push_bit 24 (ucast (ucast (drop_bit 24 v) :: u8))
   OR push_bit 32 (ucast (ucast (drop_bit 32 v) :: u8))
   OR push_bit 40 (ucast (ucast (drop_bit 40 v) :: u8))
   OR push_bit 48 (ucast (ucast (drop_bit 48 v) :: u8))
   OR push_bit 56 (ucast (ucast (drop_bit 56 v) :: u8)) = (v :: u64)" (is "?l = v")
proof (rule bit_word_eqI)
  fix n assume "n < LENGTH(64)"
  then consider "n < 8" | "8 \<le> n" "n < 16" | "16 \<le> n" "n < 24" | "24 \<le> n" "n < 32"
    | "32 \<le> n" "n < 40" | "40 \<le> n" "n < 48" | "48 \<le> n" "n < 56" | "56 \<le> n" "n < 64"
    by force
  then show "bit ?l n = bit v n"
    by cases (auto simp: bit_simps less_diff_conv2)
qed

lemma ld64_st64_same [simp]: "ld64 (st64 m a v) a = v"
  by (simp add: ld64_def st64_def bytes_join)

lemma st64_other: "\<not> x - a < 8 \<Longrightarrow> st64 m a v x = m x"
  by (auto simp: st64_def)

lemma ld64_cong:
  assumes "\<And>k. k < 8 \<Longrightarrow> m (a + k) = m' (a + k)"
  shows "ld64 m a = ld64 m' a"
  using assms [of 0] by (simp add: ld64_def assms)

lemma ld64_st64_aligned:
  assumes "aligned 3 a" "aligned 3 b" "a \<noteq> b"
  shows "ld64 (st64 m a v) b = ld64 m b"
proof (rule ld64_cong)
  fix k :: u64 assume k: "k < 8"
  have "\<not> (b + k) - a < 8"
  proof
    assume "(b + k) - a < 8"
    then have "(b + k) - a < 2 ^ 3" and "k < 2 ^ 3" using k by simp_all
    moreover have "a + ((b + k) - a) = b + k" by simp
    ultimately have "a = b"
      using aligned_add_inj [OF assms(1,2)] by blast
    then show False using assms(3) by blast
  qed
  then show "st64 m a v (b + k) = m (b + k)" by (rule st64_other)
qed

subsection \<open>Page-table entries and virtual addresses\<close>

lemma MAXVA_val: "MAXVA = 0x4000000000"
  by (simp add: MAXVA_def)

lemma PHYSTOP_val: "PHYSTOP = 0x88000000"
  by (simp add: PHYSTOP_def KERNBASE_def)

lemma TRAMPOLINE_val: "TRAMPOLINE = 0x3FFFFFF000"
  by (simp add: TRAMPOLINE_def MAXVA_val)

lemma bit_PA2PTE: "bit (PA2PTE pa) n \<longleftrightarrow> n < 64 \<and> 10 \<le> n \<and> bit pa (n + 2)"
  by (auto simp: PA2PTE_def bit_simps)

lemma bit_PTE2PA: "bit (PTE2PA pte) n \<longleftrightarrow> n < 64 \<and> 12 \<le> n \<and> bit pte (n - 2)"
  by (auto simp: PTE2PA_def bit_simps)

lemma PTE2PA_aligned [simp]: "page_aligned (PTE2PA pte)"
  by (simp add: aligned_def bit_PTE2PA)

lemma PX_less: "PX l va < 512"
proof -
  have "PX l va = drop_bit (12 + 9 * l) va AND mask 9"
    by (simp add: PX_def mask_eq_exp_minus_1)
  then show ?thesis using and_mask_less' [of 9 "drop_bit (12 + 9 * l) va"] by simp
qed

lemma bit_PX: "bit (PX l va) n \<longleftrightarrow> n < 9 \<and> bit va (12 + 9 * l + n)"
  by (auto simp: PX_def bit_simps bit_low_ones)

text \<open>
  A page-table entry built from a physical page and flag bits gives both back.
\<close>

lemma PTE2PA_PA2PTE:
  assumes "page_aligned pa" "pa < 2 ^ 56" "fl < 2 ^ 10"
  shows "PTE2PA (PA2PTE pa OR fl) = pa"
proof (rule bit_word_eqI)
  fix n assume n: "n < LENGTH(64)"
  show "bit (PTE2PA (PA2PTE pa OR fl)) n = bit pa n"
  proof (cases "n < 12")
    case True
    then show ?thesis using assms(1) by (simp add: bit_PTE2PA aligned_def)
  next
    case False
    then have "Suc (Suc (n - 2)) = n" and "\<not> bit fl (n - 2)"
      using less_exp_bits [OF assms(3), of "n - 2"] by linarith+
    then show ?thesis
      using False n by (auto simp: bit_PTE2PA bit_PA2PTE bit_or_iff)
  qed
qed

lemma PTE_FLAGS_PA2PTE:
  assumes "fl < 2 ^ 10"
  shows "PTE_FLAGS (PA2PTE pa OR fl) = fl"
proof (rule bit_word_eqI)
  fix n assume "n < LENGTH(64)"
  then show "bit (PTE_FLAGS (PA2PTE pa OR fl)) n = bit fl n"
    using less_exp_bits [OF assms, of n]
    by (auto simp: PTE_FLAGS_def bit_and_iff bit_low_ones bit_PA2PTE bit_or_iff)
qed

text \<open>
  The three 9-bit indices determine the page of an address below \<open>MAXVA\<close>.
\<close>

lemma PX_inj:
  assumes "va < MAXVA" "wa < MAXVA" "\<And>l. l < 3 \<Longrightarrow> PX l va = PX l wa"
  shows "PGROUNDDOWN va = PGROUNDDOWN wa"
proof (rule bit_word_eqI)
  fix n assume n: "n < LENGTH(64)"
  have v: "va < 2 ^ 38" "wa < 2 ^ 38" using assms(1,2) by (simp_all add: MAXVA_val)
  have e: "l < 3 \<Longrightarrow> i < 9 \<Longrightarrow> bit va (12 + 9 * l + i) = bit wa (12 + 9 * l + i)" for l i
    using bit_PX [of l va i] bit_PX [of l wa i] assms(3) [of l] by simp
  show "bit (PGROUNDDOWN va) n = bit (PGROUNDDOWN wa) n"
  proof (cases "12 \<le> n \<and> n < 39")
    case True
    then have "(n - 12) div 9 < 3" and "12 + 9 * ((n - 12) div 9) + (n - 12) mod 9 = n"
      by arith+
    then have "bit va n = bit wa n"
      using e [of "(n - 12) div 9" "(n - 12) mod 9"] by simp
    then show ?thesis by (simp add: bit_PGROUNDDOWN)
  next
    case False
    then show ?thesis
      using less_exp_bits [OF v(1), of n] less_exp_bits [OF v(2), of n]
      by (auto simp: bit_PGROUNDDOWN)
  qed
qed

end
