(* ===== verification/CString.thy ===== *)
theory CString
  imports Machine
begin

section \<open>Memory and string primitives (kernel/string.c)\<close>

text \<open>
  The byte loops of \<^verbatim>\<open>kernel/string.c\<close> on physical memory. Each is the loop of the source; the
  lemmas give what the loop computes: \<^verbatim>\<open>memset\<close> fills, \<^verbatim>\<open>memmove\<close> copies also when source and
  destination overlap, \<^verbatim>\<open>strncpy\<close> and \<^verbatim>\<open>safestrcpy\<close> stay inside their bound.
\<close>

subsection \<open>Definitions\<close>

primrec memset_from :: "nat \<Rightarrow> u64 \<Rightarrow> u8 \<Rightarrow> mem \<Rightarrow> mem" where
  "memset_from 0 dst c m = m"
| "memset_from (Suc n) dst c m = memset_from n (dst + 1) c (m(dst := c))"

definition memset :: "u64 \<Rightarrow> u8 \<Rightarrow> nat \<Rightarrow> mem \<Rightarrow> mem" where
  "memset dst c n m = memset_from n dst c m"

primrec memcmp_at :: "nat \<Rightarrow> u64 \<Rightarrow> u64 \<Rightarrow> mem \<Rightarrow> int" where
  "memcmp_at 0 s1 s2 m = 0"
| "memcmp_at (Suc n) s1 s2 m =
     (if m s1 \<noteq> m s2 then uint (m s1) - uint (m s2) else memcmp_at n (s1 + 1) (s2 + 1) m)"

definition memcmp :: "u64 \<Rightarrow> u64 \<Rightarrow> nat \<Rightarrow> mem \<Rightarrow> int" where
  "memcmp v1 v2 n m = memcmp_at n v1 v2 m"

primrec copy_up :: "nat \<Rightarrow> u64 \<Rightarrow> u64 \<Rightarrow> mem \<Rightarrow> mem" where
  "copy_up 0 d s m = m"
| "copy_up (Suc n) d s m = copy_up n (d + 1) (s + 1) (m(d := m s))"

primrec copy_down :: "nat \<Rightarrow> u64 \<Rightarrow> u64 \<Rightarrow> mem \<Rightarrow> mem" where
  "copy_down 0 d s m = m"
| "copy_down (Suc n) d s m = copy_down n (d - 1) (s - 1) (m(d - 1 := m (s - 1)))"

definition memmove :: "u64 \<Rightarrow> u64 \<Rightarrow> nat \<Rightarrow> mem \<Rightarrow> mem" where
  "memmove dst src n m =
     (if n = 0 then m
      else if src < dst \<and> src + of_nat n > dst
      then copy_down n (dst + of_nat n) (src + of_nat n) m
      else copy_up n dst src m)"

definition memcpy :: "u64 \<Rightarrow> u64 \<Rightarrow> nat \<Rightarrow> mem \<Rightarrow> mem" where
  "memcpy dst src n m = memmove dst src n m"

primrec strncmp :: "nat \<Rightarrow> u64 \<Rightarrow> u64 \<Rightarrow> mem \<Rightarrow> int" where
  "strncmp 0 p q m = 0"
| "strncmp (Suc n) p q m =
     (if m p \<noteq> 0 \<and> m p = m q then strncmp n (p + 1) (q + 1) m
      else uint (m p) - uint (m q))"

primrec strncpy_pad :: "nat \<Rightarrow> u64 \<Rightarrow> mem \<Rightarrow> mem" where
  "strncpy_pad 0 s m = m"
| "strncpy_pad (Suc n) s m = strncpy_pad n (s + 1) (m(s := 0))"

primrec strncpy :: "nat \<Rightarrow> u64 \<Rightarrow> u64 \<Rightarrow> mem \<Rightarrow> mem" where
  "strncpy 0 s t m = m"
| "strncpy (Suc n) s t m =
     (let c = m t; m' = m(s := c) in
      if c \<noteq> 0 then strncpy n (s + 1) (t + 1) m' else strncpy_pad n (s + 1) m')"

primrec safestrcpy_from :: "nat \<Rightarrow> u64 \<Rightarrow> u64 \<Rightarrow> mem \<Rightarrow> mem" where
  "safestrcpy_from 0 s t m = m(s := 0)"
| "safestrcpy_from (Suc n) s t m =
     (let c = m t; m' = m(s := c) in
      if c \<noteq> 0 then safestrcpy_from n (s + 1) (t + 1) m' else m'(s + 1 := 0))"

definition safestrcpy :: "u64 \<Rightarrow> u64 \<Rightarrow> int \<Rightarrow> mem \<Rightarrow> mem" where
  "safestrcpy s t n m = (if n \<le> 0 then m else safestrcpy_from (nat (n - 1)) s t m)"

partial_function (option) strlen_from :: "mem \<Rightarrow> u64 \<Rightarrow> nat \<Rightarrow> nat option" where
  "strlen_from m s n = (if m (s + of_nat n) = 0 then Some n else strlen_from m s (Suc n))"

definition strlen :: "u64 \<Rightarrow> mem \<Rightarrow> nat option" where
  "strlen s m = strlen_from m s 0"

subsection \<open>Filling\<close>

lemma of_nat_less_u64: "n < 2 ^ 64 \<Longrightarrow> (x :: u64) < of_nat n \<longleftrightarrow> unat x < n"
  by (simp add: word_less_nat_alt unat_of_nat)

lemma unat_minus_1: "(x :: u64) \<noteq> 0 \<Longrightarrow> unat (x - 1) = unat x - 1"
  by (simp add: unat_gt_0 unat_minus_one)

lemma memset_from_fill:
  "n \<le> 2 ^ 63 \<Longrightarrow> memset_from n dst c m = (\<lambda>a. if unat (a - dst) < n then c else m a)"
proof (induction n arbitrary: dst m)
  case 0
  then show ?case by simp
next
  case (Suc n)
  have "(if unat (a - (dst + 1)) < n then c else (m(dst := c)) a)
      = (if unat (a - dst) < Suc n then c else m a)" for a
  proof (cases "a = dst")
    case True
    then show ?thesis by simp
  next
    case False
    then have "a - dst \<noteq> 0" by simp
    then have "unat (a - (dst + 1)) = unat (a - dst) - 1" and "0 < unat (a - dst)"
      using unat_minus_1 [of "a - dst"] by (simp_all add: diff_diff_eq unat_gt_0)
    then show ?thesis using False by auto
  qed
  then show ?case using Suc by simp
qed

lemma memset_fill:
  "n \<le> 2 ^ 63 \<Longrightarrow> memset dst c n m = (\<lambda>a. if unat (a - dst) < n then c else m a)"
  by (simp add: memset_def memset_from_fill)

subsection \<open>Copying\<close>

definition block_copy :: "nat \<Rightarrow> u64 \<Rightarrow> u64 \<Rightarrow> mem \<Rightarrow> mem" where
  "block_copy n d s m = (\<lambda>a. if unat (a - d) < n then m (s + (a - d)) else m a)"

lemma copy_up_block:
  assumes "n \<le> 2 ^ 63" "d = s \<or> n \<le> unat (d - s)"
  shows "copy_up n d s m = block_copy n d s m"
  using assms
proof (induction n arbitrary: d s m)
  case 0
  then show ?case by (simp add: block_copy_def)
next
  case (Suc n)
  have "copy_up n (d + 1) (s + 1) (m(d := m s)) = block_copy n (d + 1) (s + 1) (m(d := m s))"
    using Suc.prems by (intro Suc.IH) auto
  also have "\<dots> = block_copy (Suc n) d s m"
  proof
    fix a
    define x where "x = a - d"
    then have a: "a = d + x" by simp
    show "block_copy n (d + 1) (s + 1) (m(d := m s)) a = block_copy (Suc n) d s m a"
    proof (cases "x = 0")
      case True
      have "unat (x - 1) = 2 ^ 64 - 1"
        using True by (simp add: unsigned_minus_1_eq_mask mask_eq_exp_minus_1)
      then show ?thesis using True Suc.prems(1) a by (simp add: block_copy_def)
    next
      case False
      then have u: "unat (x - 1) = unat x - 1" and g: "0 < unat x"
        using unat_minus_1 [of x] by (simp_all add: unat_gt_0)
      have "m s = m d" if "s + x = d" "unat x < Suc n"
        using that Suc.prems(2) by auto
      then show ?thesis
        using False u g a by (auto simp: block_copy_def simp del: One_nat_def)
    qed
  qed
  finally show ?case by simp
qed

lemma copy_down_block:
  assumes "n \<le> 2 ^ 63" "d = s \<or> n \<le> unat (s - d)"
  shows "copy_down n (d + of_nat n) (s + of_nat n) m = block_copy n d s m"
  using assms
proof (induction n arbitrary: m)
  case 0
  then show ?case by (simp add: block_copy_def)
next
  case (Suc n)
  let ?m = "m(d + of_nat n := m (s + of_nat n))"
  have lt: "Suc n < 2 ^ 64" using Suc.prems(1) by simp
  have "copy_down (Suc n) (d + of_nat (Suc n)) (s + of_nat (Suc n)) m
      = copy_down n (d + of_nat n) (s + of_nat n) ?m"
    by (simp add: algebra_simps)
  also have "\<dots> = block_copy n d s ?m"
    using Suc.prems by (intro Suc.IH) auto
  also have "\<dots> = block_copy (Suc n) d s m"
  proof
    fix a
    define x where "x = a - d"
    then have a: "a = d + x" by simp
    have n: "unat (of_nat n :: u64) = n" using lt by (simp add: unat_of_nat)
    show "block_copy n d s ?m a = block_copy (Suc n) d s m a"
    proof (cases "x = of_nat n")
      case True
      then show ?thesis using n a by (simp add: block_copy_def)
    next
      case False
      then have ne: "unat x \<noteq> n" by (metis n word_unat_eq_iff)
      have "m (s + of_nat n) = m (d + of_nat n)"
        if e: "s + x = d + of_nat n" and l: "unat x < n"
      proof -
        have y: "of_nat n = (s - d) + x" using e by (simp add: algebra_simps)
        have "n = (unat (s - d) + unat x) mod 2 ^ 64"
          using n unfolding y unat_word_ariths(1) by simp
        moreover have "unat (s - d) < 2 ^ 64" using unsigned_less [of "s - d"] by simp
        ultimately have "\<not> Suc n \<le> unat (s - d)"
          using l lt by (cases "unat (s - d) + unat x < 2 ^ 64") (auto simp: le_mod_geq)
        then have "d = s" using Suc.prems(2) by simp
        then show ?thesis by simp
      qed
      then show ?thesis
        using False ne a by (auto simp: block_copy_def)
    qed
  qed
  finally show ?case .
qed

lemma memmove_block:
  assumes "n \<le> 2 ^ 63" "unat src + n < 2 ^ 64" "unat dst + n \<le> 2 ^ 64"
  shows "memmove dst src n m = block_copy n dst src m"
proof (cases "src < dst \<and> src + of_nat n > dst")
  case True
  have "unat (src - dst) = 2 ^ 64 + unat src - unat dst"
    using True by (simp add: unat_sub_if' word_less_nat_alt)
  then have "n \<le> unat (src - dst)" using assms(3) by simp
  then show ?thesis
    using True assms(1) copy_down_block [of n dst src m]
    by (auto simp: memmove_def block_copy_def)
next
  case False
  have "dst = src \<or> n \<le> unat (dst - src)"
  proof (cases "src < dst")
    case True
    have n: "unat (of_nat n :: u64) = n" using assms(1) by (simp add: unat_of_nat)
    have "unat (src + of_nat n) = unat src + n"
      using assms(2) by (simp add: unat_word_ariths n)
    moreover have "unat (dst - src) = unat dst - unat src"
      using True by (simp add: unat_sub word_less_nat_alt word_le_nat_alt)
    ultimately show ?thesis using False True by (auto simp: word_less_nat_alt)
  next
    case ge: False
    then have "dst \<noteq> src \<Longrightarrow> unat (dst - src) = 2 ^ 64 + unat dst - unat src"
      by (auto simp: unat_sub_if' word_less_nat_alt word_le_nat_alt word_unat_eq_iff)
    then show ?thesis using assms(2) by (cases "dst = src") simp_all
  qed
  then show ?thesis
    using False assms(1) copy_up_block [of n dst src m]
    by (auto simp: memmove_def block_copy_def)
qed

text \<open>
  C15: \<^verbatim>\<open>memmove\<close> copies the \<^term>\<open>n\<close> source bytes as they were before the call, however source
  and destination overlap, and leaves every other byte alone, for ranges that do not wrap around the
  address space.
\<close>

theorem memmove_copies:
  assumes "n \<le> 2 ^ 63" "unat src + n < 2 ^ 64" "unat dst + n \<le> 2 ^ 64"
  shows "memmove dst src n m a = (if unat (a - dst) < n then m (src + (a - dst)) else m a)"
  by (simp add: memmove_block [OF assms] block_copy_def)

theorem memmove_copies_witness:
  "memmove 0x1002 0x1000 4 (\<lambda>a. ucast a) 0x1005 = 3
   \<and> memmove 0x1002 0x1000 4 (\<lambda>a. ucast a) 0x1006 = 6"
  using memmove_copies [of 4 "0x1000" "0x1002" "\<lambda>a. ucast a" "0x1005"]
    memmove_copies [of 4 "0x1000" "0x1002" "\<lambda>a. ucast a" "0x1006"]
  by simp

subsection \<open>Strings\<close>

text \<open>\<open>c_string m t k\<close>: the first NUL at or after \<^term>\<open>t\<close> is \<^term>\<open>k\<close> bytes on.\<close>

definition c_string :: "mem \<Rightarrow> u64 \<Rightarrow> nat \<Rightarrow> bool" where
  "c_string m t k \<longleftrightarrow> m (t + of_nat k) = 0 \<and> (\<forall>i<k. m (t + of_nat i) \<noteq> 0)"

lemma strlen_from_c_string:
  "m (s + of_nat k) = 0 \<Longrightarrow> (\<And>i. n \<le> i \<Longrightarrow> i < k \<Longrightarrow> m (s + of_nat i) \<noteq> 0) \<Longrightarrow> n \<le> k
     \<Longrightarrow> strlen_from m s n = Some k"
proof (induction "k - n" arbitrary: n)
  case 0
  then show ?case by (simp add: strlen_from.simps)
next
  case (Suc d)
  then have "m (s + of_nat n) \<noteq> 0" by simp
  moreover have "strlen_from m s (Suc n) = Some k"
    using Suc by (intro Suc.hyps(1)) auto
  ultimately show ?case by (subst strlen_from.simps) simp
qed

lemma strlen_c_string: "c_string m s k \<Longrightarrow> strlen s m = Some k"
  by (auto simp: strlen_def c_string_def intro: strlen_from_c_string)

lemma safestrcpy_from_frame:
  "n < 2 ^ 63 \<Longrightarrow> n < unat (a - s) \<Longrightarrow> safestrcpy_from n s t m a = m a"
proof (induction n arbitrary: s t m)
  case 0
  then show ?case by auto
next
  case (Suc n)
  define x where "x = a - s"
  have a: "a = s + x" by (simp add: x_def)
  have x: "Suc n < unat x" using Suc.prems(2) by (simp add: x_def)
  then have "x \<noteq> 0" "x \<noteq> 1" by auto
  moreover have "unat (x - 1) = unat x - 1" using \<open>x \<noteq> 0\<close> by (rule unat_minus_1)
  moreover have "safestrcpy_from n (s + 1) (t + 1) (m(s := m t)) a = (m(s := m t)) a"
    using Suc.prems(1) x a \<open>unat (x - 1) = _\<close> by (intro Suc.IH) auto
  ultimately show ?case using a by (simp add: Let_def)
qed

lemma safestrcpy_from_copies:
  assumes "n < 2 ^ 63" "k \<le> n" "\<forall>i<k. m (t + of_nat i) \<noteq> 0" "k = n \<or> m (t + of_nat k) = 0"
    and "\<forall>i\<le>k. n < unat (t + of_nat i - s)"
  shows "safestrcpy_from n s t m (s + of_nat k) = 0
    \<and> (\<forall>i<k. safestrcpy_from n s t m (s + of_nat i) = m (t + of_nat i))"
  using assms
proof (induction n arbitrary: s t m k)
  case 0
  then show ?case by simp
next
  case (Suc n)
  show ?case
  proof (cases k)
    case 0
    then show ?thesis using Suc.prems by (simp add: Let_def)
  next
    case k: (Suc j)
    let ?m = "m(s := m t)"
    have ne: "t + of_nat i \<noteq> s" if "i \<le> k" for i using Suc.prems(5) that by auto
    have same: "?m (t + 1 + of_nat i) = m (t + of_nat (Suc i))" if "i \<le> j" for i
      using ne [of "Suc i"] k that by (simp add: ac_simps)
    have dist: "Suc n < unat (t + 1 + of_nat i - (s + 1))" if "i \<le> j" for i
    proof -
      have "Suc n < unat (t + of_nat i - s)" using Suc.prems(5) k that by auto
      moreover have "t + 1 + of_nat i - (s + 1) = t + of_nat i - s" by simp
      ultimately show ?thesis by (simp only:)
    qed
    have IH: "safestrcpy_from n (s + 1) (t + 1) ?m (s + 1 + of_nat j) = 0
      \<and> (\<forall>i<j. safestrcpy_from n (s + 1) (t + 1) ?m (s + 1 + of_nat i) = ?m (t + 1 + of_nat i))"
    proof (intro Suc.IH)
      show "\<forall>i<j. ?m (t + 1 + of_nat i) \<noteq> 0"
        using same Suc.prems(3) k by (metis Suc_less_eq less_imp_le_nat)
      show "j = n \<or> ?m (t + 1 + of_nat j) = 0"
        using same [of j] Suc.prems(4) k by (simp only: nat.inject le_refl simp_thms)
    qed (use Suc.prems k Suc_lessD [OF dist] in auto)
    have "safestrcpy_from n (s + 1) (t + 1) ?m s = m t"
      using safestrcpy_from_frame [of n s "s + 1" "t + 1" ?m] Suc.prems(1)
      by (simp add: unsigned_minus_1_eq_mask mask_eq_exp_minus_1)
    then show ?thesis
      using IH Suc.prems(3) k same by (auto simp: Let_def less_Suc_eq_0_disj ac_simps)
  qed
qed

text \<open>
  \<^verbatim>\<open>safestrcpy\<close> always leaves a NUL-terminated string: with a C string of length \<^term>\<open>k\<close> at
  \<^term>\<open>t\<close> (or a longer one, cut at \<^term>\<open>n - 1\<close> bytes) that the destination does not overlap, the
  destination holds the first \<^term>\<open>k\<close> bytes followed by a NUL, and no byte outside
  the \<^term>\<open>n\<close>-byte buffer changes.
\<close>

theorem safestrcpy_terminates:
  assumes "0 < n" "n < 2 ^ 31" "k < nat n"
    and "\<forall>i<k. m (t + of_nat i) \<noteq> 0" "k = nat n - 1 \<or> m (t + of_nat k) = 0"
    and "\<forall>i\<le>k. nat n \<le> unat (t + of_nat i - s)"
  shows "strlen s (safestrcpy s t n m) = Some k
    \<and> (\<forall>i<k. safestrcpy s t n m (s + of_nat i) = m (t + of_nat i))
    \<and> (\<forall>a. nat n \<le> unat (a - s) \<longrightarrow> safestrcpy s t n m a = m a)"
proof -
  have e: "safestrcpy s t n m = safestrcpy_from (nat n - 1) s t m"
    using assms(1) by (simp add: safestrcpy_def nat_diff_distrib)
  have n: "nat n - 1 < 2 ^ 63" "Suc (nat n - 1) = nat n" using assms(1,2) by simp_all
  have c: "safestrcpy s t n m (s + of_nat k) = 0
    \<and> (\<forall>i<k. safestrcpy s t n m (s + of_nat i) = m (t + of_nat i))"
    unfolding e using assms n by (intro safestrcpy_from_copies) (auto simp: Suc_le_eq [symmetric])
  then have "c_string (safestrcpy s t n m) s k"
    using assms(4) by (simp add: c_string_def)
  moreover have "safestrcpy s t n m a = m a" if "nat n \<le> unat (a - s)" for a
    unfolding e using that n by (intro safestrcpy_from_frame) simp_all
  ultimately show ?thesis using c strlen_c_string by blast
qed

definition str_mem :: mem where
  "str_mem = (\<lambda>a. if a = 0x2000 then 0x73 else if a = 0x2001 then 0x68 else 0)"

theorem safestrcpy_terminates_witness:
  "strlen 0x1000 (safestrcpy 0x1000 0x2000 16 str_mem) = Some 2"
proof -
  have "\<forall>i<2. str_mem (0x2000 + of_nat i) \<noteq> 0"
    by (auto simp: str_mem_def less_2_cases_iff)
  moreover have "str_mem (0x2000 + of_nat 2) = 0"
    by (simp add: str_mem_def)
  moreover have "\<forall>i\<le>2. nat 16 \<le> unat (0x2000 + of_nat i - 0x1000 :: u64)"
  proof (intro allI impI)
    fix i :: nat
    assume "i \<le> 2"
    then consider "i = 0" | "i = 1" | "i = 2" by linarith
    then show "nat 16 \<le> unat (0x2000 + of_nat i - 0x1000 :: u64)" by cases simp_all
  qed
  ultimately show ?thesis
    using safestrcpy_terminates [of 16 2 str_mem "0x2000" "0x1000"] by simp
qed

end
