(* ===== verification/Spinlock.thy ===== *)
theory Spinlock
  imports Machine
begin

section \<open>Spin locks and interrupt nesting (kernel/spinlock.c)\<close>

text \<open>
  \<^verbatim>\<open>push_off\<close>/\<^verbatim>\<open>pop_off\<close>, \<^verbatim>\<open>holding\<close>, \<^verbatim>\<open>acquire\<close> and \<^verbatim>\<open>release\<close>, first as the routines one
  hart runs (the atomic swap of a lock held by somebody else is a \<open>Spin\<close>), then as the
  micro-steps of many harts on one lock, for which mutual exclusion is proved. The lemmas
  about an acquire on a free lock and the release that ends the critical section are what
  the other components use to step over their locks.
\<close>

subsection \<open>Definitions\<close>

definition intr_on :: "('z mach_scheme, unit) M" where
  "intr_on = modify (\<lambda>s. s\<lparr>sie := True\<rparr>)"

definition intr_off :: "('z mach_scheme, unit) M" where
  "intr_off = modify (\<lambda>s. s\<lparr>sie := False\<rparr>)"

definition intr_get :: "('z mach_scheme, bool) M" where
  "intr_get = gets sie"

definition cpuid :: "'z mach_scheme \<Rightarrow> nat" where
  "cpuid s = hart s"

definition mycpu :: "'z mach_scheme \<Rightarrow> cpu" where
  "mycpu s = cpus s (cpuid s)"

definition set_mycpu :: "(cpu \<Rightarrow> cpu) \<Rightarrow> ('z mach_scheme, unit) M" where
  "set_mycpu f = modify (\<lambda>s. s\<lparr>cpus := (cpus s)(cpuid s := f (mycpu s))\<rparr>)"

definition set_lock :: "lockid \<Rightarrow> (spinlock \<Rightarrow> spinlock) \<Rightarrow> ('z mach_scheme, unit) M" where
  "set_lock lk f = modify (\<lambda>s. s\<lparr>locks := (locks s)(lk := f (locks s lk))\<rparr>)"

definition push_off :: "('z mach_scheme, unit) M" where
  "push_off =
     bindM intr_get (\<lambda>old.
     seqM intr_off (
     bindM (gets mycpu) (\<lambda>c.
     seqM (whenM (noff c = 0) (set_mycpu (\<lambda>c. c\<lparr>intena := old\<rparr>)))
          (set_mycpu (\<lambda>c. c\<lparr>noff := noff c + 1\<rparr>)))))"

definition pop_off :: "('z mach_scheme, unit) M" where
  "pop_off =
     bindM intr_get (\<lambda>on.
     if on then panic ''pop_off - interruptible'' else
     bindM (gets mycpu) (\<lambda>c.
     if noff c < 1 then panic ''pop_off'' else
     seqM (set_mycpu (\<lambda>c. c\<lparr>noff := noff c - 1\<rparr>)) (
     bindM (gets mycpu) (\<lambda>c.
     whenM (noff c = 0 \<and> intena c) intr_on))))"

definition initlock :: "lockid \<Rightarrow> string \<Rightarrow> ('z mach_scheme, unit) M" where
  "initlock lk nm = set_lock lk (\<lambda>l. l\<lparr>lk_name := nm, locked := 0, lk_cpu := None\<rparr>)"

definition holding :: "lockid \<Rightarrow> 'z mach_scheme \<Rightarrow> bool" where
  "holding lk s \<longleftrightarrow> locked (locks s lk) \<noteq> 0 \<and> lk_cpu (locks s lk) = Some (cpuid s)"

definition acquire :: "lockid \<Rightarrow> ('z mach_scheme, unit) M" where
  "acquire lk =
     seqM push_off (
     bindM (gets (holding lk)) (\<lambda>h.
     if h then panic ''acquire'' else
     bindM (gets (\<lambda>s. locked (locks s lk))) (\<lambda>old.
     seqM (set_lock lk (\<lambda>l. l\<lparr>locked := 1\<rparr>)) (
     if old \<noteq> 0 then stopM (Spin lk) else
     bindM (gets cpuid) (\<lambda>me. set_lock lk (\<lambda>l. l\<lparr>lk_cpu := Some me\<rparr>))))))"

definition release :: "lockid \<Rightarrow> ('z mach_scheme, unit) M" where
  "release lk =
     bindM (gets (holding lk)) (\<lambda>h.
     if \<not> h then panic ''release'' else
     seqM (set_lock lk (\<lambda>l. l\<lparr>lk_cpu := None\<rparr>)) (
     seqM (set_lock lk (\<lambda>l. l\<lparr>locked := 0\<rparr>))
     pop_off))"

lemmas spin_defs =
  intr_on_def intr_off_def intr_get_def cpuid_def mycpu_def set_mycpu_def set_lock_def
  push_off_def pop_off_def holding_def

subsection \<open>Interrupt nesting\<close>

text \<open>
  Between kernel routines the nesting depth is not negative, and interrupts are off while it
  is positive.
\<close>

definition intr_wf :: "'z mach_scheme \<Rightarrow> bool" where
  "intr_wf s \<longleftrightarrow> 0 \<le> noff (mycpu s) \<and> (0 < noff (mycpu s) \<longrightarrow> \<not> sie s)"

text \<open>What a balanced pair leaves behind: only the saved interrupt flag of the CPU.\<close>

definition settle :: "'z mach_scheme \<Rightarrow> 'z mach_scheme" where
  "settle s = s\<lparr>cpus := (cpus s)(hart s := (mycpu s)
     \<lparr>intena := (if noff (mycpu s) = 0 then sie s else intena (mycpu s))\<rparr>)\<rparr>"

lemma settle_simps [simp]:
  "phys (settle s) = phys s" "hart (settle s) = hart s" "sie (settle s) = sie s"
  "locks (settle s) = locks s" "mach.more (settle s) = mach.more s"
  "noff (cpus (settle s) h) = noff (cpus s h)" "c_proc (cpus (settle s) h) = c_proc (cpus s h)"
  by (simp_all add: settle_def spin_defs)

lemma settle_idem [simp]: "settle (settle s) = settle s"
  by (simp add: settle_def spin_defs)

lemma intr_wf_settle [simp]: "intr_wf (settle s) = intr_wf s"
  by (simp add: intr_wf_def spin_defs)

lemma push_pop_off:
  assumes "intr_wf s"
  shows "seqM push_off pop_off s = Ret () (settle s)"
  using assms
  by (cases "noff (mycpu s) = 0"; cases "sie s")
    (auto simp: spin_defs monad_simps settle_def intr_wf_def intro!: mach.equality)

subsection \<open>Critical sections\<close>

definition lock_free :: "lockid \<Rightarrow> 'z mach_scheme \<Rightarrow> bool" where
  "lock_free lk s \<longleftrightarrow> locked (locks s lk) = 0 \<and> lk_cpu (locks s lk) = None"

definition acq :: "lockid \<Rightarrow> 'z mach_scheme \<Rightarrow> 'z mach_scheme" where
  "acq lk s = (settle s)\<lparr>sie := False,
     cpus := (cpus (settle s))(hart s := (mycpu (settle s))\<lparr>noff := noff (mycpu s) + 1\<rparr>),
     locks := (locks s)(lk := (locks s lk)\<lparr>locked := 1, lk_cpu := Some (hart s)\<rparr>)\<rparr>"

definition rel :: "lockid \<Rightarrow> 'z mach_scheme \<Rightarrow> 'z mach_scheme" where
  "rel lk s = s\<lparr>
     sie := (noff (mycpu s) = 1 \<and> intena (mycpu s)),
     cpus := (cpus s)(hart s := (mycpu s)\<lparr>noff := noff (mycpu s) - 1\<rparr>),
     locks := (locks s)(lk := (locks s lk)\<lparr>locked := 0, lk_cpu := None\<rparr>)\<rparr>"

lemma acquire_free:
  assumes "lock_free lk s"
  shows "acquire lk s = Ret () (acq lk s)"
  using assms
  by (cases "noff (mycpu s) = 0")
    (simp_all add: acquire_def acq_def lock_free_def spin_defs monad_simps settle_def)

lemma acquire_held:
  assumes "holding lk s"
  shows "\<exists>t. acquire lk s = Stop (Panic ''acquire'') t"
  using assms
  by (cases "noff (mycpu s) = 0")
    (simp_all add: acquire_def spin_defs monad_simps)

lemma acquire_busy:
  assumes "locked (locks s lk) \<noteq> 0" "\<not> holding lk s"
  shows "\<exists>t. acquire lk s = Stop (Spin lk) t"
  using assms
  by (cases "noff (mycpu s) = 0")
    (simp_all add: acquire_def spin_defs monad_simps)

lemma release_holding:
  assumes "holding lk s" "1 \<le> noff (mycpu s)" "\<not> sie s"
  shows "release lk s = Ret () (rel lk s)"
  using assms
  by (cases "noff (mycpu s) = 1 \<and> intena (mycpu s)")
    (auto simp: release_def rel_def spin_defs monad_simps intro!: mach.equality)

lemma release_not_holding:
  assumes "\<not> holding lk s"
  shows "release lk s = Stop (Panic ''release'') s"
  using assms by (simp add: release_def monad_simps)

lemma rel_acq:
  assumes "lock_free lk s" "intr_wf s"
  shows "rel lk (acq lk s) = settle s"
  using assms
  by (cases "noff (mycpu s) = 0")
    (auto simp: rel_def acq_def settle_def spin_defs lock_free_def intr_wf_def fun_eq_iff)

text \<open>
  The state inside a critical section, seen from the release that ends it.
\<close>

definition in_cs :: "lockid \<Rightarrow> 'z mach_scheme \<Rightarrow> bool" where
  "in_cs lk s \<longleftrightarrow> holding lk s \<and> 1 \<le> noff (mycpu s) \<and> \<not> sie s"

lemma in_cs_acq [simp]: "intr_wf s \<Longrightarrow> in_cs lk (acq lk s)"
  by (auto simp: in_cs_def acq_def spin_defs intr_wf_def)

lemma release_in_cs: "in_cs lk s \<Longrightarrow> release lk s = Ret () (rel lk s)"
  by (simp add: in_cs_def release_holding)

lemma acq_simps [simp]:
  "phys (acq lk s) = phys s" "hart (acq lk s) = hart s" "\<not> sie (acq lk s)"
  "mach.more (acq lk s) = mach.more s" "c_proc (cpus (acq lk s) h) = c_proc (cpus s h)"
  by (simp_all add: acq_def spin_defs)

lemma rel_simps [simp]:
  "phys (rel lk s) = phys s" "hart (rel lk s) = hart s"
  "mach.more (rel lk s) = mach.more s" "c_proc (cpus (rel lk s) h) = c_proc (cpus s h)"
  by (simp_all add: rel_def spin_defs)

lemma phys_lock_update [simp]:
  "acq lk (s\<lparr>phys := x\<rparr>) = (acq lk s)\<lparr>phys := x\<rparr>"
  "rel lk (s\<lparr>phys := x\<rparr>) = (rel lk s)\<lparr>phys := x\<rparr>"
  "settle (s\<lparr>phys := x\<rparr>) = (settle s)\<lparr>phys := x\<rparr>"
  by (simp_all add: acq_def rel_def settle_def lock_free_def intr_wf_def in_cs_def spin_defs)

lemma phys_lock_state [simp]:
  "lock_free lk (s\<lparr>phys := x\<rparr>) = lock_free lk s"
  "intr_wf (s\<lparr>phys := x\<rparr>) = intr_wf s"
  "in_cs lk (s\<lparr>phys := x\<rparr>) = in_cs lk s"
  "holding lk (s\<lparr>phys := x\<rparr>) = holding lk s"
  "mycpu (s\<lparr>phys := x\<rparr>) = mycpu s"
  by (simp_all add: acq_def rel_def settle_def lock_free_def intr_wf_def in_cs_def spin_defs)

text \<open>Nested critical sections: what taking or settling one lock means for another.\<close>

lemma lock_free_acq [simp]: "lk' \<noteq> lk \<Longrightarrow> lock_free lk' (acq lk s) = lock_free lk' s"
  by (simp add: lock_free_def acq_def)

lemma lock_free_rel [simp]: "lock_free lk' (rel lk s) \<longleftrightarrow> lk' = lk \<or> lock_free lk' s"
  by (auto simp: lock_free_def rel_def)

lemma lock_free_settle [simp]: "lock_free lk (settle s) = lock_free lk s"
  by (simp add: lock_free_def)

lemma intr_wf_acq [simp]: "intr_wf s \<Longrightarrow> intr_wf (acq lk s)"
  by (auto simp: intr_wf_def acq_def spin_defs)

lemma acq_settle [simp]: "acq lk (settle s) = acq lk s"
  by (cases "noff (mycpu s) = 0") (simp_all add: acq_def settle_def spin_defs)

lemma settle_nested: "noff (mycpu s) \<noteq> 0 \<Longrightarrow> settle s = s"
  by (simp add: settle_def spin_defs)

lemma settle_in_cs: "in_cs lk s \<Longrightarrow> settle s = s"
  by (auto simp: in_cs_def intro: settle_nested)

lemma settle_acq [simp]: "intr_wf s \<Longrightarrow> settle (acq lk s) = acq lk s"
  using settle_in_cs [OF in_cs_acq] .

lemma holding_acq [simp]: "holding lk (acq lk s)"
  by (simp add: acq_def spin_defs)

lemma holding_acq_other [simp]: "lk' \<noteq> lk \<Longrightarrow> holding lk' (acq lk s) = holding lk' s"
  by (simp add: acq_def spin_defs)

lemma holding_settle [simp]: "holding lk (settle s) = holding lk s"
  by (simp add: spin_defs)

lemma in_cs_settle [simp]: "in_cs lk (settle s) = in_cs lk s"
  by (simp add: in_cs_def spin_defs)

lemma in_cs_acq_other [simp]: "in_cs lk' s \<Longrightarrow> lk' \<noteq> lk \<Longrightarrow> in_cs lk' (acq lk s)"
  by (auto simp: in_cs_def acq_def spin_defs)

subsection \<open>Many harts on one lock\<close>

text \<open>
  The same routines as micro-steps, so that harts interleave between them: the \<^verbatim>\<open>holding\<close>
  check of \<^verbatim>\<open>acquire\<close>, its atomic swap, the write of \<^verbatim>\<open>lk->cpu\<close>, and in \<^verbatim>\<open>release\<close> the
  \<^verbatim>\<open>holding\<close> check with the write of \<^verbatim>\<open>lk->cpu\<close>, and the atomic store of 0. \<open>Panicked\<close> is the
  place a hart reaches when one of the two checks panics. The callers do what they like while \<open>Inside\<close> or \<open>Outside\<close>.
  \<^verbatim>\<open>push_off\<close> and \<^verbatim>\<open>pop_off\<close> touch only the counters of their own hart and are not steps here; they keep a hart from being
  interrupted inside, which is why a hart has one place at a time.
\<close>

datatype lpc = Outside | Swapping | Recording | Inside | Clearing | Panicked

record lsys =
  the_lock :: spinlock
  lpcs :: "nat \<Rightarrow> lpc"

definition lheld :: "spinlock \<Rightarrow> nat \<Rightarrow> bool" where
  "lheld l h \<longleftrightarrow> locked l \<noteq> 0 \<and> lk_cpu l = Some h"

definition lsys_init :: "string \<Rightarrow> lsys" where
  "lsys_init nm = \<lparr>the_lock = \<lparr>locked = 0, lk_name = nm, lk_cpu = None\<rparr>, lpcs = (\<lambda>_. Outside)\<rparr>"

inductive lstep :: "lsys \<Rightarrow> lsys \<Rightarrow> bool" where
  acquire_check: "lpcs s h = Outside \<Longrightarrow> \<not> lheld (the_lock s) h \<Longrightarrow>
     lstep s (s\<lparr>lpcs := (lpcs s)(h := Swapping)\<rparr>)"
| acquire_panic: "lpcs s h = Outside \<Longrightarrow> lheld (the_lock s) h \<Longrightarrow>
     lstep s (s\<lparr>lpcs := (lpcs s)(h := Panicked)\<rparr>)"
| swap_again: "lpcs s h = Swapping \<Longrightarrow> locked (the_lock s) \<noteq> 0 \<Longrightarrow>
     lstep s (s\<lparr>the_lock := (the_lock s)\<lparr>locked := 1\<rparr>\<rparr>)"
| swap_won: "lpcs s h = Swapping \<Longrightarrow> locked (the_lock s) = 0 \<Longrightarrow>
     lstep s (s\<lparr>the_lock := (the_lock s)\<lparr>locked := 1\<rparr>, lpcs := (lpcs s)(h := Recording)\<rparr>)"
| record_cpu: "lpcs s h = Recording \<Longrightarrow>
     lstep s (s\<lparr>the_lock := (the_lock s)\<lparr>lk_cpu := Some h\<rparr>, lpcs := (lpcs s)(h := Inside)\<rparr>)"
| release_clear: "lpcs s h = Inside \<Longrightarrow> lheld (the_lock s) h \<Longrightarrow>
     lstep s (s\<lparr>the_lock := (the_lock s)\<lparr>lk_cpu := None\<rparr>, lpcs := (lpcs s)(h := Clearing)\<rparr>)"
| release_panic: "lpcs s h = Inside \<Longrightarrow> \<not> lheld (the_lock s) h \<Longrightarrow>
     lstep s (s\<lparr>lpcs := (lpcs s)(h := Panicked)\<rparr>)"
| release_store: "lpcs s h = Clearing \<Longrightarrow>
     lstep s (s\<lparr>the_lock := (the_lock s)\<lparr>locked := 0\<rparr>, lpcs := (lpcs s)(h := Outside)\<rparr>)"

inductive lreach :: "string \<Rightarrow> lsys \<Rightarrow> bool" for nm where
  lreach_init: "lreach nm (lsys_init nm)"
| lreach_step: "lreach nm s \<Longrightarrow> lstep s t \<Longrightarrow> lreach nm t"

definition owns :: "lpc \<Rightarrow> bool" where
  "owns pc \<longleftrightarrow> pc \<in> {Recording, Inside, Clearing}"

text \<open>
  The invariant: the word \<^verbatim>\<open>locked\<close> is set exactly while some hart owns the lock, that hart is
  the only owner, \<^verbatim>\<open>lk->cpu\<close> names the hart that is inside, and no check has panicked.
\<close>

definition linv_at :: "nat option \<Rightarrow> lsys \<Rightarrow> bool" where
  "linv_at ow s \<longleftrightarrow>
     (locked (the_lock s) \<noteq> 0 \<longleftrightarrow> ow \<noteq> None) \<and>
     (\<forall>h. owns (lpcs s h) \<longleftrightarrow> ow = Some h) \<and>
     (\<forall>h. lk_cpu (the_lock s) = Some h \<longleftrightarrow> lpcs s h = Inside) \<and>
     (\<forall>h. lpcs s h \<noteq> Panicked)"

definition linv :: "lsys \<Rightarrow> bool" where
  "linv s \<longleftrightarrow> (\<exists>ow. linv_at ow s)"

lemma owns_simps [simp]:
  "\<not> owns Outside" "\<not> owns Swapping" "owns Recording" "owns Inside" "owns Clearing"
  by (simp_all add: owns_def)

lemma linv_init: "linv_at None (lsys_init nm)"
  by (simp add: linv_at_def lsys_init_def)

lemma linv_atD:
  assumes "linv_at ow s"
  shows "locked (the_lock s) \<noteq> 0 \<longleftrightarrow> ow \<noteq> None" "owns (lpcs s h) \<longleftrightarrow> ow = Some h"
    "lk_cpu (the_lock s) = Some h \<longleftrightarrow> lpcs s h = Inside" "lpcs s h \<noteq> Panicked"
  using assms by (simp_all add: linv_at_def)

lemma linv_outside: "linv_at ow s \<Longrightarrow> \<not> owns (lpcs s h) \<Longrightarrow> \<not> lheld (the_lock s) h"
  by (auto simp: lheld_def linv_atD(3))

lemma linv_inside: "linv_at ow s \<Longrightarrow> lpcs s h = Inside \<Longrightarrow> lheld (the_lock s) h"
  using linv_atD(1) [of ow s] linv_atD(2,3) [of ow s h] by (simp add: lheld_def)

lemma linv_move:
  assumes "linv_at ow s"
    and "locked l \<noteq> 0 \<longleftrightarrow> ow' \<noteq> None" "owns pc \<longleftrightarrow> ow' = Some h" "pc \<noteq> Panicked"
    and "lk_cpu l = Some h \<longleftrightarrow> pc = Inside"
    and "\<And>k. k \<noteq> h \<Longrightarrow> ow' = Some k \<longleftrightarrow> ow = Some k"
    and "\<And>k. k \<noteq> h \<Longrightarrow> lk_cpu l = Some k \<longleftrightarrow> lk_cpu (the_lock s) = Some k"
  shows "linv (s\<lparr>the_lock := l, lpcs := (lpcs s)(h := pc)\<rparr>)"
proof -
  let ?t = "s\<lparr>the_lock := l, lpcs := (lpcs s)(h := pc)\<rparr>"
  have "owns (lpcs ?t k) \<longleftrightarrow> ow' = Some k" for k
    using assms(3,6) linv_atD(2) [OF assms(1), of k] by (cases "k = h") simp_all
  moreover have "lk_cpu (the_lock ?t) = Some k \<longleftrightarrow> lpcs ?t k = Inside" for k
    using assms(5,7) linv_atD(3) [OF assms(1), of k] by (cases "k = h") simp_all
  moreover have "lpcs ?t k \<noteq> Panicked" for k
    using assms(4) linv_atD(4) [OF assms(1), of k] by simp
  ultimately have "linv_at ow' ?t"
    unfolding linv_at_def using assms(2) by simp
  then show ?thesis unfolding linv_def by blast
qed

lemma linv_sole:
  assumes "linv_at ow s" "owns (lpcs s h)" "k \<noteq> h"
  shows "lk_cpu (the_lock s) \<noteq> Some k" "ow \<noteq> Some k"
proof -
  have "ow = Some h" using linv_atD(2) [OF assms(1)] assms(2) by simp
  then show "ow \<noteq> Some k" using assms(3) by simp
  then have "\<not> owns (lpcs s k)" using linv_atD(2) [OF assms(1)] by simp
  then show "lk_cpu (the_lock s) \<noteq> Some k"
    using linv_atD(3) [OF assms(1)] by auto
qed

lemma linv_step:
  assumes "lstep s t" "linv_at ow s"
  shows "linv t"
  using assms(1)
proof cases
  case (acquire_check h)
  then have "ow \<noteq> Some h" "lk_cpu (the_lock s) \<noteq> Some h"
    using linv_atD(2,3) [OF assms(2), of h] by simp_all
  then have "linv (s\<lparr>the_lock := the_lock s, lpcs := (lpcs s)(h := Swapping)\<rparr>)"
    using linv_atD(1) [OF assms(2)] by (intro linv_move [OF assms(2), where ow' = ow]) simp_all
  then show ?thesis using acquire_check by simp
next
  case (acquire_panic h)
  then show ?thesis using linv_outside [OF assms(2), of h] by simp
next
  case (swap_again h)
  then have "linv_at ow t"
    using linv_atD [OF assms(2)] by (simp add: linv_at_def)
  then show ?thesis by (auto simp: linv_def)
next
  case (swap_won h)
  then have "ow = None" "lk_cpu (the_lock s) \<noteq> Some h"
    using linv_atD(1) [OF assms(2)] linv_atD(3) [OF assms(2), of h] by simp_all
  then show ?thesis
    unfolding swap_won(1) by (intro linv_move [OF assms(2), where ow' = "Some h"]) auto
next
  case (record_cpu h)
  then have "owns (lpcs s h)" by simp
  note sole = linv_sole [OF assms(2) this]
  show ?thesis
    unfolding record_cpu(1)
    by (rule linv_move [OF assms(2), where ow' = "Some h"])
      (use sole linv_atD(1) [OF assms(2)] linv_atD(2) [OF assms(2), of h] record_cpu in auto)
next
  case (release_clear h)
  then have "owns (lpcs s h)" by simp
  note sole = linv_sole [OF assms(2) this]
  show ?thesis
    unfolding release_clear(1)
    by (rule linv_move [OF assms(2), where ow' = "Some h"])
      (use sole linv_atD(1) [OF assms(2)] linv_atD(2) [OF assms(2), of h] release_clear in auto)
next
  case (release_panic h)
  then show ?thesis using linv_inside [OF assms(2), of h] by simp
next
  case (release_store h)
  then have "owns (lpcs s h)" by simp
  note sole = linv_sole [OF assms(2) this]
  have "lk_cpu (the_lock s) \<noteq> Some h"
    using linv_atD(3) [OF assms(2), of h] release_store by simp
  then show ?thesis
    unfolding release_store(1)
    by (intro linv_move [OF assms(2), where ow' = None]) (use sole in auto)
qed

lemma lreach_linv: "lreach nm s \<Longrightarrow> linv s"
proof (induction rule: lreach.induct)
  case lreach_init
  show ?case using linv_init by (auto simp: linv_def)
next
  case (lreach_step s t)
  then show ?case using linv_step by (auto simp: linv_def)
qed

text \<open>
  C2 (mutual exclusion). In every interleaving of \<^verbatim>\<open>acquire\<close> and \<^verbatim>\<open>release\<close> by any number of
  harts, two harts are never both between winning the swap and storing 0, and neither
  the \<^verbatim>\<open>panic("acquire")\<close> nor the \<^verbatim>\<open>panic("release")\<close> of the checks is ever reached.
\<close>

theorem spin_mutual_exclusion:
  assumes "lreach nm s"
  shows "(owns (lpcs s h) \<longrightarrow> owns (lpcs s k) \<longrightarrow> h = k) \<and> lpcs s h \<noteq> Panicked"
proof -
  obtain ow where "linv_at ow s"
    using lreach_linv [OF assms] by (auto simp: linv_def)
  then show ?thesis by (auto simp: linv_at_def)
qed

theorem spin_mutual_exclusion_witness:
  "\<exists>s. lreach ''kmem'' s \<and> owns (lpcs s 3) \<and> lpcs s 5 = Swapping \<and> \<not> owns (lpcs s 5) \<and> lpcs s 5 \<noteq> Panicked"
proof -
  let ?s0 = "lsys_init ''kmem''"
  let ?s1 = "?s0\<lparr>lpcs := (lpcs ?s0)(3 := Swapping)\<rparr>"
  let ?s2 = "?s1\<lparr>lpcs := (lpcs ?s1)(5 := Swapping)\<rparr>"
  let ?s3 = "?s2\<lparr>the_lock := (the_lock ?s2)\<lparr>locked := 1\<rparr>, lpcs := (lpcs ?s2)(3 := Recording)\<rparr>"
  have "lstep ?s0 ?s1" "lstep ?s1 ?s2" by (rule lstep.acquire_check; simp add: lsys_init_def lheld_def)+
  moreover have "lstep ?s2 ?s3" by (rule lstep.swap_won) (simp_all add: lsys_init_def)
  ultimately have r: "lreach ''kmem'' ?s3" by (meson lreach_init lreach_step)
  have "owns (lpcs ?s3 3)" "lpcs ?s3 5 = Swapping" by simp_all
  then show ?thesis using spin_mutual_exclusion [OF r, of 5 3] r by (intro exI [of _ ?s3]) auto
qed

text \<open>
  On a free lock \<^verbatim>\<open>acquire\<close> returns holding it with interrupts off and
  one level deeper, and the matching \<^verbatim>\<open>release\<close> gives back the state before, but for the saved
  interrupt flag: locks, interrupt enable and nesting depth are restored.
\<close>

theorem acquire_release_restores:
  assumes "lock_free lk s" "intr_wf s"
  shows "acquire lk s = Ret () (acq lk s) \<and> holding lk (acq lk s) \<and> \<not> sie (acq lk s) \<and>
    noff (mycpu (acq lk s)) = noff (mycpu s) + 1 \<and>
    release lk (acq lk s) = Ret () (settle s) \<and>
    sie (settle s) = sie s \<and> noff (mycpu (settle s)) = noff (mycpu s)"
proof -
  have "in_cs lk (acq lk s)" using assms(2) by simp
  then have "release lk (acq lk s) = Ret () (settle s)" and "holding lk (acq lk s)"
    using assms by (simp_all add: release_in_cs rel_acq in_cs_def)
  then show ?thesis
    using assms by (simp add: acquire_free) (simp add: acq_def spin_defs)
qed

text \<open>A machine with one hart running and every lock free.\<close>

definition idle_mach :: mach where
  "idle_mach = \<lparr>phys = (\<lambda>_. 0), hart = 0, sie = True,
     cpus = (\<lambda>_. \<lparr>c_proc = None, noff = 0, intena = False\<rparr>),
     locks = (\<lambda>_. \<lparr>locked = 0, lk_name = ''lock'', lk_cpu = None\<rparr>)\<rparr>"

theorem acquire_release_restores_witness:
  "acquire KmemLock idle_mach = Ret () (acq KmemLock idle_mach) \<and>
   release KmemLock (acq KmemLock idle_mach) = Ret () (settle idle_mach)"
proof -
  have "lock_free KmemLock idle_mach" "intr_wf idle_mach"
    by (simp_all add: idle_mach_def lock_free_def intr_wf_def spin_defs)
  then show ?thesis using acquire_release_restores by blast
qed

end
