(* ===== verification/Kalloc.thy ===== *)
theory Kalloc
  imports CString Spinlock
begin

section \<open>The physical page allocator (kernel/kalloc.c)\<close>

text \<open>
  The allocator keeps its free pages on a linked list threaded through the pages themselves.
  \<open>kfree\<close>, \<open>kalloc\<close>, \<open>freerange\<close> and \<open>kinit\<close> are modelled on physical memory, junk
  filling included; \<open>free_list\<close> reads the linked list back as an Isabelle list, and the
  lemmas show the operations to be push and pop on it. The interface its clients rely on is the
  locale \<open>page_allocator\<close>, which the definitions of this theory interpret.
\<close>

subsection \<open>State and operations\<close>

text \<open>\<open>k_end\<close> is the linker symbol \<^verbatim>\<open>end\<close>, the first address after the kernel image.\<close>

record kmem = mach +
  freelist :: u64
  k_end :: u64

definition kfree :: "u64 \<Rightarrow> ('z kmem_scheme, unit) M" where
  "kfree pa =
     bindM (gets k_end) (\<lambda>e.
     if pa mod PGSIZE \<noteq> 0 \<or> pa < e \<or> pa \<ge> PHYSTOP then panic ''kfree'' else
     seqM (modify (\<lambda>s. s\<lparr>phys := memset pa 1 4096 (phys s)\<rparr>)) (
     seqM (acquire KmemLock) (
     seqM (modify (\<lambda>s. s\<lparr>phys := st64 (phys s) pa (freelist s)\<rparr>)) (
     seqM (modify (\<lambda>s. s\<lparr>freelist := pa\<rparr>))
          (release KmemLock)))))"

definition kalloc :: "('z kmem_scheme, u64) M" where
  "kalloc =
     seqM (acquire KmemLock) (
     bindM (gets freelist) (\<lambda>r.
     seqM (whenM (r \<noteq> 0) (modify (\<lambda>s. s\<lparr>freelist := ld64 (phys s) r\<rparr>))) (
     seqM (release KmemLock) (
     seqM (whenM (r \<noteq> 0) (modify (\<lambda>s. s\<lparr>phys := memset r 5 4096 (phys s)\<rparr>)))
          (returnM r)))))"

lemma kfree_guard: "kfree p s = Ret u t \<Longrightarrow> p < PHYSTOP"
  by (auto simp: kfree_def monad_simps not_le split: if_splits)

function freerange_from :: "u64 \<Rightarrow> u64 \<Rightarrow> ('z kmem_scheme, unit) M" where
  "freerange_from p pa_end s =
     (if p + PGSIZE \<le> pa_end
      then seqM (kfree p) (freerange_from (p + PGSIZE) pa_end) s
      else Ret () s)"
  by pat_completeness auto
termination
proof (relation "measure (\<lambda>(p, e, s). 2 ^ 64 - unat p)")
  fix p e :: u64 and s t :: "'a kmem_scheme" and x
  assume "kfree p s = Ret x t"
  then have "unat p < unat PHYSTOP" using kfree_guard by (auto simp: word_less_nat_alt)
  then have "unat p < unat (p + PGSIZE)"
    by (simp add: PHYSTOP_val unat_word_ariths)
  moreover have "unat (p + PGSIZE) < 2 ^ 64" using unsigned_less [of "p + PGSIZE"] by simp
  ultimately show "((p + PGSIZE, e, t), p, e, s) \<in> measure (\<lambda>(p, e, s). 2 ^ 64 - unat p)"
    by simp
qed simp

declare freerange_from.simps [simp del]

definition freerange :: "u64 \<Rightarrow> u64 \<Rightarrow> ('z kmem_scheme, unit) M" where
  "freerange pa_start pa_end = freerange_from (PGROUNDUP pa_start) pa_end"

definition kinit :: "('z kmem_scheme, unit) M" where
  "kinit =
     seqM (initlock KmemLock ''kmem'') (
     bindM (gets k_end) (\<lambda>e. freerange e PHYSTOP))"

subsection \<open>The lock operations leave the allocator's state alone\<close>

lemma kmem_lock_read [simp]:
  "freelist (acq lk s) = freelist s"
  "freelist (rel lk s) = freelist s"
  "freelist (settle s) = freelist s"
  "k_end (acq lk s) = k_end s"
  "k_end (rel lk s) = k_end s"
  "k_end (settle s) = k_end s"
  by (simp_all add: acq_def rel_def settle_def lock_free_def intr_wf_def in_cs_def spin_defs)

lemma kmem_lock_update [simp]:
  "acq lk (s\<lparr>freelist := x\<rparr>) = (acq lk s)\<lparr>freelist := x\<rparr>"
  "rel lk (s\<lparr>freelist := x\<rparr>) = (rel lk s)\<lparr>freelist := x\<rparr>"
  "settle (s\<lparr>freelist := x\<rparr>) = (settle s)\<lparr>freelist := x\<rparr>"
  "acq lk (s\<lparr>k_end := x\<rparr>) = (acq lk s)\<lparr>k_end := x\<rparr>"
  "rel lk (s\<lparr>k_end := x\<rparr>) = (rel lk s)\<lparr>k_end := x\<rparr>"
  "settle (s\<lparr>k_end := x\<rparr>) = (settle s)\<lparr>k_end := x\<rparr>"
  by (simp_all add: acq_def rel_def settle_def lock_free_def intr_wf_def in_cs_def spin_defs)

lemma kmem_lock_state [simp]:
  "lock_free lk (s\<lparr>freelist := x\<rparr>) = lock_free lk s"
  "intr_wf (s\<lparr>freelist := x\<rparr>) = intr_wf s"
  "in_cs lk (s\<lparr>freelist := x\<rparr>) = in_cs lk s"
  "holding lk (s\<lparr>freelist := x\<rparr>) = holding lk s"
  "mycpu (s\<lparr>freelist := x\<rparr>) = mycpu s"
  "lock_free lk (s\<lparr>k_end := x\<rparr>) = lock_free lk s"
  "intr_wf (s\<lparr>k_end := x\<rparr>) = intr_wf s"
  "in_cs lk (s\<lparr>k_end := x\<rparr>) = in_cs lk s"
  "holding lk (s\<lparr>k_end := x\<rparr>) = holding lk s"
  "mycpu (s\<lparr>k_end := x\<rparr>) = mycpu s"
  by (simp_all add: acq_def rel_def settle_def lock_free_def intr_wf_def in_cs_def spin_defs)

subsection \<open>Pages\<close>

lemma in_page_iff:
  assumes "page_aligned x"
  shows "unat (a - x) < 4096 \<longleftrightarrow> PGROUNDDOWN a = x"
proof
  assume "unat (a - x) < 4096"
  then have "a - x < PGSIZE" by (simp add: word_less_nat_alt)
  then show "PGROUNDDOWN a = x" using PGROUNDDOWN_add [OF assms, of "a - x"] by simp
next
  assume "PGROUNDDOWN a = x"
  then show "unat (a - x) < 4096" using page_offset_less [of a] by (auto simp: word_less_nat_alt)
qed

lemma memset_page:
  "page_aligned x \<Longrightarrow> memset x c 4096 m a = (if PGROUNDDOWN a = x then c else m a)"
  by (simp add: memset_fill in_page_iff)

lemma aligned3_page: "page_aligned x \<Longrightarrow> aligned 3 x"
  using aligned_mono [of 12 x 3] by simp

lemma PGROUNDDOWN_word:
  assumes "aligned 3 a" "k < 8"
  shows "PGROUNDDOWN (a + k) = PGROUNDDOWN a"
proof -
  have "k < 2 ^ 3" using assms(2) by simp
  then show ?thesis
    by (intro bit_word_eqI) (auto simp: bit_PGROUNDDOWN aligned_add_bit [OF assms(1)])
qed

lemma ld64_page_cong:
  assumes "aligned 3 a" "\<And>b. PGROUNDDOWN b = PGROUNDDOWN a \<Longrightarrow> m b = m' b"
  shows "ld64 m a = ld64 m' a"
  by (rule ld64_cong) (simp add: assms PGROUNDDOWN_word)

lemma st64_page_other:
  assumes "aligned 3 a" "PGROUNDDOWN b \<noteq> PGROUNDDOWN a"
  shows "st64 m a v b = m b"
proof (rule st64_other)
  show "\<not> b - a < 8" using PGROUNDDOWN_word [OF assms(1), of "b - a"] assms(2) by auto
qed

subsection \<open>The free list\<close>

primrec free_list :: "mem \<Rightarrow> u64 \<Rightarrow> u64 list \<Rightarrow> bool" where
  "free_list m h [] \<longleftrightarrow> h = 0"
| "free_list m h (x # xs) \<longleftrightarrow> h = x \<and> x \<noteq> 0 \<and> free_list m (ld64 m x) xs"

lemma free_list_cong:
  "(\<And>x. x \<in> set xs \<Longrightarrow> ld64 m' x = ld64 m x) \<Longrightarrow> free_list m' h xs = free_list m h xs"
  by (induction xs arbitrary: h) auto

lemma free_list_unique: "free_list m h xs \<Longrightarrow> free_list m h ys \<Longrightarrow> xs = ys"
proof (induction xs arbitrary: h ys)
  case Nil
  then show ?case by (cases ys) auto
next
  case (Cons x xs)
  then show ?case by (cases ys) auto
qed

text \<open>The pages the allocator manages, and the allocator's invariant with the list it holds.\<close>

definition valid_page :: "'z kmem_scheme \<Rightarrow> u64 \<Rightarrow> bool" where
  "valid_page s x \<longleftrightarrow> page_aligned x \<and> k_end s \<le> x \<and> x < PHYSTOP"

definition kmem_ok :: "'z kmem_scheme \<Rightarrow> u64 list \<Rightarrow> bool" where
  "kmem_ok s xs \<longleftrightarrow> 0 < k_end s \<and> free_list (phys s) (freelist s) xs \<and> distinct xs
     \<and> (\<forall>x \<in> set xs. valid_page s x)"

definition kmem_ready :: "'z kmem_scheme \<Rightarrow> u64 list \<Rightarrow> bool" where
  "kmem_ready s xs \<longleftrightarrow> kmem_ok s xs \<and> lock_free KmemLock s \<and> intr_wf s"

lemma valid_pageD:
  "valid_page s x \<Longrightarrow> page_aligned x" "valid_page s x \<Longrightarrow> aligned 3 x"
  "valid_page s x \<Longrightarrow> x < PHYSTOP"
  by (auto simp: valid_page_def intro: aligned3_page)

lemma valid_page_nonzero: "0 < k_end s \<Longrightarrow> valid_page s x \<Longrightarrow> x \<noteq> 0"
  by (auto simp: valid_page_def)

text \<open>Memory changes outside the free pages do not disturb the list.\<close>

lemma free_list_frame:
  assumes "free_list m h xs" "\<And>x. x \<in> set xs \<Longrightarrow> page_aligned x"
    and "\<And>a. PGROUNDDOWN a \<in> set xs \<Longrightarrow> m' a = m a"
  shows "free_list m' h xs"
proof -
  have "ld64 m' x = ld64 m x" if "x \<in> set xs" for x
  proof (rule ld64_page_cong)
    show "aligned 3 x" using that assms(2) by (intro aligned3_page)
    fix b
    assume "PGROUNDDOWN b = PGROUNDDOWN x"
    then show "m' b = m b" using that assms(2,3) by simp
  qed
  then show ?thesis using assms(1) free_list_cong [of xs m' m h] by blast
qed

lemma kmem_ok_frame:
  assumes "kmem_ok s xs" "freelist t = freelist s" "k_end t = k_end s"
    and "\<And>a. PGROUNDDOWN a \<in> set xs \<Longrightarrow> phys t a = phys s a"
  shows "kmem_ok t xs"
proof -
  have "free_list (phys t) (freelist s) xs"
    by (rule free_list_frame [of "phys s"]) (use assms(1,4) in \<open>auto simp: kmem_ok_def valid_page_def\<close>)
  then show ?thesis using assms(1-3) by (simp add: kmem_ok_def valid_page_def)
qed

subsection \<open>What the operations do\<close>

lemma kfree_run:
  assumes "valid_page s pa" "lock_free KmemLock s" "intr_wf s"
  shows "kfree pa s = Ret () ((settle s)
    \<lparr>phys := st64 (memset pa 1 4096 (phys s)) pa (freelist s), freelist := pa\<rparr>)"
proof -
  have "pa mod PGSIZE = 0" "\<not> pa < k_end s" "\<not> PHYSTOP \<le> pa"
    using assms(1) by (auto simp: valid_page_def page_aligned_mod)
  then show ?thesis
    using assms(2,3)
    by (simp add: kfree_def monad_simps acquire_free release_in_cs rel_acq)
qed

lemma kalloc_run:
  assumes "lock_free KmemLock s" "intr_wf s"
  shows "kalloc s = (if freelist s = 0 then Ret 0 (settle s)
    else Ret (freelist s) ((settle s)\<lparr>freelist := ld64 (phys s) (freelist s),
           phys := memset (freelist s) 5 4096 (phys s)\<rparr>))"
  using assms
  by (simp add: kalloc_def monad_simps acquire_free release_in_cs rel_acq)

lemma kmem_ready_settle [simp]: "kmem_ready (settle s) xs = kmem_ready s xs"
  by (simp add: kmem_ready_def kmem_ok_def valid_page_def)

lemma kmem_ready_Nil: "kmem_ready s [] \<Longrightarrow> kalloc s = Ret 0 (settle s)"
  by (auto simp: kmem_ready_def kmem_ok_def kalloc_run)

lemma kmem_ready_Cons:
  assumes "kmem_ready s (x # xs)"
  defines "t \<equiv> (settle s)\<lparr>freelist := ld64 (phys s) x, phys := memset x 5 4096 (phys s)\<rparr>"
  shows "kalloc s = Ret x t \<and> kmem_ready t xs"
proof -
  have k: "free_list (phys s) (freelist s) (x # xs)" "distinct (x # xs)"
    "\<forall>y \<in> set (x # xs). valid_page s y" "0 < k_end s"
    using assms(1) by (auto simp: kmem_ready_def kmem_ok_def)
  have "free_list (memset x 5 4096 (phys s)) (ld64 (phys s) x) xs"
    by (rule free_list_frame [of "phys s"])
      (use k in \<open>auto simp: memset_page valid_page_def\<close>)
  then have "kmem_ok t xs"
    using k by (auto simp: kmem_ok_def t_def valid_page_def)
  then show ?thesis
    using assms(1) k by (auto simp: kmem_ready_def kalloc_run t_def)
qed

lemma kmem_ready_kfree:
  assumes "kmem_ready s xs" "valid_page s x" "x \<notin> set xs"
  defines "t \<equiv> (settle s)\<lparr>phys := st64 (memset x 1 4096 (phys s)) x (freelist s), freelist := x\<rparr>"
  shows "kfree x s = Ret () t \<and> kmem_ready t (x # xs)"
proof -
  have k: "free_list (phys s) (freelist s) xs" "distinct xs" "\<forall>y \<in> set xs. valid_page s y" "0 < k_end s"
    using assms(1) by (auto simp: kmem_ready_def kmem_ok_def)
  have "free_list (st64 (memset x 1 4096 (phys s)) x (freelist s)) (freelist s) xs"
  proof (rule free_list_frame [of "phys s"])
    fix a
    assume "PGROUNDDOWN a \<in> set xs"
    then have "PGROUNDDOWN a \<noteq> PGROUNDDOWN x" "PGROUNDDOWN a \<noteq> x"
      using assms(2,3) by (auto simp: valid_page_def)
    then show "st64 (memset x 1 4096 (phys s)) x (freelist s) a = phys s a"
      using assms(2) by (simp add: st64_page_other memset_page valid_pageD)
  qed (use k in \<open>auto simp: valid_page_def\<close>)
  then have "kmem_ok t (x # xs)"
    using k assms(2,3) by (auto simp: kmem_ok_def t_def valid_page_def)
  then show ?thesis
    using assms(1,2) by (auto simp: kmem_ready_def kfree_run t_def)
qed

subsection \<open>The interface of the allocator\<close>

text \<open>
  What a client of the allocator relies on: an allocation takes one page off the pool or
  returns 0 when the pool is empty, and freeing a page puts it back.
\<close>

locale page_allocator =
  fixes alloc :: "('s, u64) M"
    and free :: "u64 \<Rightarrow> ('s, unit) M"
    and pool :: "'s \<Rightarrow> u64 list \<Rightarrow> bool"
    and page :: "'s \<Rightarrow> u64 \<Rightarrow> bool"
  assumes alloc_empty: "pool s [] \<Longrightarrow> \<exists>t. alloc s = Ret 0 t \<and> pool t []"
    and alloc_page: "pool s (x # xs) \<Longrightarrow> \<exists>t. alloc s = Ret x t \<and> pool t xs"
    and free_page: "pool s xs \<Longrightarrow> page s x \<Longrightarrow> x \<notin> set xs
      \<Longrightarrow> \<exists>t. free x s = Ret () t \<and> pool t (x # xs)"
    and pool_distinct: "pool s xs \<Longrightarrow> distinct xs"
    and pool_pages: "pool s xs \<Longrightarrow> x \<in> set xs \<Longrightarrow> page s x \<and> x \<noteq> 0"
begin

lemma alloc_many:
  "n \<le> length xs \<Longrightarrow> pool s xs \<Longrightarrow> \<exists>t. repeatM n alloc s = Ret (take n xs) t \<and> pool t (drop n xs)"
proof (induction n arbitrary: s xs)
  case 0
  then show ?case by simp
next
  case (Suc n)
  then obtain x ys where xs: "xs = x # ys" by (cases xs) auto
  then obtain t where t: "alloc s = Ret x t" "pool t ys" using alloc_page Suc.prems(2) by blast
  then obtain u where "repeatM n alloc t = Ret (take n ys) u \<and> pool u (drop n ys)"
    using Suc.IH [of ys t] Suc.prems(1) xs by auto
  then show ?case using t xs by auto
qed

lemma alloc_distinct:
  assumes "pool s xs" "n \<le> length xs"
  shows "\<exists>ps t. repeatM n alloc s = Ret ps t \<and> ps = take n xs \<and> length ps = n \<and> distinct ps
    \<and> (\<forall>p \<in> set ps. page s p \<and> p \<noteq> 0 \<and> p \<notin> set (drop n xs)) \<and> pool t (drop n xs)
    \<and> (n = length xs \<longrightarrow> (\<exists>u. alloc t = Ret 0 u))"
proof -
  have "page s p \<and> p \<noteq> 0" if "p \<in> set (take n xs)" for p using pool_pages [OF assms(1)] that by (metis in_set_takeD)
  moreover have "set (take n xs) \<inter> set (drop n xs) = {}"
    using pool_distinct [OF assms(1)] by (simp add: set_take_disj_set_drop_if_distinct)
  moreover obtain t where t: "repeatM n alloc s = Ret (take n xs) t" "pool t (drop n xs)" using alloc_many [OF assms(2,1)] by blast
  moreover have "\<exists>u. alloc t = Ret 0 u" if "n = length xs" using alloc_empty [of t] t(2) that by auto
  ultimately show ?thesis using pool_distinct [OF assms(1)] assms(2) by (intro exI [of _ "take n xs"] exI [of _ t]) auto
qed

lemma free_alloc:
  assumes "pool s xs" "page s x" "x \<notin> set xs"
  shows "\<exists>t. seqM (free x) alloc s = Ret x t \<and> pool t xs"
proof -
  obtain t where "free x s = Ret () t" "pool t (x # xs)" using free_page [OF assms] by blast
  then show ?thesis using alloc_page [of t x xs] by auto
qed

end

interpretation ka: page_allocator kalloc kfree kmem_ready valid_page
proof
  fix s :: "'z kmem_scheme" and x xs
  show "kmem_ready s [] \<Longrightarrow> \<exists>t. kalloc s = Ret 0 t \<and> kmem_ready t []"
    by (auto simp: kmem_ready_Nil)
  show "kmem_ready s (x # xs) \<Longrightarrow> \<exists>t. kalloc s = Ret x t \<and> kmem_ready t xs"
    using kmem_ready_Cons by blast
  show "kmem_ready s xs \<Longrightarrow> valid_page s x \<Longrightarrow> x \<notin> set xs
      \<Longrightarrow> \<exists>t. kfree x s = Ret () t \<and> kmem_ready t (x # xs)"
    using kmem_ready_kfree by blast
  show "kmem_ready s xs \<Longrightarrow> distinct xs"
    by (simp add: kmem_ready_def kmem_ok_def)
  show "kmem_ready s xs \<Longrightarrow> x \<in> set xs \<Longrightarrow> valid_page s x \<and> x \<noteq> 0"
    using valid_page_nonzero [of s x] by (auto simp: kmem_ready_def kmem_ok_def)
qed

subsection \<open>Initialisation\<close>

lemma page_step:
  assumes "page_aligned x" "page_aligned p" "p \<le> x" "x < p + PGSIZE" "p < PHYSTOP"
  shows "x = p"
proof -
  have "x - p < PGSIZE"
    using assms(3-5) by (auto simp: word_less_nat_alt word_le_nat_alt PHYSTOP_val unat_word_ariths unat_sub)
  then show ?thesis
    using PGROUNDDOWN_add [OF assms(2), of "x - p"] assms(1) by simp
qed

lemma page_below:
  assumes "page_aligned x" "page_aligned q" "x < q" "q \<le> PHYSTOP"
  shows "x + PGSIZE \<le> q"
proof (rule ccontr)
  assume "\<not> ?thesis"
  then have "q = x" using assms by (intro page_step) auto
  then show False using assms(3) by simp
qed

lemma PHYSTOP_aligned: "page_aligned PHYSTOP"
  by (simp add: page_aligned_mod PHYSTOP_val)

lemma page_aligned_Suc: "page_aligned p \<Longrightarrow> page_aligned (p + PGSIZE)"
  by (rule aligned_add) (simp_all add: page_aligned_mod)

lemma freerange_from_pool:
  "kmem_ready s xs \<Longrightarrow> page_aligned p \<Longrightarrow> k_end s \<le> p \<Longrightarrow> p \<le> PHYSTOP
   \<Longrightarrow> set xs = {x. valid_page s x \<and> x < p}
   \<Longrightarrow> \<exists>t ys. freerange_from p PHYSTOP s = Ret () t \<and> kmem_ready t ys \<and> set ys = {x. valid_page s x}"
proof (induction p PHYSTOP s arbitrary: xs rule: freerange_from.induct)
  case (1 p s)
  show ?case
  proof (cases "p + PGSIZE \<le> PHYSTOP")
    case False
    have "p = PHYSTOP"
      using False page_below [OF \<open>page_aligned p\<close> PHYSTOP_aligned] 1(5) by force
    then have "set xs = {x. valid_page s x}" using 1(6) by (auto simp: valid_page_def)
    then show ?thesis using False 1(2) by (auto simp: freerange_from.simps [of p])
  next
    case True
    then have lt: "p < PHYSTOP" and lp: "p < p + PGSIZE"
      using 1(5) by (auto simp: word_less_nat_alt word_le_nat_alt PHYSTOP_val unat_word_ariths)
    then have v: "valid_page s p" using 1(3,4) by (simp add: valid_page_def)
    then obtain t where t: "kfree p s = Ret () t" "kmem_ready t (p # xs)" "k_end t = k_end s"
      using kmem_ready_kfree [OF 1(2)] 1(6) by auto
    have "x < p + PGSIZE \<longleftrightarrow> x = p \<or> x < p" if "page_aligned x" for x
      using page_step [OF that 1(3) _ _ lt] lp by (meson less_trans not_le)
    then have "set (p # xs) = {x. valid_page t x \<and> x < p + PGSIZE}"
      using 1(6) v t(3) by (auto simp: valid_page_def)
    moreover have "k_end t \<le> p + PGSIZE" using 1(4) lp t(3) by simp
    moreover have "Collect (valid_page t) = Collect (valid_page s)" using t(3) by (auto simp: valid_page_def)
    ultimately have "\<exists>u ys. freerange_from (p + PGSIZE) PHYSTOP t = Ret () u \<and> kmem_ready u ys
        \<and> set ys = {x. valid_page s x}"
      using 1(1) [OF True t(1) t(2)] True 1(3) by (auto simp: page_aligned_Suc)
    then show ?thesis using True t by (simp add: freerange_from.simps [of p])
  qed
qed

text \<open>
  C7: \<^verbatim>\<open>kinit\<close> puts every page between the end of the kernel image and \<^verbatim>\<open>PHYSTOP\<close> on the free
  list, each exactly once, and does not panic.
\<close>

theorem kinit_frees_all_pages:
  assumes "freelist s = 0" "0 < k_end s" "k_end s \<le> PHYSTOP" "intr_wf s"
  shows "\<exists>t xs. kinit s = Ret () t \<and> kmem_ready t xs \<and> distinct xs
    \<and> set xs = {x. page_aligned x \<and> k_end s \<le> x \<and> x < PHYSTOP}"
proof -
  let ?p = "PGROUNDUP (k_end s)"
  let ?s = "s\<lparr>locks := (locks s)(KmemLock := (locks s KmemLock)\<lparr>lk_name := ''kmem'', locked := 0, lk_cpu := None\<rparr>)\<rparr>"
  have b: "k_end s \<le> ?p" "?p \<le> PHYSTOP" "x < ?p \<Longrightarrow> page_aligned x \<Longrightarrow> x < k_end s" for x
  proof -
    have "unat (k_end s) + 4095 < 2 ^ 64" using assms(3) by (simp add: word_le_nat_alt PHYSTOP_val)
    note b = PGROUNDUP_bounds [OF this]
    show "k_end s \<le> ?p" "?p \<le> PHYSTOP" using b PHYSTOP_aligned assms(3) by blast+
    show "x < ?p \<Longrightarrow> page_aligned x \<Longrightarrow> x < k_end s" for x using b(2) [of x] by (meson not_le)
  qed
  have "kmem_ready ?s []"
    using assms by (simp add: kmem_ready_def kmem_ok_def lock_free_def intr_wf_def spin_defs)
  moreover have "set [] = {x. valid_page ?s x \<and> x < ?p}"
    using b(3) by (force simp: valid_page_def)
  ultimately obtain t ys where t: "freerange_from ?p PHYSTOP ?s = Ret () t" "kmem_ready t ys"
      "set ys = {x. valid_page ?s x}"
    using freerange_from_pool [of ?s "[]" ?p] b(1,2) by auto
  then have "kinit s = Ret () t"
    by (simp add: kinit_def initlock_def set_lock_def freerange_def)
  moreover have "distinct ys" using t(2) by (simp add: kmem_ready_def kmem_ok_def)
  ultimately show ?thesis using t by (auto simp: valid_page_def)
qed

definition boot_kmem :: kmem where
  "boot_kmem = \<lparr>phys = (\<lambda>_. 0), hart = 0, sie = False, cpus = (\<lambda>_. \<lparr>c_proc = None, noff = 0, intena = False\<rparr>),
     locks = (\<lambda>_. \<lparr>locked = 0, lk_name = [], lk_cpu = None\<rparr>), freelist = 0, k_end = 0x87FFD123\<rparr>"

theorem kinit_frees_all_pages_witness:
  "\<exists>t xs. kinit boot_kmem = Ret () t \<and> kmem_ready t xs
     \<and> 0x87FFE000 \<in> set xs \<and> 0x87FFD000 \<notin> set xs"
proof -
  have "freelist boot_kmem = 0" "k_end boot_kmem = 0x87FFD123" "intr_wf boot_kmem"
    by (simp_all add: boot_kmem_def intr_wf_def spin_defs)
  then obtain t xs where "kinit boot_kmem = Ret () t" "kmem_ready t xs"
      "set xs = {x. page_aligned x \<and> 0x87FFD123 \<le> x \<and> x < PHYSTOP}"
    using kinit_frees_all_pages [of boot_kmem] by (auto simp: PHYSTOP_val)
  then show ?thesis by (auto simp: page_aligned_mod PHYSTOP_val)
qed

text \<open>
  C8: successive calls of \<^verbatim>\<open>kalloc\<close> return the pages of the free list in its order, as long as the list lasts: distinct pages, each
  aligned, between the end of the kernel and \<^verbatim>\<open>PHYSTOP\<close>, and no longer on the list. The call after the last page returns null.
\<close>

theorem kalloc_distinct_pages:
  assumes "kmem_ready s xs" "n \<le> length xs"
  shows "\<exists>ps t. repeatM n kalloc s = Ret ps t \<and> ps = take n xs \<and> length ps = n \<and> distinct ps
    \<and> (\<forall>p \<in> set ps. valid_page s p \<and> p \<noteq> 0 \<and> p \<notin> set (drop n xs)) \<and> kmem_ready t (drop n xs)
    \<and> (n = length xs \<longrightarrow> (\<exists>u. kalloc t = Ret 0 u))"
  using assms by (rule ka.alloc_distinct)

definition two_pages :: kmem where
  "two_pages = boot_kmem\<lparr>freelist := 0x87FFE000, phys := st64 (\<lambda>_. 0) 0x87FFE000 0x87FFF000\<rparr>"

lemma two_pages_ready: "kmem_ready two_pages [0x87FFE000, 0x87FFF000]"
proof -
  have "ld64 (st64 (\<lambda>_. 0) 0x87FFE000 0x87FFF000) 0x87FFF000 = 0"
    by (simp add: ld64_st64_aligned aligned_mod take_bit_eq_mod) (simp add: ld64_def)
  then show ?thesis
    by (simp add: kmem_ready_def kmem_ok_def two_pages_def boot_kmem_def lock_free_def intr_wf_def
        spin_defs valid_page_def page_aligned_mod PHYSTOP_val)
qed

theorem kalloc_distinct_pages_witness:
  "\<exists>t u. repeatM 2 kalloc two_pages = Ret [0x87FFE000, 0x87FFF000] t \<and> valid_page two_pages 0x87FFF000
     \<and> kmem_ready t [] \<and> kalloc t = Ret 0 u"
  using kalloc_distinct_pages [OF two_pages_ready, of 2] by auto

text \<open>
  Freeing a page that is not free and allocating again gives that page back, with the free
  list as it was.
\<close>

theorem kfree_kalloc_roundtrip:
  assumes "kmem_ready s xs" "valid_page s x" "x \<notin> set xs"
  shows "\<exists>t. seqM (kfree x) kalloc s = Ret x t \<and> kmem_ready t xs"
  using assms by (rule ka.free_alloc)

theorem kfree_kalloc_roundtrip_witness:
  "\<exists>t. seqM (kfree 0x87FFD000) kalloc (two_pages\<lparr>k_end := 0x87FFC000\<rparr>) = Ret 0x87FFD000 t"
proof -
  have "kmem_ready (two_pages\<lparr>k_end := 0x87FFC000\<rparr>) [0x87FFE000, 0x87FFF000]"
    using two_pages_ready by (simp add: kmem_ready_def kmem_ok_def two_pages_def boot_kmem_def
        valid_page_def page_aligned_mod PHYSTOP_val lock_free_def intr_wf_def spin_defs)
  then show ?thesis
    using kfree_kalloc_roundtrip [of "two_pages\<lparr>k_end := 0x87FFC000\<rparr>" "[0x87FFE000, 0x87FFF000]" "0x87FFD000"]
    by (auto simp: valid_page_def page_aligned_mod PHYSTOP_val)
qed

end
