(* ===== verification/Vm.thy ===== *)
theory Vm
  imports Kalloc
begin

section \<open>Page tables and user memory (kernel/vm.c)\<close>

text \<open>
  The Sv39 page tables are the ones in physical memory: \<open>walk\<close> follows and creates
  page-table pages there, and every other routine of \<^verbatim>\<open>kernel/vm.c\<close> is built on it as in the
  source. A kernel-side buffer of \<^verbatim>\<open>copyout\<close>, \<^verbatim>\<open>copyin\<close> and \<^verbatim>\<open>copyinstr\<close> is a list of bytes.
\<close>

subsection \<open>State\<close>

text \<open>
  \<open>etext\<close> and \<open>trampoline_text\<close> are symbols the linker script provides; \<open>satp\<close> is
  the page-table register of the running hart.
\<close>

record vm = kmem +
  kernel_pagetable :: u64
  etext :: u64
  trampoline_text :: u64
  satp :: u64

definition set_phys :: "(mem \<Rightarrow> mem) \<Rightarrow> ('z mach_scheme, unit) M" where
  "set_phys f = modify (\<lambda>s. s\<lparr>phys := f (phys s)\<rparr>)"

definition get64 :: "u64 \<Rightarrow> ('z mach_scheme, u64) M" where
  "get64 a = gets (\<lambda>s. ld64 (phys s) a)"

definition put64 :: "u64 \<Rightarrow> u64 \<Rightarrow> ('z mach_scheme, unit) M" where
  "put64 a v = set_phys (\<lambda>m. st64 m a v)"

definition read_bytes :: "mem \<Rightarrow> u64 \<Rightarrow> nat \<Rightarrow> u8 list" where
  "read_bytes m a n = map (\<lambda>i. m (a + of_nat i)) [0..<n]"

primrec write_bytes :: "u64 \<Rightarrow> u8 list \<Rightarrow> mem \<Rightarrow> mem" where
  "write_bytes a [] m = m"
| "write_bytes a (b # bs) m = write_bytes (a + 1) bs (m(a := b))"

subsection \<open>Walking\<close>

primrec walk_from :: "nat \<Rightarrow> u64 \<Rightarrow> u64 \<Rightarrow> bool \<Rightarrow> ('z kmem_scheme, u64) M" where
  "walk_from 0 pagetable va alloc = returnM (pagetable + PX 0 va * 8)"
| "walk_from (Suc l) pagetable va alloc =
     bindM (get64 (pagetable + PX (Suc l) va * 8)) (\<lambda>pte.
     if pte AND PTE_V \<noteq> 0 then walk_from l (PTE2PA pte) va alloc
     else if \<not> alloc then returnM 0 else
     bindM kalloc (\<lambda>child.
     if child = 0 then returnM 0 else
     seqM (set_phys (memset child 0 4096)) (
     seqM (put64 (pagetable + PX (Suc l) va * 8) (PA2PTE child OR PTE_V))
          (walk_from l child va alloc))))"

definition walk :: "u64 \<Rightarrow> u64 \<Rightarrow> bool \<Rightarrow> ('z kmem_scheme, u64) M" where
  "walk pagetable va alloc =
     (if va \<ge> MAXVA then panic ''walk'' else walk_from 2 pagetable va alloc)"

lemma walk_guard: "walk pt va alloc s = Ret x t \<Longrightarrow> va < MAXVA"
  by (auto simp: walk_def not_le split: if_splits)

lemma page_measure:
  assumes "a < MAXVA"
  shows "2 ^ 64 - unat (a + PGSIZE) < 2 ^ 64 - unat a"
proof -
  have "unat a < unat MAXVA" using assms by (simp add: word_less_nat_alt)
  then have "unat a < unat (a + PGSIZE)" by (simp add: MAXVA_val unat_word_ariths)
  moreover have "unat (a + PGSIZE) < 2 ^ 64" using unsigned_less [of "a + PGSIZE"] by simp
  ultimately show ?thesis by simp
qed

definition walkaddr :: "u64 \<Rightarrow> u64 \<Rightarrow> ('z kmem_scheme, u64) M" where
  "walkaddr pagetable va =
     (if va \<ge> MAXVA then returnM 0 else
      bindM (walk pagetable va False) (\<lambda>pte.
      if pte = 0 then returnM 0 else
      bindM (get64 pte) (\<lambda>e.
      if e AND PTE_V = 0 then returnM 0
      else if e AND PTE_U = 0 then returnM 0
      else returnM (PTE2PA e))))"

subsection \<open>Mapping and unmapping\<close>

function mappages_from :: "u64 \<Rightarrow> u64 \<Rightarrow> u64 \<Rightarrow> u64 \<Rightarrow> u64 \<Rightarrow> ('z kmem_scheme, int) M" where
  "mappages_from pagetable a final pa perm s =
     bindM (walk pagetable a True) (\<lambda>pte.
     if pte = 0 then returnM (- 1) else
     bindM (get64 pte) (\<lambda>e.
     if e AND PTE_V \<noteq> 0 then panic ''mappages: remap'' else
     seqM (put64 pte (PA2PTE pa OR perm OR PTE_V)) (
     if a = final then returnM 0
     else mappages_from pagetable (a + PGSIZE) final (pa + PGSIZE) perm))) s"
  by pat_completeness auto
termination
  by (relation "measure (\<lambda>(pt, a, final, pa, perm, s). 2 ^ 64 - unat a)")
    (auto dest!: walk_guard intro!: page_measure simp del: power_numeral)

declare mappages_from.simps [simp del]

definition mappages :: "u64 \<Rightarrow> u64 \<Rightarrow> u64 \<Rightarrow> u64 \<Rightarrow> u64 \<Rightarrow> ('z kmem_scheme, int) M" where
  "mappages pagetable va sz pa perm =
     (if sz = 0 then panic ''mappages: size''
      else mappages_from pagetable (PGROUNDDOWN va) (PGROUNDDOWN (va + sz - 1)) pa perm)"

definition kvmmap :: "u64 \<Rightarrow> u64 \<Rightarrow> u64 \<Rightarrow> u64 \<Rightarrow> u64 \<Rightarrow> ('z kmem_scheme, unit) M" where
  "kvmmap kpgtbl va pa sz perm =
     bindM (mappages kpgtbl va sz pa perm) (\<lambda>r.
     if r \<noteq> 0 then panic ''kvmmap'' else returnM ())"

function uvmunmap_from :: "u64 \<Rightarrow> u64 \<Rightarrow> u64 \<Rightarrow> bool \<Rightarrow> ('z kmem_scheme, unit) M" where
  "uvmunmap_from pagetable a bound do_free s =
     (if a < bound then
        bindM (walk pagetable a False) (\<lambda>pte.
        if pte = 0 then panic ''uvmunmap: walk'' else
        bindM (get64 pte) (\<lambda>e.
        if e AND PTE_V = 0 then panic ''uvmunmap: not mapped''
        else if PTE_FLAGS e = PTE_V then panic ''uvmunmap: not a leaf'' else
        seqM (whenM do_free (kfree (PTE2PA e))) (
        seqM (put64 pte 0)
             (uvmunmap_from pagetable (a + PGSIZE) bound do_free)))) s
      else Ret () s)"
  by pat_completeness auto
termination
  by (relation "measure (\<lambda>(pt, a, bound, f, s). 2 ^ 64 - unat a)")
    (auto dest!: walk_guard intro!: page_measure simp del: power_numeral)

declare uvmunmap_from.simps [simp del]

definition uvmunmap :: "u64 \<Rightarrow> u64 \<Rightarrow> u64 \<Rightarrow> bool \<Rightarrow> ('z kmem_scheme, unit) M" where
  "uvmunmap pagetable va npages do_free =
     (if va mod PGSIZE \<noteq> 0 then panic ''uvmunmap: not aligned''
      else uvmunmap_from pagetable va (va + npages * PGSIZE) do_free)"

subsection \<open>The kernel's page table\<close>

definition proc_mapstacks :: "u64 \<Rightarrow> ('z kmem_scheme, unit) M" where
  "proc_mapstacks kpgtbl =
     forM [0..<64] (\<lambda>p.
       bindM kalloc (\<lambda>pa.
       if pa = 0 then panic ''kalloc'' else
       kvmmap kpgtbl (KSTACK p) pa PGSIZE (PTE_R OR PTE_W)))"

definition kvmmake :: "('z vm_scheme, u64) M" where
  "kvmmake =
     bindM kalloc (\<lambda>kpgtbl.
     if kpgtbl = 0 then stopM (Fault ''memset of a null page'') else
     seqM (set_phys (memset kpgtbl 0 4096)) (
     seqM (kvmmap kpgtbl UART0 UART0 PGSIZE (PTE_R OR PTE_W)) (
     seqM (kvmmap kpgtbl VIRTIO0 VIRTIO0 PGSIZE (PTE_R OR PTE_W)) (
     seqM (kvmmap kpgtbl PLIC PLIC 0x400000 (PTE_R OR PTE_W)) (
     bindM (gets etext) (\<lambda>et.
     seqM (kvmmap kpgtbl KERNBASE KERNBASE (et - KERNBASE) (PTE_R OR PTE_X)) (
     seqM (kvmmap kpgtbl et et (PHYSTOP - et) (PTE_R OR PTE_W)) (
     bindM (gets trampoline_text) (\<lambda>tr.
     seqM (kvmmap kpgtbl TRAMPOLINE tr PGSIZE (PTE_R OR PTE_X)) (
     seqM (proc_mapstacks kpgtbl)
          (returnM kpgtbl)))))))))))"

definition kvminit :: "('z vm_scheme, unit) M" where
  "kvminit = bindM kvmmake (\<lambda>pt. modify (\<lambda>s. s\<lparr>kernel_pagetable := pt\<rparr>))"

definition MAKE_SATP :: "u64 \<Rightarrow> u64" where
  "MAKE_SATP pagetable = push_bit 60 8 OR drop_bit 12 pagetable"

definition kvminithart :: "('z vm_scheme, unit) M" where
  "kvminithart = modify (\<lambda>s. s\<lparr>satp := MAKE_SATP (kernel_pagetable s)\<rparr>)"

subsection \<open>User address spaces\<close>

definition uvmcreate :: "('z kmem_scheme, u64) M" where
  "uvmcreate =
     bindM kalloc (\<lambda>pagetable.
     if pagetable = 0 then returnM 0 else
     seqM (set_phys (memset pagetable 0 4096))
          (returnM pagetable))"

definition uvminit :: "u64 \<Rightarrow> u8 list \<Rightarrow> ('z kmem_scheme, unit) M" where
  "uvminit pagetable src =
     (if length src \<ge> 4096 then panic ''inituvm: more than a page'' else
      bindM kalloc (\<lambda>mem.
      if mem = 0 then stopM (Fault ''memset of a null page'') else
      seqM (set_phys (memset mem 0 4096)) (
      bindM (mappages pagetable 0 PGSIZE mem (PTE_W OR PTE_R OR PTE_X OR PTE_U)) (\<lambda>_.
      set_phys (write_bytes mem src)))))"

definition uvmdealloc :: "u64 \<Rightarrow> u64 \<Rightarrow> u64 \<Rightarrow> ('z kmem_scheme, u64) M" where
  "uvmdealloc pagetable oldsz newsz =
     (if newsz \<ge> oldsz then returnM oldsz else
      seqM (whenM (PGROUNDUP newsz < PGROUNDUP oldsz)
             (uvmunmap pagetable (PGROUNDUP newsz)
                (word_of_int (int_of_u64 ((PGROUNDUP oldsz - PGROUNDUP newsz) div PGSIZE))) True))
           (returnM newsz))"

lemma mappages_guard:
  assumes "mappages pt a sz pa perm s = Ret x t"
  shows "PGROUNDDOWN a < MAXVA"
proof -
  have "mappages_from pt (PGROUNDDOWN a) (PGROUNDDOWN (a + sz - 1)) pa perm s = Ret x t"
    using assms by (simp add: mappages_def split: if_splits)
  then show ?thesis by (subst (asm) mappages_from.simps) (auto simp: bindM_eq_Ret dest: walk_guard)
qed

lemma rounded_measure:
  assumes "PGROUNDDOWN a < MAXVA"
  shows "2 ^ 64 - unat (a + PGSIZE) < 2 ^ 64 - unat a"
proof -
  have "unat (PGROUNDDOWN a) < unat MAXVA" using assms by (simp add: word_less_nat_alt)
  moreover have "unat a mod 4096 < 4096" by simp
  ultimately have "unat a < unat MAXVA + 4096" unfolding unat_PGROUNDDOWN by linarith
  then have "unat a < unat (a + PGSIZE)" by (simp add: MAXVA_val unat_word_ariths)
  moreover have "unat (a + PGSIZE) < 2 ^ 64" using unsigned_less [of "a + PGSIZE"] by simp
  ultimately show ?thesis by simp
qed

function uvmalloc_from :: "u64 \<Rightarrow> u64 \<Rightarrow> u64 \<Rightarrow> u64 \<Rightarrow> ('z kmem_scheme, u64) M" where
  "uvmalloc_from pagetable oldsz a newsz s =
     (if a < newsz then
        bindM kalloc (\<lambda>mem.
        if mem = 0 then seqM (uvmdealloc pagetable a oldsz) (returnM 0) else
        seqM (set_phys (memset mem 0 4096)) (
        bindM (mappages pagetable a PGSIZE mem (PTE_W OR PTE_X OR PTE_R OR PTE_U)) (\<lambda>r.
        if r \<noteq> 0 then
          seqM (kfree mem) (seqM (uvmdealloc pagetable a oldsz) (returnM 0))
        else uvmalloc_from pagetable oldsz (a + PGSIZE) newsz))) s
      else Ret newsz s)"
  by pat_completeness auto
termination
  by (relation "measure (\<lambda>(pt, olds, a, n, s). 2 ^ 64 - unat a)")
    (auto dest!: mappages_guard intro!: rounded_measure simp del: power_numeral)

declare uvmalloc_from.simps [simp del]

definition uvmalloc :: "u64 \<Rightarrow> u64 \<Rightarrow> u64 \<Rightarrow> ('z kmem_scheme, u64) M" where
  "uvmalloc pagetable oldsz newsz =
     (if newsz < oldsz then returnM oldsz
      else uvmalloc_from pagetable (PGROUNDUP oldsz) (PGROUNDUP oldsz) newsz)"

text \<open>
  \<^verbatim>\<open>freewalk\<close> recurses once per level of the table it is given; the first argument bounds the
  depth, and a table deeper than it is a \<open>Fault\<close>.
\<close>

primrec freewalk :: "nat \<Rightarrow> u64 \<Rightarrow> ('z kmem_scheme, unit) M" where
  "freewalk 0 pagetable = stopM (Fault ''freewalk: depth'')"
| "freewalk (Suc depth) pagetable =
     seqM (forM [0..<512] (\<lambda>i.
       bindM (get64 (pagetable + of_nat i * 8)) (\<lambda>pte.
       if pte AND PTE_V \<noteq> 0 \<and> pte AND (PTE_R OR PTE_W OR PTE_X) = 0 then
         seqM (freewalk depth (PTE2PA pte))
              (put64 (pagetable + of_nat i * 8) 0)
       else if pte AND PTE_V \<noteq> 0 then panic ''freewalk: leaf''
       else returnM ())))
     (kfree pagetable)"

definition uvmfree :: "u64 \<Rightarrow> u64 \<Rightarrow> ('z kmem_scheme, unit) M" where
  "uvmfree pagetable sz =
     seqM (whenM (sz > 0) (uvmunmap pagetable 0 (PGROUNDUP sz div PGSIZE) True))
          (freewalk 3 pagetable)"

definition uvmcopy_err :: "u64 \<Rightarrow> u64 \<Rightarrow> ('z kmem_scheme, int) M" where
  "uvmcopy_err new i = seqM (uvmunmap new 0 (i div PGSIZE) True) (returnM (- 1))"

function uvmcopy_from :: "u64 \<Rightarrow> u64 \<Rightarrow> u64 \<Rightarrow> u64 \<Rightarrow> ('z kmem_scheme, int) M" where
  "uvmcopy_from old new i sz s =
     (if i < sz then
        bindM (walk old i False) (\<lambda>pte.
        if pte = 0 then panic ''uvmcopy: pte should exist'' else
        bindM (get64 pte) (\<lambda>e.
        if e AND PTE_V = 0 then panic ''uvmcopy: page not present'' else
        bindM kalloc (\<lambda>mem.
        if mem = 0 then uvmcopy_err new i else
        seqM (set_phys (memmove mem (PTE2PA e) 4096)) (
        bindM (mappages new i PGSIZE mem (PTE_FLAGS e)) (\<lambda>r.
        if r \<noteq> 0 then seqM (kfree mem) (uvmcopy_err new i)
        else uvmcopy_from old new (i + PGSIZE) sz))))) s
      else Ret 0 s)"
  by pat_completeness auto
termination
  by (relation "measure (\<lambda>(old, new, i, sz, s). 2 ^ 64 - unat i)")
    (auto dest!: walk_guard intro!: page_measure simp del: power_numeral)

declare uvmcopy_from.simps [simp del]

definition uvmcopy :: "u64 \<Rightarrow> u64 \<Rightarrow> u64 \<Rightarrow> ('z kmem_scheme, int) M" where
  "uvmcopy old new sz = uvmcopy_from old new 0 sz"

definition uvmclear :: "u64 \<Rightarrow> u64 \<Rightarrow> ('z kmem_scheme, unit) M" where
  "uvmclear pagetable va =
     bindM (walk pagetable va False) (\<lambda>pte.
     if pte = 0 then panic ''uvmclear'' else
     bindM (get64 pte) (\<lambda>e. put64 pte (e AND NOT PTE_U)))"

subsection \<open>Copying between user and kernel\<close>

definition page_room :: "u64 \<Rightarrow> nat \<Rightarrow> nat" where
  "page_room va len = min (4096 - unat (va - PGROUNDDOWN va)) len"

lemma page_room_pos: "0 < len \<Longrightarrow> 0 < page_room va len"
  using page_offset_less [of va] by (simp add: page_room_def word_less_nat_alt)

function copyout :: "u64 \<Rightarrow> u64 \<Rightarrow> u8 list \<Rightarrow> ('z kmem_scheme, int) M" where
  "copyout pagetable dstva src s =
     (if src = [] then Ret 0 s else
      bindM (walkaddr pagetable (PGROUNDDOWN dstva)) (\<lambda>pa0.
      if pa0 = 0 then returnM (- 1) else
      seqM (set_phys (write_bytes (pa0 + (dstva - PGROUNDDOWN dstva))
                        (take (page_room dstva (length src)) src)))
           (copyout pagetable (PGROUNDDOWN dstva + PGSIZE)
              (drop (page_room dstva (length src)) src))) s)"
  by pat_completeness auto
termination
  by (relation "measure (\<lambda>(pt, va, src, s). length src)") (auto simp: page_room_pos)

declare copyout.simps [simp del]

text \<open>
  \<^verbatim>\<open>copyin\<close> and \<^verbatim>\<open>copyinstr\<close> return their status and the bytes they have stored at \<^verbatim>\<open>dst\<close>.
\<close>

function copyin :: "u64 \<Rightarrow> u64 \<Rightarrow> nat \<Rightarrow> ('z kmem_scheme, int \<times> u8 list) M" where
  "copyin pagetable srcva len s =
     (if len = 0 then Ret (0, []) s else
      bindM (walkaddr pagetable (PGROUNDDOWN srcva)) (\<lambda>pa0.
      if pa0 = 0 then returnM (- 1, []) else
      bindM (gets (\<lambda>s. read_bytes (phys s) (pa0 + (srcva - PGROUNDDOWN srcva)) (page_room srcva len))) (\<lambda>bs.
      bindM (copyin pagetable (PGROUNDDOWN srcva + PGSIZE) (len - page_room srcva len)) (\<lambda>rest.
      returnM (fst rest, bs @ snd rest)))) s)"
  by pat_completeness auto
termination
  by (relation "measure (\<lambda>(pt, va, len, s). len)") (auto simp: page_room_pos)

declare copyin.simps [simp del]

primrec scan_nul :: "mem \<Rightarrow> u64 \<Rightarrow> nat \<Rightarrow> u8 list \<times> bool" where
  "scan_nul m p 0 = ([], False)"
| "scan_nul m p (Suc n) =
     (if m p = 0 then ([0], True)
      else (m p # fst (scan_nul m (p + 1) n), snd (scan_nul m (p + 1) n)))"

function copyinstr :: "u64 \<Rightarrow> u64 \<Rightarrow> nat \<Rightarrow> ('z kmem_scheme, int \<times> u8 list) M" where
  "copyinstr pagetable srcva mx s =
     (if mx = 0 then Ret (- 1, []) s else
      bindM (walkaddr pagetable (PGROUNDDOWN srcva)) (\<lambda>pa0.
      if pa0 = 0 then returnM (- 1, []) else
      bindM (gets (\<lambda>s. scan_nul (phys s) (pa0 + (srcva - PGROUNDDOWN srcva)) (page_room srcva mx))) (\<lambda>got.
      if snd got then returnM (0, fst got) else
      bindM (copyinstr pagetable (PGROUNDDOWN srcva + PGSIZE) (mx - page_room srcva mx)) (\<lambda>rest.
      returnM (fst rest, fst got @ snd rest)))) s)"
  by pat_completeness auto
termination
  by (relation "measure (\<lambda>(pt, va, mx, s). mx)") (auto simp: page_room_pos)

declare copyinstr.simps [simp del]

end
