(* ===== verification/PageTable.thy ===== *)
theory PageTable
  imports Vm
begin

section \<open>Page tables refine maps from addresses to entries\<close>

text \<open>
  A page table in memory is a tree of page-table pages. \<open>tables\<close> collects its pages,
  \<open>tree_ok\<close> says that they form a tree of aligned pages, and \<open>pte_at\<close> is the map from virtual
  addresses to entries that it represents. The lemmas show what \<open>walk\<close>, \<open>mappages\<close> and
  \<open>uvmunmap\<close> do to that map, and what the copy routines see through it.
\<close>

subsection \<open>Slots of a page-table page\<close>

definition slot :: "u64 \<Rightarrow> u64 \<Rightarrow> u64" where
  "slot pt i = pt + i * 8"

definition entry :: "mem \<Rightarrow> u64 \<Rightarrow> u64 \<Rightarrow> u64" where
  "entry m pt i = ld64 m (slot pt i)"

definition valid_pte :: "u64 \<Rightarrow> bool" where
  "valid_pte e \<longleftrightarrow> e AND PTE_V \<noteq> 0"

lemma valid_pte_bit: "valid_pte e \<longleftrightarrow> bit e 0"
  by (simp add: valid_pte_def and_one_eq odd_iff_mod_2_eq_one bit_0)

lemma slot_off:
  fixes i :: u64
  assumes "i < 512"
  shows "i * 8 < 4096" "aligned 3 (i * 8)" "unat (i * 8) = unat i * 8"
proof -
  have "unat i < 512" using assms by (simp add: word_less_nat_alt)
  then show u: "unat (i * 8) = unat i * 8" by (simp add: unat_word_ariths)
  then show "i * 8 < 4096" using \<open>unat i < 512\<close> by (simp add: word_less_nat_alt)
  have "i * 8 = push_bit 3 i" by (simp add: push_bit_eq_mult)
  then show "aligned 3 (i * 8)" by (simp add: aligned_def bit_simps)
qed

lemma slot_page: "page_aligned pt \<Longrightarrow> i < 512 \<Longrightarrow> PGROUNDDOWN (slot pt i) = pt"
  by (simp add: slot_def PGROUNDDOWN_add slot_off)

lemma slot_aligned3: "page_aligned pt \<Longrightarrow> i < 512 \<Longrightarrow> aligned 3 (slot pt i)"
  by (simp add: slot_def aligned_add aligned3_page slot_off)

lemma slot_inj:
  assumes "page_aligned pt" "page_aligned pt'" "i < 512" "j < 512" "slot pt i = slot pt' j"
  shows "pt = pt' \<and> i = j"
proof -
  have "pt = pt'" using slot_page [of pt i] slot_page [of pt' j] assms by metis
  moreover from this have "unat i * 8 = unat j * 8"
    using assms(5) slot_off(3) [OF assms(3)] slot_off(3) [OF assms(4)] by (simp add: slot_def)
  ultimately show ?thesis by (simp add: word_unat_eq_iff)
qed

lemma slot_nonzero: "page_aligned pt \<Longrightarrow> pt \<noteq> 0 \<Longrightarrow> i < 512 \<Longrightarrow> slot pt i \<noteq> 0"
  using slot_page [of pt i] by (metis PGROUNDDOWN_id aligned_0)

lemma entry_frame:
  assumes "page_aligned pt" "i < 512" "\<And>a. PGROUNDDOWN a = pt \<Longrightarrow> m' a = m a"
  shows "entry m' pt i = entry m pt i"
  unfolding entry_def
  by (rule ld64_page_cong) (use assms in \<open>simp_all add: slot_aligned3 slot_page\<close>)

lemma entry_st64:
  assumes "page_aligned pt" "page_aligned pt'" "i < 512" "j < 512"
  shows "entry (st64 m (slot pt i) v) pt' j = (if pt = pt' \<and> i = j then v else entry m pt' j)"
  using slot_inj [OF assms] ld64_st64_aligned [OF slot_aligned3 [OF assms(1,3)] slot_aligned3 [OF assms(2,4)]]
  by (auto simp: entry_def)

lemma st64_slot_other:
  "page_aligned pt \<Longrightarrow> i < 512 \<Longrightarrow> PGROUNDDOWN b \<noteq> pt \<Longrightarrow> st64 m (slot pt i) v b = m b"
  by (rule st64_page_other) (simp_all add: slot_page slot_aligned3)

lemma entry_zero_page:
  assumes "page_aligned c" "i < 512" "\<And>a. PGROUNDDOWN a = c \<Longrightarrow> m a = 0"
  shows "entry m c i = 0"
proof -
  have "entry m c i = entry (\<lambda>_. 0) c i" using assms by (intro entry_frame) auto
  then show ?thesis by (simp add: entry_def ld64_def)
qed

subsection \<open>The tree of page-table pages\<close>

primrec tables :: "nat \<Rightarrow> mem \<Rightarrow> u64 \<Rightarrow> u64 set" where
  "tables 0 m pt = {pt}"
| "tables (Suc l) m pt =
     insert pt (\<Union>i \<in> {i. i < 512 \<and> valid_pte (entry m pt i)}. tables l m (PTE2PA (entry m pt i)))"

primrec tree_ok :: "nat \<Rightarrow> mem \<Rightarrow> u64 \<Rightarrow> bool" where
  "tree_ok 0 m pt \<longleftrightarrow> page_aligned pt \<and> pt \<noteq> 0"
| "tree_ok (Suc l) m pt \<longleftrightarrow> page_aligned pt \<and> pt \<noteq> 0
     \<and> (\<forall>i<512. valid_pte (entry m pt i) \<longrightarrow>
          tree_ok l m (PTE2PA (entry m pt i)) \<and> pt \<notin> tables l m (PTE2PA (entry m pt i)))
     \<and> (\<forall>i<512. \<forall>j<512. valid_pte (entry m pt i) \<longrightarrow> valid_pte (entry m pt j) \<longrightarrow> i \<noteq> j \<longrightarrow>
          tables l m (PTE2PA (entry m pt i)) \<inter> tables l m (PTE2PA (entry m pt j)) = {})"

primrec walk_pure :: "nat \<Rightarrow> mem \<Rightarrow> u64 \<Rightarrow> u64 \<Rightarrow> u64 option" where
  "walk_pure 0 m pt va = Some (slot pt (PX 0 va))"
| "walk_pure (Suc l) m pt va =
     (if valid_pte (entry m pt (PX (Suc l) va))
      then walk_pure l m (PTE2PA (entry m pt (PX (Suc l) va))) va else None)"

definition pte_at :: "nat \<Rightarrow> mem \<Rightarrow> u64 \<Rightarrow> u64 \<Rightarrow> u64 option" where
  "pte_at l m pt va = (case walk_pure l m pt va of None \<Rightarrow> None
     | Some a \<Rightarrow> if valid_pte (ld64 m a) then Some (ld64 m a) else None)"

lemma pte_at_0: "pte_at 0 m pt va =
    (if valid_pte (entry m pt (PX 0 va)) then Some (entry m pt (PX 0 va)) else None)"
  by (simp add: pte_at_def entry_def)

lemma pte_at_Suc: "pte_at (Suc l) m pt va =
    (if valid_pte (entry m pt (PX (Suc l) va)) then pte_at l m (PTE2PA (entry m pt (PX (Suc l) va))) va
     else None)"
  by (simp add: pte_at_def)

lemma tree_ok_root: "tree_ok l m pt \<Longrightarrow> page_aligned pt \<and> pt \<noteq> 0"
  by (cases l) auto

lemma tables_root: "pt \<in> tables l m pt"
  by (cases l) auto

lemma tables_child:
  "i < 512 \<Longrightarrow> valid_pte (entry m pt i) \<Longrightarrow> tables l m (PTE2PA (entry m pt i)) \<subseteq> tables (Suc l) m pt"
  by auto

lemma tree_frame:
  assumes "tree_ok l m pt" "\<And>a. PGROUNDDOWN a \<in> tables l m pt \<Longrightarrow> m' a = m a"
  shows "tables l m' pt = tables l m pt \<and> tree_ok l m' pt
    \<and> (\<forall>va. walk_pure l m' pt va = walk_pure l m pt va) \<and> (\<forall>va. pte_at l m' pt va = pte_at l m pt va)"
  using assms
proof (induction l arbitrary: pt)
  case 0
  then have "entry m' pt i = entry m pt i" if "i < 512" for i
    using that by (intro entry_frame) auto
  then show ?case using 0 by (simp add: pte_at_0 PX_less)
next
  case (Suc l)
  have e: "entry m' pt i = entry m pt i" if "i < 512" for i
    using that Suc.prems by (intro entry_frame) auto
  have c: "tables l m' c = tables l m c \<and> tree_ok l m' c
    \<and> (\<forall>va. walk_pure l m' c va = walk_pure l m c va) \<and> (\<forall>va. pte_at l m' c va = pte_at l m c va)"
    if "i < 512" "valid_pte (entry m pt i)" "c = PTE2PA (entry m pt i)" for i c
    using that Suc.prems by (intro Suc.IH) auto
  have "tables (Suc l) m' pt = tables (Suc l) m pt" using c e by auto
  moreover have "tree_ok (Suc l) m' pt" using Suc.prems(1) c e by auto
  moreover have "walk_pure (Suc l) m' pt va = walk_pure (Suc l) m pt va" for va
    using c [OF PX_less] e [OF PX_less] by simp
  moreover have "pte_at (Suc l) m' pt va = pte_at (Suc l) m pt va" for va
    using c [OF PX_less] e [OF PX_less] by (simp add: pte_at_Suc)
  ultimately show ?case by blast
qed

text \<open>A change confined to one child's subtree (and to pages outside the tree).\<close>

lemma tree_lift:
  assumes ok: "tree_ok (Suc l) m pt" and i: "i < 512" "valid_pte (entry m pt i)"
    and c: "c = PTE2PA (entry m pt i)"
    and same: "\<And>a. PGROUNDDOWN a \<notin> tables l m c \<union> P \<Longrightarrow> m' a = m a"
    and P: "P \<inter> tables (Suc l) m pt = {}" and Q: "Q \<subseteq> P"
    and sub: "tree_ok l m' c" "tables l m' c = tables l m c \<union> Q"
  shows "tree_ok (Suc l) m' pt" "tables (Suc l) m' pt = tables (Suc l) m pt \<union> Q"
    "walk_pure (Suc l) m' pt va = (if PX (Suc l) va = i then walk_pure l m' c va else walk_pure (Suc l) m pt va)"
    "pte_at (Suc l) m' pt va = (if PX (Suc l) va = i then pte_at l m' c va else pte_at (Suc l) m pt va)"
proof -
  have pt: "page_aligned pt" "pt \<notin> tables l m c" "pt \<notin> P"
    using ok i c P by auto
  have e: "entry m' pt j = entry m pt j" if "j < 512" for j
    using that pt same by (intro entry_frame) auto
  have disj: "tables l m (PTE2PA (entry m pt j)) \<inter> (tables l m c \<union> P) = {}"
    if "j < 512" "valid_pte (entry m pt j)" "j \<noteq> i" for j
  proof -
    have "tables l m (PTE2PA (entry m pt j)) \<inter> tables l m c = {}" using that ok i c by auto
    moreover have "tables l m (PTE2PA (entry m pt j)) \<subseteq> tables (Suc l) m pt"
      using that by (intro tables_child)
    ultimately show ?thesis using P by blast
  qed
  have fr: "tables l m' d = tables l m d \<and> tree_ok l m' d
    \<and> (\<forall>va. walk_pure l m' d va = walk_pure l m d va) \<and> (\<forall>va. pte_at l m' d va = pte_at l m d va)"
    if "j < 512" "valid_pte (entry m pt j)" "j \<noteq> i" "d = PTE2PA (entry m pt j)" for j d
  proof (rule tree_frame)
    show "tree_ok l m d" using that ok by auto
    show "PGROUNDDOWN a \<in> tables l m d \<Longrightarrow> m' a = m a" for a
      using disj [OF that(1-3)] that(4) same by blast
  qed
  have tb: "tables l m' (PTE2PA (entry m' pt j)) = tables l m (PTE2PA (entry m pt j)) \<union> (if j = i then Q else {})"
    if "j < 512" "valid_pte (entry m pt j)" for j
    using that fr e sub(2) c by auto
  show "tables (Suc l) m' pt = tables (Suc l) m pt \<union> Q"
    using e tb i by (auto split: if_splits)
  have d2: "tables l m (PTE2PA (entry m pt j)) \<inter> tables l m (PTE2PA (entry m pt k)) = {}"
    if "j < 512" "k < 512" "valid_pte (entry m pt j)" "valid_pte (entry m pt k)" "j \<noteq> k" for j k
    using that ok by auto
  have dQ: "tables l m (PTE2PA (entry m pt j)) \<inter> Q = {}" if "j < 512" "valid_pte (entry m pt j)" for j
    using tables_child [OF that, of l] P Q by blast
  show "tree_ok (Suc l) m' pt"
    unfolding tree_ok.simps
  proof (intro conjI allI impI)
    show "page_aligned pt" "pt \<noteq> 0" using ok by auto
    fix j assume j: "j < 512" "valid_pte (entry m' pt j)"
    then have jv: "valid_pte (entry m pt j)" by (simp add: e)
    show "tree_ok l m' (PTE2PA (entry m' pt j))"
      using j jv fr sub(1) c e by (cases "j = i") auto
    show "pt \<notin> tables l m' (PTE2PA (entry m' pt j))"
      unfolding tb [OF j(1) jv] using ok j(1) jv pt(3) Q by auto
    fix k assume k: "k < 512" "valid_pte (entry m' pt k)" "j \<noteq> k"
    then have kv: "valid_pte (entry m pt k)" by (simp add: e)
    show "tables l m' (PTE2PA (entry m' pt j)) \<inter> tables l m' (PTE2PA (entry m' pt k)) = {}"
      unfolding tb [OF j(1) jv] tb [OF k(1) kv]
      using d2 [OF j(1) k(1) jv kv k(3)] dQ [OF j(1) jv] dQ [OF k(1) kv] k(3) by auto
  qed
  show "walk_pure (Suc l) m' pt va = (if PX (Suc l) va = i then walk_pure l m' c va else walk_pure (Suc l) m pt va)"
    using fr [OF PX_less] e [OF PX_less] i c by auto
  show "pte_at (Suc l) m' pt va = (if PX (Suc l) va = i then pte_at l m' c va else pte_at (Suc l) m pt va)"
    using fr [OF PX_less] e [OF PX_less] i c by (auto simp: pte_at_Suc)
qed

text \<open>An empty page as a page table.\<close>

lemma zero_table:
  assumes "page_aligned c" "c \<noteq> 0" "\<And>a. PGROUNDDOWN a = c \<Longrightarrow> m a = 0"
  shows "tables l m c = {c}" "tree_ok l m c" "pte_at l m c va = None"
proof -
  have e: "entry m c i = 0" if "i < 512" for i using that assms by (intro entry_zero_page)
  have v: "\<not> valid_pte (entry m c i)" if "i < 512" for i using e [OF that] by (simp add: valid_pte_def)
  show "tables l m c = {c}" using v by (cases l) auto
  show "tree_ok l m c" using assms(1,2) v by (cases l) auto
  show "pte_at l m c va = None" using v [OF PX_less] by (cases l) (auto simp: pte_at_0 pte_at_Suc)
qed

text \<open>Hanging a fresh, zeroed page into an empty slot.\<close>

lemma tree_grow:
  assumes ok: "tree_ok (Suc l) m pt" and i: "i < 512" "\<not> valid_pte (entry m pt i)"
    and c: "page_aligned c" "c \<noteq> 0" "c < 2 ^ 56" "c \<notin> tables (Suc l) m pt"
  defines "m' \<equiv> st64 (memset c 0 4096 m) (slot pt i) (PA2PTE c OR PTE_V)"
  shows "tree_ok (Suc l) m' pt" "tables (Suc l) m' pt = insert c (tables (Suc l) m pt)"
    "pte_at (Suc l) m' pt va = pte_at (Suc l) m pt va"
    "valid_pte (entry m' pt i)" "PTE2PA (entry m' pt i) = c"
    "PGROUNDDOWN b \<noteq> pt \<Longrightarrow> PGROUNDDOWN b \<noteq> c \<Longrightarrow> m' b = m b"
proof -
  have pt: "page_aligned pt" "pt \<noteq> 0" "c \<noteq> pt" using ok c(4) by auto
  have mem: "m' b = (if PGROUNDDOWN b = c then 0 else m b)" if "PGROUNDDOWN b \<noteq> pt" for b
    using that pt i c(1) by (simp add: m'_def st64_slot_other memset_page)
  then show "PGROUNDDOWN b \<noteq> pt \<Longrightarrow> PGROUNDDOWN b \<noteq> c \<Longrightarrow> m' b = m b" by simp
  have e0: "entry (memset c 0 4096 m) pt j = entry m pt j" if "j < 512" for j
    using that pt c(1) by (intro entry_frame) (auto simp: memset_page)
  have e: "entry m' pt j = (if j = i then PA2PTE c OR PTE_V else entry m pt j)" if "j < 512" for j
    using that e0 entry_st64 [OF pt(1) pt(1) i(1) that] by (auto simp: m'_def)
  show vi: "valid_pte (entry m' pt i)"
    using e [OF i(1)] by (simp add: valid_pte_bit bit_simps)
  show pi: "PTE2PA (entry m' pt i) = c"
    using e [OF i(1)] c by (simp add: PTE2PA_PA2PTE)
  have z: "tables l m' c = {c}" "tree_ok l m' c" "pte_at l m' c va = None" for va
    using zero_table [of c m' l] c(1,2) mem pt by auto
  have fr: "tables l m' d = tables l m d \<and> tree_ok l m' d
    \<and> (\<forall>va. walk_pure l m' d va = walk_pure l m d va) \<and> (\<forall>va. pte_at l m' d va = pte_at l m d va)"
    if "j < 512" "valid_pte (entry m pt j)" "d = PTE2PA (entry m pt j)" for j d
  proof (rule tree_frame)
    show "tree_ok l m d" using that ok by auto
    fix a assume "PGROUNDDOWN a \<in> tables l m d"
    moreover have "tables l m d \<subseteq> tables (Suc l) m pt" using that tables_child by blast
    moreover have "pt \<notin> tables l m d" using that ok by auto
    ultimately show "m' a = m a" using mem c(4) by (metis subsetD)
  qed
  show "tables (Suc l) m' pt = insert c (tables (Suc l) m pt)"
    using e fr i vi pi z(1) by (auto split: if_splits)
  show "tree_ok (Suc l) m' pt"
    unfolding tree_ok.simps
  proof (intro conjI allI impI)
    show "page_aligned pt" "pt \<noteq> 0" using pt by auto
    fix j assume j: "j < 512" "valid_pte (entry m' pt j)"
    show "tree_ok l m' (PTE2PA (entry m' pt j))" "pt \<notin> tables l m' (PTE2PA (entry m' pt j))"
      using j e [OF j(1)] fr [OF j(1)] z pi pt ok by (cases "j = i"; auto)+
    fix k assume k: "k < 512" "valid_pte (entry m' pt k)" "j \<noteq> k"
    have n: "c \<notin> tables l m (PTE2PA (entry m pt n))" if "n < 512" "valid_pte (entry m pt n)" for n
      using tables_child [OF that, of l] c(4) by blast
    show "tables l m' (PTE2PA (entry m' pt j)) \<inter> tables l m' (PTE2PA (entry m' pt k)) = {}"
      using j k e [OF j(1)] e [OF k(1)] fr [OF j(1)] fr [OF k(1)] z pi n ok
      by (cases "j = i"; cases "k = i") auto
  qed
  show "pte_at (Suc l) m' pt va = pte_at (Suc l) m pt va"
    using e [OF PX_less [of "Suc l" va]] fr [OF PX_less] z(3) pi i by (auto simp: pte_at_Suc)
qed

subsection \<open>Walking, with and without allocation\<close>

lemma get64_apply [simp, monad_simps]: "get64 a s = Ret (ld64 (phys s) a) s"
  by (simp add: get64_def)

lemma set_phys_apply [simp, monad_simps]: "set_phys f s = Ret () (s\<lparr>phys := f (phys s)\<rparr>)"
  by (simp add: set_phys_def)

lemma put64_apply [simp, monad_simps]: "put64 a v s = Ret () (s\<lparr>phys := st64 (phys s) a v\<rparr>)"
  by (simp add: put64_def)

lemma walk_from_lookup:
  "walk_from l pt va False s = Ret (case walk_pure l (phys s) pt va of None \<Rightarrow> 0 | Some a \<Rightarrow> a) s"
  by (induction l arbitrary: pt) (auto simp: slot_def entry_def valid_pte_def bindM_apply)

lemma walk_lookup:
  "va < MAXVA \<Longrightarrow>
   walk pt va False s = Ret (case walk_pure 2 (phys s) pt va of None \<Rightarrow> 0 | Some a \<Rightarrow> a) s"
  by (simp add: walk_def walk_from_lookup)

lemma walk_pure_page:
  "tree_ok l m pt \<Longrightarrow> walk_pure l m pt va = Some a
   \<Longrightarrow> PGROUNDDOWN a \<in> tables l m pt \<and> aligned 3 a \<and> a \<noteq> 0"
proof (induction l arbitrary: pt)
  case 0
  then show ?case by (auto simp: slot_page slot_aligned3 slot_nonzero PX_less)
next
  case (Suc l)
  then show ?case using PX_less [of "Suc l" va] by (auto split: if_splits)
qed

text \<open>States that differ in memory and the free list only.\<close>

definition mem_only :: "'z kmem_scheme \<Rightarrow> 'z kmem_scheme \<Rightarrow> bool" where
  "mem_only s t \<longleftrightarrow> settle t = (settle s)\<lparr>phys := phys t, freelist := freelist t\<rparr>"

lemma settle_phys_same [simp]: "s\<lparr>phys := phys s\<rparr> = s" "t\<lparr>freelist := freelist t\<rparr> = t"
  by simp_all

lemma mem_only_refl [simp]: "mem_only s s"
proof -
  have "(settle s)\<lparr>phys := phys s, freelist := freelist s\<rparr>
      = (settle s)\<lparr>phys := phys (settle s), freelist := freelist (settle s)\<rparr>" by simp
  also have "\<dots> = settle s" by (simp del: settle_simps kmem_lock_read)
  finally show ?thesis by (simp add: mem_only_def)
qed

lemma mem_only_trans: "mem_only s t \<Longrightarrow> mem_only t u \<Longrightarrow> mem_only s u"
  by (simp add: mem_only_def)

lemma mem_only_settle [simp]: "mem_only s (settle t) = mem_only s t" "mem_only (settle s) t = mem_only s t"
  by (simp_all add: mem_only_def)

lemma mem_only_phys: "mem_only s t \<Longrightarrow> mem_only s (t\<lparr>phys := m\<rparr>)"
  by (simp add: mem_only_def)

lemma mem_only_freelist: "mem_only s t \<Longrightarrow> mem_only s (t\<lparr>freelist := f\<rparr>)"
  by (simp add: mem_only_def)

lemma mem_only_eq:
  assumes "mem_only s t"
  shows "k_end t = k_end s" "hart t = hart s" "locks t = locks s" "sie t = sie s"
  using arg_cong [OF assms [unfolded mem_only_def], of k_end]
    arg_cong [OF assms [unfolded mem_only_def], of hart]
    arg_cong [OF assms [unfolded mem_only_def], of locks]
    arg_cong [OF assms [unfolded mem_only_def], of sie]
  by simp_all

subsection \<open>What a walk that allocates does\<close>

definition grown :: "nat \<Rightarrow> u64 \<Rightarrow> u64 list \<Rightarrow> 'z kmem_scheme \<Rightarrow> 'z kmem_scheme \<Rightarrow> bool" where
  "grown l pt zs s t \<longleftrightarrow>
     tree_ok l (phys t) pt \<and> tables l (phys t) pt = tables l (phys s) pt \<union> set zs
   \<and> (\<forall>wa. pte_at l (phys t) pt wa = pte_at l (phys s) pt wa)
   \<and> (\<forall>b. PGROUNDDOWN b \<notin> tables l (phys s) pt \<union> set zs \<longrightarrow> phys t b = phys s b)
   \<and> mem_only s t"

lemma grown_child:
  assumes ok: "tree_ok (Suc l) (phys s) pt" and i: "i < 512" "valid_pte (entry (phys s) pt i)"
    and c: "c = PTE2PA (entry (phys s) pt i)"
    and g: "grown l c zs s t" and zs: "set zs \<inter> tables (Suc l) (phys s) pt = {}"
  shows "grown (Suc l) pt zs s t"
    "PX (Suc l) va = i \<Longrightarrow> walk_pure (Suc l) (phys t) pt va = walk_pure l (phys t) c va"
proof -
  have same: "\<And>a. PGROUNDDOWN a \<notin> tables l (phys s) c \<union> set zs \<Longrightarrow> phys t a = phys s a"
    and sub: "tree_ok l (phys t) c" "tables l (phys t) c = tables l (phys s) c \<union> set zs"
    using g by (auto simp: grown_def)
  note L = tree_lift [OF ok i c same zs subset_refl sub]
  show "grown (Suc l) pt zs s t"
    unfolding grown_def
  proof (intro conjI allI impI)
    fix wa
    show "pte_at (Suc l) (phys t) pt wa = pte_at (Suc l) (phys s) pt wa"
      using L(4) [of wa] g i c by (auto simp: grown_def pte_at_Suc)
  next
    fix b assume "PGROUNDDOWN b \<notin> tables (Suc l) (phys s) pt \<union> set zs"
    moreover have "tables l (phys s) c \<subseteq> tables (Suc l) (phys s) pt"
      using i c tables_child by blast
    ultimately show "phys t b = phys s b" using same by blast
  qed (use L g in \<open>auto simp: grown_def\<close>)
  show "PX (Suc l) va = i \<Longrightarrow> walk_pure (Suc l) (phys t) pt va = walk_pure l (phys t) c va"
    using L(3) [of va] by (simp only: if_True simp_thms)
qed

lemma memset_again: "page_aligned c \<Longrightarrow> memset c x 4096 (memset c y 4096 m) = memset c x 4096 m"
  by (rule ext) (simp add: memset_page)

lemma pool_pageD:
  assumes "kmem_ready s xs" "x \<in> set xs"
  shows "page_aligned x" "x \<noteq> 0" "x < 2 ^ 56" "valid_page s x"
proof -
  have v: "valid_page s x" and k: "0 < k_end s"
    using assms by (auto simp: kmem_ready_def kmem_ok_def)
  show "page_aligned x" "x \<noteq> 0" "valid_page s x"
    using v valid_page_nonzero [OF k v] by (auto simp: valid_page_def)
  have "x < PHYSTOP" using v by (simp add: valid_page_def)
  then show "x < 2 ^ 56" by (auto simp: PHYSTOP_val word_less_nat_alt)
qed

lemma kmem_ready_phys:
  assumes "kmem_ready s xs" "\<And>a. PGROUNDDOWN a \<in> set xs \<Longrightarrow> m a = phys s a"
  shows "kmem_ready (s\<lparr>phys := m\<rparr>) xs"
  using assms kmem_ok_frame [of s xs "s\<lparr>phys := m\<rparr>"] by (simp add: kmem_ready_def)

text \<open>One allocated, zeroed page hung into an empty slot.\<close>

lemma walk_alloc_step:
  assumes ok: "tree_ok (Suc l) (phys s) pt" and i: "i < 512" "\<not> valid_pte (entry (phys s) pt i)"
    and xs: "kmem_ready s (c # xs)" "set (c # xs) \<inter> tables (Suc l) (phys s) pt = {}"
  obtains s1 where "kalloc s = Ret c s1"
    "let u = s1\<lparr>phys := st64 (memset c 0 4096 (phys s1)) (slot pt i) (PA2PTE c OR PTE_V)\<rparr> in
       kmem_ready u xs \<and> grown (Suc l) pt [c] s u
     \<and> valid_pte (entry (phys u) pt i) \<and> PTE2PA (entry (phys u) pt i) = c"
proof -
  define s1 where "s1 = (settle s)\<lparr>freelist := ld64 (phys s) c, phys := memset c 5 4096 (phys s)\<rparr>"
  define m where "m = st64 (memset c 0 4096 (phys s)) (slot pt i) (PA2PTE c OR PTE_V)"
  have k: "kalloc s = Ret c s1" "kmem_ready s1 xs"
    using kmem_ready_Cons [OF xs(1)] by (auto simp: s1_def)
  have cp: "page_aligned c" "c \<noteq> 0" "c < 2 ^ 56" using pool_pageD [OF xs(1), of c] by simp_all
  have pt: "page_aligned pt" "pt \<in> tables (Suc l) (phys s) pt" using ok by auto
  have d: "distinct (c # xs)" using xs(1) by (simp add: kmem_ready_def kmem_ok_def)
  have e: "st64 (memset c 0 4096 (phys s1)) (slot pt i) (PA2PTE c OR PTE_V) = m"
    using cp(1) by (simp add: s1_def m_def memset_again)
  have "c \<notin> tables (Suc l) (phys s) pt" using xs(2) by (auto simp del: tables.simps)
  note G = tree_grow [OF ok i cp this, folded m_def]
  have "kmem_ready (s1\<lparr>phys := m\<rparr>) xs"
  proof (rule kmem_ready_phys [OF k(2)])
    fix a assume a: "PGROUNDDOWN a \<in> set xs"
    then have "PGROUNDDOWN a \<noteq> pt" "PGROUNDDOWN a \<noteq> c" using xs(2) pt(2) d by auto
    then show "m a = phys s1 a" using G(6) cp(1) by (simp add: s1_def memset_page)
  qed
  moreover have "grown (Suc l) pt [c] s (s1\<lparr>phys := m\<rparr>)"
  proof -
    have "m b = phys s b" if "PGROUNDDOWN b \<notin> tables (Suc l) (phys s) pt \<union> set [c]" for b
      using that pt(2) by (intro G(6)) (auto simp del: tables.simps)
    moreover have "mem_only s (s1\<lparr>phys := m\<rparr>)" by (simp add: s1_def mem_only_phys mem_only_freelist)
    ultimately show ?thesis using G(1-3) by (simp add: grown_def del: tables.simps tree_ok.simps)
  qed
  ultimately show thesis
    using that k(1) G(4,5) e by (simp add: Let_def)
qed

lemma grown_trans:
  assumes "grown l pt zs s t" "grown l pt ws t u"
  shows "grown l pt (zs @ ws) s u"
  using assms by (auto simp: grown_def intro: mem_only_trans)

lemma walk_grows:
  assumes "tree_ok l (phys s) pt" "kmem_ready s xs" "set xs \<inter> tables l (phys s) pt = {}"
  shows "\<exists>a t zs ys. walk_from l pt va True s = Ret a t \<and> xs = zs @ ys \<and> kmem_ready t ys
    \<and> grown l pt zs s t \<and> (a = 0 \<and> ys = [] \<and> length zs < l \<or> walk_pure l (phys t) pt va = Some a \<and> length zs \<le> l)"
  using assms
proof (induction l arbitrary: pt s xs)
  case 0
  have "grown 0 pt [] s s" using 0 by (simp add: grown_def)
  then have "walk_from 0 pt va True s = Ret (slot pt (PX 0 va)) s \<and> xs = [] @ xs \<and> kmem_ready s xs
      \<and> grown 0 pt [] s s \<and> walk_pure 0 (phys s) pt va = Some (slot pt (PX 0 va))"
    using 0 by (simp add: slot_def)
  then show ?case by blast
next
  case (Suc l)
  let ?i = "PX (Suc l) va"
  have child: "\<exists>a t zs ys. walk_from l (PTE2PA (entry (phys s) pt ?i)) va True s = Ret a t \<and> xs = zs @ ys
      \<and> kmem_ready t ys \<and> grown (Suc l) pt zs s t
      \<and> (a = 0 \<and> ys = [] \<and> length zs < l \<or> walk_pure (Suc l) (phys t) pt va = Some a \<and> length zs \<le> l)"
    if v: "valid_pte (entry (phys s) pt ?i)" and ok: "tree_ok (Suc l) (phys s) pt"
      and xs: "kmem_ready s xs" "set xs \<inter> tables (Suc l) (phys s) pt = {}" for s :: "'a kmem_scheme" and xs
  proof -
    define c where "c = PTE2PA (entry (phys s) pt ?i)"
    have okc: "tree_ok l (phys s) c" using ok v PX_less by (simp add: c_def)
    have "tables l (phys s) c \<subseteq> tables (Suc l) (phys s) pt"
      using tables_child [OF PX_less v] by (simp only: c_def)
    then have "set xs \<inter> tables l (phys s) c = {}" using xs(2) by blast
    from Suc.IH [OF okc xs(1) this] obtain a t zs ys where r: "walk_from l c va True s = Ret a t" "xs = zs @ ys"
        "kmem_ready t ys" "grown l c zs s t" "a = 0 \<and> ys = [] \<and> length zs < l \<or> walk_pure l (phys t) c va = Some a \<and> length zs \<le> l"
      by blast
    have "set zs \<inter> tables (Suc l) (phys s) pt = {}" using r(2) xs(2) by (auto simp del: tables.simps)
    note g = grown_child [OF ok PX_less v c_def r(4) this]
    have "a = 0 \<and> ys = [] \<and> length zs < l \<or> walk_pure (Suc l) (phys t) pt va = Some a \<and> length zs \<le> l"
      using r(5) unfolding g(2) [OF refl] .
    then show ?thesis using r(1-3) g(1) unfolding c_def by blast
  qed
  show ?case
  proof (cases "valid_pte (entry (phys s) pt ?i)")
    case True
    then have "walk_from (Suc l) pt va True s = walk_from l (PTE2PA (entry (phys s) pt ?i)) va True s"
      by (simp add: valid_pte_def entry_def slot_def)
    then show ?thesis
      using child [OF True Suc.prems] by (metis less_SucI le_SucI)
  next
    case inv: False
    show ?thesis
    proof (cases xs)
      case Nil
      then have "kalloc s = Ret 0 (settle s)" using Suc.prems(2) by (simp add: kmem_ready_Nil)
      then have "walk_from (Suc l) pt va True s = Ret 0 (settle s)"
        using inv by (simp add: valid_pte_def entry_def slot_def)
      moreover have "grown (Suc l) pt [] s (settle s)" using Suc.prems(1) by (simp add: grown_def)
      ultimately have "walk_from (Suc l) pt va True s = Ret 0 (settle s) \<and> xs = [] @ [] \<and> kmem_ready (settle s) []
          \<and> grown (Suc l) pt [] s (settle s) \<and> length [] < Suc l"
        using Suc.prems(2) Nil by simp
      then show ?thesis by blast
    next
      case (Cons c xs')
      obtain s1 where s1: "kalloc s = Ret c s1"
        "let u = s1\<lparr>phys := st64 (memset c 0 4096 (phys s1)) (slot pt ?i) (PA2PTE c OR PTE_V)\<rparr> in
           kmem_ready u xs' \<and> grown (Suc l) pt [c] s u
         \<and> valid_pte (entry (phys u) pt ?i) \<and> PTE2PA (entry (phys u) pt ?i) = c"
        using walk_alloc_step [OF Suc.prems(1) PX_less inv Suc.prems(2,3) [unfolded Cons]] .
      define u where "u = s1\<lparr>phys := st64 (memset c 0 4096 (phys s1)) (slot pt ?i) (PA2PTE c OR PTE_V)\<rparr>"
      have u: "kmem_ready u xs'" "grown (Suc l) pt [c] s u" "valid_pte (entry (phys u) pt ?i)"
        "PTE2PA (entry (phys u) pt ?i) = c"
        using s1(2) by (simp_all add: u_def Let_def)
      have "set xs' \<inter> tables (Suc l) (phys u) pt = {}"
        using u(2) Suc.prems(2,3) Cons by (auto simp: grown_def kmem_ready_def kmem_ok_def simp del: tables.simps)
      moreover have "tree_ok (Suc l) (phys u) pt" using u(2) by (simp add: grown_def del: tree_ok.simps)
      ultimately have "\<exists>a t zs ys. walk_from l c va True u = Ret a t \<and> xs' = zs @ ys
          \<and> kmem_ready t ys \<and> grown (Suc l) pt zs u t
          \<and> (a = 0 \<and> ys = [] \<and> length zs < l \<or> walk_pure (Suc l) (phys t) pt va = Some a \<and> length zs \<le> l)"
        using child [OF u(3) _ u(1)] unfolding u(4) by blast
      then obtain a t zs ys where r: "walk_from l c va True u = Ret a t" "xs' = zs @ ys"
          "kmem_ready t ys" "grown (Suc l) pt zs u t"
          "a = 0 \<and> ys = [] \<and> length zs < l \<or> walk_pure (Suc l) (phys t) pt va = Some a \<and> length zs \<le> l"
        by blast
      have "c \<noteq> 0" using pool_pageD [OF Suc.prems(2), of c] Cons by simp
      then have "walk_from (Suc l) pt va True s = Ret a t"
        using inv s1(1) r(1) by (simp add: valid_pte_def entry_def slot_def u_def)
      moreover have "grown (Suc l) pt (c # zs) s t" using grown_trans [OF u(2) r(4)] by simp
      moreover have "xs = (c # zs) @ ys" using Cons r(2) by simp
      moreover have "a = 0 \<and> ys = [] \<and> length (c # zs) < Suc l
          \<or> walk_pure (Suc l) (phys t) pt va = Some a \<and> length (c # zs) \<le> Suc l" using r(5) by auto
      ultimately show ?thesis using r(3) by blast
    qed
  qed
qed

subsection \<open>Writing a leaf entry\<close>

lemma tree_set_leaf:
  assumes "tree_ok l m pt" "walk_pure l m pt va = Some a"
  shows "tree_ok l (st64 m a v) pt \<and> tables l (st64 m a v) pt = tables l m pt
    \<and> (\<forall>wa. walk_pure l (st64 m a v) pt wa = walk_pure l m pt wa)
    \<and> (\<forall>wa. pte_at l (st64 m a v) pt wa =
        (if \<forall>k\<le>l. PX k wa = PX k va then (if valid_pte v then Some v else None) else pte_at l m pt wa))"
  using assms
proof (induction l arbitrary: pt)
  case 0
  then have "entry (st64 m a v) pt j = (if PX 0 va = j then v else entry m pt j)" if "j < 512" for j
    using that by (auto simp: entry_st64 PX_less)
  from this [OF PX_less] show ?case
    using 0 by (auto simp: pte_at_0)
next
  case (Suc l)
  let ?i = "PX (Suc l) va" and ?m = "st64 m a v"
  have v: "valid_pte (entry m pt ?i)"
    and w: "walk_pure l m (PTE2PA (entry m pt ?i)) va = Some a"
    using Suc.prems(2) by (auto split: if_splits)
  define c where "c = PTE2PA (entry m pt ?i)"
  have ok: "tree_ok l m c" using Suc.prems(1) v PX_less by (simp add: c_def)
  have wc: "walk_pure l m c va = Some a" using w by (simp add: c_def)
  note IH = Suc.IH [OF ok wc]
  have pg: "PGROUNDDOWN a \<in> tables l m c" "aligned 3 a" using walk_pure_page [OF ok wc] by auto
  have same: "?m b = m b" if "PGROUNDDOWN b \<notin> tables l m c \<union> {}" for b
    using that pg by (intro st64_page_other) auto
  have sub: "tree_ok l ?m c" "tables l ?m c = tables l m c \<union> {}" using IH by auto
  note L = tree_lift [OF Suc.prems(1) PX_less v c_def same _ subset_refl sub]
  have "walk_pure (Suc l) ?m pt wa = walk_pure (Suc l) m pt wa" for wa
  proof (cases "PX (Suc l) wa = ?i")
    case True
    then have "walk_pure (Suc l) ?m pt wa = walk_pure l ?m c wa" using L(3) [of wa] by simp
    also have "\<dots> = walk_pure l m c wa" using IH by blast
    also have "\<dots> = walk_pure (Suc l) m pt wa" using True v by (simp add: c_def)
    finally show ?thesis .
  next
    case False
    then show ?thesis using L(3) [of wa] by simp
  qed
  moreover have "pte_at (Suc l) ?m pt wa = (if \<forall>k\<le>Suc l. PX k wa = PX k va
      then (if valid_pte v then Some v else None) else pte_at (Suc l) m pt wa)" for wa
  proof (cases "PX (Suc l) wa = ?i")
    case True
    then have "pte_at (Suc l) ?m pt wa = pte_at l ?m c wa" using L(4) [of wa] by simp
    then show ?thesis using IH True v by (auto simp: le_Suc_eq pte_at_Suc c_def)
  next
    case False
    then show ?thesis using L(4) [of wa] by auto
  qed
  ultimately show ?case using L(1,2) by simp
qed

text \<open>Two memories with the same entries in the inner page-table pages.\<close>

primrec inner_eq :: "nat \<Rightarrow> mem \<Rightarrow> mem \<Rightarrow> u64 \<Rightarrow> bool" where
  "inner_eq 0 m m' pt \<longleftrightarrow> True"
| "inner_eq (Suc l) m m' pt \<longleftrightarrow> (\<forall>i<512. entry m' pt i = entry m pt i)
     \<and> (\<forall>i<512. valid_pte (entry m pt i) \<longrightarrow> inner_eq l m m' (PTE2PA (entry m pt i)))"

lemma inner_eq_refl [simp]: "inner_eq l m m pt"
  by (induction l arbitrary: pt) simp_all

lemma inner_eq_trans: "inner_eq l m m' pt \<Longrightarrow> inner_eq l m' m'' pt \<Longrightarrow> inner_eq l m m'' pt"
  by (induction l arbitrary: pt) auto

lemma inner_eq_frame:
  "tree_ok l m pt \<Longrightarrow> (\<And>a. PGROUNDDOWN a \<in> tables l m pt \<Longrightarrow> m' a = m a) \<Longrightarrow> inner_eq l m m' pt"
proof (induction l arbitrary: pt)
  case (Suc l)
  have "entry m' pt i = entry m pt i" if "i < 512" for i
    using that Suc.prems by (intro entry_frame) auto
  moreover have "inner_eq l m m' (PTE2PA (entry m pt i))" if "i < 512" "valid_pte (entry m pt i)" for i
    using that Suc.prems by (intro Suc.IH) auto
  ultimately show ?case by simp
qed simp

lemma inner_set_leaf:
  "tree_ok l m pt \<Longrightarrow> walk_pure l m pt va = Some a \<Longrightarrow> inner_eq l m (st64 m a v) pt"
proof (induction l arbitrary: pt)
  case (Suc l)
  let ?i = "PX (Suc l) va"
  define c where "c = PTE2PA (entry m pt ?i)"
  have vi: "valid_pte (entry m pt ?i)" and w: "walk_pure l m c va = Some a" using Suc.prems(2) by (auto simp: c_def split: if_splits)
  have ok: "tree_ok l m c" "pt \<notin> tables l m c" "page_aligned pt" using Suc.prems(1) vi PX_less by (simp_all add: c_def)
  have pg: "PGROUNDDOWN a \<in> tables l m c" "aligned 3 a" using walk_pure_page [OF ok(1) w] by auto
  have same: "st64 m a v b = m b" if "PGROUNDDOWN b \<notin> tables l m c" for b using that pg by (intro st64_page_other) auto
  have "entry (st64 m a v) pt i = entry m pt i" if "i < 512" for i
    using that ok(2,3) same by (intro entry_frame) auto
  moreover have "inner_eq l m (st64 m a v) (PTE2PA (entry m pt i))" if i: "i < 512" "valid_pte (entry m pt i)" for i
  proof (cases "i = ?i")
    case True
    then show ?thesis using Suc.IH [OF ok(1) w] by (simp add: c_def)
  next
    case False
    then have "tables l m (PTE2PA (entry m pt i)) \<inter> tables l m c = {}" using Suc.prems(1) i vi PX_less by (auto simp: c_def)
    then show ?thesis using Suc.prems(1) i same by (intro inner_eq_frame) auto
  qed
  ultimately show ?case by simp
qed simp

lemma PX_page: "PX l (PGROUNDDOWN va) = PX l va"
  by (rule bit_word_eqI) (auto simp: bit_PX bit_PGROUNDDOWN)

lemma PX_same_page:
  assumes "va < MAXVA" "wa < MAXVA"
  shows "(\<forall>k\<le>2. PX k wa = PX k va) \<longleftrightarrow> PGROUNDDOWN wa = PGROUNDDOWN va"
proof
  assume "\<forall>k\<le>2. PX k wa = PX k va"
  then show "PGROUNDDOWN wa = PGROUNDDOWN va"
    using assms by (intro PX_inj) auto
next
  assume "PGROUNDDOWN wa = PGROUNDDOWN va"
  then show "\<forall>k\<le>2. PX k wa = PX k va" by (metis PX_page)
qed

subsection \<open>Mapping a range\<close>

definition extends :: "u64 \<Rightarrow> u64 list \<Rightarrow> 'z kmem_scheme \<Rightarrow> 'z kmem_scheme \<Rightarrow> bool" where
  "extends pt zs s t \<longleftrightarrow>
     tree_ok 2 (phys t) pt \<and> tables 2 (phys t) pt = tables 2 (phys s) pt \<union> set zs
   \<and> (\<forall>b. PGROUNDDOWN b \<notin> tables 2 (phys s) pt \<union> set zs \<longrightarrow> phys t b = phys s b)
   \<and> mem_only s t"

lemma extends_trans: "extends pt zs s t \<Longrightarrow> extends pt ws t u \<Longrightarrow> extends pt (zs @ ws) s u"
  by (auto simp: extends_def intro: mem_only_trans)

lemma grown_extends: "grown 2 pt zs s t \<Longrightarrow> extends pt zs s t"
  by (simp add: grown_def extends_def)

text \<open>Everything a routine needs to change a page table: the table and a pool of free pages.\<close>

definition pt_ready :: "u64 \<Rightarrow> u64 list \<Rightarrow> 'z kmem_scheme \<Rightarrow> bool" where
  "pt_ready pt xs s \<longleftrightarrow> tree_ok 2 (phys s) pt \<and> kmem_ready s xs \<and> set xs \<inter> tables 2 (phys s) pt = {}"

lemma set_leaf_extends:
  fixes v :: u64
  assumes "pt_ready pt xs s" "walk_pure 2 (phys s) pt va = Some a"
  defines "t \<equiv> s\<lparr>phys := st64 (phys s) a v\<rparr>"
  shows "extends pt [] s t" "pt_ready pt xs t"
    "va < MAXVA \<Longrightarrow> wa < MAXVA \<Longrightarrow> pte_at 2 (phys t) pt wa =
       (if PGROUNDDOWN wa = PGROUNDDOWN va then (if valid_pte v then Some v else None)
        else pte_at 2 (phys s) pt wa)"
proof -
  have ok: "tree_ok 2 (phys s) pt" using assms(1) by (simp add: pt_ready_def)
  note S = tree_set_leaf [OF ok assms(2), of v]
  have pg: "PGROUNDDOWN a \<in> tables 2 (phys s) pt" "aligned 3 a"
    using walk_pure_page [OF ok assms(2)] by auto
  have same: "phys t b = phys s b" if "PGROUNDDOWN b \<notin> tables 2 (phys s) pt" for b
  proof -
    have "PGROUNDDOWN b \<noteq> PGROUNDDOWN a" using that pg(1) by auto
    then show ?thesis using st64_page_other [OF pg(2)] by (simp add: t_def)
  qed
  then show "extends pt [] s t" using S by (auto simp: extends_def t_def mem_only_phys)
  have "kmem_ready t xs"
    unfolding t_def
    by (rule kmem_ready_phys) (use assms(1) same in \<open>auto simp: pt_ready_def t_def\<close>)
  then show "pt_ready pt xs t" using S assms(1) by (simp add: pt_ready_def t_def)
  show "va < MAXVA \<Longrightarrow> wa < MAXVA \<Longrightarrow> pte_at 2 (phys t) pt wa =
       (if PGROUNDDOWN wa = PGROUNDDOWN va then (if valid_pte v then Some v else None)
        else pte_at 2 (phys s) pt wa)"
    using S by (simp add: t_def PX_same_page)
qed

lemma walk_ready:
  assumes "pt_ready pt xs s" "va < MAXVA"
  shows "\<exists>a t zs ys. walk pt va True s = Ret a t \<and> xs = zs @ ys \<and> extends pt zs s t \<and> pt_ready pt ys t
    \<and> (\<forall>wa. pte_at 2 (phys t) pt wa = pte_at 2 (phys s) pt wa)
    \<and> (a = 0 \<and> ys = [] \<and> length zs < 2 \<or> a \<noteq> 0 \<and> walk_pure 2 (phys t) pt va = Some a \<and> length zs \<le> 2)"
proof -
  have p: "tree_ok 2 (phys s) pt" "kmem_ready s xs" "set xs \<inter> tables 2 (phys s) pt = {}"
    using assms(1) by (auto simp: pt_ready_def)
  from walk_grows [OF p] obtain a t zs ys where r: "walk_from 2 pt va True s = Ret a t" "xs = zs @ ys"
    "kmem_ready t ys" "grown 2 pt zs s t" "a = 0 \<and> ys = [] \<and> length zs < 2 \<or> walk_pure 2 (phys t) pt va = Some a \<and> length zs \<le> 2"
    by blast
  have d: "distinct xs" using p(2) by (simp add: kmem_ready_def kmem_ok_def)
  have "pt_ready pt ys t"
    using r(2-4) p(3) d by (auto simp: pt_ready_def grown_def)
  moreover have "walk pt va True s = Ret a t" using r(1) assms(2) by (simp add: walk_def)
  moreover have "a \<noteq> 0" if "walk_pure 2 (phys t) pt va = Some a"
    using walk_pure_page [OF _ that] r(4) by (simp add: grown_def)
  ultimately show ?thesis
    using r grown_extends [OF r(4)] by (auto simp: grown_def)
qed

definition in_pages :: "u64 \<Rightarrow> nat \<Rightarrow> u64 \<Rightarrow> bool" where
  "in_pages a k wa \<longleftrightarrow> unat (PGROUNDDOWN wa - a) < k * 4096"

lemma in_pages_0 [simp]: "\<not> in_pages a 0 wa"
  by (simp add: in_pages_def)

lemma aligned_diff: "page_aligned a \<Longrightarrow> page_aligned b \<Longrightarrow> page_aligned (a - b)"
proof -
  assume "page_aligned a" "page_aligned b"
  then have "take_bit 12 (a - b) = take_bit 12 (take_bit 12 a - take_bit 12 b)"
    by (simp only: take_bit_eq_mask mask_eqs)
  then show ?thesis using \<open>page_aligned a\<close> \<open>page_aligned b\<close> by (simp add: aligned_mod)
qed

lemma page_at_least:
  assumes "page_aligned d" "d \<noteq> 0"
  shows "4096 \<le> unat d"
proof (rule ccontr)
  assume "\<not> ?thesis"
  then have "unat d mod 4096 = unat d" by simp
  then have "unat d = 0" using assms(1) by (simp add: page_aligned_unat)
  then show False using assms(2) by (simp add: word_unat_eq_iff)
qed

lemma in_pages_Suc:
  assumes "page_aligned a" "k \<le> 2 ^ 50"
  shows "in_pages a (Suc k) wa \<longleftrightarrow> PGROUNDDOWN wa = a \<or> in_pages (a + PGSIZE) k wa"
proof -
  define d where "d = PGROUNDDOWN wa - a"
  have d: "page_aligned d" using assms(1) by (simp add: d_def aligned_diff)
  have e: "PGROUNDDOWN wa - (a + PGSIZE) = d - PGSIZE" by (simp add: d_def algebra_simps)
  have z: "PGROUNDDOWN wa = a \<longleftrightarrow> d = 0" by (simp add: d_def)
  show ?thesis
  proof (cases "d = 0")
    case True
    then have "PGROUNDDOWN wa = a" "unat d = 0" using z by simp_all
    then show ?thesis unfolding in_pages_def d_def by simp
  next
    case False
    then have g: "4096 \<le> unat d" using d page_at_least by blast
    then have "unat (d - PGSIZE) = unat d - 4096" by (subst unat_sub) (simp_all add: word_le_nat_alt)
    then have "unat d < Suc k * 4096 \<longleftrightarrow> unat (d - PGSIZE) < k * 4096" using g by auto
    then show ?thesis using z False unfolding in_pages_def e d_def by blast
  qed
qed

lemma in_pages_next:
  assumes "page_aligned a" "k \<le> 2 ^ 50"
  shows "\<not> in_pages (a + PGSIZE) k a"
proof -
  have "unat (- 4096 :: u64) = 2 ^ 64 - 4096" by simp
  then show ?thesis using assms by (simp add: in_pages_def)
qed

text \<open>The entry that a mapping of \<open>a\<close> onwards to \<open>pa\<close> onwards gives an address.\<close>

definition map_entry :: "u64 \<Rightarrow> u64 \<Rightarrow> u64 \<Rightarrow> u64 \<Rightarrow> u64" where
  "map_entry a pa perm wa = (PA2PTE (pa + (PGROUNDDOWN wa - a)) OR perm) OR PTE_V"

lemma valid_map_entry: "valid_pte (x OR PTE_V)"
  by (simp add: valid_pte_bit bit_simps)

lemma pte_at_None:
  "walk_pure l m pt va = Some a \<Longrightarrow> pte_at l m pt va = None \<longleftrightarrow> \<not> valid_pte (ld64 m a)"
  by (simp add: pte_at_def)

lemma mappages_step:
  assumes "pt_ready pt xs s" "a < MAXVA" "page_aligned a" "pte_at 2 (phys s) pt a = None"
  shows "(\<exists>t. mappages_from pt a final pa perm s = Ret (- 1) t \<and> extends pt xs s t \<and> pt_ready pt [] t \<and> length xs < 2
      \<and> (\<forall>wa. pte_at 2 (phys t) pt wa = pte_at 2 (phys s) pt wa))
    \<or> (\<exists>t zs ys. xs = zs @ ys \<and> length zs \<le> 2 \<and> extends pt zs s t \<and> pt_ready pt ys t
      \<and> mappages_from pt a final pa perm s =
          (if a = final then Ret 0 t else mappages_from pt (a + PGSIZE) final (pa + PGSIZE) perm t)
      \<and> (\<forall>wa<MAXVA. pte_at 2 (phys t) pt wa =
          (if PGROUNDDOWN wa = a then Some (map_entry a pa perm wa) else pte_at 2 (phys s) pt wa)))"
proof -
  from walk_ready [OF assms(1,2)] obtain p t zs ys where w: "walk pt a True s = Ret p t" "xs = zs @ ys"
    "extends pt zs s t" "pt_ready pt ys t" "\<forall>wa. pte_at 2 (phys t) pt wa = pte_at 2 (phys s) pt wa"
    "p = 0 \<and> ys = [] \<and> length zs < 2 \<or> p \<noteq> 0 \<and> walk_pure 2 (phys t) pt a = Some p \<and> length zs \<le> 2"
    by blast
  show ?thesis
  proof (cases "p = 0")
    case True
    then have "mappages_from pt a final pa perm s = Ret (- 1) t"
      by (subst mappages_from.simps) (simp add: w(1))
    then show ?thesis using w True by auto
  next
    case False
    then have p: "walk_pure 2 (phys t) pt a = Some p" using w(6) by simp
    let ?v = "(PA2PTE pa OR perm) OR PTE_V"
    let ?u = "t\<lparr>phys := st64 (phys t) p ?v\<rparr>"
    have "\<not> valid_pte (ld64 (phys t) p)" using pte_at_None [OF p] w(5) assms(4) by simp
    then have "mappages_from pt a final pa perm s =
        (if a = final then Ret 0 ?u else mappages_from pt (a + PGSIZE) final (pa + PGSIZE) perm ?u)"
      by (subst mappages_from.simps) (simp add: w(1) False valid_pte_def or.assoc)
    moreover note S = set_leaf_extends [OF w(4) p, where v = ?v]
    have "pte_at 2 (phys ?u) pt wa =
        (if PGROUNDDOWN wa = a then Some (map_entry a pa perm wa) else pte_at 2 (phys s) pt wa)"
      if "wa < MAXVA" for wa
      using S(3) [OF assms(2) that] assms(3) w(5) valid_map_entry by (simp add: map_entry_def)
    moreover have "extends pt zs s ?u" using extends_trans [OF w(3) S(1)] by simp
    ultimately show ?thesis using w(2,6) S(2) False by blast
  qed
qed

definition maps_pages ::
    "u64 \<Rightarrow> u64 \<Rightarrow> nat \<Rightarrow> u64 \<Rightarrow> u64 \<Rightarrow> 'z kmem_scheme \<Rightarrow> 'z kmem_scheme \<Rightarrow> bool" where
  "maps_pages pt a k pa perm s t \<longleftrightarrow> (\<forall>wa<MAXVA. pte_at 2 (phys t) pt wa =
     (if in_pages a k wa then Some (map_entry a pa perm wa) else pte_at 2 (phys s) pt wa))"

lemma maps_pages_Suc:
  assumes a: "page_aligned a" "k \<le> 2 ^ 50"
    and one: "\<forall>wa<MAXVA. pte_at 2 (phys t) pt wa =
      (if PGROUNDDOWN wa = a then Some (map_entry a pa perm wa) else pte_at 2 (phys s) pt wa)"
    and rest: "maps_pages pt (a + PGSIZE) k (pa + PGSIZE) perm t u"
  shows "maps_pages pt a (Suc k) pa perm s u"
  unfolding maps_pages_def
proof (intro allI impI)
  fix wa assume wa: "wa < MAXVA"
  have e: "map_entry (a + PGSIZE) (pa + PGSIZE) perm wa = map_entry a pa perm wa"
    by (simp add: map_entry_def)
  have n: "\<not> in_pages (a + PGSIZE) k wa" if "PGROUNDDOWN wa = a"
    using in_pages_next [OF a] that a(1) by (simp add: in_pages_def)
  show "pte_at 2 (phys u) pt wa =
      (if in_pages a (Suc k) wa then Some (map_entry a pa perm wa) else pte_at 2 (phys s) pt wa)"
    using wa one rest n by (auto simp: maps_pages_def in_pages_Suc [OF a] e)
qed

lemma mappages_from_range:
  assumes "pt_ready pt xs s" "page_aligned a" "unat a + Suc n * 4096 \<le> 2 ^ 38"
    and "\<forall>wa<MAXVA. in_pages a (Suc n) wa \<longrightarrow> pte_at 2 (phys s) pt wa = None"
  shows "\<exists>r t zs ys k. mappages_from pt a (a + of_nat n * PGSIZE) pa perm s = Ret r t \<and> xs = zs @ ys
    \<and> extends pt zs s t \<and> pt_ready pt ys t
    \<and> (r = 0 \<and> k = Suc n \<or> r = - 1 \<and> k \<le> n \<and> ys = [] \<and> length xs < 2 * Suc n) \<and> maps_pages pt a k pa perm s t"
  using assms
proof (induction n arbitrary: a pa s xs)
  case (0 a pa s xs)
  have lt: "a < MAXVA" using 0(3) by (simp add: word_less_nat_alt MAXVA_val)
  have none: "pte_at 2 (phys s) pt a = None" using 0(4) lt 0(2) by (simp add: in_pages_def)
  have one: "in_pages a (Suc 0) wa \<longleftrightarrow> PGROUNDDOWN wa = a" for wa
    using in_pages_Suc [OF 0(2), of 0 wa] by simp
  from mappages_step [OF 0(1) lt 0(2) none, of a pa perm] show ?case
  proof (elim disjE exE conjE)
    fix t
    assume "mappages_from pt a a pa perm s = Ret (- 1) t" "extends pt xs s t" "pt_ready pt [] t" "length xs < 2"
      "\<forall>wa. pte_at 2 (phys t) pt wa = pte_at 2 (phys s) pt wa"
    moreover from this have "maps_pages pt a 0 pa perm s t" by (simp add: maps_pages_def)
    ultimately show ?thesis
      by (intro exI [of _ "- 1"] exI [of _ t] exI [of _ xs] exI [of _ "[]"] exI [of _ 0]) simp
  next
    fix t zs ys
    assume r: "xs = zs @ ys" "length zs \<le> 2" "extends pt zs s t" "pt_ready pt ys t"
      "mappages_from pt a a pa perm s =
         (if a = a then Ret 0 t else mappages_from pt (a + PGSIZE) a (pa + PGSIZE) perm t)"
      "\<forall>wa<MAXVA. pte_at 2 (phys t) pt wa =
         (if PGROUNDDOWN wa = a then Some (map_entry a pa perm wa) else pte_at 2 (phys s) pt wa)"
    then have "maps_pages pt a (Suc 0) pa perm s t" by (simp add: maps_pages_def one)
    then show ?thesis using r
      by (intro exI [of _ "0"] exI [of _ t] exI [of _ zs] exI [of _ ys] exI [of _ "Suc 0"]) simp
  qed
next
  case (Suc n a pa s xs)
  let ?f = "a + of_nat (Suc n) * PGSIZE"
  have lt: "a < MAXVA" using Suc.prems(3) by (simp add: word_less_nat_alt MAXVA_val)
  have none: "pte_at 2 (phys s) pt a = None" using Suc.prems(4) lt Suc.prems(2) by (simp add: in_pages_def)
  have n: "Suc n \<le> 2 ^ 50" "n \<le> 2 ^ 50" using Suc.prems(3) by simp_all
  have ne: "a \<noteq> ?f"
  proof
    assume "a = ?f"
    then have "of_nat (Suc n) * PGSIZE = 0" by simp
    then have "unat (of_nat (Suc n * 4096) :: u64) = 0" by (metis of_nat_mult of_nat_numeral unat_0)
    then have "Suc n * 4096 mod 2 ^ LENGTH(64) = 0" unfolding unat_of_nat .
    then show False using n by simp
  qed
  have f: "?f = (a + PGSIZE) + of_nat n * PGSIZE" by (simp add: algebra_simps)
  have ua: "unat (a + PGSIZE) = unat a + 4096" using Suc.prems(3) by (simp add: unat_word_ariths)
  from mappages_step [OF Suc.prems(1) lt Suc.prems(2) none, of ?f pa perm] show ?case
  proof (elim disjE exE conjE)
    fix t
    assume "mappages_from pt a ?f pa perm s = Ret (- 1) t" "extends pt xs s t" "pt_ready pt [] t" "length xs < 2"
      "\<forall>wa. pte_at 2 (phys t) pt wa = pte_at 2 (phys s) pt wa"
    moreover from this have "maps_pages pt a 0 pa perm s t" by (simp add: maps_pages_def)
    ultimately show ?thesis
      by (intro exI [of _ "- 1"] exI [of _ t] exI [of _ xs] exI [of _ "[]"] exI [of _ 0]) simp
  next
    fix t zs ys
    assume r: "xs = zs @ ys" "length zs \<le> 2" "extends pt zs s t" "pt_ready pt ys t"
      "mappages_from pt a ?f pa perm s =
         (if a = ?f then Ret 0 t else mappages_from pt (a + PGSIZE) ?f (pa + PGSIZE) perm t)"
      and one: "\<forall>wa<MAXVA. pte_at 2 (phys t) pt wa =
         (if PGROUNDDOWN wa = a then Some (map_entry a pa perm wa) else pte_at 2 (phys s) pt wa)"
    have "\<forall>wa<MAXVA. in_pages (a + PGSIZE) (Suc n) wa \<longrightarrow> pte_at 2 (phys t) pt wa = None"
      using Suc.prems(4) one in_pages_Suc [OF Suc.prems(2) n(1)] in_pages_next [OF Suc.prems(2) n(1)]
        Suc.prems(2) by (auto simp: in_pages_def)
    then obtain q u zs' ys' k where q: "mappages_from pt (a + PGSIZE) ?f (pa + PGSIZE) perm t = Ret q u"
        "ys = zs' @ ys'" "extends pt zs' t u" "pt_ready pt ys' u"
        "q = 0 \<and> k = Suc n \<or> q = - 1 \<and> k \<le> n \<and> ys' = [] \<and> length ys < 2 * Suc n"
        "maps_pages pt (a + PGSIZE) k (pa + PGSIZE) perm t u"
      using Suc.IH [OF r(4) page_aligned_Suc [OF Suc.prems(2)], of "pa + PGSIZE"] Suc.prems(3) ua
      unfolding f by auto
    have "maps_pages pt a (Suc k) pa perm s u"
      using maps_pages_Suc [OF Suc.prems(2) _ one q(6)] q(5) n by auto
    moreover have "mappages_from pt a ?f pa perm s = Ret q u" using r(5) q(1) ne by simp
    moreover have "extends pt (zs @ zs') s u" using extends_trans [OF r(3) q(3)] .
    ultimately show ?thesis using r(1,2) q(2,4,5)
      by (intro exI [of _ q] exI [of _ u] exI [of _ "zs @ zs'"] exI [of _ ys'] exI [of _ "Suc k"]) auto
  qed
qed

subsection \<open>Unmapping a range\<close>

primrec frames_of :: "mem \<Rightarrow> u64 \<Rightarrow> u64 \<Rightarrow> nat \<Rightarrow> u64 list" where
  "frames_of m pt a 0 = []"
| "frames_of m pt a (Suc n) = PTE2PA (the (pte_at 2 m pt a)) # frames_of m pt (a + PGSIZE) n"

definition unmaps_pages :: "u64 \<Rightarrow> u64 \<Rightarrow> nat \<Rightarrow> 'z kmem_scheme \<Rightarrow> 'z kmem_scheme \<Rightarrow> bool" where
  "unmaps_pages pt a n s t \<longleftrightarrow> (\<forall>wa<MAXVA. pte_at 2 (phys t) pt wa =
     (if in_pages a n wa then None else pte_at 2 (phys s) pt wa))"

text \<open>The pages of the range are mapped by leaf entries.\<close>

primrec mapped_leaves :: "mem \<Rightarrow> u64 \<Rightarrow> u64 \<Rightarrow> nat \<Rightarrow> bool" where
  "mapped_leaves m pt a 0 \<longleftrightarrow> True"
| "mapped_leaves m pt a (Suc n) \<longleftrightarrow>
     (\<exists>e. pte_at 2 m pt a = Some e \<and> PTE_FLAGS e \<noteq> PTE_V) \<and> mapped_leaves m pt (a + PGSIZE) n"

lemma leaves_cong:
  assumes "page_aligned a" "unat a + n * 4096 \<le> 2 ^ 38"
    and "\<And>wa. wa < MAXVA \<Longrightarrow> in_pages a n wa \<Longrightarrow> pte_at 2 m' pt wa = pte_at 2 m pt wa"
  shows "frames_of m' pt a n = frames_of m pt a n \<and> mapped_leaves m' pt a n = mapped_leaves m pt a n"
  using assms
proof (induction n arbitrary: a)
  case 0
  then show ?case by simp
next
  case (Suc n)
  have ua: "unat (a + PGSIZE) = unat a + 4096" using Suc.prems(2) by (simp add: unat_word_ariths)
  have n: "n \<le> 2 ^ 50" using Suc.prems(2) by simp
  have lt: "a < MAXVA" using Suc.prems(2) by (simp add: word_less_nat_alt MAXVA_val)
  have "pte_at 2 m' pt a = pte_at 2 m pt a"
    using Suc.prems(1,3) lt by (simp add: in_pages_def)
  moreover have "frames_of m' pt (a + PGSIZE) n = frames_of m pt (a + PGSIZE) n
      \<and> mapped_leaves m' pt (a + PGSIZE) n = mapped_leaves m pt (a + PGSIZE) n"
    using Suc.prems ua in_pages_Suc [OF Suc.prems(1) n]
    by (intro Suc.IH) (auto simp: page_aligned_Suc)
  ultimately show ?case by simp
qed

text \<open>Freeing a page that is neither free nor a page-table page keeps the table.\<close>

lemma kfree_pt_ready:
  assumes "pt_ready pt xs s" "valid_page s f" "f \<notin> set xs" "f \<notin> tables 2 (phys s) pt"
  shows "\<exists>t. kfree f s = Ret () t \<and> pt_ready pt (f # xs) t \<and> mem_only s t
    \<and> tables 2 (phys t) pt = tables 2 (phys s) pt
    \<and> (\<forall>va. walk_pure 2 (phys t) pt va = walk_pure 2 (phys s) pt va)
    \<and> (\<forall>va. pte_at 2 (phys t) pt va = pte_at 2 (phys s) pt va)
    \<and> (\<forall>b. PGROUNDDOWN b \<noteq> f \<longrightarrow> phys t b = phys s b)"
proof -
  have p: "tree_ok 2 (phys s) pt" "kmem_ready s xs" "set xs \<inter> tables 2 (phys s) pt = {}"
    using assms(1) by (auto simp: pt_ready_def)
  define t where "t = (settle s)\<lparr>phys := st64 (memset f 1 4096 (phys s)) f (freelist s), freelist := f\<rparr>"
  have k: "kfree f s = Ret () t" "kmem_ready t (f # xs)"
    using kmem_ready_kfree [OF p(2) assms(2,3)] by (auto simp: t_def)
  have f: "page_aligned f" "aligned 3 f" using assms(2) by (auto dest: valid_pageD)
  have same: "phys t b = phys s b" if "PGROUNDDOWN b \<noteq> f" for b
    using that f st64_page_other [OF f(2), of b] by (simp add: t_def memset_page)
  have "tables 2 (phys t) pt = tables 2 (phys s) pt \<and> tree_ok 2 (phys t) pt
    \<and> (\<forall>va. walk_pure 2 (phys t) pt va = walk_pure 2 (phys s) pt va)
    \<and> (\<forall>va. pte_at 2 (phys t) pt va = pte_at 2 (phys s) pt va)"
    by (rule tree_frame [OF p(1)]) (use assms(4) same in metis)
  moreover have "mem_only s t" by (simp add: t_def mem_only_phys mem_only_freelist)
  ultimately show ?thesis using k p(3) assms(4) same by (auto simp: pt_ready_def)
qed

lemma unmap_step:
  assumes "pt_ready pt xs s" "a < MAXVA" "page_aligned a" "a < bound"
    and e: "pte_at 2 (phys s) pt a = Some e" "PTE_FLAGS e \<noteq> PTE_V"
    and f: "do_free \<Longrightarrow> valid_page s (PTE2PA e) \<and> PTE2PA e \<notin> set xs \<union> tables 2 (phys s) pt"
  shows "\<exists>t. uvmunmap_from pt a bound do_free s = uvmunmap_from pt (a + PGSIZE) bound do_free t
    \<and> pt_ready pt (if do_free then PTE2PA e # xs else xs) t \<and> mem_only s t
    \<and> tables 2 (phys t) pt = tables 2 (phys s) pt
    \<and> (\<forall>wa<MAXVA. pte_at 2 (phys t) pt wa =
         (if PGROUNDDOWN wa = a then None else pte_at 2 (phys s) pt wa))
    \<and> (\<forall>b. PGROUNDDOWN b \<notin> tables 2 (phys s) pt \<longrightarrow> (do_free \<longrightarrow> PGROUNDDOWN b \<noteq> PTE2PA e)
         \<longrightarrow> phys t b = phys s b) \<and> inner_eq 2 (phys s) (phys t) pt"
proof -
  obtain p where p: "walk_pure 2 (phys s) pt a = Some p" "ld64 (phys s) p = e" "valid_pte e"
    using e(1) by (auto simp: pte_at_def split: option.splits if_splits)
  have "tree_ok 2 (phys s) pt" using assms(1) by (simp add: pt_ready_def)
  then have p0: "p \<noteq> 0" using walk_pure_page [OF _ p(1)] by blast
  let ?ys = "if do_free then PTE2PA e # xs else xs"
  have "\<exists>u. whenM do_free (kfree (PTE2PA e)) s = Ret () u \<and> pt_ready pt ?ys u \<and> mem_only s u
    \<and> tables 2 (phys u) pt = tables 2 (phys s) pt
    \<and> walk_pure 2 (phys u) pt a = Some p
    \<and> (\<forall>va. pte_at 2 (phys u) pt va = pte_at 2 (phys s) pt va)
    \<and> (\<forall>b. (do_free \<longrightarrow> PGROUNDDOWN b \<noteq> PTE2PA e) \<longrightarrow> phys u b = phys s b)"
  proof (cases do_free)
    case True
    then show ?thesis using kfree_pt_ready [OF assms(1), of "PTE2PA e"] f p(1) by auto
  next
    case False
    then show ?thesis using assms(1) p(1) by auto
  qed
  then obtain u where u: "whenM do_free (kfree (PTE2PA e)) s = Ret () u" "pt_ready pt ?ys u" "mem_only s u"
    "tables 2 (phys u) pt = tables 2 (phys s) pt" "walk_pure 2 (phys u) pt a = Some p"
    "\<forall>va. pte_at 2 (phys u) pt va = pte_at 2 (phys s) pt va"
    "\<forall>b. (do_free \<longrightarrow> PGROUNDDOWN b \<noteq> PTE2PA e) \<longrightarrow> phys u b = phys s b"
    by blast
  define t where "t = u\<lparr>phys := st64 (phys u) p 0\<rparr>"
  note S = set_leaf_extends [OF u(2,5), where v = 0, folded t_def]
  have "uvmunmap_from pt a bound do_free s = uvmunmap_from pt (a + PGSIZE) bound do_free t"
    using assms(4) p p0 e(2) u(1) walk_lookup [OF assms(2), of pt s]
    by (subst uvmunmap_from.simps) (simp add: valid_pte_def t_def del: whenM_apply)
  moreover have "pte_at 2 (phys t) pt wa = (if PGROUNDDOWN wa = a then None else pte_at 2 (phys s) pt wa)"
    if "wa < MAXVA" for wa
    using S(3) [OF assms(2) that] assms(3) u(6) by (simp add: valid_pte_def)
  moreover have "mem_only s t" using u(3) by (simp add: t_def mem_only_phys)
  moreover have "inner_eq 2 (phys s) (phys t) pt"
  proof (rule inner_eq_trans)
    show "inner_eq 2 (phys s) (phys u) pt"
    proof (rule inner_eq_frame [OF \<open>tree_ok 2 (phys s) pt\<close>])
      fix b assume "PGROUNDDOWN b \<in> tables 2 (phys s) pt"
      then have "do_free \<longrightarrow> PGROUNDDOWN b \<noteq> PTE2PA e" using f by auto
      then show "phys u b = phys s b" using u(7) by blast
    qed
    show "inner_eq 2 (phys u) (phys t) pt" using inner_set_leaf [OF _ u(5)] u(2) by (simp add: t_def pt_ready_def)
  qed
  ultimately show ?thesis
    using S(1,2) u(4,7) by (auto simp: extends_def)
qed

lemma uvmunmap_from_range:
  assumes "pt_ready pt xs s" "page_aligned a" "unat a + n * 4096 \<le> 2 ^ 38"
    and "mapped_leaves (phys s) pt a n"
    and "do_free \<longrightarrow> distinct (frames_of (phys s) pt a n)
      \<and> (\<forall>f \<in> set (frames_of (phys s) pt a n). valid_page s f \<and> f \<notin> set xs \<union> tables 2 (phys s) pt)"
  shows "\<exists>t. uvmunmap_from pt a (a + of_nat n * PGSIZE) do_free s = Ret () t
    \<and> pt_ready pt (if do_free then rev (frames_of (phys s) pt a n) @ xs else xs) t
    \<and> mem_only s t \<and> unmaps_pages pt a n s t \<and> tables 2 (phys t) pt = tables 2 (phys s) pt \<and> inner_eq 2 (phys s) (phys t) pt
    \<and> (\<forall>b. PGROUNDDOWN b \<notin> tables 2 (phys s) pt \<longrightarrow> (do_free \<longrightarrow> PGROUNDDOWN b \<notin> set (frames_of (phys s) pt a n)) \<longrightarrow> phys t b = phys s b)"
  using assms
proof (induction n arbitrary: a s xs)
  case (0 a s xs)
  have "uvmunmap_from pt a a do_free s = Ret () s" by (subst uvmunmap_from.simps) simp
  then show ?case using 0 by (simp add: unmaps_pages_def)
next
  case (Suc n a s xs)
  let ?f = "a + of_nat (Suc n) * PGSIZE"
  have lt: "a < MAXVA" using Suc.prems(3) by (simp add: word_less_nat_alt MAXVA_val)
  have n: "n \<le> 2 ^ 50" using Suc.prems(3) by simp
  have ua: "unat (a + PGSIZE) = unat a + 4096" using Suc.prems(3) by (simp add: unat_word_ariths)
  have al: "page_aligned (a + PGSIZE)" using Suc.prems(2) by (rule page_aligned_Suc)
  have f: "?f = (a + PGSIZE) + of_nat n * PGSIZE" by (simp add: algebra_simps)
  have "unat ?f = unat a + Suc n * 4096"
  proof -
    have "?f = of_nat (unat a + Suc n * 4096)" by (simp add: algebra_simps)
    then have "unat ?f = (unat a + Suc n * 4096) mod 2 ^ LENGTH(64)" by (simp only: unat_of_nat)
    then show ?thesis using Suc.prems(3) by simp
  qed
  then have b: "a < ?f" by (simp add: word_less_nat_alt)
  obtain e where e: "pte_at 2 (phys s) pt a = Some e" "PTE_FLAGS e \<noteq> PTE_V"
    using Suc.prems(4) by auto
  have fr: "do_free \<Longrightarrow> valid_page s (PTE2PA e) \<and> PTE2PA e \<notin> set xs \<union> tables 2 (phys s) pt"
    using Suc.prems(5) e(1) by auto
  let ?ys = "if do_free then PTE2PA e # xs else xs"
  from unmap_step [OF Suc.prems(1) lt Suc.prems(2) b e fr] obtain t where
    t: "uvmunmap_from pt a ?f do_free s = uvmunmap_from pt (a + PGSIZE) ?f do_free t"
    "pt_ready pt ?ys t" "mem_only s t" "tables 2 (phys t) pt = tables 2 (phys s) pt"
    "\<forall>wa<MAXVA. pte_at 2 (phys t) pt wa = (if PGROUNDDOWN wa = a then None else pte_at 2 (phys s) pt wa)"
    "inner_eq 2 (phys s) (phys t) pt"
    "\<forall>b. PGROUNDDOWN b \<notin> tables 2 (phys s) pt \<longrightarrow> (do_free \<longrightarrow> PGROUNDDOWN b \<noteq> PTE2PA e) \<longrightarrow> phys t b = phys s b"
    by blast
  have nx: "\<not> in_pages (a + PGSIZE) n wa" if "PGROUNDDOWN wa = a" for wa
    using in_pages_next [OF Suc.prems(2) n] that Suc.prems(2) by (simp add: in_pages_def)
  have c: "frames_of (phys t) pt (a + PGSIZE) n = frames_of (phys s) pt (a + PGSIZE) n
      \<and> mapped_leaves (phys t) pt (a + PGSIZE) n = mapped_leaves (phys s) pt (a + PGSIZE) n"
    by (rule leaves_cong [OF al]) (use Suc.prems(3) ua t(5) nx in auto)
  have v: "valid_page t g = valid_page s g" for g
    using mem_only_eq(1) [OF t(3)] by (simp add: valid_page_def)
  have pre: "do_free \<longrightarrow> distinct (frames_of (phys t) pt (a + PGSIZE) n)
      \<and> (\<forall>g \<in> set (frames_of (phys t) pt (a + PGSIZE) n). valid_page t g \<and> g \<notin> set ?ys \<union> tables 2 (phys t) pt)"
    using Suc.prems(5) c t(4) e(1) v by auto
  have "unat (a + PGSIZE) + n * 4096 \<le> 2 ^ 38" using ua Suc.prems(3) by simp
  from Suc.IH [OF t(2) al this _ pre] c Suc.prems(4) obtain u where
    u: "uvmunmap_from pt (a + PGSIZE) ?f do_free t = Ret () u"
    "pt_ready pt (if do_free then rev (frames_of (phys t) pt (a + PGSIZE) n) @ ?ys else ?ys) u"
    "mem_only t u" "unmaps_pages pt (a + PGSIZE) n t u" "tables 2 (phys u) pt = tables 2 (phys t) pt"
    "inner_eq 2 (phys t) (phys u) pt"
    "\<forall>b. PGROUNDDOWN b \<notin> tables 2 (phys t) pt \<longrightarrow> (do_free \<longrightarrow> PGROUNDDOWN b \<notin> set (frames_of (phys t) pt (a + PGSIZE) n)) \<longrightarrow> phys u b = phys t b"
    unfolding f by auto
  have "unmaps_pages pt a (Suc n) s u"
    using u(4) t(5) nx by (auto simp: unmaps_pages_def in_pages_Suc [OF Suc.prems(2) n])
  moreover have "pt_ready pt (if do_free then rev (frames_of (phys s) pt a (Suc n)) @ xs else xs) u"
    using u(2) c e(1) by (simp split: if_splits)
  moreover have "phys u b = phys s b" if "PGROUNDDOWN b \<notin> tables 2 (phys s) pt"
    "do_free \<longrightarrow> PGROUNDDOWN b \<notin> set (frames_of (phys s) pt a (Suc n))" for b
    using that u(7) t(4,7) c e(1) by auto
  ultimately show ?case
    using t(1,4) u(1,5) mem_only_trans [OF t(3) u(3)] inner_eq_trans [OF t(6) u(6)] by auto
qed

lemma page_mult: "page_aligned (x * PGSIZE)"
proof -
  have "x * PGSIZE = push_bit 12 x" by (simp add: push_bit_eq_mult)
  then show ?thesis by (simp add: aligned_def bit_push_bit_iff)
qed

subsection \<open>Properties of the mapping routines\<close>

text \<open>
  C3: \<^verbatim>\<open>mappages\<close> refines the update of a map. On a well-formed table in which the range is not
  mapped it never panics; it returns 0 with exactly the pages of the range mapped to consecutive
  physical pages with the given permissions, or \<^term>\<open>- 1\<close> with the allocator exhausted (which takes
  fewer than two free pages for each page of the range) and only a prefix of the range mapped. Every other address keeps its entry, new table pages come from
  the free list, and memory outside the table's pages is untouched.
\<close>

theorem mappages_refines_map:
  assumes "pt_ready pt xs s" "page_aligned va" "unat va + Suc n * 4096 \<le> 2 ^ 38"
    and "\<forall>wa<MAXVA. in_pages va (Suc n) wa \<longrightarrow> pte_at 2 (phys s) pt wa = None"
  shows "\<exists>r t zs ys k. mappages pt va (of_nat (Suc n) * PGSIZE) pa perm s = Ret r t \<and> xs = zs @ ys
    \<and> extends pt zs s t \<and> pt_ready pt ys t
    \<and> (r = 0 \<and> k = Suc n \<or> r = - 1 \<and> k \<le> n \<and> ys = [] \<and> length xs < 2 * Suc n) \<and> maps_pages pt va k pa perm s t"
proof -
  have "unat (of_nat (Suc n * 4096) :: u64) = Suc n * 4096 mod 2 ^ LENGTH(64)" by (simp only: unat_of_nat)
  also have "\<dots> = Suc n * 4096" using assms(3) by simp
  finally have "(of_nat (Suc n) * PGSIZE :: u64) \<noteq> 0"
    by (metis Suc_neq_Zero mult_is_0 of_nat_mult of_nat_numeral unat_0 zero_neq_numeral)
  moreover have "PGROUNDDOWN (va + of_nat (Suc n) * PGSIZE - 1) = va + of_nat n * PGSIZE"
  proof -
    have "page_aligned (va + of_nat n * PGSIZE)" using assms(2) page_mult by (rule aligned_add)
    moreover have "va + of_nat (Suc n) * PGSIZE - 1 = (va + of_nat n * PGSIZE) + 4095"
      by (simp add: algebra_simps)
    ultimately show ?thesis using PGROUNDDOWN_add [of "va + of_nat n * PGSIZE" 4095] by (simp only:) simp
  qed
  ultimately show ?thesis
    using mappages_from_range [OF assms, of pa perm] assms(2) by (simp add: mappages_def)
qed

definition table_state :: kmem where
  "table_state = two_pages"

lemma table_state_zero: "PGROUNDDOWN a = 0x87FFD000 \<Longrightarrow> phys table_state a = 0"
proof -
  assume a: "PGROUNDDOWN a = 0x87FFD000"
  have "aligned 3 (0x87FFE000 :: u64)" by (simp add: aligned_mod take_bit_eq_mod)
  moreover have "PGROUNDDOWN (0x87FFE000 :: u64) = 0x87FFE000" by (simp add: page_aligned_mod)
  ultimately show ?thesis
    using a st64_page_other [of "0x87FFE000" a] by (simp add: table_state_def two_pages_def)
qed

lemma table_state_ready: "pt_ready 0x87FFD000 [0x87FFE000, 0x87FFF000] table_state"
  using zero_table [OF _ _ table_state_zero] two_pages_ready
  by (simp add: pt_ready_def page_aligned_mod table_state_def)

lemma table_state_unmapped: "pte_at 2 (phys table_state) 0x87FFD000 wa = None"
  using zero_table(3) [OF _ _ table_state_zero] by (simp add: page_aligned_mod)

lemma table_state_mapped:
  "\<exists>t ys. mappages_from 0x87FFD000 0x5000 0x5000 0x87654000 0x16 table_state = Ret 0 t
     \<and> pt_ready 0x87FFD000 ys t \<and> tables 2 (phys t) 0x87FFD000 \<subseteq> {0x87FFD000, 0x87FFE000, 0x87FFF000}
     \<and> maps_pages 0x87FFD000 0x5000 1 0x87654000 0x16 table_state t"
proof -
  obtain r t zs ys k where r: "mappages_from 0x87FFD000 0x5000 0x5000 0x87654000 0x16 table_state = Ret r t"
    "[0x87FFE000, 0x87FFF000] = zs @ ys" "extends 0x87FFD000 zs table_state t" "pt_ready 0x87FFD000 ys t"
    "r = 0 \<and> k = Suc 0" "maps_pages 0x87FFD000 0x5000 k 0x87654000 0x16 table_state t"
    using mappages_from_range [OF table_state_ready, of "0x5000" 0 "0x87654000" "0x16"] table_state_unmapped
    by (auto simp: page_aligned_mod)
  have "set zs \<subseteq> {0x87FFE000, 0x87FFF000}"
    using arg_cong [OF r(2), of set] by (auto simp: set_eq_iff)
  moreover have "tables 2 (phys table_state) 0x87FFD000 = {0x87FFD000}"
    using zero_table(1) [OF _ _ table_state_zero] by (simp add: page_aligned_mod)
  ultimately have "tables 2 (phys t) 0x87FFD000 \<subseteq> {0x87FFD000, 0x87FFE000, 0x87FFF000}"
    using r(3) by (auto simp: extends_def)
  then show ?thesis using r by auto
qed

theorem mappages_refines_map_witness:
  "\<exists>r t k. mappages 0x87FFD000 0x5000 0x1000 0x87654000 6 table_state = Ret r t
     \<and> maps_pages 0x87FFD000 0x5000 k 0x87654000 6 table_state t \<and> r = 0"
proof -
  have "\<forall>wa<MAXVA. in_pages 0x5000 (Suc 0) wa \<longrightarrow> pte_at 2 (phys table_state) 0x87FFD000 wa = None"
    using table_state_unmapped by simp
  from mappages_refines_map [OF table_state_ready _ _ this, of "0x87654000" 6]
  show ?thesis by (auto simp: page_aligned_mod)
qed

text \<open>
  C4: \<^verbatim>\<open>uvmunmap\<close> on a range of mapped leaf pages never panics and removes exactly these
  mappings; with \<^verbatim>\<open>do_free\<close> it puts every frame of the range on the free list, and without it the
  free list is as before.
\<close>

theorem uvmunmap_refines_map:
  assumes "pt_ready pt xs s" "page_aligned va" "unat va + n * 4096 \<le> 2 ^ 38"
    and "mapped_leaves (phys s) pt va n"
    and "do_free \<longrightarrow> distinct (frames_of (phys s) pt va n)
      \<and> (\<forall>f \<in> set (frames_of (phys s) pt va n). valid_page s f \<and> f \<notin> set xs \<union> tables 2 (phys s) pt)"
  shows "\<exists>t. uvmunmap pt va (of_nat n) do_free s = Ret () t \<and> unmaps_pages pt va n s t
    \<and> pt_ready pt (if do_free then rev (frames_of (phys s) pt va n) @ xs else xs) t"
proof -
  have "uvmunmap pt va (of_nat n) do_free s = uvmunmap_from pt va (va + of_nat n * PGSIZE) do_free s"
    using assms(2) by (simp add: uvmunmap_def page_aligned_mod)
  then show ?thesis using uvmunmap_from_range [OF assms] by auto
qed

theorem uvmunmap_refines_map_witness:
  "\<exists>t u. mappages_from 0x87FFD000 0x5000 0x5000 0x87654000 0x16 table_state = Ret 0 t
     \<and> pte_at 2 (phys t) 0x87FFD000 0x5123 \<noteq> None
     \<and> uvmunmap 0x87FFD000 0x5000 1 False t = Ret () u \<and> pte_at 2 (phys u) 0x87FFD000 0x5123 = None"
proof -
  obtain t ys where t: "mappages_from 0x87FFD000 0x5000 0x5000 0x87654000 0x16 table_state = Ret 0 t"
    "pt_ready 0x87FFD000 ys t" "maps_pages 0x87FFD000 0x5000 1 0x87654000 0x16 table_state t"
    using table_state_mapped by auto
  have r: "in_pages 0x5000 1 0x5123" "in_pages 0x5000 1 0x5000" "0x5123 < MAXVA" "0x5000 < MAXVA"
    by (simp_all add: in_pages_def PGROUNDDOWN_def MAXVA_val)
  then have e: "pte_at 2 (phys t) 0x87FFD000 0x5123 \<noteq> None"
    "pte_at 2 (phys t) 0x87FFD000 0x5000 = Some (map_entry 0x5000 0x87654000 0x16 0x5000)"
    using t(3) by (simp_all add: maps_pages_def)
  have "PTE_FLAGS (map_entry 0x5000 0x87654000 0x16 0x5000) = 0x17"
    by (simp add: map_entry_def PTE_FLAGS_def PA2PTE_def PGROUNDDOWN_def)
  then have "mapped_leaves (phys t) 0x87FFD000 0x5000 1" using e(2) by simp
  from uvmunmap_refines_map [OF t(2) _ _ this, of False] obtain u where
    "uvmunmap 0x87FFD000 0x5000 1 False t = Ret () u" "unmaps_pages 0x87FFD000 0x5000 1 t u"
    by (auto simp: page_aligned_mod)
  then show ?thesis using t(1) e(1) r by (auto simp: unmaps_pages_def)
qed

end
