(* ===== verification/UserCopy.thy ===== *)
theory UserCopy
  imports PageTable
begin

section \<open>What the copy routines see of user memory\<close>

text \<open>
  User memory seen through a page table: \<open>user_pa\<close> is what \<open>walkaddr\<close> returns, \<open>user_byte\<close>
  the byte a user address stands for. \<open>copyin\<close> reads these bytes and \<open>copyout\<close> writes them,
  whatever page boundaries the range crosses; together they round trip.
\<close>

subsection \<open>Translation\<close>

definition user_pa :: "mem \<Rightarrow> u64 \<Rightarrow> u64 \<Rightarrow> u64" where
  "user_pa m pt va =
     (if va < MAXVA then
        (case pte_at 2 m pt va of Some e \<Rightarrow> if e AND PTE_U \<noteq> 0 then PTE2PA e else 0 | None \<Rightarrow> 0)
      else 0)"

definition user_byte :: "mem \<Rightarrow> u64 \<Rightarrow> u64 \<Rightarrow> u8" where
  "user_byte m pt va = m (user_pa m pt va + (va - PGROUNDDOWN va))"

text \<open>User frames are never page-table pages, and no two user pages share a frame.\<close>

definition user_ok :: "mem \<Rightarrow> u64 \<Rightarrow> bool" where
  "user_ok m pt \<longleftrightarrow> tree_ok 2 m pt
     \<and> (\<forall>va. user_pa m pt va \<noteq> 0 \<longrightarrow> user_pa m pt va \<notin> tables 2 m pt)
     \<and> (\<forall>va wa. user_pa m pt va \<noteq> 0 \<longrightarrow> user_pa m pt va = user_pa m pt wa
          \<longrightarrow> PGROUNDDOWN va = PGROUNDDOWN wa)"

lemma walkaddr_run:
  assumes "tree_ok 2 (phys s) pt"
  shows "walkaddr pt va s = Ret (user_pa (phys s) pt va) s"
proof (cases "va < MAXVA")
  case False
  then show ?thesis by (auto simp: walkaddr_def user_pa_def not_less)
next
  case True
  show ?thesis
  proof (cases "walk_pure 2 (phys s) pt va")
    case None
    then show ?thesis
      using True walk_lookup [OF True, of pt s] by (simp add: walkaddr_def user_pa_def pte_at_def)
  next
    case (Some a)
    then have "a \<noteq> 0" using walk_pure_page [OF assms Some] by simp
    then show ?thesis
      using True Some walk_lookup [OF True, of pt s]
      by (auto simp: walkaddr_def user_pa_def pte_at_def valid_pte_def)
  qed
qed

lemma MAXVA_aligned: "page_aligned MAXVA"
  by (simp add: page_aligned_mod MAXVA_val)

lemma PGROUNDDOWN_le: "PGROUNDDOWN a \<le> a"
  by (simp add: word_le_nat_alt unat_PGROUNDDOWN)

lemma PGROUNDDOWN_MAXVA: "PGROUNDDOWN a < MAXVA \<longleftrightarrow> a < MAXVA"
proof
  show "a < MAXVA \<Longrightarrow> PGROUNDDOWN a < MAXVA" using PGROUNDDOWN_le by (rule le_less_trans)
  assume "PGROUNDDOWN a < MAXVA"
  then have l: "unat (PGROUNDDOWN a) < 2 ^ 38" by (simp add: word_less_nat_alt MAXVA_val)
  have "unat (PGROUNDDOWN a) mod 4096 = 0" using PGROUNDDOWN_aligned page_aligned_unat by blast
  then obtain q where "unat (PGROUNDDOWN a) = q * 4096" by (metis mod_0_imp_dvd dvd_def mult.commute)
  then have "unat (PGROUNDDOWN a) + 4096 \<le> 2 ^ 38" using l by simp
  moreover have "unat a mod 4096 < 4096" by simp
  ultimately have "unat a < 2 ^ 38" unfolding unat_PGROUNDDOWN by linarith
  then show "a < MAXVA" by (simp add: word_less_nat_alt MAXVA_val)
qed

lemma pte_at_page: "pte_at l m pt (PGROUNDDOWN va) = pte_at l m pt va"
proof -
  have "walk_pure l m pt (PGROUNDDOWN va) = walk_pure l m pt va"
    by (induction l arbitrary: pt) (auto simp: PX_page)
  then show ?thesis by (simp add: pte_at_def)
qed

lemma user_pa_page: "user_pa m pt (PGROUNDDOWN va) = user_pa m pt va"
  by (simp add: user_pa_def PGROUNDDOWN_MAXVA pte_at_page)

lemma user_pa_aligned: "page_aligned (user_pa m pt va)"
  by (auto simp: user_pa_def split: option.splits)

lemma user_pa_bound: "user_pa m pt va \<noteq> 0 \<Longrightarrow> va < MAXVA"
  by (simp add: user_pa_def split: if_splits)

lemma user_byte_page: "PGROUNDDOWN (user_pa m pt va + (va - PGROUNDDOWN va)) = user_pa m pt va"
  by (rule PGROUNDDOWN_add [OF user_pa_aligned page_offset_less])

subsection \<open>Bytes\<close>

lemma write_bytes_apply:
  "length bs \<le> 2 ^ 63 \<Longrightarrow>
   write_bytes a bs m x = (if unat (x - a) < length bs then bs ! unat (x - a) else m x)"
proof (induction bs arbitrary: a m)
  case Nil
  then show ?case by simp
next
  case (Cons b bs)
  define d where "d = x - a"
  have x: "x = a + d" by (simp add: d_def)
  show ?case
  proof (cases "d = 0")
    case True
    have "unat (d - 1) = 2 ^ 64 - 1"
      using True by (simp add: unsigned_minus_1_eq_mask mask_eq_exp_minus_1)
    then show ?thesis using Cons True unfolding x by simp
  next
    case False
    then have "unat (d - 1) = unat d - 1" "0 < unat d"
      using unat_minus_1 [of d] by (simp_all add: unat_gt_0)
    then show ?thesis using Cons False unfolding x by (cases "unat d") simp_all
  qed
qed

lemma page_chunk:
  assumes "page_aligned pa" "unat off + n \<le> 4096" "unat (x - (pa + off)) < n"
  shows "PGROUNDDOWN x = pa"
proof -
  define d where "d = x - (pa + off)"
  have "unat (off + d) = unat off + unat d"
    using assms(2,3) by (simp add: d_def [symmetric] unat_word_ariths)
  then have "off + d < PGSIZE" using assms(2,3) by (simp add: d_def [symmetric] word_less_nat_alt)
  moreover have "x = pa + (off + d)" by (simp add: d_def)
  ultimately show ?thesis using PGROUNDDOWN_add [OF assms(1)] by blast
qed

lemma room_bound: "unat (va - PGROUNDDOWN va) + page_room va len \<le> 4096"
  using page_offset_less [of va] by (simp add: page_room_def word_less_nat_alt)

text \<open>Addresses inside the part of a range that lies in the first page.\<close>

lemma first_page:
  assumes "i < page_room va len"
  shows "PGROUNDDOWN (va + of_nat i) = PGROUNDDOWN va"
    "va + of_nat i - PGROUNDDOWN va = (va - PGROUNDDOWN va) + of_nat i"
proof -
  let ?off = "va - PGROUNDDOWN va"
  have i: "unat (of_nat i :: u64) = i" "unat ?off + i < 4096"
    using assms room_bound [of va len] by (simp_all add: unat_of_nat)
  have "unat (va + of_nat i - (PGROUNDDOWN va + ?off)) < page_room va len"
    using i(1) assms by simp
  then show "PGROUNDDOWN (va + of_nat i) = PGROUNDDOWN va"
    by (rule page_chunk [OF PGROUNDDOWN_aligned room_bound])
qed simp

lemma next_page: "page_room va len < len \<Longrightarrow> PGROUNDDOWN va + PGSIZE = va + of_nat (page_room va len)"
proof -
  assume a: "page_room va len < len"
  have o: "unat (va - PGROUNDDOWN va) < 4096" using page_offset_less [of va] by (simp add: word_less_nat_alt)
  then have "page_room va len = 4096 - unat (va - PGROUNDDOWN va)" using a by (simp add: page_room_def)
  then have "(of_nat (page_room va len) :: u64) = 4096 - (va - PGROUNDDOWN va)"
    using o by (simp add: of_nat_diff)
  then show ?thesis by (simp add: algebra_simps)
qed

subsection \<open>Reading\<close>

text \<open>The whole range is accessible to the user.\<close>

definition user_range :: "mem \<Rightarrow> u64 \<Rightarrow> u64 \<Rightarrow> nat \<Rightarrow> bool" where
  "user_range m pt va len \<longleftrightarrow> (\<forall>i<len. user_pa m pt (va + of_nat i) \<noteq> 0)"

definition user_bytes :: "mem \<Rightarrow> u64 \<Rightarrow> u64 \<Rightarrow> nat \<Rightarrow> u8 list" where
  "user_bytes m pt va len = map (\<lambda>i. user_byte m pt (va + of_nat i)) [0..<len]"

lemma user_bytes_add:
  "user_bytes m pt va (k + n) = user_bytes m pt va k @ user_bytes m pt (va + of_nat k) n"
  by (rule nth_equalityI) (auto simp: user_bytes_def nth_append algebra_simps)

lemma user_bytes_page:
  "read_bytes m (user_pa m pt (PGROUNDDOWN va) + (va - PGROUNDDOWN va)) (page_room va len)
     = user_bytes m pt va (page_room va len)"
proof (rule nth_equalityI)
  show "length (read_bytes m (user_pa m pt (PGROUNDDOWN va) + (va - PGROUNDDOWN va)) (page_room va len))
      = length (user_bytes m pt va (page_room va len))"
    by (simp add: read_bytes_def user_bytes_def)
  fix i assume "i < length (read_bytes m (user_pa m pt (PGROUNDDOWN va) + (va - PGROUNDDOWN va)) (page_room va len))"
  then have i: "i < page_room va len" by (simp add: read_bytes_def)
  have "user_pa m pt (va + of_nat i) = user_pa m pt va"
    using first_page(1) [OF i] user_pa_page by metis
  then show "read_bytes m (user_pa m pt (PGROUNDDOWN va) + (va - PGROUNDDOWN va)) (page_room va len) ! i
      = user_bytes m pt va (page_room va len) ! i"
    using i first_page [OF i]
    by (simp add: read_bytes_def user_bytes_def user_byte_def user_pa_page algebra_simps)
qed

lemma copyin_reads:
  assumes "tree_ok 2 (phys s) pt" "user_range (phys s) pt va len"
  shows "copyin pt va len s = Ret (0, user_bytes (phys s) pt va len) s"
  using assms(2)
proof (induction len arbitrary: va rule: less_induct)
  case (less len)
  show ?case
  proof (cases "len = 0")
    case True
    then show ?thesis by (subst copyin.simps) (simp add: user_bytes_def)
  next
    case False
    let ?n = "page_room va len"
    have n: "0 < ?n" "?n \<le> len" using False page_room_pos by (auto simp: page_room_def)
    have nz: "user_pa (phys s) pt (PGROUNDDOWN va) \<noteq> 0"
      using less.prems False by (auto simp: user_range_def user_pa_page dest!: spec [of _ 0])
    have rest: "copyin pt (PGROUNDDOWN va + PGSIZE) (len - ?n) s
        = Ret (0, user_bytes (phys s) pt (va + of_nat ?n) (len - ?n)) s"
    proof (cases "?n < len")
      case True
      have "user_range (phys s) pt (va + of_nat ?n) (len - ?n)"
        unfolding user_range_def
      proof (intro allI impI)
        fix i assume "i < len - ?n"
        then have "user_pa (phys s) pt (va + of_nat (?n + i)) \<noteq> 0"
          using less.prems less_diff_conv [of i len ?n] unfolding user_range_def by (metis add.commute)
        then show "user_pa (phys s) pt (va + of_nat ?n + of_nat i) \<noteq> 0" by (simp add: add.assoc)
      qed
      then show ?thesis using less.IH [of "len - ?n"] n False next_page [OF True] by simp
    next
      case False
      then have "len - ?n = 0" using n by simp
      then show ?thesis by (subst copyin.simps) (simp add: user_bytes_def)
    qed
    have "copyin pt va len s = Ret (0, user_bytes (phys s) pt va ?n
        @ user_bytes (phys s) pt (va + of_nat ?n) (len - ?n)) s"
      using False nz rest walkaddr_run [OF assms(1), of "PGROUNDDOWN va"]
      by (subst copyin.simps) (simp add: user_bytes_page)
    then show ?thesis using user_bytes_add [of "phys s" pt va ?n "len - ?n"] n by simp
  qed
qed

text \<open>A range that is not wholly accessible is refused.\<close>

lemma user_range_split:
  assumes "k \<le> len"
  shows "user_range m pt va len \<longleftrightarrow> user_range m pt va k \<and> user_range m pt (va + of_nat k) (len - k)"
proof -
  have "(\<forall>i<len. P i) \<longleftrightarrow> (\<forall>i<k. P i) \<and> (\<forall>i<len - k. P (k + i))" for P :: "nat \<Rightarrow> bool"
    using assms by (metis add_diff_inverse_nat diff_less_mono less_diff_conv add.commute
        linorder_not_less order_less_le_trans)
  then show ?thesis unfolding user_range_def by (simp add: add.assoc)
qed

lemma user_range_page:
  "0 < len \<Longrightarrow> user_range m pt va (page_room va len) \<longleftrightarrow> user_pa m pt (PGROUNDDOWN va) \<noteq> 0"
  using first_page(1) [of _ va len] page_room_pos [of len va] user_pa_page [of m pt]
  by (auto simp: user_range_def) (metis add.right_neutral of_nat_0)+

lemma copyin_refuses:
  assumes "tree_ok 2 (phys s) pt" "\<not> user_range (phys s) pt va len"
  shows "\<exists>bs. copyin pt va len s = Ret (- 1, bs) s"
  using assms(2)
proof (induction len arbitrary: va rule: less_induct)
  case (less len)
  then have l: "0 < len" by (auto simp: user_range_def)
  let ?n = "page_room va len"
  have n: "0 < ?n" "?n \<le> len" using l page_room_pos by (auto simp: page_room_def)
  show ?case
  proof (cases "user_pa (phys s) pt (PGROUNDDOWN va) = 0")
    case True
    then show ?thesis
      using l walkaddr_run [OF assms(1), of "PGROUNDDOWN va"] by (subst copyin.simps) simp
  next
    case False
    then have nr: "\<not> user_range (phys s) pt (va + of_nat ?n) (len - ?n)"
      using less.prems user_range_split [OF n(2)] user_range_page [OF l] by blast
    then have "?n < len" using n by (cases "?n < len") (auto simp: user_range_def)
    then obtain bs where "copyin pt (PGROUNDDOWN va + PGSIZE) (len - ?n) s = Ret (- 1, bs) s"
      using less.IH [OF _ nr] n next_page by auto
    then show ?thesis
      using l False walkaddr_run [OF assms(1), of "PGROUNDDOWN va"] by (subst copyin.simps) simp
  qed
qed

text \<open>
  C6: \<^verbatim>\<open>copyin\<close> never panics and never changes memory, whatever address the user passes; it
  succeeds, with the bytes of the range, exactly when the user may access the whole range.
\<close>

theorem copyin_checks_range:
  assumes "tree_ok 2 (phys s) pt"
  shows "\<exists>r bs. copyin pt va len s = Ret (r, bs) s \<and> (r = 0 \<or> r = - 1)
    \<and> (r = 0 \<longleftrightarrow> user_range (phys s) pt va len)
    \<and> (r = 0 \<longrightarrow> bs = user_bytes (phys s) pt va len)"
proof (cases "user_range (phys s) pt va len")
  case True
  then show ?thesis using copyin_reads [OF assms True] by auto
next
  case False
  then show ?thesis using copyin_refuses [OF assms False] by fastforce
qed

theorem copyin_checks_range_witness:
  "\<exists>r bs. copyin 0x87FFD000 0x4000000000 8 table_state = Ret (r, bs) table_state \<and> r = - 1"
proof -
  have "tree_ok 2 (phys table_state) 0x87FFD000" using table_state_ready by (simp add: pt_ready_def)
  moreover have "\<not> user_range (phys table_state) 0x87FFD000 0x4000000000 8"
    by (auto simp: user_range_def user_pa_def MAXVA_val intro!: exI [of _ 0])
  ultimately show ?thesis using copyin_checks_range [of table_state] by blast
qed

subsection \<open>Writing\<close>

lemma user_ok_frame:
  assumes "user_ok m pt" "\<And>a. PGROUNDDOWN a \<in> tables 2 m pt \<Longrightarrow> m' a = m a"
  shows "user_ok m' pt" "user_pa m' pt va = user_pa m pt va"
proof -
  have ok: "tree_ok 2 m pt" using assms(1) by (simp add: user_ok_def)
  have T: "tables 2 m' pt = tables 2 m pt" "tree_ok 2 m' pt" "\<forall>va. pte_at 2 m' pt va = pte_at 2 m pt va"
    using tree_frame [OF ok assms(2)] by blast+
  have pa: "user_pa m' pt va = user_pa m pt va" for va using T(3) by (simp add: user_pa_def)
  show "user_ok m' pt" using assms(1) T(2) unfolding user_ok_def pa T(1) by blast
  show "user_pa m' pt va = user_pa m pt va" by (rule pa)
qed

text \<open>Writing into one user page.\<close>

lemma write_user_page:
  assumes ok: "user_ok m pt" and nz: "user_pa m pt va \<noteq> 0"
    and bs: "length bs \<le> page_room va len"
  defines "m' \<equiv> write_bytes (user_pa m pt va + (va - PGROUNDDOWN va)) bs m"
  shows "user_ok m' pt" "user_pa m' pt wa = user_pa m pt wa"
    "user_pa m pt wa \<noteq> 0 \<Longrightarrow> user_byte m' pt wa =
       (if unat (wa - va) < length bs then bs ! unat (wa - va) else user_byte m pt wa)"
    "PGROUNDDOWN a \<noteq> user_pa m pt va \<Longrightarrow> m' a = m a"
proof -
  let ?off = "va - PGROUNDDOWN va" and ?f = "user_pa m pt va"
  have room: "unat ?off + length bs \<le> 4096" using room_bound [of va len] bs by simp
  have ap: "m' x = (if unat (x - (?f + ?off)) < length bs then bs ! unat (x - (?f + ?off)) else m x)" for x
    unfolding m'_def using room by (intro write_bytes_apply) simp
  show other: "m' a = m a" if "PGROUNDDOWN a \<noteq> ?f" for a
  proof -
    have "\<not> unat (a - (?f + ?off)) < length bs"
      using that page_chunk [OF user_pa_aligned room, of a] by blast
    then show ?thesis using ap [of a] by (simp only: if_False)
  qed
  have fr: "m' a = m a" if "PGROUNDDOWN a \<in> tables 2 m pt" for a
  proof (rule other)
    have "?f \<notin> tables 2 m pt" using ok nz unfolding user_ok_def by blast
    then show "PGROUNDDOWN a \<noteq> ?f" using that by auto
  qed
  have F: "user_ok m' pt" "\<And>va. user_pa m' pt va = user_pa m pt va"
    by (rule user_ok_frame [OF ok]; fact fr)+
  show "user_ok m' pt" "user_pa m' pt wa = user_pa m pt wa" using F by auto
  assume w: "user_pa m pt wa \<noteq> 0"
  let ?x = "user_pa m pt wa + (wa - PGROUNDDOWN wa)"
  show "user_byte m' pt wa = (if unat (wa - va) < length bs then bs ! unat (wa - va) else user_byte m pt wa)"
  proof (cases "PGROUNDDOWN wa = PGROUNDDOWN va")
    case True
    have f: "user_pa m pt wa = ?f"
      using user_pa_page [of m pt wa] user_pa_page [of m pt va] unfolding True by simp
    have e: "?x - (?f + ?off) = wa - va" unfolding f True by simp
    have "user_byte m' pt wa = m' ?x" using F(2) [of wa] by (simp add: user_byte_def)
    also have "\<dots> = (if unat (wa - va) < length bs then bs ! unat (wa - va) else m ?x)"
      using ap [of ?x] unfolding e .
    finally show ?thesis by (simp add: user_byte_def)
  next
    case False
    have "user_pa m pt wa \<noteq> ?f" using False ok w unfolding user_ok_def by blast
    then have "user_byte m' pt wa = user_byte m pt wa"
      using other [of ?x] unfolding user_byte_page [of m pt wa] user_byte_def F(2) by blast
    moreover have "\<not> unat (wa - va) < length bs"
    proof
      assume "unat (wa - va) < length bs"
      then have "unat (wa - (PGROUNDDOWN va + ?off)) < length bs" by simp
      then have "PGROUNDDOWN wa = PGROUNDDOWN va"
        by (rule page_chunk [OF PGROUNDDOWN_aligned room])
      then show False using False by simp
    qed
    ultimately show ?thesis by simp
  qed
qed

definition wrote_user :: "u64 \<Rightarrow> u64 \<Rightarrow> u8 list \<Rightarrow> mem \<Rightarrow> mem \<Rightarrow> bool" where
  "wrote_user pt va bs m m' \<longleftrightarrow> user_ok m' pt \<and> (\<forall>wa. user_pa m' pt wa = user_pa m pt wa)
     \<and> (\<forall>wa. user_pa m pt wa \<noteq> 0 \<longrightarrow> user_byte m' pt wa =
          (if unat (wa - va) < length bs then bs ! unat (wa - va) else user_byte m pt wa))
     \<and> (\<forall>a. (\<forall>wa. PGROUNDDOWN a \<noteq> user_pa m pt wa) \<longrightarrow> m' a = m a)"

lemma unat_shift:
  fixes va wa :: u64
  assumes "k < 2 ^ 63" "n < 2 ^ 63"
  shows "unat (wa - (va + of_nat k)) < n \<longleftrightarrow> k \<le> unat (wa - va) \<and> unat (wa - va) < k + n"
    "k \<le> unat (wa - va) \<Longrightarrow> unat (wa - (va + of_nat k)) = unat (wa - va) - k"
proof -
  define d where "d = wa - va"
  have e: "wa - (va + of_nat k) = d - of_nat k" by (simp add: d_def algebra_simps)
  have k: "unat (of_nat k :: u64) = k" using assms(1) by (simp add: unat_of_nat)
  have ge: "unat (d - of_nat k) = unat d - k" if "k \<le> unat d"
    using that k by (subst unat_sub) (simp_all add: word_le_nat_alt)
  have lt: "\<not> unat (d - of_nat k) < n" if "unat d < k"
    using that k assms by (simp add: unat_sub_if')
  show "unat (wa - (va + of_nat k)) < n \<longleftrightarrow> k \<le> unat (wa - va) \<and> unat (wa - va) < k + n"
    unfolding e d_def [symmetric] using ge lt by (cases "k \<le> unat d") auto
  show "k \<le> unat (wa - va) \<Longrightarrow> unat (wa - (va + of_nat k)) = unat (wa - va) - k"
    unfolding e d_def [symmetric] by (rule ge)
qed

lemma wrote_user_trans:
  assumes "wrote_user pt va bs m m'" "wrote_user pt (va + of_nat (length bs)) cs m' m''"
    and "length bs < 2 ^ 63" "length cs < 2 ^ 63"
  shows "wrote_user pt va (bs @ cs) m m''"
  unfolding wrote_user_def
proof (intro conjI allI impI)
  show "user_ok m'' pt" using assms(2) by (simp add: wrote_user_def)
  fix wa
  show "user_pa m'' pt wa = user_pa m pt wa" using assms(1,2) by (simp add: wrote_user_def)
  assume w: "user_pa m pt wa \<noteq> 0"
  then have "user_pa m' pt wa \<noteq> 0" using assms(1) by (simp add: wrote_user_def)
  then have 2: "user_byte m'' pt wa = (if unat (wa - (va + of_nat (length bs))) < length cs
      then cs ! unat (wa - (va + of_nat (length bs))) else user_byte m' pt wa)"
    using assms(2) by (simp add: wrote_user_def)
  have 1: "user_byte m' pt wa = (if unat (wa - va) < length bs then bs ! unat (wa - va) else user_byte m pt wa)"
    using assms(1) w by (simp add: wrote_user_def)
  show "user_byte m'' pt wa =
      (if unat (wa - va) < length (bs @ cs) then (bs @ cs) ! unat (wa - va) else user_byte m pt wa)"
  proof -
    define d e where "d = unat (wa - va)" and "e = unat (wa - (va + of_nat (length bs)))"
    have "e < length cs \<longleftrightarrow> length bs \<le> d \<and> d < length bs + length cs" "length bs \<le> d \<Longrightarrow> e = d - length bs"
      using unat_shift [OF assms(3,4), of wa va] by (simp_all only: d_def e_def)
    then show ?thesis
      using 1 2 unfolding d_def [symmetric] e_def [symmetric] by (auto simp: nth_append)
  qed
next
  fix a assume "\<forall>wa. PGROUNDDOWN a \<noteq> user_pa m pt wa"
  then show "m'' a = m a" using assms(1,2) by (simp add: wrote_user_def)
qed

lemma copyout_writes:
  assumes "user_ok (phys s) pt" "user_range (phys s) pt va (length src)" "length src < 2 ^ 63"
  shows "\<exists>m'. copyout pt va src s = Ret 0 (s\<lparr>phys := m'\<rparr>) \<and> wrote_user pt va src (phys s) m'"
  using assms
proof (induction "length src" arbitrary: va src s rule: less_induct)
  case less
  show ?case
  proof (cases "src = []")
    case True
    have "copyout pt va [] s = Ret 0 (s\<lparr>phys := phys s\<rparr>)" by (subst copyout.simps) simp
    moreover have "wrote_user pt va [] (phys s) (phys s)" using less.prems(1) by (simp add: wrote_user_def)
    ultimately show ?thesis using True by blast
  next
    case False
    let ?n = "page_room va (length src)"
    define m1 where "m1 = write_bytes (user_pa (phys s) pt va + (va - PGROUNDDOWN va)) (take ?n src) (phys s)"
    let ?s = "s\<lparr>phys := m1\<rparr>"
    have n: "0 < ?n" "?n \<le> length src" using False page_room_pos by (auto simp: page_room_def)
    have nz: "user_pa (phys s) pt va \<noteq> 0"
      using less.prems(2) False by (auto simp: user_range_def dest!: spec [of _ 0])
    have ok: "tree_ok 2 (phys s) pt" using less.prems(1) by (simp add: user_ok_def)
    have step: "copyout pt va src s = copyout pt (PGROUNDDOWN va + PGSIZE) (drop ?n src) ?s"
      using False nz walkaddr_run [OF ok, of "PGROUNDDOWN va"]
      by (subst copyout.simps) (simp add: user_pa_page m1_def)
    have l: "length (take ?n src) \<le> ?n" by simp
    note W = write_user_page [OF less.prems(1) nz l, folded m1_def]
    have w: "wrote_user pt va (take ?n src) (phys s) m1"
      using W nz by (auto simp: wrote_user_def)
    show ?thesis
    proof (cases "?n < length src")
      case True
      have r: "user_range (phys ?s) pt (va + of_nat ?n) (length (drop ?n src))"
        unfolding user_range_def
      proof (intro allI impI)
        fix i assume "i < length (drop ?n src)"
        then have "?n + i < length src" by simp
        then have "user_pa (phys s) pt (va + of_nat (?n + i)) \<noteq> 0"
          using less.prems(2) unfolding user_range_def by blast
        then show "user_pa (phys ?s) pt (va + of_nat ?n + of_nat i) \<noteq> 0"
          using W(2) by (simp add: add.assoc)
      qed
      have d: "length (drop ?n src) < length src" "length (drop ?n src) < 2 ^ 63"
        "length (take ?n src) < 2 ^ 63" "length (take ?n src) = ?n"
        using n less.prems(3) by simp_all
      have "user_ok (phys ?s) pt" using W(1) by simp
      from less.hyps [OF d(1) this r d(2)] obtain m' where
        r: "copyout pt (va + of_nat ?n) (drop ?n src) ?s = Ret 0 (s\<lparr>phys := m'\<rparr>)"
          "wrote_user pt (va + of_nat ?n) (drop ?n src) m1 m'"
        by auto
      have "wrote_user pt va (take ?n src @ drop ?n src) (phys s) m'"
        using wrote_user_trans [OF w _ d(3,2)] r(2) d(4) by simp
      then show ?thesis using step r(1) next_page [OF True] by auto
    next
      case nl: False
      then have "drop ?n src = []" "take ?n src = src" by simp_all
      moreover have "copyout pt (PGROUNDDOWN va + PGSIZE) [] ?s = Ret 0 ?s"
        by (subst copyout.simps) simp
      ultimately show ?thesis using step w by auto
    qed
  qed
qed

text \<open>
  C5: what \<^verbatim>\<open>copyout\<close> writes to user memory, \<^verbatim>\<open>copyin\<close> reads back, across page boundaries, and no
  other byte of the user's address space changes.
\<close>

theorem copyout_copyin_roundtrip:
  assumes "user_ok (phys s) pt" "user_range (phys s) pt va (length src)" "length src < 2 ^ 63"
  shows "\<exists>t. copyout pt va src s = Ret 0 t \<and> copyin pt va (length src) t = Ret (0, src) t
    \<and> (\<forall>wa. user_pa (phys s) pt wa \<noteq> 0 \<longrightarrow> length src \<le> unat (wa - va)
         \<longrightarrow> user_byte (phys t) pt wa = user_byte (phys s) pt wa)"
proof -
  obtain m' where m': "copyout pt va src s = Ret 0 (s\<lparr>phys := m'\<rparr>)" "wrote_user pt va src (phys s) m'"
    using copyout_writes [OF assms] by blast
  have r: "user_range m' pt va (length src)"
    using assms(2) m'(2) by (simp add: user_range_def wrote_user_def)
  have "user_bytes m' pt va (length src) = src"
  proof (rule nth_equalityI)
    fix i assume "i < length (user_bytes m' pt va (length src))"
    then have i: "i < length src" by (simp add: user_bytes_def)
    then have u: "unat (of_nat i :: u64) = i" using assms(3) by (simp add: unat_of_nat)
    have "user_pa (phys s) pt (va + of_nat i) \<noteq> 0" using assms(2) i by (simp add: user_range_def)
    then have "user_byte m' pt (va + of_nat i) = src ! i"
      using m'(2) i u by (simp add: wrote_user_def)
    then show "user_bytes m' pt va (length src) ! i = src ! i" using i by (simp add: user_bytes_def)
  qed (simp add: user_bytes_def)
  moreover have "tree_ok 2 m' pt" using m'(2) by (simp add: wrote_user_def user_ok_def)
  ultimately have "copyin pt va (length src) (s\<lparr>phys := m'\<rparr>) = Ret (0, src) (s\<lparr>phys := m'\<rparr>)"
    using copyin_reads [of "s\<lparr>phys := m'\<rparr>" pt va "length src"] r by simp
  then show ?thesis using m' by (auto simp: wrote_user_def)
qed

lemma user_state:
  "\<exists>t ys. pt_ready 0x87FFD000 ys (t :: kmem) \<and> user_ok (phys t) 0x87FFD000
     \<and> (\<forall>va. user_pa (phys t) 0x87FFD000 va = (if PGROUNDDOWN va = 0x5000 then 0x87654000 else 0))"
proof -
  obtain t ys where t: "pt_ready 0x87FFD000 ys t"
    "tables 2 (phys t) 0x87FFD000 \<subseteq> {0x87FFD000, 0x87FFE000, 0x87FFF000}"
    "maps_pages 0x87FFD000 0x5000 1 0x87654000 0x16 table_state t"
    using table_state_mapped by blast
  have one: "in_pages 0x5000 1 va \<longleftrightarrow> PGROUNDDOWN va = 0x5000" for va
    using in_pages_Suc [of "0x5000" 0 va] by (simp add: page_aligned_mod)
  have e: "map_entry 0x5000 0x87654000 0x16 va = 0x21D95017" if "PGROUNDDOWN va = 0x5000" for va
    by (simp add: map_entry_def that PA2PTE_def)
  have bound: "va < MAXVA" if "PGROUNDDOWN va = 0x5000" for va
    using PGROUNDDOWN_MAXVA [of va] that by (simp add: MAXVA_val)
  have ev: "PTE2PA 0x21D95017 = 0x87654000"
    by (simp add: PTE2PA_def drop_bit_eq_div push_bit_eq_mult)
  have pa: "user_pa (phys t) 0x87FFD000 va = (if PGROUNDDOWN va = 0x5000 then 0x87654000 else 0)" for va
    using t(3) bound [of va] e [of va] table_state_unmapped
    by (simp add: user_pa_def maps_pages_def one ev del: One_nat_def)
  have "user_ok (phys t) 0x87FFD000"
    unfolding user_ok_def pa using t(1,2) by (auto simp: pt_ready_def)
  then show ?thesis using t(1) pa by blast
qed

lemma user_memory:
  "\<exists>(s :: kmem). user_ok (phys s) 0x87FFD000 \<and> user_range (phys s) 0x87FFD000 0x5FFD 3"
proof -
  obtain s :: kmem where s: "user_ok (phys s) 0x87FFD000"
    "\<forall>va. user_pa (phys s) 0x87FFD000 va = (if PGROUNDDOWN va = 0x5000 then 0x87654000 else 0)"
    using user_state by blast
  have "user_range (phys s) 0x87FFD000 0x5FFD 3"
    unfolding user_range_def s(2) [rule_format]
  proof (intro allI impI)
    fix i :: nat assume "i < 3"
    then consider "i = 0" | "i = 1" | "i = 2" by force
    then show "(if PGROUNDDOWN (0x5FFD + of_nat i) = 0x5000 then 0x87654000 else 0) \<noteq> (0 :: u64)"
      by cases (simp_all add: PGROUNDDOWN_def)
  qed
  then show ?thesis using s(1) by blast
qed

theorem copyout_copyin_roundtrip_witness:
  "\<exists>(s :: kmem) t. copyout 0x87FFD000 0x5FFD [1, 2, 3] s = Ret 0 t
     \<and> copyin 0x87FFD000 0x5FFD 3 t = Ret (0, [1, 2, 3]) t"
proof -
  obtain s :: kmem where s: "user_ok (phys s) 0x87FFD000" "user_range (phys s) 0x87FFD000 0x5FFD 3"
    using user_memory by blast
  then show ?thesis using copyout_copyin_roundtrip [OF s(1), of "0x5FFD" "[1, 2, 3]"]
    by (auto simp: numeral_3_eq_3)
qed

end
