(* ===== verification/Frames.thy ===== *)
theory Frames
  imports UserCopy
begin

section \<open>What the memory routines leave alone\<close>

text \<open>
  The routines on locks, pages and page tables change memory, the free list, the lock words and
  the interrupt state of the CPUs, and nothing else. A part of the kernel state that does not depend on these is
  a \<open>mem_blind\<close> observer; the locale proves once, for every such part, that the routines keep
  it. The components that extend the kernel state interpret it on their own tables.
\<close>

locale mem_blind =
  fixes f :: "'z kmem_scheme \<Rightarrow> 'b"
  assumes blind_phys: "f (s\<lparr>phys := m\<rparr>) = f s"
    and blind_sie: "f (s\<lparr>sie := b\<rparr>) = f s"
    and blind_noff: "f (s\<lparr>cpus := (cpus s)(h := (cpus s h)\<lparr>noff := k\<rparr>)\<rparr>) = f s"
    and blind_intena: "f (s\<lparr>cpus := (cpus s)(h := (cpus s h)\<lparr>intena := e\<rparr>)\<rparr>) = f s"
    and blind_locks: "f (s\<lparr>locks := l\<rparr>) = f s"
    and blind_freelist: "f (s\<lparr>freelist := x\<rparr>) = f s"
begin

lemmas blind = blind_phys blind_sie blind_noff blind_intena blind_locks blind_freelist

lemma keeps_push_off: "keeps f push_off"
  by (simp add: push_off_def intr_get_def intr_off_def set_mycpu_def mycpu_def blind keeps_modify keeps_rules)

lemma keeps_pop_off: "keeps f pop_off"
  by (simp add: pop_off_def intr_get_def intr_on_def set_mycpu_def mycpu_def blind keeps_modify keeps_rules)

lemma keeps_acquire: "keeps f (acquire lk)"
  by (simp add: acquire_def set_lock_def blind keeps_modify keeps_push_off keeps_rules)

lemma keeps_release: "keeps f (release lk)"
  by (simp add: release_def set_lock_def blind keeps_modify keeps_pop_off keeps_rules)

lemma keeps_set_phys: "keeps f (set_phys g)"
  by (simp add: set_phys_def keeps_modify blind)

lemma keeps_put64: "keeps f (put64 a v)"
  by (simp add: put64_def keeps_set_phys)

lemma keeps_get64: "keeps f (get64 a)"
  by (simp add: get64_def keeps_rules)

lemma keeps_kalloc: "keeps f kalloc"
  by (simp add: kalloc_def keeps_acquire keeps_release keeps_modify blind keeps_rules)

lemma keeps_kfree: "keeps f (kfree pa)"
  by (simp add: kfree_def keeps_acquire keeps_release keeps_modify blind keeps_rules)

lemmas keeps_mem =
  keeps_set_phys keeps_put64 keeps_get64 keeps_kalloc keeps_kfree

lemma keeps_walk_from: "keeps f (walk_from l pt va alloc)"
  by (induction l arbitrary: pt) (simp_all add: keeps_mem keeps_rules)

lemma keeps_walk: "keeps f (walk pt va alloc)"
  by (simp add: walk_def keeps_walk_from keeps_rules)

lemma keeps_walkaddr: "keeps f (walkaddr pt va)"
  by (simp add: walkaddr_def keeps_walk keeps_get64 keeps_rules)

text \<open>For the loops: one step of a routine that keeps \<open>f\<close>.\<close>

lemma mappages_from_keeps:
  "mappages_from pt a final pa perm s = Ret r t \<Longrightarrow> f t = f s"
proof (induction pt a final pa perm s rule: mappages_from.induct)
  case (1 pt a final pa perm s)
  from 1(2) obtain p u where w: "walk pt a True s = Ret p u"
    by (subst (asm) mappages_from.simps) (auto simp: bindM_eq_Ret)
  have k: "f u = f s" using keepsD [OF keeps_walk w] .
  show ?case
    using 1(2) w k 1(1) [OF w] keepsD [OF keeps_put64]
    by (subst (asm) mappages_from.simps) (auto simp: bindM_eq_Ret seqM_eq_Ret blind split: if_splits)
qed

lemma keeps_mappages: "keeps f (mappages pt va sz pa perm)"
  unfolding keeps_def mappages_def using mappages_from_keeps by (auto split: if_splits)

lemma uvmunmap_from_keeps:
  "uvmunmap_from pt a bound do_free s = Ret r t \<Longrightarrow> f t = f s"
proof (induction pt a bound do_free s rule: uvmunmap_from.induct)
  case (1 pt a bound do_free s)
  show ?case
  proof (cases "a < bound")
    case False
    then show ?thesis using 1(2) by (subst (asm) uvmunmap_from.simps) simp
  next
    case True
    from 1(2) True obtain p u where w: "walk pt a False s = Ret p u"
      by (subst (asm) uvmunmap_from.simps) (auto simp: bindM_eq_Ret)
    have k: "f u = f s" using keepsD [OF keeps_walk w] .
    from 1(2) True w obtain e v x where e: "p \<noteq> 0" "get64 p u = Ret e u" "e AND PTE_V \<noteq> 0" "PTE_FLAGS e \<noteq> PTE_V"
        "whenM do_free (kfree (PTE2PA e)) u = Ret x v"
        "uvmunmap_from pt (a + PGSIZE) bound do_free (v\<lparr>phys := st64 (phys v) p 0\<rparr>) = Ret r t"
      by (subst (asm) uvmunmap_from.simps)
        (auto simp: bindM_eq_Ret seqM_eq_Ret simp del: whenM_apply split: if_splits)
    have kv: "f v = f u" using keepsD [OF keeps_whenM [OF keeps_kfree] e(5)] .
    have "f t = f (v\<lparr>phys := st64 (phys v) p 0\<rparr>)"
      using 1(1) [OF True w e(1) e(2) _ e(4) e(5), of "()" "v\<lparr>phys := st64 (phys v) p 0\<rparr>"] e(3,6) by simp
    then show ?thesis using k kv by (simp add: blind)
  qed
qed

lemma keeps_uvmunmap: "keeps f (uvmunmap pt va n do_free)"
  unfolding keeps_def uvmunmap_def using uvmunmap_from_keeps by (auto split: if_splits)

lemma keeps_freewalk: "keeps f (freewalk n pt)"
  by (induction n arbitrary: pt) (auto intro!: keeps_rules keeps_mem)

lemma keeps_uvmfree: "keeps f (uvmfree pt sz)"
  unfolding uvmfree_def by (intro keeps_rules keeps_uvmunmap keeps_freewalk)

lemma keeps_uvmcreate: "keeps f uvmcreate"
  unfolding uvmcreate_def by (intro keeps_rules keeps_mem)

lemma keeps_uvmdealloc: "keeps f (uvmdealloc pt a b)"
  unfolding uvmdealloc_def by (intro keeps_rules keeps_uvmunmap)

lemma copyout_keeps: "copyout pt va src s = Ret r t \<Longrightarrow> f t = f s"
proof (induction pt va src s rule: copyout.induct)
  case (1 pt va src s)
  show ?case
  proof (cases "src = []")
    case True
    then show ?thesis using 1(2) by (subst (asm) copyout.simps) simp
  next
    case False
    from 1(2) False obtain p u where w: "walkaddr pt (PGROUNDDOWN va) s = Ret p u"
      by (subst (asm) copyout.simps) (auto simp: bindM_eq_Ret)
    have k: "f u = f s" using keepsD [OF keeps_walkaddr w] .
    show ?thesis
      using 1(2) 1(1) [OF False w] False w k
      by (subst (asm) copyout.simps) (auto simp: seqM_eq_Ret blind split: if_splits)
  qed
qed

lemma keeps_copyout: "keeps f (copyout pt va src)"
  unfolding keeps_def using copyout_keeps by blast

end

end
