(* ===== verification/Proc.thy ===== *)
theory Proc
  imports Frames
begin

section \<open>Processes (kernel/proc.c, kernel/proc.h)\<close>

text \<open>
  The process table and the routines on it that do not touch files: allocation and freeing of
  process slots, sleeping, waking, killing, waiting, the accounting of \<^verbatim>\<open>update_vals\<close>, and the
  queues of the multi-level feedback scheduler. A pointer to a process is its index in
  \<^verbatim>\<open>proc[NPROC]\<close>; a null pointer is \<^term>\<open>None\<close>.

  A routine that gives the CPU away stops with a \<open>Switch\<close> at its \<^verbatim>\<open>swtch()\<close>; what it does when it
  is scheduled again is a definition of its own, whose name ends in \<open>_resume\<close>.
\<close>

subsection \<open>State\<close>

datatype procstate = UNUSED | USED | SLEEPING | RUNNABLE | RUNNING | ZOMBIE

text \<open>The scheduling policy is chosen when the kernel is compiled (\<^verbatim>\<open>-DFCFS\<close> and so on).\<close>

datatype policy = DEFAULT | FCFS | PBS | MLFQ

record ctx =
  ctx_ra :: u64
  ctx_sp :: u64
  ctx_s :: "u64 list"

record proc =
  p_state :: procstate
  p_chan :: "chan option"
  p_killed :: int
  p_xstate :: int
  p_pid :: int
  p_parent :: "nat option"
  p_kstack :: u64
  p_sz :: u64
  p_pagetable :: u64
  p_trapframe :: u64
  p_context :: ctx
  p_ofile :: "nat \<Rightarrow> nat option"
  p_cwd :: "nat option"
  p_name :: "u8 list"
  p_mask :: int
  p_atime :: u64
  p_ctime :: u64
  p_stime :: u64
  p_rtime :: u64
  p_rtime_whole :: u64
  p_rtime_every :: u64
  p_wtime :: u64
  p_wtime_whole :: u64
  p_wtime_every :: u64
  p_etime :: u64
  p_spriority :: int
  p_priority :: int
  p_niceness :: int
  p_nrun :: int
  p_nrun_whole :: int
  p_curr_q :: int
  p_q_val :: "nat \<Rightarrow> int"

text \<open>\<open>forkret_text\<close> is the address of \<^verbatim>\<open>forkret\<close>, \<open>fork_first\<close> its static variable.\<close>

record ptab = vm +
  procs :: "nat \<Rightarrow> proc"
  initproc :: "nat option"
  nextpid :: int
  queues :: "nat \<Rightarrow> nat \<Rightarrow> nat option"
  q_index :: "nat \<Rightarrow> u64"
  ticks :: u32
  policy :: policy
  forkret_text :: u64
  fork_first :: bool

abbreviation (input) NPROC :: nat where "NPROC \<equiv> 64"

definition set_proc :: "nat \<Rightarrow> (proc \<Rightarrow> proc) \<Rightarrow> ('z ptab_scheme, unit) M" where
  "set_proc i f = modify (\<lambda>s. s\<lparr>procs := (procs s)(i := f (procs s i))\<rparr>)"

definition get_proc :: "nat \<Rightarrow> (proc \<Rightarrow> 'a) \<Rightarrow> ('z ptab_scheme, 'a) M" where
  "get_proc i f = gets (\<lambda>s. f (procs s i))"

lemma set_proc_apply [simp, monad_simps]:
  "set_proc i f s = Ret () (s\<lparr>procs := (procs s)(i := f (procs s i))\<rparr>)"
  by (simp add: set_proc_def)

lemma get_proc_apply [simp, monad_simps]: "get_proc i f s = Ret (f (procs s i)) s"
  by (simp add: get_proc_def)

lemma bindM_get_proc: "bindM (get_proc i f) g s = g (f (procs s i)) s"
  by (simp add: get_proc_def bindM_gets)

subsection \<open>The current process\<close>

definition myproc :: "('z ptab_scheme, nat option) M" where
  "myproc =
     seqM push_off (
     bindM (gets mycpu) (\<lambda>c.
     seqM pop_off (returnM (c_proc c))))"

text \<open>\<^verbatim>\<open>myproc()\<close> where the result is dereferenced.\<close>

definition curproc :: "('z ptab_scheme, nat) M" where
  "curproc = bindM myproc (\<lambda>p. case p of None \<Rightarrow> stopM (Fault ''null process'') | Some i \<Rightarrow> returnM i)"

subsection \<open>The feedback queues\<close>

definition init_queues :: "('z ptab_scheme, unit) M" where
  "init_queues =
     forM [0..<5] (\<lambda>i. forM [0..<64] (\<lambda>j.
       modify (\<lambda>s. s\<lparr>queues := (queues s)(i := (queues s i)(j := None))\<rparr>)))"

definition clamp_q :: "int \<Rightarrow> nat" where
  "clamp_q q = (if q < 0 then 0 else if q > 4 then 4 else nat q)"

text \<open>An index outside \<^verbatim>\<open>queues[q][NPROC]\<close> is an access outside the array.\<close>

definition push :: "nat \<Rightarrow> int \<Rightarrow> ('z ptab_scheme, unit) M" where
  "push p q =
     seqM (modify (\<lambda>s. s\<lparr>q_index := (q_index s)(clamp_q q := q_index s (clamp_q q) + 1)\<rparr>)) (
     bindM (gets (\<lambda>s. unat (q_index s (clamp_q q)))) (\<lambda>k.
     if k \<ge> NPROC then stopM (Fault ''queue index'') else
     seqM (modify (\<lambda>s. s\<lparr>queues := (queues s)(clamp_q q := (queues s (clamp_q q))(k := Some p))\<rparr>))
          (set_proc p (\<lambda>c. c\<lparr>p_curr_q := int (clamp_q q), p_rtime := 0, p_wtime := 0, p_atime := 0\<rparr>))))"

text \<open>The entry of a queue, dereferenced.\<close>

definition queue_at :: "nat \<Rightarrow> nat \<Rightarrow> ('z ptab_scheme, nat) M" where
  "queue_at q i =
     (if i \<ge> NPROC then stopM (Fault ''queue index'') else
      bindM (gets (\<lambda>s. queues s q i)) (\<lambda>e.
      case e of None \<Rightarrow> stopM (Fault ''null process'') | Some p \<Rightarrow> returnM p))"

primrec pop_find :: "nat list \<Rightarrow> nat \<Rightarrow> int \<Rightarrow> nat option \<Rightarrow> ('z ptab_scheme, nat option) M" where
  "pop_find [] q pd temp = returnM temp"
| "pop_find (i # is) q pd temp =
     bindM (queue_at q i) (\<lambda>e.
     bindM (get_proc e p_pid) (\<lambda>epid.
     pop_find is q pd (if pd = epid then Some i else temp)))"

definition pop :: "nat \<Rightarrow> ('z ptab_scheme, unit) M" where
  "pop p =
     bindM (get_proc p p_curr_q) (\<lambda>cq.
     bindM (get_proc p p_pid) (\<lambda>pd.
     bindM (gets (\<lambda>s. q_index s (clamp_q cq))) (\<lambda>k.
     bindM (pop_find [0..<unat (k + 1)] (clamp_q cq) pd None) (\<lambda>temp.
     case temp of None \<Rightarrow> returnM ()
     | Some t \<Rightarrow>
         seqM (forM [t..<unat k] (\<lambda>i.
           modify (\<lambda>s. s\<lparr>queues := (queues s)(clamp_q cq := (queues s (clamp_q cq))(i := queues s (clamp_q cq) (i + 1)))\<rparr>))) (
         seqM (modify (\<lambda>s. s\<lparr>queues := (queues s)(clamp_q cq := (queues s (clamp_q cq))(unat k := None))\<rparr>))
              (modify (\<lambda>s. s\<lparr>q_index := (q_index s)(clamp_q cq := k - 1)\<rparr>)))))))"

subsection \<open>Process slots\<close>

definition procinit :: "('z ptab_scheme, unit) M" where
  "procinit =
     seqM (initlock PidLock ''nextpid'') (
     seqM (initlock WaitLock ''wait_lock'')
     (forM [0..<64] (\<lambda>p.
       seqM (initlock (ProcLock p) ''proc'')
            (set_proc p (\<lambda>c. c\<lparr>p_kstack := KSTACK p\<rparr>)))))"

definition allocpid :: "('z ptab_scheme, int) M" where
  "allocpid =
     seqM (acquire PidLock) (
     bindM (gets nextpid) (\<lambda>pid.
     seqM (modify (\<lambda>s. s\<lparr>nextpid := s32 (nextpid s + 1)\<rparr>)) (
     seqM (release PidLock)
          (returnM pid))))"

definition proc_pagetable :: "nat \<Rightarrow> ('z ptab_scheme, u64) M" where
  "proc_pagetable p =
     bindM uvmcreate (\<lambda>pagetable.
     if pagetable = 0 then returnM 0 else
     bindM (gets trampoline_text) (\<lambda>tr.
     bindM (mappages pagetable TRAMPOLINE PGSIZE tr (PTE_R OR PTE_X)) (\<lambda>r.
     if r < 0 then seqM (uvmfree pagetable 0) (returnM 0) else
     bindM (get_proc p p_trapframe) (\<lambda>tf.
     bindM (mappages pagetable TRAPFRAME PGSIZE tf (PTE_R OR PTE_W)) (\<lambda>r.
     if r < 0 then
       seqM (uvmunmap pagetable TRAMPOLINE 1 False) (
       seqM (uvmfree pagetable 0) (returnM 0))
     else returnM pagetable)))))"

definition proc_freepagetable :: "u64 \<Rightarrow> u64 \<Rightarrow> ('z ptab_scheme, unit) M" where
  "proc_freepagetable pagetable sz =
     seqM (uvmunmap pagetable TRAMPOLINE 1 False) (
     seqM (uvmunmap pagetable TRAPFRAME 1 False)
          (uvmfree pagetable sz))"

text \<open>
  What \<^verbatim>\<open>freeproc\<close> stores into the slot once the pages are gone. It leaves the kernel stack, the
  context, the files, the working directory, \<^verbatim>\<open>etime\<close> and all of the name but its first byte.
\<close>

definition cleared :: "proc \<Rightarrow> proc" where
  "cleared c = c\<lparr>p_trapframe := 0, p_pagetable := 0, p_sz := 0, p_pid := 0, p_parent := None,
     p_name := (p_name c)[0 := 0], p_chan := None, p_killed := 0, p_xstate := 0, p_state := UNUSED,
     p_mask := 0, p_atime := 0, p_ctime := 0, p_rtime := 0, p_rtime_whole := 0, p_rtime_every := 0,
     p_wtime := 0, p_wtime_whole := 0, p_wtime_every := 0, p_stime := 0, p_priority := 0,
     p_spriority := 0, p_niceness := 0, p_nrun := 0, p_nrun_whole := 0, p_curr_q := 0,
     p_q_val := (p_q_val c)(0 := 0, 1 := 0, 2 := 0, 3 := 0, 4 := 0)\<rparr>"

definition freeproc :: "nat \<Rightarrow> ('z ptab_scheme, unit) M" where
  "freeproc p =
     bindM (get_proc p p_trapframe) (\<lambda>tf.
     seqM (whenM (tf \<noteq> 0) (kfree tf)) (
     seqM (set_proc p (\<lambda>c. c\<lparr>p_trapframe := 0\<rparr>)) (
     bindM (get_proc p p_pagetable) (\<lambda>pt.
     bindM (get_proc p p_sz) (\<lambda>sz.
     seqM (whenM (pt \<noteq> 0) (proc_freepagetable pt sz))
          (set_proc p cleared))))))"

text \<open>The first \<^verbatim>\<open>UNUSED\<close> slot, with its lock held.\<close>

primrec allocproc_scan :: "nat list \<Rightarrow> ('z ptab_scheme, nat option) M" where
  "allocproc_scan [] = returnM None"
| "allocproc_scan (p # ps) =
     seqM (acquire (ProcLock p)) (
     bindM (get_proc p p_state) (\<lambda>st.
     if st = UNUSED then returnM (Some p)
     else seqM (release (ProcLock p)) (allocproc_scan ps)))"

definition alloc_failed :: "nat \<Rightarrow> ('z ptab_scheme, nat option) M" where
  "alloc_failed p = seqM (freeproc p) (seqM (release (ProcLock p)) (returnM None))"

text \<open>The fields \<^verbatim>\<open>allocproc\<close> sets once its pages are allocated.\<close>

definition fresh :: "u64 \<Rightarrow> u32 \<Rightarrow> proc \<Rightarrow> proc" where
  "fresh ret now c = c\<lparr>
     p_context := \<lparr>ctx_ra = ret, ctx_sp = p_kstack c + PGSIZE, ctx_s = replicate 12 0\<rparr>,
     p_priority := 60, p_spriority := 60, p_niceness := 5, p_nrun := 0, p_nrun_whole := 0,
     p_atime := 0, p_rtime := 0, p_rtime_whole := 0, p_rtime_every := 0,
     p_wtime := 0, p_wtime_whole := 0, p_wtime_every := 0, p_stime := 0, p_etime := 0,
     p_curr_q := 0, p_q_val := (p_q_val c)(0 := 0, 1 := 0, 2 := 0, 3 := 0, 4 := 0),
     p_ctime := ucast now\<rparr>"

definition allocproc :: "('z ptab_scheme, nat option) M" where
  "allocproc =
     bindM (allocproc_scan [0..<64]) (\<lambda>found.
     case found of None \<Rightarrow> returnM None
     | Some p \<Rightarrow>
         bindM allocpid (\<lambda>pid.
         seqM (set_proc p (\<lambda>c. c\<lparr>p_pid := pid, p_state := USED, p_mask := 0\<rparr>)) (
         bindM kalloc (\<lambda>tf.
         seqM (set_proc p (\<lambda>c. c\<lparr>p_trapframe := tf\<rparr>)) (
         if tf = 0 then alloc_failed p else
         bindM (proc_pagetable p) (\<lambda>pt.
         seqM (set_proc p (\<lambda>c. c\<lparr>p_pagetable := pt\<rparr>)) (
         if pt = 0 then alloc_failed p else
         bindM (gets forkret_text) (\<lambda>ret.
         bindM (gets ticks) (\<lambda>now.
         seqM (set_proc p (fresh ret now)) (returnM (Some p)))))))))))"

definition growproc :: "int \<Rightarrow> ('z ptab_scheme, int) M" where
  "growproc n =
     bindM curproc (\<lambda>p.
     bindM (get_proc p p_pagetable) (\<lambda>pt.
     bindM (get_proc p (\<lambda>c. ucast (p_sz c) :: u32)) (\<lambda>sz.
     if n > 0 then
       bindM (uvmalloc pt (ucast sz) (ucast (sz + of_int n))) (\<lambda>sz'.
       if (ucast sz' :: u32) = 0 then returnM (- 1)
       else seqM (set_proc p (\<lambda>c. c\<lparr>p_sz := ucast (ucast sz' :: u32)\<rparr>)) (returnM 0))
     else if n < 0 then
       bindM (uvmdealloc pt (ucast sz) (ucast (sz + of_int n))) (\<lambda>sz'.
       seqM (set_proc p (\<lambda>c. c\<lparr>p_sz := ucast (ucast sz' :: u32)\<rparr>)) (returnM 0))
     else seqM (set_proc p (\<lambda>c. c\<lparr>p_sz := ucast sz\<rparr>)) (returnM 0))))"

subsection \<open>Switching, sleeping and waking\<close>

text \<open>
  \<^verbatim>\<open>sched\<close> up to its \<^verbatim>\<open>swtch()\<close>. The saved \<^verbatim>\<open>intena\<close> is a local variable of the kernel thread; it is
  the argument of the definition that resumes it.
\<close>

definition sched :: "why \<Rightarrow> ('z ptab_scheme, 'a) M" where
  "sched why =
     bindM curproc (\<lambda>p.
     bindM (gets (holding (ProcLock p))) (\<lambda>h.
     if \<not> h then panic ''sched p->lock'' else
     bindM (gets mycpu) (\<lambda>c.
     if noff c \<noteq> 1 then panic ''sched locks'' else
     bindM (get_proc p p_state) (\<lambda>st.
     if st = RUNNING then panic ''sched running'' else
     bindM intr_get (\<lambda>on.
     if on then panic ''sched interruptible''
     else stopM (Switch why))))))"

definition sched_resume :: "bool \<Rightarrow> ('z ptab_scheme, unit) M" where
  "sched_resume old_intena = set_mycpu (\<lambda>c. c\<lparr>intena := old_intena\<rparr>)"

definition yield :: "('z ptab_scheme, 'a) M" where
  "yield =
     bindM curproc (\<lambda>p.
     seqM (acquire (ProcLock p)) (
     seqM (set_proc p (\<lambda>c. c\<lparr>p_state := RUNNABLE\<rparr>))
          (sched Yielded)))"

definition yield_resume :: "nat \<Rightarrow> bool \<Rightarrow> ('z ptab_scheme, unit) M" where
  "yield_resume p old_intena = seqM (sched_resume old_intena) (release (ProcLock p))"

definition sleep :: "chan \<Rightarrow> lockid \<Rightarrow> ('z ptab_scheme, 'a) M" where
  "sleep chan lk =
     bindM curproc (\<lambda>p.
     seqM (acquire (ProcLock p)) (
     seqM (release lk) (
     seqM (set_proc p (\<lambda>c. c\<lparr>p_chan := Some chan\<rparr>)) (
     seqM (set_proc p (\<lambda>c. c\<lparr>p_state := SLEEPING\<rparr>))
          (sched (Asleep chan))))))"

definition sleep_resume :: "nat \<Rightarrow> lockid \<Rightarrow> bool \<Rightarrow> ('z ptab_scheme, unit) M" where
  "sleep_resume p lk old_intena =
     seqM (sched_resume old_intena) (
     seqM (set_proc p (\<lambda>c. c\<lparr>p_chan := None\<rparr>)) (
     seqM (release (ProcLock p))
          (acquire lk)))"

definition wakeup :: "chan \<Rightarrow> ('z ptab_scheme, unit) M" where
  "wakeup chan =
     forM [0..<64] (\<lambda>p.
       bindM myproc (\<lambda>me.
       if me = Some p then returnM () else
       seqM (acquire (ProcLock p)) (
       bindM (get_proc p (\<lambda>c. p_state c = SLEEPING \<and> p_chan c = Some chan)) (\<lambda>b.
       seqM (whenM b (set_proc p (\<lambda>c. c\<lparr>p_state := RUNNABLE\<rparr>)))
            (release (ProcLock p))))))"

definition kill :: "int \<Rightarrow> ('z ptab_scheme, int) M" where
  "kill pid =
     bindM (searchM [0..<64] (\<lambda>p.
       seqM (acquire (ProcLock p)) (
       bindM (get_proc p p_pid) (\<lambda>pd.
       if pd = pid then
         seqM (set_proc p (\<lambda>c. c\<lparr>p_killed := 1\<rparr>)) (
         bindM (get_proc p p_state) (\<lambda>st.
         bindM (gets policy) (\<lambda>pol.
         seqM (whenM (st = SLEEPING) (
                 seqM (set_proc p (\<lambda>c. c\<lparr>p_state := RUNNABLE\<rparr>))
                      (whenM (pol = MLFQ) (push p 0)))) (
         seqM (release (ProcLock p))
              (returnM (Some ()))))))
       else seqM (release (ProcLock p)) (returnM None))))) (\<lambda>r.
     returnM (if r = None then - 1 else 0))"

subsection \<open>Parents and children\<close>

definition reparent :: "nat \<Rightarrow> ('z ptab_scheme, unit) M" where
  "reparent p =
     forM [0..<64] (\<lambda>pp.
       bindM (get_proc pp p_parent) (\<lambda>par.
       if par = Some p then
         bindM (gets initproc) (\<lambda>ini.
         seqM (set_proc pp (\<lambda>c. c\<lparr>p_parent := ini\<rparr>))
              (case ini of None \<Rightarrow> returnM () | Some i \<Rightarrow> wakeup (ChanProc i)))
       else returnM ()))"

definition bytes_of_int :: "int \<Rightarrow> u8 list" where
  "bytes_of_int x = map (\<lambda>i. word_of_int (x div 2 ^ (8 * i))) [0..<4]"

text \<open>
  One scan of the table in \<^verbatim>\<open>wait\<close>: the value to return, if the scan found one, and whether the
  process has children.
\<close>

primrec wait_scan :: "nat list \<Rightarrow> nat \<Rightarrow> u64 \<Rightarrow> bool \<Rightarrow> ('z ptab_scheme, int option \<times> bool) M" where
  "wait_scan [] p addr havekids = returnM (None, havekids)"
| "wait_scan (np # nps) p addr havekids =
     bindM (get_proc np p_parent) (\<lambda>par.
     if par \<noteq> Some p then wait_scan nps p addr havekids else
     seqM (acquire (ProcLock np)) (
     bindM (get_proc np p_state) (\<lambda>st.
     if st = ZOMBIE then
       bindM (get_proc np p_pid) (\<lambda>pid.
       bindM (get_proc np p_xstate) (\<lambda>xs.
       bindM (get_proc p p_pagetable) (\<lambda>pt.
       bindM (if addr \<noteq> 0 then copyout pt addr (bytes_of_int xs) else returnM 0) (\<lambda>r.
       if r < 0 then
         seqM (release (ProcLock np)) (
         seqM (release WaitLock) (returnM (Some (- 1), True)))
       else
         seqM (freeproc np) (
         seqM (release (ProcLock np)) (
         seqM (release WaitLock) (returnM (Some pid, True)))))))
       )
     else seqM (release (ProcLock np)) (wait_scan nps p addr True))))"

text \<open>One turn of the loop of \<^verbatim>\<open>wait\<close>; a process that sleeps runs it again when it resumes.\<close>

definition wait_turn :: "nat \<Rightarrow> u64 \<Rightarrow> ('z ptab_scheme, int) M" where
  "wait_turn p addr =
     bindM (wait_scan [0..<64] p addr False) (\<lambda>r.
     case fst r of Some v \<Rightarrow> returnM v
     | None \<Rightarrow>
         bindM (get_proc p p_killed) (\<lambda>k.
         if \<not> snd r \<or> k \<noteq> 0 then seqM (release WaitLock) (returnM (- 1))
         else sleep (ChanProc p) WaitLock))"

definition wait :: "u64 \<Rightarrow> ('z ptab_scheme, int) M" where
  "wait addr =
     bindM curproc (\<lambda>p.
     seqM (acquire WaitLock)
          (wait_turn p addr))"

definition wait_resume :: "nat \<Rightarrow> u64 \<Rightarrow> bool \<Rightarrow> ('z ptab_scheme, int) M" where
  "wait_resume p addr old_intena =
     seqM (sleep_resume p WaitLock old_intena) (wait_turn p addr)"

text \<open>
  \<^verbatim>\<open>waitx\<close> is \<^verbatim>\<open>wait\<close> with the run and wait times of the child stored through two pointers; the times
  are part of the result when they have been stored.
\<close>

primrec waitx_scan ::
    "nat list \<Rightarrow> nat \<Rightarrow> u64 \<Rightarrow> bool \<Rightarrow> ('z ptab_scheme, (int \<times> (u32 \<times> u32)) option \<times> bool) M" where
  "waitx_scan [] p addr havekids = returnM (None, havekids)"
| "waitx_scan (np # nps) p addr havekids =
     bindM (get_proc np p_parent) (\<lambda>par.
     if par \<noteq> Some p then waitx_scan nps p addr havekids else
     seqM (acquire (ProcLock np)) (
     bindM (get_proc np p_state) (\<lambda>st.
     if st = ZOMBIE then
       bindM (get_proc np p_pid) (\<lambda>pid.
       bindM (get_proc np (\<lambda>c. (ucast (p_rtime_whole c),
                                ucast (p_etime c - p_ctime c - p_rtime_whole c)))) (\<lambda>times.
       bindM (get_proc np p_xstate) (\<lambda>xs.
       bindM (get_proc p p_pagetable) (\<lambda>pt.
       bindM (if addr \<noteq> 0 then copyout pt addr (bytes_of_int xs) else returnM 0) (\<lambda>r.
       if r < 0 then
         seqM (release (ProcLock np)) (
         seqM (release WaitLock) (returnM (Some (- 1, times), True)))
       else
         seqM (freeproc np) (
         seqM (release (ProcLock np)) (
         seqM (release WaitLock) (returnM (Some (pid, times), True)))))))))
     else seqM (release (ProcLock np)) (waitx_scan nps p addr True))))"

definition waitx_turn :: "nat \<Rightarrow> u64 \<Rightarrow> ('z ptab_scheme, int \<times> (u32 \<times> u32) option) M" where
  "waitx_turn p addr =
     bindM (waitx_scan [0..<64] p addr False) (\<lambda>r.
     case fst r of Some v \<Rightarrow> returnM (fst v, Some (snd v))
     | None \<Rightarrow>
         bindM (get_proc p p_killed) (\<lambda>k.
         if \<not> snd r \<or> k \<noteq> 0 then seqM (release WaitLock) (returnM (- 1, None))
         else sleep (ChanProc p) WaitLock))"

definition waitx :: "u64 \<Rightarrow> ('z ptab_scheme, int \<times> (u32 \<times> u32) option) M" where
  "waitx addr =
     bindM curproc (\<lambda>p.
     seqM (acquire WaitLock)
          (waitx_turn p addr))"

definition waitx_resume :: "nat \<Rightarrow> u64 \<Rightarrow> bool \<Rightarrow> ('z ptab_scheme, int \<times> (u32 \<times> u32) option) M" where
  "waitx_resume p addr old_intena =
     seqM (sleep_resume p WaitLock old_intena) (waitx_turn p addr)"

subsection \<open>Copying to either space\<close>

text \<open>
  With a kernel-side destination (or source) the bytes are the caller's own: the routine returns
  what the \<^verbatim>\<open>memmove\<close> stores.
\<close>

definition either_copyout :: "bool \<Rightarrow> u64 \<Rightarrow> u8 list \<Rightarrow> ('z ptab_scheme, int) M" where
  "either_copyout user_dst dst src =
     bindM myproc (\<lambda>me.
     if user_dst then
       (case me of None \<Rightarrow> stopM (Fault ''null process'')
        | Some p \<Rightarrow> bindM (get_proc p p_pagetable) (\<lambda>pt. copyout pt dst src))
     else seqM (set_phys (write_bytes dst src)) (returnM 0))"

definition either_copyin :: "bool \<Rightarrow> u64 \<Rightarrow> nat \<Rightarrow> ('z ptab_scheme, int \<times> u8 list) M" where
  "either_copyin user_src src len =
     bindM myproc (\<lambda>me.
     if user_src then
       (case me of None \<Rightarrow> stopM (Fault ''null process'')
        | Some p \<Rightarrow> bindM (get_proc p p_pagetable) (\<lambda>pt. copyin pt src len))
     else bindM (gets (\<lambda>s. read_bytes (phys s) src len)) (\<lambda>bs. returnM (0, bs)))"

subsection \<open>Accounting and priorities\<close>

definition tick_times :: "proc \<Rightarrow> proc" where
  "tick_times c =
     (let c = (if p_state c = SLEEPING then c\<lparr>p_stime := p_stime c + 1\<rparr> else c);
          c = (if p_state c = RUNNING
               then c\<lparr>p_rtime := p_rtime c + 1, p_rtime_every := p_rtime_every c + 1,
                      p_rtime_whole := p_rtime_whole c + 1\<rparr>
               else c\<lparr>p_wtime := p_wtime c + 1, p_wtime_every := p_wtime_every c + 1,
                      p_wtime_whole := p_wtime_whole c + 1\<rparr>)
      in c)"

definition tick_priority :: "proc \<Rightarrow> proc" where
  "tick_priority c =
     (let c = (if p_rtime c \<noteq> 0 \<or> p_stime c \<noteq> 0
               then c\<lparr>p_niceness := int_of_u64 (p_stime c * 10 div (p_stime c + p_rtime c))\<rparr> else c);
          c = c\<lparr>p_priority := s32 (p_spriority c - p_niceness c + 5)\<rparr>
      in if p_priority c < 0 then c\<lparr>p_priority := 0\<rparr>
         else if p_priority c > 100 then c\<lparr>p_priority := 100\<rparr> else c)"

definition update_vals :: "('z ptab_scheme, unit) M" where
  "update_vals =
     forM [0..<64] (\<lambda>p.
       seqM (acquire (ProcLock p)) (
       seqM (set_proc p (\<lambda>c. tick_priority (tick_times c)))
            (release (ProcLock p))))"

primrec priority_scan :: "nat list \<Rightarrow> int \<Rightarrow> int \<Rightarrow> int \<Rightarrow> ('z ptab_scheme, int) M" where
  "priority_scan [] new_priority pid temp = returnM temp"
| "priority_scan (p # ps) new_priority pid temp =
     seqM (acquire (ProcLock p)) (
     bindM (get_proc p p_pid) (\<lambda>pd.
     bindM (get_proc p p_spriority) (\<lambda>old.
     seqM (whenM (pd = pid) (set_proc p (\<lambda>c. c\<lparr>p_spriority := new_priority, p_niceness := 5\<rparr>))) (
     seqM (release (ProcLock p))
          (priority_scan ps new_priority pid (if pd = pid then old else temp))))))"

definition priority_updater :: "int \<Rightarrow> int \<Rightarrow> ('z ptab_scheme, int) M" where
  "priority_updater new_priority pid =
     bindM (priority_scan [0..<64] new_priority pid (- 1)) (\<lambda>temp.
     if temp \<noteq> - 1 \<and> temp > new_priority then yield else returnM temp)"

text \<open>\<^verbatim>\<open>strcmp\<close> of \<^verbatim>\<open>proc.c\<close>; the end of a list is the terminating NUL.\<close>

fun strcmp :: "string \<Rightarrow> string \<Rightarrow> int" where
  "strcmp [] [] = 0"
| "strcmp [] (y # ys) = - of_char y"
| "strcmp (x # xs) [] = of_char x"
| "strcmp (x # xs) (y # ys) = (if x = y then strcmp xs ys else of_char x - of_char y)"

text \<open>The columns of one line of \<^verbatim>\<open>procdump\<close>.\<close>

definition state_name :: "procstate \<Rightarrow> string" where
  "state_name st = (case st of UNUSED \<Rightarrow> ''unused'' | USED \<Rightarrow> ''???'' | SLEEPING \<Rightarrow> ''sleep ''
     | RUNNABLE \<Rightarrow> ''runble'' | RUNNING \<Rightarrow> ''run   '' | ZOMBIE \<Rightarrow> ''zombie'')"

datatype column = CInt int | CStr string

definition procdump_line :: "policy \<Rightarrow> proc \<Rightarrow> column list" where
  "procdump_line pol c =
     (let tail = [CInt (int_of_u64 (p_rtime_every c)), CInt (int_of_u64 (p_wtime_every c)), CInt (p_nrun_whole c)];
          st = CStr (state_name (p_state c))
      in case pol of
           DEFAULT \<Rightarrow> [CInt (p_pid c), st] @ tail
         | FCFS \<Rightarrow> [CInt (p_pid c), st] @ tail
         | PBS \<Rightarrow> [CInt (p_pid c), CInt (p_priority c), st] @ tail
         | MLFQ \<Rightarrow> [CInt (p_pid c), CInt (if strcmp (state_name (p_state c)) ''zombie'' \<noteq> 0 then p_curr_q c else - 1), st] @ tail
              @ map (\<lambda>i. CInt (p_q_val c i)) [0..<5])"

definition procdump :: "'z ptab_scheme \<Rightarrow> column list list" where
  "procdump s =
     map (\<lambda>i. procdump_line (policy s) (procs s i)) (filter (\<lambda>i. p_state (procs s i) \<noteq> UNUSED) [0..<64])"

subsection \<open>The lock operations leave the tables alone\<close>

lemma vm_lock_read [simp]:
  "kernel_pagetable (acq lk s) = kernel_pagetable s"
  "kernel_pagetable (rel lk s) = kernel_pagetable s"
  "kernel_pagetable (settle s) = kernel_pagetable s"
  "etext (acq lk s) = etext s"
  "etext (rel lk s) = etext s"
  "etext (settle s) = etext s"
  "trampoline_text (acq lk s) = trampoline_text s"
  "trampoline_text (rel lk s) = trampoline_text s"
  "trampoline_text (settle s) = trampoline_text s"
  "satp (acq lk s) = satp s"
  "satp (rel lk s) = satp s"
  "satp (settle s) = satp s"
  by (simp_all add: acq_def rel_def settle_def lock_free_def intr_wf_def in_cs_def spin_defs)

lemma vm_lock_update [simp]:
  "acq lk (s\<lparr>kernel_pagetable := x0\<rparr>) = (acq lk s)\<lparr>kernel_pagetable := x0\<rparr>"
  "rel lk (s\<lparr>kernel_pagetable := x0\<rparr>) = (rel lk s)\<lparr>kernel_pagetable := x0\<rparr>"
  "settle (s\<lparr>kernel_pagetable := x0\<rparr>) = (settle s)\<lparr>kernel_pagetable := x0\<rparr>"
  "acq lk (s\<lparr>etext := x1\<rparr>) = (acq lk s)\<lparr>etext := x1\<rparr>"
  "rel lk (s\<lparr>etext := x1\<rparr>) = (rel lk s)\<lparr>etext := x1\<rparr>"
  "settle (s\<lparr>etext := x1\<rparr>) = (settle s)\<lparr>etext := x1\<rparr>"
  "acq lk (s\<lparr>trampoline_text := x2\<rparr>) = (acq lk s)\<lparr>trampoline_text := x2\<rparr>"
  "rel lk (s\<lparr>trampoline_text := x2\<rparr>) = (rel lk s)\<lparr>trampoline_text := x2\<rparr>"
  "settle (s\<lparr>trampoline_text := x2\<rparr>) = (settle s)\<lparr>trampoline_text := x2\<rparr>"
  "acq lk (s\<lparr>satp := x3\<rparr>) = (acq lk s)\<lparr>satp := x3\<rparr>"
  "rel lk (s\<lparr>satp := x3\<rparr>) = (rel lk s)\<lparr>satp := x3\<rparr>"
  "settle (s\<lparr>satp := x3\<rparr>) = (settle s)\<lparr>satp := x3\<rparr>"
  by (simp_all add: acq_def rel_def settle_def lock_free_def intr_wf_def in_cs_def spin_defs)

lemma vm_lock_state [simp]:
  "lock_free lk (s\<lparr>kernel_pagetable := x0\<rparr>) = lock_free lk s"
  "intr_wf (s\<lparr>kernel_pagetable := x0\<rparr>) = intr_wf s"
  "in_cs lk (s\<lparr>kernel_pagetable := x0\<rparr>) = in_cs lk s"
  "holding lk (s\<lparr>kernel_pagetable := x0\<rparr>) = holding lk s"
  "mycpu (s\<lparr>kernel_pagetable := x0\<rparr>) = mycpu s"
  "lock_free lk (s\<lparr>etext := x1\<rparr>) = lock_free lk s"
  "intr_wf (s\<lparr>etext := x1\<rparr>) = intr_wf s"
  "in_cs lk (s\<lparr>etext := x1\<rparr>) = in_cs lk s"
  "holding lk (s\<lparr>etext := x1\<rparr>) = holding lk s"
  "mycpu (s\<lparr>etext := x1\<rparr>) = mycpu s"
  "lock_free lk (s\<lparr>trampoline_text := x2\<rparr>) = lock_free lk s"
  "intr_wf (s\<lparr>trampoline_text := x2\<rparr>) = intr_wf s"
  "in_cs lk (s\<lparr>trampoline_text := x2\<rparr>) = in_cs lk s"
  "holding lk (s\<lparr>trampoline_text := x2\<rparr>) = holding lk s"
  "mycpu (s\<lparr>trampoline_text := x2\<rparr>) = mycpu s"
  "lock_free lk (s\<lparr>satp := x3\<rparr>) = lock_free lk s"
  "intr_wf (s\<lparr>satp := x3\<rparr>) = intr_wf s"
  "in_cs lk (s\<lparr>satp := x3\<rparr>) = in_cs lk s"
  "holding lk (s\<lparr>satp := x3\<rparr>) = holding lk s"
  "mycpu (s\<lparr>satp := x3\<rparr>) = mycpu s"
  by (simp_all add: acq_def rel_def settle_def lock_free_def intr_wf_def in_cs_def spin_defs)

lemma ptab_lock_read [simp]:
  "procs (acq lk s) = procs s"
  "procs (rel lk s) = procs s"
  "procs (settle s) = procs s"
  "initproc (acq lk s) = initproc s"
  "initproc (rel lk s) = initproc s"
  "initproc (settle s) = initproc s"
  "nextpid (acq lk s) = nextpid s"
  "nextpid (rel lk s) = nextpid s"
  "nextpid (settle s) = nextpid s"
  "queues (acq lk s) = queues s"
  "queues (rel lk s) = queues s"
  "queues (settle s) = queues s"
  "q_index (acq lk s) = q_index s"
  "q_index (rel lk s) = q_index s"
  "q_index (settle s) = q_index s"
  "ticks (acq lk s) = ticks s"
  "ticks (rel lk s) = ticks s"
  "ticks (settle s) = ticks s"
  "policy (acq lk s) = policy s"
  "policy (rel lk s) = policy s"
  "policy (settle s) = policy s"
  by (simp_all add: acq_def rel_def settle_def lock_free_def intr_wf_def in_cs_def spin_defs)

lemma ptab_lock_update [simp]:
  "acq lk (s\<lparr>procs := x0\<rparr>) = (acq lk s)\<lparr>procs := x0\<rparr>"
  "rel lk (s\<lparr>procs := x0\<rparr>) = (rel lk s)\<lparr>procs := x0\<rparr>"
  "settle (s\<lparr>procs := x0\<rparr>) = (settle s)\<lparr>procs := x0\<rparr>"
  "acq lk (s\<lparr>initproc := x1\<rparr>) = (acq lk s)\<lparr>initproc := x1\<rparr>"
  "rel lk (s\<lparr>initproc := x1\<rparr>) = (rel lk s)\<lparr>initproc := x1\<rparr>"
  "settle (s\<lparr>initproc := x1\<rparr>) = (settle s)\<lparr>initproc := x1\<rparr>"
  "acq lk (s\<lparr>nextpid := x2\<rparr>) = (acq lk s)\<lparr>nextpid := x2\<rparr>"
  "rel lk (s\<lparr>nextpid := x2\<rparr>) = (rel lk s)\<lparr>nextpid := x2\<rparr>"
  "settle (s\<lparr>nextpid := x2\<rparr>) = (settle s)\<lparr>nextpid := x2\<rparr>"
  "acq lk (s\<lparr>queues := x3\<rparr>) = (acq lk s)\<lparr>queues := x3\<rparr>"
  "rel lk (s\<lparr>queues := x3\<rparr>) = (rel lk s)\<lparr>queues := x3\<rparr>"
  "settle (s\<lparr>queues := x3\<rparr>) = (settle s)\<lparr>queues := x3\<rparr>"
  "acq lk (s\<lparr>q_index := x4\<rparr>) = (acq lk s)\<lparr>q_index := x4\<rparr>"
  "rel lk (s\<lparr>q_index := x4\<rparr>) = (rel lk s)\<lparr>q_index := x4\<rparr>"
  "settle (s\<lparr>q_index := x4\<rparr>) = (settle s)\<lparr>q_index := x4\<rparr>"
  "acq lk (s\<lparr>ticks := x5\<rparr>) = (acq lk s)\<lparr>ticks := x5\<rparr>"
  "rel lk (s\<lparr>ticks := x5\<rparr>) = (rel lk s)\<lparr>ticks := x5\<rparr>"
  "settle (s\<lparr>ticks := x5\<rparr>) = (settle s)\<lparr>ticks := x5\<rparr>"
  "acq lk (s\<lparr>policy := x6\<rparr>) = (acq lk s)\<lparr>policy := x6\<rparr>"
  "rel lk (s\<lparr>policy := x6\<rparr>) = (rel lk s)\<lparr>policy := x6\<rparr>"
  "settle (s\<lparr>policy := x6\<rparr>) = (settle s)\<lparr>policy := x6\<rparr>"
  by (simp_all add: acq_def rel_def settle_def lock_free_def intr_wf_def in_cs_def spin_defs)

lemma ptab_lock_state [simp]:
  "lock_free lk (s\<lparr>procs := x0\<rparr>) = lock_free lk s"
  "intr_wf (s\<lparr>procs := x0\<rparr>) = intr_wf s"
  "in_cs lk (s\<lparr>procs := x0\<rparr>) = in_cs lk s"
  "holding lk (s\<lparr>procs := x0\<rparr>) = holding lk s"
  "mycpu (s\<lparr>procs := x0\<rparr>) = mycpu s"
  "lock_free lk (s\<lparr>initproc := x1\<rparr>) = lock_free lk s"
  "intr_wf (s\<lparr>initproc := x1\<rparr>) = intr_wf s"
  "in_cs lk (s\<lparr>initproc := x1\<rparr>) = in_cs lk s"
  "holding lk (s\<lparr>initproc := x1\<rparr>) = holding lk s"
  "mycpu (s\<lparr>initproc := x1\<rparr>) = mycpu s"
  "lock_free lk (s\<lparr>nextpid := x2\<rparr>) = lock_free lk s"
  "intr_wf (s\<lparr>nextpid := x2\<rparr>) = intr_wf s"
  "in_cs lk (s\<lparr>nextpid := x2\<rparr>) = in_cs lk s"
  "holding lk (s\<lparr>nextpid := x2\<rparr>) = holding lk s"
  "mycpu (s\<lparr>nextpid := x2\<rparr>) = mycpu s"
  "lock_free lk (s\<lparr>queues := x3\<rparr>) = lock_free lk s"
  "intr_wf (s\<lparr>queues := x3\<rparr>) = intr_wf s"
  "in_cs lk (s\<lparr>queues := x3\<rparr>) = in_cs lk s"
  "holding lk (s\<lparr>queues := x3\<rparr>) = holding lk s"
  "mycpu (s\<lparr>queues := x3\<rparr>) = mycpu s"
  "lock_free lk (s\<lparr>q_index := x4\<rparr>) = lock_free lk s"
  "intr_wf (s\<lparr>q_index := x4\<rparr>) = intr_wf s"
  "in_cs lk (s\<lparr>q_index := x4\<rparr>) = in_cs lk s"
  "holding lk (s\<lparr>q_index := x4\<rparr>) = holding lk s"
  "mycpu (s\<lparr>q_index := x4\<rparr>) = mycpu s"
  "lock_free lk (s\<lparr>ticks := x5\<rparr>) = lock_free lk s"
  "intr_wf (s\<lparr>ticks := x5\<rparr>) = intr_wf s"
  "in_cs lk (s\<lparr>ticks := x5\<rparr>) = in_cs lk s"
  "holding lk (s\<lparr>ticks := x5\<rparr>) = holding lk s"
  "mycpu (s\<lparr>ticks := x5\<rparr>) = mycpu s"
  "lock_free lk (s\<lparr>policy := x6\<rparr>) = lock_free lk s"
  "intr_wf (s\<lparr>policy := x6\<rparr>) = intr_wf s"
  "in_cs lk (s\<lparr>policy := x6\<rparr>) = in_cs lk s"
  "holding lk (s\<lparr>policy := x6\<rparr>) = holding lk s"
  "mycpu (s\<lparr>policy := x6\<rparr>) = mycpu s"
  by (simp_all add: acq_def rel_def settle_def lock_free_def intr_wf_def in_cs_def spin_defs)

subsection \<open>Running over the table\<close>

lemma c_proc_settle [simp]: "c_proc (mycpu (settle s)) = c_proc (mycpu s)"
  by (simp add: mycpu_def spin_defs)

lemma c_proc_acq [simp]: "c_proc (mycpu (acq lk s)) = c_proc (mycpu s)"
  by (simp add: mycpu_def spin_defs)

lemma myproc_run:
  assumes "intr_wf s"
  shows "myproc s = Ret (c_proc (mycpu s)) (settle s)"
  using assms
  by (cases "noff (mycpu s) = 0"; cases "sie s")
    (auto simp: myproc_def spin_defs monad_simps settle_def intr_wf_def intro!: mach.equality)

lemma curproc_run:
  assumes "intr_wf s" "c_proc (mycpu s) = Some p"
  shows "curproc s = Ret p (settle s)"
  using myproc_run [OF assms(1)] assms(2) by (simp add: curproc_def)

lemma settle_procs_same [simp]: "(settle s)\<lparr>procs := procs s\<rparr> = settle s"
proof -
  have "(settle s)\<lparr>procs := procs s\<rparr> = (settle s)\<lparr>procs := procs (settle s)\<rparr>" by simp
  also have "\<dots> = settle s" by (simp del: ptab_lock_read)
  finally show ?thesis .
qed

text \<open>Between routines: the interrupt nesting is consistent and no process lock is held.\<close>

definition quiet :: "'z ptab_scheme \<Rightarrow> bool" where
  "quiet s \<longleftrightarrow> intr_wf s \<and> (\<forall>p<NPROC. lock_free (ProcLock p) s)"

lemma quiet_procs [simp]: "quiet (s\<lparr>procs := x\<rparr>) = quiet s" "quiet (settle s) = quiet s"
  by (simp_all add: quiet_def)

lemma quietD: "quiet s \<Longrightarrow> p < NPROC \<Longrightarrow> lock_free (ProcLock p) s" "quiet s \<Longrightarrow> intr_wf s"
  by (auto simp: quiet_def)

text \<open>A loop whose body works on one slot under that slot's lock.\<close>

lemma forM_slots:
  assumes "\<And>p t. p < n \<Longrightarrow> quiet t \<Longrightarrow> c_proc (mycpu t) = me \<Longrightarrow>
      body p t = Ret () ((settle t)\<lparr>procs := (procs t)(p := g p (procs t p))\<rparr>)"
    and "quiet s" "c_proc (mycpu s) = me" "0 < n"
  shows "forM [0..<n] body s
    = Ret () ((settle s)\<lparr>procs := \<lambda>p. if p < n then g p (procs s p) else procs s p\<rparr>)"
  using assms(1,4)
proof (induction n)
  case 0
  then show ?case by simp
next
  case (Suc n)
  let ?s = "(settle s)\<lparr>procs := \<lambda>p. if p < n then g p (procs s p) else procs s p\<rparr>"
  have e: "(\<lambda>p. if p < Suc n then g p (procs s p) else procs s p)
      = (\<lambda>p. if p < n then g p (procs s p) else procs s p)(n := g n (procs s n))"
    by (auto simp: less_Suc_eq)
  show ?case
  proof (cases "n = 0")
    case True
    then show ?thesis
      unfolding e using Suc.prems(1) [of 0 s] assms(2,3) by (simp add: seqM_apply fun_upd_def)
  next
    case False
    then have "forM [0..<n] body s = Ret () ?s" using Suc by simp
    moreover have "body n ?s = Ret () ((settle ?s)\<lparr>procs := (procs ?s)(n := g n (procs ?s n))\<rparr>)"
      using assms(2,3) by (intro Suc.prems(1)) simp_all
    ultimately show ?thesis unfolding e by (simp add: forM_append seqM_apply)
  qed
qed

lemma update_slot:
  assumes "lock_free (ProcLock p) t" "intr_wf t"
  shows "seqM (acquire (ProcLock p)) (seqM (set_proc p f) (release (ProcLock p))) t
    = Ret () ((settle t)\<lparr>procs := (procs t)(p := f (procs t p))\<rparr>)"
  using assms by (simp add: acquire_free release_in_cs rel_acq)

subsection \<open>Accounting\<close>

lemma update_vals_run:
  assumes "quiet s"
  shows "update_vals s = Ret () ((settle s)\<lparr>procs :=
    \<lambda>p. if p < NPROC then tick_priority (tick_times (procs s p)) else procs s p\<rparr>)"
  unfolding update_vals_def
  by (rule forM_slots [where me = "c_proc (mycpu s)"])
    (use assms in \<open>simp_all add: update_slot quietD\<close>)

lemma tick_priority_range: "0 \<le> p_priority (tick_priority c) \<and> p_priority (tick_priority c) \<le> 100"
  by (simp add: tick_priority_def Let_def)

lemma div_le_ten:
  fixes a b :: u64
  assumes "unat a + unat b < 2 ^ 60" "a \<noteq> 0 \<or> b \<noteq> 0"
  shows "unat (a * 10 div (a + b)) \<le> 10"
proof -
  have "unat (a * 10) = unat a * 10" "unat (a + b) = unat a + unat b"
    using assms(1) by (simp_all add: unat_word_ariths)
  then have e: "unat (a * 10 div (a + b)) = unat a * 10 div (unat a + unat b)" by (simp add: unat_div_distrib)
  have "0 < unat a + unat b" using assms(2) by (auto simp: unat_gt_0)
  moreover have "unat a * 10 \<le> 10 * (unat a + unat b)" by simp
  ultimately show ?thesis unfolding e by (metis div_le_mono nonzero_mult_div_cancel_right less_numeral_extra(3))
qed

lemma tick_priority_niceness:
  assumes "unat (p_stime c) + unat (p_rtime c) < 2 ^ 60" "0 \<le> p_niceness c \<and> p_niceness c \<le> 10"
  shows "0 \<le> p_niceness (tick_priority c) \<and> p_niceness (tick_priority c) \<le> 10"
proof (cases "p_rtime c \<noteq> 0 \<or> p_stime c \<noteq> 0")
  case True
  let ?n = "p_stime c * 10 div (p_stime c + p_rtime c)"
  have "unat ?n \<le> 10" using assms(1) True by (intro div_le_ten) auto
  then have "int_of_u64 ?n = int (unat ?n)" by (intro int_of_u64_small) simp
  then have "0 \<le> int_of_u64 ?n \<and> int_of_u64 ?n \<le> 10" using \<open>unat ?n \<le> 10\<close> by linarith
  then show ?thesis using True by (simp add: tick_priority_def Let_def)
next
  case False
  then show ?thesis using assms(2) by (simp add: tick_priority_def Let_def)
qed

lemma tick_times_bound:
  assumes "unat (p_stime c) + unat (p_rtime c) < 2 ^ 60 - 2"
  shows "unat (p_stime (tick_times c)) + unat (p_rtime (tick_times c)) < 2 ^ 60
    \<and> p_niceness (tick_times c) = p_niceness c"
  using assms by (auto simp: tick_times_def Let_def unat_word_ariths)

text \<open>
  C11: on every clock tick \<^verbatim>\<open>update_vals\<close> leaves each process with a priority between 0 and 100, and
  with a niceness between 0 and 10 if it had one before and its time counters have not grown to
  the size where their sum overflows. It changes no process state.
\<close>

theorem update_vals_bounds:
  assumes "quiet s" "p < NPROC"
  shows "\<exists>t. update_vals s = Ret () t \<and> 0 \<le> p_priority (procs t p) \<and> p_priority (procs t p) \<le> 100
    \<and> p_state (procs t p) = p_state (procs s p)
    \<and> (0 \<le> p_niceness (procs s p) \<and> p_niceness (procs s p) \<le> 10
         \<and> unat (p_stime (procs s p)) + unat (p_rtime (procs s p)) < 2 ^ 60 - 2
       \<longrightarrow> 0 \<le> p_niceness (procs t p) \<and> p_niceness (procs t p) \<le> 10)"
proof -
  let ?c = "procs s p"
  have "p_state (tick_priority (tick_times ?c)) = p_state ?c"
    by (simp add: tick_priority_def tick_times_def Let_def)
  moreover have "0 \<le> p_niceness ?c \<and> p_niceness ?c \<le> 10
      \<and> unat (p_stime ?c) + unat (p_rtime ?c) < 2 ^ 60 - 2
    \<longrightarrow> 0 \<le> p_niceness (tick_priority (tick_times ?c)) \<and> p_niceness (tick_priority (tick_times ?c)) \<le> 10"
    using tick_times_bound [of ?c] tick_priority_niceness [of "tick_times ?c"] by auto
  ultimately show ?thesis
    using update_vals_run [OF assms(1)] assms(2) tick_priority_range by simp
qed

definition blank_proc :: proc where
  "blank_proc = \<lparr>p_state = UNUSED, p_chan = None, p_killed = 0, p_xstate = 0, p_pid = 0, p_parent = None,
     p_kstack = 0, p_sz = 0, p_pagetable = 0, p_trapframe = 0,
     p_context = \<lparr>ctx_ra = 0, ctx_sp = 0, ctx_s = []\<rparr>, p_ofile = (\<lambda>_. None), p_cwd = None,
     p_name = replicate 16 0, p_mask = 0, p_atime = 0, p_ctime = 0, p_stime = 0, p_rtime = 0,
     p_rtime_whole = 0, p_rtime_every = 0, p_wtime = 0, p_wtime_whole = 0, p_wtime_every = 0, p_etime = 0,
     p_spriority = 0, p_priority = 0, p_niceness = 0, p_nrun = 0, p_nrun_whole = 0, p_curr_q = 0,
     p_q_val = (\<lambda>_. 0)\<rparr>"

text \<open>A kernel at rest, in which slot 0 runs and slots 1 and 2 sleep.\<close>

definition demo_procs :: "nat \<Rightarrow> proc" where
  "demo_procs = (\<lambda>_. blank_proc)
     (0 := blank_proc\<lparr>p_state := RUNNING, p_pid := 1\<rparr>,
      1 := blank_proc\<lparr>p_state := SLEEPING, p_pid := 2, p_chan := Some ChanTicks, p_parent := Some 0,
             p_spriority := 99, p_niceness := 5, p_stime := 3\<rparr>,
      2 := blank_proc\<lparr>p_state := SLEEPING, p_pid := 3, p_chan := Some ChanLog, p_parent := Some 0\<rparr>)"

definition demo :: "ptab" where
  "demo = \<lparr>phys = (\<lambda>_. 0), hart = 0, sie = True,
     cpus = (\<lambda>_. \<lparr>c_proc = Some 0, noff = 0, intena = False\<rparr>),
     locks = (\<lambda>_. \<lparr>locked = 0, lk_name = [], lk_cpu = None\<rparr>), freelist = 0, k_end = 0x80030000,
     kernel_pagetable = 0, etext = 0x80008000, trampoline_text = 0x80007000, satp = 0,
     procs = demo_procs, initproc = Some 0, nextpid = 4, queues = (\<lambda>_ _. None), q_index = (\<lambda>_. - 1),
     ticks = 100, policy = DEFAULT, forkret_text = 0x80001000, fork_first = False\<rparr>"

lemma demo_quiet: "quiet demo" "c_proc (mycpu demo) = Some 0" "procs demo = demo_procs"
  by (simp_all add: quiet_def demo_def lock_free_def intr_wf_def spin_defs)

theorem update_vals_bounds_witness:
  "\<exists>t. update_vals demo = Ret () t \<and> p_priority (procs t 1) \<le> 100 \<and> p_niceness (procs t 1) \<le> 10"
  using update_vals_bounds [OF demo_quiet(1), of 1]
  by (auto simp: demo_quiet demo_procs_def blank_proc_def)

subsection \<open>Waking\<close>

definition woken :: "chan \<Rightarrow> nat option \<Rightarrow> nat \<Rightarrow> proc \<Rightarrow> proc" where
  "woken chan me p c =
     (if me \<noteq> Some p \<and> p_state c = SLEEPING \<and> p_chan c = Some chan then c\<lparr>p_state := RUNNABLE\<rparr> else c)"

lemma wakeup_run:
  assumes "quiet s"
  shows "wakeup ch s = Ret () ((settle s)\<lparr>procs :=
    \<lambda>p. if p < NPROC then woken ch (c_proc (mycpu s)) p (procs s p) else procs s p\<rparr>)"
  unfolding wakeup_def
proof (rule forM_slots [where me = "c_proc (mycpu s)"])
  fix p and t :: "'a ptab_scheme"
  assume p: "p < NPROC" and t: "quiet t" "c_proc (mycpu t) = c_proc (mycpu s)"
  have m: "myproc t = Ret (c_proc (mycpu s)) (settle t)" using myproc_run t quietD(2) by metis
  show "bindM myproc (\<lambda>me. if me = Some p then returnM () else
       seqM (acquire (ProcLock p)) (
       bindM (get_proc p (\<lambda>c. p_state c = SLEEPING \<and> p_chan c = Some ch)) (\<lambda>b.
       seqM (whenM b (set_proc p (\<lambda>c. c\<lparr>p_state := RUNNABLE\<rparr>))) (release (ProcLock p))))) t
    = Ret () ((settle t)\<lparr>procs := (procs t)(p := woken ch (c_proc (mycpu s)) p (procs t p))\<rparr>)"
    using m t p quietD [of t]
    by (simp add: woken_def acquire_free release_in_cs rel_acq seqM_apply)
qed (use assms in simp_all)

text \<open>
  C12: \<^verbatim>\<open>wakeup\<close> makes runnable exactly the processes that sleep on the channel, the caller apart,
  and changes nothing else in the table.
\<close>

theorem wakeup_exact:
  assumes "quiet s"
  shows "\<exists>t. wakeup ch s = Ret () t
    \<and> (\<forall>p<NPROC. procs t p =
         (if c_proc (mycpu s) \<noteq> Some p \<and> p_state (procs s p) = SLEEPING \<and> p_chan (procs s p) = Some ch
          then (procs s p)\<lparr>p_state := RUNNABLE\<rparr> else procs s p))"
  using wakeup_run [OF assms, of ch] by (simp add: woken_def)

theorem wakeup_exact_witness:
  "\<exists>t. wakeup ChanTicks demo = Ret () t \<and> p_state (procs t 1) = RUNNABLE \<and> p_state (procs t 2) = SLEEPING"
  using wakeup_exact [OF demo_quiet(1), of ChanTicks]
  by (auto simp: demo_quiet demo_procs_def blank_proc_def)

subsection \<open>Process identifiers\<close>

lemma allocpid_run:
  assumes "lock_free PidLock s" "intr_wf s"
  shows "allocpid s = Ret (nextpid s) ((settle s)\<lparr>nextpid := s32 (nextpid s + 1)\<rparr>)"
  using assms by (simp add: allocpid_def acquire_free release_in_cs rel_acq)

lemma allocpid_many:
  assumes "lock_free PidLock s" "intr_wf s" "0 \<le> nextpid s" "nextpid s + int n < 2 ^ 31"
  shows "\<exists>t. repeatM n allocpid s = Ret (map (\<lambda>i. nextpid s + int i) [0..<n]) t
    \<and> nextpid t = nextpid s + int n"
  using assms
proof (induction n arbitrary: s)
  case 0
  then show ?case by simp
next
  case (Suc n)
  let ?s = "(settle s)\<lparr>nextpid := s32 (nextpid s + 1)\<rparr>"
  have n: "s32 (nextpid s + 1) = nextpid s + 1" using Suc.prems by (intro s32_id) simp_all
  have "\<exists>t. repeatM n allocpid ?s = Ret (map (\<lambda>i. nextpid ?s + int i) [0..<n]) t
      \<and> nextpid t = nextpid ?s + int n"
    using Suc.prems n by (intro Suc.IH) simp_all
  then obtain t where t: "repeatM n allocpid ?s = Ret (map (\<lambda>i. nextpid s + 1 + int i) [0..<n]) t"
      "nextpid t = nextpid s + 1 + int n"
    using n by auto
  have "map (\<lambda>i. nextpid s + int i) [0..<Suc n] = nextpid s # map (\<lambda>i. nextpid s + 1 + int i) [0..<n]"
    by (simp add: map_upt_Suc algebra_simps del: upt_Suc)
  then show ?case
    using allocpid_run [OF Suc.prems(1,2)] t by (simp del: upt_Suc)
qed

text \<open>
  The pids \<^verbatim>\<open>allocpid\<close> hands out are consecutive, so no two of them are equal before the counter
  reaches the end of the \<^verbatim>\<open>int\<close> range.
\<close>

theorem allocpid_distinct:
  assumes "lock_free PidLock s" "intr_wf s" "0 \<le> nextpid s" "nextpid s + int n < 2 ^ 31"
  shows "\<exists>ps t. repeatM n allocpid s = Ret ps t \<and> length ps = n \<and> distinct ps
    \<and> (\<forall>x \<in> set ps. nextpid s \<le> x \<and> x < nextpid t)"
proof -
  obtain t where t: "repeatM n allocpid s = Ret (map (\<lambda>i. nextpid s + int i) [0..<n]) t"
      "nextpid t = nextpid s + int n"
    using allocpid_many [OF assms] by blast
  then show ?thesis by (auto simp: distinct_map inj_on_def)
qed

theorem allocpid_distinct_witness:
  "\<exists>ps t. repeatM 3 allocpid demo = Ret ps t \<and> length ps = 3 \<and> distinct ps \<and> nextpid demo = 4"
proof -
  have "lock_free PidLock demo" "intr_wf demo" "nextpid demo = 4"
    using quietD(2) [OF demo_quiet(1)] by (simp_all add: demo_def lock_free_def)
  then show ?thesis using allocpid_distinct [of demo 3] by auto
qed

subsection \<open>Killing\<close>

lemma searchM_skip:
  assumes "\<And>q t. q \<in> set xs \<Longrightarrow> t = s \<or> t = settle s \<Longrightarrow> body q t = Ret None (settle s)"
  shows "searchM (xs @ ys) body s = searchM ys body (if xs = [] then s else settle s)"
proof -
  have "searchM (xs @ ys) body (settle s) = searchM ys body (settle s)"
    if "\<And>q. q \<in> set xs \<Longrightarrow> body q (settle s) = Ret None (settle s)" for xs
    using that by (induction xs) simp_all
  note this [of "tl xs"]
  then show ?thesis using assms by (cases xs) simp_all
qed

definition killed_proc :: "proc \<Rightarrow> proc" where
  "killed_proc c = c\<lparr>p_killed := 1, p_state := (if p_state c = SLEEPING then RUNNABLE else p_state c)\<rparr>"

text \<open>
  Under the policies without queues, \<^verbatim>\<open>kill\<close> marks the first process with the given pid as
  killed, wakes it if it sleeps, touches no other process and returns 0; if no process has the
  pid it changes nothing and returns \<^term>\<open>- 1\<close>.
\<close>

theorem kill_spec:
  assumes "quiet s" "policy s \<noteq> MLFQ"
  shows "(\<forall>p<NPROC. p_pid (procs s p) \<noteq> pid) \<and> kill pid s = Ret (- 1) (settle s)
    \<or> (\<exists>p<NPROC. p_pid (procs s p) = pid \<and> (\<forall>q<p. p_pid (procs s q) \<noteq> pid)
         \<and> kill pid s = Ret 0 ((settle s)\<lparr>procs := (procs s)(p := killed_proc (procs s p))\<rparr>))"
proof -
  define body :: "nat \<Rightarrow> ('a ptab_scheme, unit option) M" where "body = (\<lambda>p.
       seqM (acquire (ProcLock p)) (
       bindM (get_proc p p_pid) (\<lambda>pd.
       if pd = pid then
         seqM (set_proc p (\<lambda>c. c\<lparr>p_killed := 1\<rparr>)) (
         bindM (get_proc p p_state) (\<lambda>st.
         bindM (gets policy) (\<lambda>pol.
         seqM (whenM (st = SLEEPING) (
                 seqM (set_proc p (\<lambda>c. c\<lparr>p_state := RUNNABLE\<rparr>))
                      (whenM (pol = MLFQ) (push p 0)))) (
         seqM (release (ProcLock p))
              (returnM (Some ()))))))
       else seqM (release (ProcLock p)) (returnM None))))"
  have k: "kill pid s = bindM (searchM [0..<64] body) (\<lambda>r. returnM (if r = None then - 1 else 0)) s"
    by (simp add: kill_def body_def)
  have miss: "body q t = Ret None (settle s)"
    if "q < NPROC" "p_pid (procs s q) \<noteq> pid" "t = s \<or> t = settle s" for q t
    using that quietD [OF assms(1)]
    by (auto simp: body_def acquire_free release_in_cs rel_acq)
  have hit: "body p t = Ret (Some ()) ((settle s)\<lparr>procs := (procs s)(p := killed_proc (procs s p))\<rparr>)"
    if "p < NPROC" "p_pid (procs s p) = pid" "t = s \<or> t = settle s" for p t
    using that quietD [OF assms(1)] assms(2)
    by (auto simp: body_def acquire_free release_in_cs rel_acq killed_proc_def seqM_apply)
  show ?thesis
  proof (cases "\<exists>p<NPROC. p_pid (procs s p) = pid")
    case False
    then have "searchM ([0..<64] @ []) body s = searchM [] body (settle s)"
      using miss by (subst searchM_skip) auto
    then show ?thesis using False k by auto
  next
    case True
    define p where "p = (LEAST p. p < NPROC \<and> p_pid (procs s p) = pid)"
    have p: "p < NPROC" "p_pid (procs s p) = pid" using LeastI_ex [OF True] by (auto simp: p_def)
    have lt: "p_pid (procs s q) \<noteq> pid" if "q < p" for q
      using not_less_Least [of q "\<lambda>p. p < NPROC \<and> p_pid (procs s p) = pid"] that p(1) by (auto simp: p_def)
    have "[0..<64] = [0..<p] @ p # [Suc p..<64]"
      using p(1) upt_add_eq_append [of 0 p "64 - p"] by (simp add: upt_conv_Cons)
    moreover have "body q t = Ret None (settle s)" if "q \<in> set [0..<p]" "t = s \<or> t = settle s" for q t
      using that miss lt p(1) by simp
    ultimately have "searchM [0..<64] body s = searchM (p # [Suc p..<64]) body (if [0..<p] = [] then s else settle s)"
      using searchM_skip [of "[0..<p]" s body "p # [Suc p..<64]"] by presburger
    then have "searchM [0..<64] body s = Ret (Some ()) ((settle s)\<lparr>procs := (procs s)(p := killed_proc (procs s p))\<rparr>)"
      using hit [OF p] by simp
    then show ?thesis using k p lt by auto
  qed
qed

theorem kill_spec_witness:
  "\<exists>t. kill 2 demo = Ret 0 t \<and> p_killed (procs t 1) = 1 \<and> p_state (procs t 1) = RUNNABLE"
proof -
  have pid: "p_pid (procs demo p) = 2 \<longleftrightarrow> p = 1" for p
    by (simp add: demo_quiet demo_procs_def blank_proc_def)
  have "policy demo \<noteq> MLFQ" by (simp add: demo_def)
  from kill_spec [OF demo_quiet(1) this, of 2] pid
  have "kill 2 demo = Ret 0 ((settle demo)\<lparr>procs := (procs demo)(1 := killed_proc (procs demo 1))\<rparr>)"
    by (auto dest: spec [of _ 1])
  then show ?thesis
    by (simp add: killed_proc_def demo_quiet demo_procs_def)
qed

subsection \<open>Sleeping\<close>

lemma noff_acq: "noff (mycpu (acq lk s)) = noff (mycpu s) + 1"
  by (simp add: acq_def settle_def spin_defs)

lemma noff_rel: "noff (mycpu (rel lk s)) = noff (mycpu s) - 1"
  by (simp add: rel_def spin_defs)

lemma sie_rel: "sie (rel lk s) \<longleftrightarrow> noff (mycpu s) = 1 \<and> intena (mycpu s)"
  by (simp add: rel_def)

lemma holding_rel [simp]: "lk' \<noteq> lk \<Longrightarrow> holding lk' (rel lk s) = holding lk' s"
  by (simp add: rel_def spin_defs)

lemma c_proc_rel [simp]: "c_proc (mycpu (rel lk s)) = c_proc (mycpu s)"
  by (simp add: rel_def spin_defs)

lemma sched_run:
  assumes "c_proc (mycpu s) = Some p" "holding (ProcLock p) s" "p_state (procs s p) \<noteq> RUNNING"
    and "0 < noff (mycpu s)" "\<not> sie s"
  shows "sched w s = (if noff (mycpu s) = 1 then Stop (Switch w) s else Stop (Panic ''sched locks'') s)"
proof -
  have "intr_wf s" using assms(4,5) by (simp add: intr_wf_def)
  moreover have "settle s = s" using assms(4) by (intro settle_nested) simp
  ultimately have "curproc s = Ret p s" using curproc_run assms(1) by metis
  then show ?thesis using assms by (simp add: sched_def intr_get_def)
qed

lemma sleep_run:
  fixes s :: "'z ptab_scheme" and ch :: chan
  assumes "c_proc (mycpu s) = Some p" "in_cs lk s" "lock_free (ProcLock p) s" "lk \<noteq> ProcLock p"
  defines "t \<equiv> (rel lk (acq (ProcLock p) s))
    \<lparr>procs := (procs s)(p := (procs s p)\<lparr>p_chan := Some ch, p_state := SLEEPING\<rparr>)\<rparr>"
  shows "(sleep ch lk s :: ('r, 'z ptab_scheme) outcome) =
      (if noff (mycpu s) = 1 then Stop (Switch (Asleep ch)) t else Stop (Panic ''sched locks'') t)"
    "holding (ProcLock p) t" "lock_free lk t" "noff (mycpu t) = noff (mycpu s)"
proof -
  have w: "intr_wf s" "settle s = s" "1 \<le> noff (mycpu s)"
    using assms(2) settle_in_cs by (auto simp: in_cs_def intr_wf_def)
  have "(sleep ch lk s :: ('r, 'z ptab_scheme) outcome) = sched (Asleep ch) t"
    using w assms(1-4) curproc_run [OF w(1) assms(1)]
    by (simp add: sleep_def acquire_free release_in_cs t_def)
  moreover show n: "noff (mycpu t) = noff (mycpu s)" by (simp add: t_def noff_rel noff_acq)
  moreover have "\<not> sie t" using w(3) by (simp add: t_def sie_rel noff_acq)
  moreover show h: "holding (ProcLock p) t" using assms(4) by (simp add: t_def)
  ultimately show "(sleep ch lk s :: ('r, 'z ptab_scheme) outcome) =
      (if noff (mycpu s) = 1 then Stop (Switch (Asleep ch)) t else Stop (Panic ''sched locks'') t)"
    using sched_run [of t p "Asleep ch"] assms(1) w(3) by (simp add: t_def)
  show "lock_free lk t" by (simp add: t_def)
qed

text \<open>
  C13: \<^verbatim>\<open>sleep\<close>, called by the running process with only the condition's lock held, switches away
  with the process marked as sleeping on the channel, its own lock held and the condition's lock
  released, so that no \<^verbatim>\<open>wakeup\<close> can come between the two; called with a further lock held it
  panics.
\<close>

theorem sleep_spec:
  fixes s :: "'z ptab_scheme"
  assumes "c_proc (mycpu s) = Some p" "in_cs lk s" "lock_free (ProcLock p) s" "lk \<noteq> ProcLock p"
  shows "if noff (mycpu s) = 1
    then \<exists>t. (sleep ch lk s :: ('r, 'z ptab_scheme) outcome) = Stop (Switch (Asleep ch)) t
      \<and> holding (ProcLock p) t \<and> lock_free lk t \<and> noff (mycpu t) = 1
      \<and> procs t = (procs s)(p := (procs s p)\<lparr>p_chan := Some ch, p_state := SLEEPING\<rparr>)
    else \<exists>t. (sleep ch lk s :: ('r, 'z ptab_scheme) outcome) = Stop (Panic ''sched locks'') t"
  using sleep_run [OF assms, of ch] by auto

theorem sleep_spec_witness:
  "\<exists>t. sleep ChanTicks TicksLock (acq TicksLock demo) = Stop (Switch (Asleep ChanTicks)) t
     \<and> p_state (procs t 0) = SLEEPING"
proof -
  have i: "intr_wf demo" "lock_free (ProcLock 0) demo" using quietD [OF demo_quiet(1)] by auto
  have "noff (mycpu (acq TicksLock demo)) = 1" by (simp add: noff_acq) (simp add: demo_def spin_defs)
  then show ?thesis
    using sleep_spec [of "acq TicksLock demo" 0 TicksLock ChanTicks] i demo_quiet(2) by auto
qed

subsection \<open>Waiting for children\<close>

interpretation procs_frame: mem_blind procs
  by unfold_locales simp_all

lemma release_procs: "release lk s = Ret x t \<Longrightarrow> procs t = procs s"
  by (rule keepsD [OF procs_frame.keeps_release])

lemma get_proc_keeps: "keeps f (get_proc i g)"
  by (simp add: get_proc_def keeps_rules)

lemma proc_freepagetable_keeps: "keeps procs (proc_freepagetable pt sz)"
  unfolding proc_freepagetable_def
  by (intro keeps_rules procs_frame.keeps_uvmunmap procs_frame.keeps_uvmfree)

lemma freeproc_procs:
  assumes "freeproc p s = Ret u t"
  shows "procs t = (procs s)(p := cleared (procs s p))"
proof -
  from assms obtain s1 s2 where
    s1: "whenM (p_trapframe (procs s p) \<noteq> 0) (kfree (p_trapframe (procs s p))) s = Ret () s1"
    and s2: "whenM (p_pagetable (procs s1 p) \<noteq> 0) (proc_freepagetable (p_pagetable (procs s1 p)) (p_sz (procs s1 p)))
          (s1\<lparr>procs := (procs s1)(p := (procs s1 p)\<lparr>p_trapframe := 0\<rparr>)\<rparr>) = Ret () s2"
    and t: "t = s2\<lparr>procs := (procs s2)(p := cleared (procs s2 p))\<rparr>"
    by (auto simp: freeproc_def bindM_eq_Ret seqM_eq_Ret simp del: whenM_apply)
  have "procs s1 = procs s"
    using keepsD [OF keeps_whenM [OF procs_frame.keeps_kfree] s1] .
  moreover have "procs s2 = procs (s1\<lparr>procs := (procs s1)(p := (procs s1 p)\<lparr>p_trapframe := 0\<rparr>)\<rparr>)"
    using keepsD [OF keeps_whenM [OF proc_freepagetable_keeps] s2] .
  ultimately show ?thesis by (simp add: t cleared_def)
qed

text \<open>Inside \<^verbatim>\<open>wait\<close>: the wait lock is held and no process lock is.\<close>

definition waiting :: "'z ptab_scheme \<Rightarrow> bool" where
  "waiting s \<longleftrightarrow> in_cs WaitLock s \<and> (\<forall>p<NPROC. lock_free (ProcLock p) s)"

lemma waitingD:
  "waiting s \<Longrightarrow> intr_wf s" "waiting s \<Longrightarrow> settle s = s" "waiting s \<Longrightarrow> p < NPROC \<Longrightarrow> lock_free (ProcLock p) s"
  by (auto simp: waiting_def in_cs_def intr_wf_def intro: settle_in_cs)

lemma waiting_acq: "quiet s \<Longrightarrow> waiting (acq WaitLock s)"
  by (simp add: waiting_def quiet_def)

text \<open>A scan that meets no zombie child.\<close>

lemma wait_scan_none:
  assumes "waiting s" "\<forall>q \<in> set ps. q < NPROC \<and> (p_parent (procs s q) = Some p \<longrightarrow> p_state (procs s q) \<noteq> ZOMBIE)"
  shows "wait_scan ps p addr kids s = Ret (None, kids \<or> (\<exists>q \<in> set ps. p_parent (procs s q) = Some p)) s"
  using assms(2)
proof (induction ps arbitrary: kids)
  case Nil
  then show ?case by simp
next
  case (Cons q ps)
  then show ?case
    using waitingD [OF assms(1)] by (auto simp: acquire_free release_in_cs rel_acq)
qed

text \<open>What a scan that returns has found.\<close>

lemma wait_scan_found:
  assumes "waiting s" "\<forall>q \<in> set ps. q < NPROC" "wait_scan ps p addr kids s = Ret (r, k) t"
  shows "r = None \<and> t = s \<or> r = Some (- 1) \<and> procs t = procs s
    \<or> (\<exists>q \<in> set ps. p_parent (procs s q) = Some p \<and> p_state (procs s q) = ZOMBIE
         \<and> r = Some (p_pid (procs s q)) \<and> procs t = (procs s)(q := cleared (procs s q)))"
  using assms(2,3)
proof (induction ps arbitrary: kids)
  case Nil
  then show ?case by simp
next
  case (Cons q ps)
  have q: "q < NPROC" "\<forall>q \<in> set ps. q < NPROC" using Cons.prems(1) by auto
  note W = waitingD [OF assms(1)]
  have a: "acquire (ProcLock q) s = Ret () (acq (ProcLock q) s)" using W(3) q(1) by (simp add: acquire_free)
  show ?case
  proof (cases "p_parent (procs s q) = Some p")
    case False
    then have "wait_scan ps p addr kids s = Ret (r, k) t" using Cons.prems(2) by simp
    from Cons.IH [OF q(2) this] show ?thesis by auto
  next
    case child: True
    show ?thesis
    proof (cases "p_state (procs s q) = ZOMBIE")
      case False
      then have "wait_scan ps p addr True s = Ret (r, k) t"
        using Cons.prems(2) child a W q(1) by (simp add: release_in_cs rel_acq)
      from Cons.IH [OF q(2) this] show ?thesis by auto
    next
      case True
      let ?c = "if addr \<noteq> 0 then copyout (p_pagetable (procs s p)) addr (bytes_of_int (p_xstate (procs s q)))
          else returnM 0"
      from Cons.prems(2) child True a obtain n s1 where
        c: "?c (acq (ProcLock q) s) = Ret n s1"
        and rest: "(if n < 0 then seqM (release (ProcLock q)) (seqM (release WaitLock) (returnM (Some (- 1), True)))
          else seqM (freeproc q) (seqM (release (ProcLock q)) (seqM (release WaitLock)
                 (returnM (Some (p_pid (procs s q)), True))))) s1 = Ret (r, k) t"
        by (auto simp: bindM_eq_Ret simp del: returnM_apply)
      have "keeps procs ?c" by (simp add: keeps_rules procs_frame.keeps_copyout)
      from keepsD [OF this c] have p1: "procs s1 = procs s" by simp
      show ?thesis
      proof (cases "n < 0")
        case True
        then show ?thesis
          using rest p1 by (auto simp: seqM_eq_Ret dest!: release_procs)
      next
        case nn: False
        with rest obtain u s2 s3 s4 where "freeproc q s1 = Ret u s2" "release (ProcLock q) s2 = Ret () s3"
            "release WaitLock s3 = Ret () s4" "t = s4" "r = Some (p_pid (procs s q))"
          by (auto simp: seqM_eq_Ret)
        then have "procs t = (procs s)(q := cleared (procs s q))" "r = Some (p_pid (procs s q))"
          using p1 by (auto dest!: release_procs freeproc_procs)
        then show ?thesis using child True by auto
      qed
    qed
  qed
qed

text \<open>
  A pid that \<^verbatim>\<open>wait\<close> returns is the pid of a zombie child of the caller, whose slot is then
  cleared and unused while every other slot is unchanged; the only other value is \<^term>\<open>- 1\<close>.
\<close>

theorem wait_returns_zombie_child:
  assumes "quiet s" "lock_free WaitLock s" "c_proc (mycpu s) = Some p" "wait addr s = Ret v t"
  shows "v = - 1 \<and> procs t = procs s
    \<or> (\<exists>q<NPROC. p_parent (procs s q) = Some p \<and> p_state (procs s q) = ZOMBIE \<and> v = p_pid (procs s q)
         \<and> procs t = (procs s)(q := cleared (procs s q)) \<and> p_state (procs t q) = UNUSED)"
proof -
  let ?s = "acq WaitLock s"
  have w: "waiting ?s" using assms(1) by (rule waiting_acq)
  have t: "wait_turn p addr ?s = Ret v t"
    using assms curproc_run [OF quietD(2) [OF assms(1)] assms(3)] by (simp add: wait_def acquire_free)
  then obtain r k u where r: "wait_scan [0..<64] p addr False ?s = Ret (r, k) u"
    by (auto simp: wait_turn_def bindM_eq_Ret)
  from wait_scan_found [OF w _ r] consider "r = None" "u = ?s" | "r = Some (- 1)" "procs u = procs s"
    | q where "q < NPROC" "p_parent (procs s q) = Some p" "p_state (procs s q) = ZOMBIE"
      "r = Some (p_pid (procs s q))" "procs u = (procs s)(q := cleared (procs s q))"
    by auto
  then show ?thesis
  proof cases
    case 1
    have "\<not> (\<exists>x y. sleep (ChanProc p) WaitLock ?s = Ret x y)"
      by (auto simp: sleep_def sched_def bindM_eq_Ret seqM_eq_Ret split: if_splits)
    then have "seqM (release WaitLock) (returnM (- 1)) ?s = Ret v t"
      using t r 1 by (auto simp: wait_turn_def split: if_splits)
    then show ?thesis by (auto simp: seqM_eq_Ret dest!: release_procs)
  next
    case 2
    then show ?thesis using t r by (simp add: wait_turn_def)
  next
    case 3
    then have "v = p_pid (procs s q)" "t = u" using t r by (simp_all add: wait_turn_def)
    then show ?thesis using 3 by (auto simp: cleared_def)
  qed
qed

definition zombie_demo :: ptab where
  "zombie_demo = demo\<lparr>procs := demo_procs(1 := (demo_procs 1)\<lparr>p_state := ZOMBIE\<rparr>)\<rparr>"

lemma zombie_demo_wait: "\<exists>v t. wait 0 zombie_demo = Ret v t"
proof -
  let ?s = "acq WaitLock zombie_demo"
  have q: "quiet zombie_demo" "c_proc (mycpu zombie_demo) = Some 0" "lock_free WaitLock zombie_demo"
    using demo_quiet by (simp_all add: zombie_demo_def) (simp add: demo_def lock_free_def)
  have w: "waiting ?s" using q(1) by (rule waiting_acq)
  have u: "[0..<64] = 0 # 1 # [2..<64]" by (simp add: upt_conv_Cons)
  have z: "procs zombie_demo 0 = demo_procs 0" "procs zombie_demo 1 = (demo_procs 1)\<lparr>p_state := ZOMBIE\<rparr>"
    by (simp_all add: zombie_demo_def)
  have f: "freeproc 1 (acq (ProcLock 1) ?s)
      = Ret () ((acq (ProcLock 1) ?s)\<lparr>procs := (procs zombie_demo)(1 := cleared (procs zombie_demo 1))\<rparr>)"
    by (simp add: freeproc_def z demo_procs_def blank_proc_def cleared_def del: One_nat_def)
  have "\<exists>t. wait_scan [0..<64] 0 0 False ?s = Ret (Some 2, True) t"
    unfolding u using waitingD [OF w] f w
    by (simp add: z demo_procs_def blank_proc_def acquire_free release_in_cs rel_acq waiting_def del: One_nat_def)
  then show ?thesis
    using curproc_run [OF quietD(2) [OF q(1)] q(2)] q(3)
    by (auto simp: wait_def wait_turn_def acquire_free)
qed

theorem wait_returns_zombie_child_witness:
  "\<exists>v t. wait 0 zombie_demo = Ret v t
     \<and> (v = - 1 \<or> (\<exists>q<NPROC. p_state (procs zombie_demo q) = ZOMBIE \<and> p_state (procs t q) = UNUSED))"
proof -
  have q: "quiet zombie_demo" "c_proc (mycpu zombie_demo) = Some 0" "lock_free WaitLock zombie_demo"
    using demo_quiet by (simp_all add: zombie_demo_def) (simp add: demo_def lock_free_def)
  obtain v t where "wait 0 zombie_demo = Ret v t" using zombie_demo_wait by blast
  then show ?thesis using wait_returns_zombie_child [OF q(1,3,2)] by blast
qed

text \<open>
  With no zombie child \<^verbatim>\<open>wait\<close> returns \<^term>\<open>- 1\<close> at once if the caller has no children or has been
  killed; otherwise it goes to sleep on its own process, with the wait lock released.
\<close>

theorem wait_without_zombie:
  fixes s :: "'z ptab_scheme"
  assumes "quiet s" "lock_free WaitLock s" "c_proc (mycpu s) = Some p" "p < NPROC" "noff (mycpu s) = 0"
    and "\<forall>q<NPROC. p_parent (procs s q) = Some p \<longrightarrow> p_state (procs s q) \<noteq> ZOMBIE"
  shows "if (\<exists>q<NPROC. p_parent (procs s q) = Some p) \<and> p_killed (procs s p) = 0
    then \<exists>t. wait addr s = Stop (Switch (Asleep (ChanProc p))) t \<and> lock_free WaitLock t
      \<and> p_state (procs t p) = SLEEPING \<and> p_chan (procs t p) = Some (ChanProc p)
    else wait addr s = Ret (- 1) (settle s)"
proof -
  let ?s = "acq WaitLock s" and ?k = "\<exists>q<NPROC. p_parent (procs s q) = Some p"
  have w: "waiting ?s" using assms(1) by (rule waiting_acq)
  have t: "wait addr s = wait_turn p addr ?s"
    using assms curproc_run [OF quietD(2) [OF assms(1)] assms(3)] by (simp add: wait_def acquire_free)
  have r: "wait_scan [0..<64] p addr False ?s = Ret (None, ?k) ?s"
    using wait_scan_none [OF w, of "[0..<64]" p addr False] assms(6) by auto
  have n: "noff (mycpu ?s) = 1" using assms(5) by (simp add: noff_acq)
  show ?thesis
  proof (cases "?k \<and> p_killed (procs s p) = 0")
    case True
    have l: "lock_free (ProcLock p) ?s" "in_cs WaitLock ?s" using w assms(4) by (auto simp: waiting_def)
    have c: "c_proc (mycpu ?s) = Some p" using assms(3) by simp
    define u where "u = (rel WaitLock (acq (ProcLock p) ?s))
      \<lparr>procs := (procs s)(p := (procs s p)\<lparr>p_chan := Some (ChanProc p), p_state := SLEEPING\<rparr>)\<rparr>"
    have "(sleep (ChanProc p) WaitLock ?s :: (int, 'z ptab_scheme) outcome)
        = Stop (Switch (Asleep (ChanProc p))) u"
      using l n by (subst sleep_run(1) [OF c]) (simp_all add: u_def)
    moreover have "lock_free WaitLock u" by (simp add: u_def)
    moreover have "procs u = (procs s)(p := (procs s p)\<lparr>p_chan := Some (ChanProc p), p_state := SLEEPING\<rparr>)"
      by (simp add: u_def)
    ultimately show ?thesis using True t r by (simp add: wait_turn_def)
  next
    case False
    then show ?thesis
      using t r w assms(1,2) quietD(2) [OF assms(1)]
      by (auto simp: wait_turn_def waiting_def release_in_cs rel_acq)
  qed
qed

theorem wait_without_zombie_witness:
  "\<exists>t. wait 0 demo = Stop (Switch (Asleep (ChanProc 0))) t"
proof -
  have p: "p_parent (procs demo 1) = Some 0" "p_killed (procs demo 0) = 0"
    and z: "\<forall>q<NPROC. p_parent (procs demo q) = Some 0 \<longrightarrow> p_state (procs demo q) \<noteq> ZOMBIE"
    by (auto simp: demo_quiet demo_procs_def blank_proc_def)
  have n: "noff (mycpu demo) = 0" "lock_free WaitLock demo" by (simp_all add: demo_def spin_defs lock_free_def)
  have "\<exists>q<NPROC. p_parent (procs demo q) = Some 0" using p(1) by (intro exI [of _ 1]) simp
  then show ?thesis
    using wait_without_zombie [OF demo_quiet(1) n(2) demo_quiet(2) _ n(1) z, of 0] p(2) by auto
qed

end
