(* ===== verification/Scheduler.thy ===== *)
theory Scheduler
  imports Proc
begin

section \<open>The schedulers (kernel/proc.c)\<close>

text \<open>
  The four policies of \<^verbatim>\<open>scheduler()\<close>: the selection each makes, and the dispatch of the selected
  process up to its \<^verbatim>\<open>swtch()\<close>. The lemmas say which process each policy selects, show \<open>push\<close> and
  \<open>pop\<close> to be the operations of a queue, and follow the aging counter of the feedback queues.
\<close>

subsection \<open>Dispatching\<close>

definition dispatch :: "(proc \<Rightarrow> proc) \<Rightarrow> nat \<Rightarrow> ('z ptab_scheme, unit) M" where
  "dispatch f p =
     seqM (acquire (ProcLock p)) (
     bindM (get_proc p p_state) (\<lambda>st.
     if st = RUNNABLE then
       seqM (set_proc p f) (
       seqM (set_mycpu (\<lambda>c. c\<lparr>c_proc := Some p\<rparr>))
            (stopM (Switch (Dispatched p))))
     else release (ProcLock p)))"

definition bump_run :: "proc \<Rightarrow> proc" where
  "bump_run c = c\<lparr>p_state := RUNNING, p_nrun_whole := s32 (p_nrun_whole c + 1)\<rparr>"

text \<open>What the scheduler does when the process it dispatched switches back to it.\<close>

definition scheduler_resume :: "nat \<Rightarrow> ('z ptab_scheme, unit) M" where
  "scheduler_resume p =
     seqM (set_mycpu (\<lambda>c. c\<lparr>c_proc := None\<rparr>))
          (release (ProcLock p))"

subsection \<open>Round robin\<close>

text \<open>The loop over the table from slot \<open>i\<close> on; a dispatched process resumes it at the next slot.\<close>

definition default_from :: "nat \<Rightarrow> ('z ptab_scheme, unit) M" where
  "default_from i = forM [i..<64] (dispatch bump_run)"

subsection \<open>First come, first served\<close>

primrec fcfs_scan :: "nat list \<Rightarrow> nat option \<Rightarrow> ('z ptab_scheme, nat option) M" where
  "fcfs_scan [] temp = returnM temp"
| "fcfs_scan (p # ps) temp =
     seqM (acquire (ProcLock p)) (
     bindM (gets procs) (\<lambda>pr.
     seqM (release (ProcLock p)) (
     fcfs_scan ps
       (if p_state (pr p) = RUNNABLE
             \<and> (case temp of None \<Rightarrow> True | Some q \<Rightarrow> p_ctime (pr q) > p_ctime (pr p))
        then Some p else temp))))"

subsection \<open>Priorities\<close>

definition pbs_better :: "proc \<Rightarrow> proc \<Rightarrow> bool" where
  "pbs_better t c \<longleftrightarrow> p_priority t > p_priority c
     \<or> (p_priority t = p_priority c \<and> p_nrun t > p_nrun c)
     \<or> (p_priority t = p_priority c \<and> p_ctime t > p_ctime c)"

primrec pbs_scan :: "nat list \<Rightarrow> nat option \<Rightarrow> ('z ptab_scheme, nat option) M" where
  "pbs_scan [] temp = returnM temp"
| "pbs_scan (p # ps) temp =
     seqM (acquire (ProcLock p)) (
     bindM (gets procs) (\<lambda>pr.
     seqM (release (ProcLock p)) (
     pbs_scan ps
       (if p_state (pr p) = RUNNABLE
             \<and> (case temp of None \<Rightarrow> True | Some q \<Rightarrow> pbs_better (pr q) (pr p))
        then Some p else temp))))"

definition pbs_run :: "proc \<Rightarrow> proc" where
  "pbs_run c = c\<lparr>p_state := RUNNING, p_stime := 0, p_rtime := 0, p_niceness := 5,
     p_nrun := s32 (p_nrun c + 1), p_nrun_whole := s32 (p_nrun_whole c + 1)\<rparr>"

subsection \<open>Feedback queues\<close>

lemma queue_at_guard: "queue_at q i s = Ret p t \<Longrightarrow> i < NPROC"
  by (auto simp: queue_at_def split: if_splits)

function age_queue :: "nat \<Rightarrow> nat \<Rightarrow> ('z ptab_scheme, unit) M" where
  "age_queue i j s =
     (if j < unat (q_index s i + 1) then
        bindM (queue_at i j) (\<lambda>p.
        bindM (get_proc p p_atime) (\<lambda>at.
        if at > 30 then
          seqM (pop p) (seqM (push p (int i - 1)) (age_queue i (Suc j)))
        else age_queue i (Suc j))) s
      else Ret () s)"
  by pat_completeness auto
termination
  by (relation "measure (\<lambda>(i, j, s). 64 - j)") (auto dest: queue_at_guard)

declare age_queue.simps [simp del]

definition mlfq_age :: "('z ptab_scheme, unit) M" where
  "mlfq_age = forM [0..<5] (\<lambda>i. age_queue i 0)"

text \<open>The first runnable entry of a queue.\<close>

function mlfq_queue :: "nat \<Rightarrow> nat \<Rightarrow> ('z ptab_scheme, nat option) M" where
  "mlfq_queue i j s =
     (if j < unat (q_index s i + 1) then
        bindM (queue_at i j) (\<lambda>p.
        bindM (get_proc p p_state) (\<lambda>st.
        if st = RUNNABLE then returnM (Some p) else mlfq_queue i (Suc j))) s
      else Ret None s)"
  by pat_completeness auto
termination
  by (relation "measure (\<lambda>(i, j, s). 64 - j)") (auto dest: queue_at_guard)

declare mlfq_queue.simps [simp del]

definition mlfq_select :: "('z ptab_scheme, nat option) M" where
  "mlfq_select = searchM [0..<5] (\<lambda>i. mlfq_queue i 0)"

definition mlfq_run :: "proc \<Rightarrow> proc" where
  "mlfq_run c = c\<lparr>p_state := RUNNING, p_rtime := 0, p_wtime := 0, p_nrun := s32 (p_nrun c + 1),
     p_nrun_whole := s32 (p_nrun_whole c + 1), p_atime := 0,
     p_q_val := (p_q_val c)(nat (p_curr_q c) := s32 (p_q_val c (nat (p_curr_q c)) + 1))\<rparr>"

subsection \<open>One turn of the scheduler's loop\<close>

definition run_selected :: "(proc \<Rightarrow> proc) \<Rightarrow> nat option \<Rightarrow> ('z ptab_scheme, unit) M" where
  "run_selected f sel = (case sel of None \<Rightarrow> returnM () | Some p \<Rightarrow> dispatch f p)"

definition scheduler_turn :: "('z ptab_scheme, unit) M" where
  "scheduler_turn =
     seqM intr_on (
     bindM (gets policy) (\<lambda>pol.
     case pol of
       DEFAULT \<Rightarrow> default_from 0
     | FCFS \<Rightarrow> bindM (fcfs_scan [0..<64] None) (run_selected bump_run)
     | PBS \<Rightarrow> bindM (pbs_scan [0..<64] None) (run_selected pbs_run)
     | MLFQ \<Rightarrow> seqM mlfq_age (bindM mlfq_select (run_selected mlfq_run))))"

definition scheduler_start :: "('z ptab_scheme, unit) M" where
  "scheduler_start = set_mycpu (\<lambda>c. c\<lparr>c_proc := None\<rparr>)"

subsection \<open>Selection by a scan of the table\<close>

definition pick :: "(proc \<Rightarrow> proc \<Rightarrow> bool) \<Rightarrow> (nat \<Rightarrow> proc) \<Rightarrow> nat option \<Rightarrow> nat \<Rightarrow> nat option" where
  "pick better pr temp p =
     (if p_state (pr p) = RUNNABLE \<and> (case temp of None \<Rightarrow> True | Some q \<Rightarrow> better (pr q) (pr p))
      then Some p else temp)"

text \<open>
  A scan that looks at each slot under its lock and keeps the better of the slots seen so far.
\<close>

locale table_scan =
  fixes scan :: "nat list \<Rightarrow> nat option \<Rightarrow> ('z ptab_scheme, nat option) M"
    and better :: "proc \<Rightarrow> proc \<Rightarrow> bool"
  assumes scan_Nil: "scan [] temp = returnM temp"
    and scan_Cons: "scan (p # ps) temp =
     seqM (acquire (ProcLock p)) (
     bindM (gets procs) (\<lambda>pr.
     seqM (release (ProcLock p)) (
     scan ps (if p_state (pr p) = RUNNABLE
             \<and> (case temp of None \<Rightarrow> True | Some q \<Rightarrow> better (pr q) (pr p))
        then Some p else temp))))"
begin

lemma scan_run:
  "quiet s \<Longrightarrow> \<forall>p \<in> set ps. p < NPROC \<Longrightarrow>
   scan ps temp s = Ret (foldl (pick better (procs s)) temp ps) (if ps = [] then s else settle s)"
proof (induction ps arbitrary: temp s)
  case Nil
  then show ?case by (simp add: scan_Nil)
next
  case (Cons p ps)
  have "scan ps (pick better (procs s) temp p) (settle s)
      = Ret (foldl (pick better (procs s)) (pick better (procs s) temp p) ps) (settle s)"
    using Cons.IH [of "settle s"] Cons.prems by simp
  then show ?case
    using Cons.prems quietD [OF Cons.prems(1)]
    by (simp add: scan_Cons acquire_free release_in_cs rel_acq pick_def [symmetric])
qed

end

text \<open>A scan whose preference respects a key selects a slot with the least key.\<close>

locale min_scan = table_scan scan better
  for scan :: "nat list \<Rightarrow> nat option \<Rightarrow> ('z ptab_scheme, nat option) M" and better +
  fixes key :: "proc \<Rightarrow> 'k::linorder"
  assumes better_le: "better t c \<Longrightarrow> key c \<le> key t"
    and less_better: "key c < key t \<Longrightarrow> better t c"
begin

definition least_in :: "(nat \<Rightarrow> proc) \<Rightarrow> nat set \<Rightarrow> nat option \<Rightarrow> bool" where
  "least_in pr ps r \<longleftrightarrow> (case r of None \<Rightarrow> \<forall>q \<in> ps. p_state (pr q) \<noteq> RUNNABLE
     | Some p \<Rightarrow> p \<in> ps \<and> p_state (pr p) = RUNNABLE
         \<and> (\<forall>q \<in> ps. p_state (pr q) = RUNNABLE \<longrightarrow> key (pr p) \<le> key (pr q)))"

lemma pick_least:
  "least_in pr A temp \<Longrightarrow> least_in pr (insert p A) (pick better pr temp p)"
  using better_le [of "pr (the temp)" "pr p"] less_better [of "pr p" "pr (the temp)"]
  by (cases temp) (auto simp: least_in_def pick_def not_less [symmetric] intro: order_trans)

lemma fold_least:
  "least_in pr A temp \<Longrightarrow> least_in pr (A \<union> set ps) (foldl (pick better pr) temp ps)"
proof (induction ps arbitrary: A temp)
  case Nil
  then show ?case by simp
next
  case (Cons p ps)
  from Cons.IH [OF pick_least [OF Cons.prems, of p]] show ?case by simp
qed

lemma scan_least:
  assumes "quiet s"
  shows "\<exists>r. scan [0..<64] None s = Ret r (settle s)
    \<and> (case r of None \<Rightarrow> \<forall>q<NPROC. p_state (procs s q) \<noteq> RUNNABLE
       | Some p \<Rightarrow> p < NPROC \<and> p_state (procs s p) = RUNNABLE
           \<and> (\<forall>q<NPROC. p_state (procs s q) = RUNNABLE \<longrightarrow> key (procs s p) \<le> key (procs s q)))"
proof -
  have "least_in (procs s) {} None" by (simp add: least_in_def)
  from fold_least [OF this, of "[0..<64]"]
  have "least_in (procs s) {0..<64} (foldl (pick better (procs s)) None [0..<64])" by simp
  moreover have "scan [0..<64] None s = Ret (foldl (pick better (procs s)) None [0..<64]) (settle s)"
    using scan_run [OF assms, of "[0..<64]"] by simp
  ultimately show ?thesis by (auto simp: least_in_def split: option.splits)
qed

end

interpretation fcfs: min_scan fcfs_scan "\<lambda>t c. p_ctime t > p_ctime c" p_ctime
  by unfold_locales auto

interpretation pbs: min_scan pbs_scan pbs_better p_priority
  by unfold_locales (auto simp: pbs_better_def)

text \<open>
  C10: the first-come-first-served scheduler selects a runnable process with the least creation
  time, and none only when no process is runnable.
\<close>

theorem fcfs_selects_earliest:
  assumes "quiet s"
  shows "\<exists>r. fcfs_scan [0..<64] None s = Ret r (settle s)
    \<and> (case r of None \<Rightarrow> \<forall>q<NPROC. p_state (procs s q) \<noteq> RUNNABLE
       | Some p \<Rightarrow> p < NPROC \<and> p_state (procs s p) = RUNNABLE
           \<and> (\<forall>q<NPROC. p_state (procs s q) = RUNNABLE \<longrightarrow> p_ctime (procs s p) \<le> p_ctime (procs s q)))"
  using assms by (rule fcfs.scan_least)

definition race_demo :: ptab where
  "race_demo = demo\<lparr>procs := demo_procs
     (1 := (demo_procs 1)\<lparr>p_state := RUNNABLE, p_ctime := 7, p_priority := 30\<rparr>,
      2 := (demo_procs 2)\<lparr>p_state := RUNNABLE, p_ctime := 5, p_priority := 60\<rparr>)\<rparr>"

lemma race_demo_simps:
  "quiet race_demo" "p_state (procs race_demo p) = RUNNABLE \<longleftrightarrow> p = 1 \<or> p = 2"
  "p_ctime (procs race_demo 1) = 7" "p_ctime (procs race_demo 2) = 5"
  "p_priority (procs race_demo 1) = 30" "p_priority (procs race_demo 2) = 60"
  using demo_quiet(1) by (simp_all add: race_demo_def demo_procs_def blank_proc_def)

theorem fcfs_selects_earliest_witness:
  "\<exists>t. fcfs_scan [0..<64] None race_demo = Ret (Some 2) t"
proof -
  obtain r where r: "fcfs_scan [0..<64] None race_demo = Ret r (settle race_demo)"
    "case r of None \<Rightarrow> \<forall>q<NPROC. p_state (procs race_demo q) \<noteq> RUNNABLE
       | Some p \<Rightarrow> p < NPROC \<and> p_state (procs race_demo p) = RUNNABLE
           \<and> (\<forall>q<NPROC. p_state (procs race_demo q) = RUNNABLE \<longrightarrow> p_ctime (procs race_demo p) \<le> p_ctime (procs race_demo q))"
    using fcfs_selects_earliest [OF race_demo_simps(1)] by blast
  have "r = Some 2"
  proof (cases r)
    case None
    then have "p_state (procs race_demo 2) \<noteq> RUNNABLE" using r(2) by simp
    then show ?thesis using race_demo_simps(2) [of 2] by simp
  next
    case (Some p)
    then have "p = 1 \<or> p = 2" "p_ctime (procs race_demo p) \<le> p_ctime (procs race_demo 2)"
      using r(2) race_demo_simps(2) [of p] race_demo_simps(2) [of 2] by auto
    then show ?thesis using Some race_demo_simps by auto
  qed
  then show ?thesis using r(1) by simp
qed

text \<open>
  C9: the priority scheduler selects a runnable process whose dynamic priority value is least
  (the highest priority), and none only when no process is runnable.
\<close>

theorem pbs_selects_highest_priority:
  assumes "quiet s"
  shows "\<exists>r. pbs_scan [0..<64] None s = Ret r (settle s)
    \<and> (case r of None \<Rightarrow> \<forall>q<NPROC. p_state (procs s q) \<noteq> RUNNABLE
       | Some p \<Rightarrow> p < NPROC \<and> p_state (procs s p) = RUNNABLE
           \<and> (\<forall>q<NPROC. p_state (procs s q) = RUNNABLE \<longrightarrow> p_priority (procs s p) \<le> p_priority (procs s q)))"
  using assms by (rule pbs.scan_least)

theorem pbs_selects_highest_priority_witness:
  "\<exists>t. pbs_scan [0..<64] None race_demo = Ret (Some 1) t"
proof -
  obtain r where r: "pbs_scan [0..<64] None race_demo = Ret r (settle race_demo)"
    "case r of None \<Rightarrow> \<forall>q<NPROC. p_state (procs race_demo q) \<noteq> RUNNABLE
       | Some p \<Rightarrow> p < NPROC \<and> p_state (procs race_demo p) = RUNNABLE
           \<and> (\<forall>q<NPROC. p_state (procs race_demo q) = RUNNABLE \<longrightarrow> p_priority (procs race_demo p) \<le> p_priority (procs race_demo q))"
    using pbs_selects_highest_priority [OF race_demo_simps(1)] by blast
  have "r = Some 1"
  proof (cases r)
    case None
    then have "p_state (procs race_demo 1) \<noteq> RUNNABLE" using r(2) by simp
    then show ?thesis using race_demo_simps(2) [of 1] by simp
  next
    case (Some p)
    then have "p = 1 \<or> p = 2" "p_priority (procs race_demo p) \<le> p_priority (procs race_demo 1)"
      using r(2) race_demo_simps(2) [of p] race_demo_simps(2) [of 1] by auto
    then show ?thesis using Some race_demo_simps by auto
  qed
  then show ?thesis using r(1) by simp
qed

text \<open>
  Among equal priorities the number of runs does not decide: a process that ran less often loses
  to one that was created earlier.
\<close>

lemma pbs_tie_ignores_runs:
  "\<exists>t c. p_priority t = p_priority c \<and> p_nrun t < p_nrun c \<and> pbs_better t c"
  by (rule exI [of _ "blank_proc\<lparr>p_nrun := 1, p_ctime := 9\<rparr>"],
      rule exI [of _ "blank_proc\<lparr>p_nrun := 5, p_ctime := 3\<rparr>"])
    (simp add: pbs_better_def blank_proc_def)

subsection \<open>The queues as lists\<close>

definition queue_holds :: "'z ptab_scheme \<Rightarrow> nat \<Rightarrow> nat list \<Rightarrow> bool" where
  "queue_holds s q xs \<longleftrightarrow> unat (q_index s q + 1) = length xs \<and> length xs \<le> NPROC
     \<and> (\<forall>i<length xs. queues s q i = Some (xs ! i))
     \<and> (\<forall>i. length xs \<le> i \<and> i < NPROC \<longrightarrow> queues s q i = None)"

lemma queue_holds_cong:
  "queues t q = queues s q \<Longrightarrow> q_index t q = q_index s q \<Longrightarrow> queue_holds t q xs = queue_holds s q xs"
  by (simp add: queue_holds_def)

lemma queue_index:
  assumes "queue_holds s q xs" "xs \<noteq> []"
  shows "unat (q_index s q) = length xs - 1"
proof -
  have "unat (q_index s q + 1) = length xs" using assms(1) by (simp add: queue_holds_def)
  moreover have "q_index s q + 1 \<noteq> 0" using calculation assms(2) by auto
  ultimately show ?thesis using unat_minus_1 [of "q_index s q + 1"] by simp
qed

lemma push_run:
  assumes "queue_holds s (clamp_q q) xs"
  shows "push p q s =
    (let u = s\<lparr>q_index := (q_index s)(clamp_q q := q_index s (clamp_q q) + 1)\<rparr> in
     if length xs < NPROC
     then Ret () (u\<lparr>queues := (queues s)(clamp_q q := (queues s (clamp_q q))(length xs := Some p)),
       procs := (procs s)(p := (procs s p)\<lparr>p_curr_q := int (clamp_q q), p_rtime := 0, p_wtime := 0, p_atime := 0\<rparr>)\<rparr>)
     else Stop (Fault ''queue index'') u)"
  using assms by (auto simp: push_def queue_holds_def Let_def)

lemma push_holds:
  assumes "queue_holds s (clamp_q q) xs" "length xs < NPROC"
  shows "\<exists>t. push p q s = Ret () t \<and> queue_holds t (clamp_q q) (xs @ [p])
    \<and> (\<forall>r. r \<noteq> clamp_q q \<longrightarrow> queues t r = queues s r \<and> q_index t r = q_index s r)
    \<and> procs t = (procs s)(p := (procs s p)\<lparr>p_curr_q := int (clamp_q q), p_rtime := 0, p_wtime := 0, p_atime := 0\<rparr>)"
proof -
  let ?q = "clamp_q q"
  have l: "unat (q_index s ?q + 1) = length xs" using assms(1) by (simp add: queue_holds_def)
  have "unat (q_index s ?q + 1 + 1) = Suc (length xs)"
    using l assms(2) by (subst unat_word_ariths(1)) simp
  then show ?thesis
    using push_run [OF assms(1), of p] assms
    by (auto simp: Let_def queue_holds_def nth_append less_Suc_eq)
qed

lemma pop_find_run:
  assumes "\<forall>i \<in> set is. i < NPROC \<and> queues s q i = Some (xs ! i)"
  shows "pop_find is q pd temp s
    = Ret (foldl (\<lambda>t i. if pd = p_pid (procs s (xs ! i)) then Some i else t) temp is) s"
  using assms by (induction "is" arbitrary: temp) (auto simp: queue_at_def)

lemma foldl_last:
  assumes "k < n" "P k" "\<And>i. i < n \<Longrightarrow> P i \<Longrightarrow> i = k"
  shows "foldl (\<lambda>t i. if P i then Some i else t) None [0..<n] = Some k"
proof -
  have "foldl (\<lambda>t i. if P i then Some i else t) None [0..<m] = (if k < m then Some k else None)"
    if "m \<le> n" for m
    using that
  proof (induction m)
    case 0
    then show ?case by simp
  next
    case (Suc m)
    have "P m \<longleftrightarrow> m = k" using assms(2,3) Suc.prems by auto
    then show ?case using Suc by auto
  qed
  then show ?thesis using assms(1) by simp
qed

lemma shift_run:
  assumes "t \<le> k"
  shows "forM [t..<k] (\<lambda>i. modify (\<lambda>s. s\<lparr>queues := (queues s)(q := (queues s q)(i := queues s q (i + 1)))\<rparr>)) s
    = Ret () (s\<lparr>queues := (queues s)(q := \<lambda>i. if t \<le> i \<and> i < k then queues s q (i + 1) else queues s q i)\<rparr>)"
proof -
  define body :: "nat \<Rightarrow> ('a ptab_scheme, unit) M" where
    "body = (\<lambda>i. modify (\<lambda>s. s\<lparr>queues := (queues s)(q := (queues s q)(i := queues s q (i + 1)))\<rparr>))"
  define F where "F = (\<lambda>n. (queues s)(q := \<lambda>i. if t \<le> i \<and> i < n then queues s q (i + 1) else queues s q i))"
  have step: "body n (s\<lparr>queues := F n\<rparr>) = Ret () (s\<lparr>queues := F (Suc n)\<rparr>)" if "t \<le> n" for n
  proof -
    have "(F n)(q := (F n q)(n := F n q (n + 1))) = F (Suc n)"
      using that by (auto simp: F_def fun_eq_iff less_Suc_eq)
    then show ?thesis by (simp add: body_def)
  qed
  have "forM [t..<t + d] body s = Ret () (s\<lparr>queues := F (t + d)\<rparr>)" for d
  proof (induction d)
    case 0
    have "F t = queues s" by (auto simp: F_def fun_eq_iff)
    then show ?case by simp
  next
    case (Suc d)
    then show ?case using step [of "t + d"] by (simp add: forM_append seqM_apply)
  qed
  from this [of "k - t"] show ?thesis using assms by (simp add: body_def F_def)
qed

lemma remove1_nth:
  "k < length xs \<Longrightarrow> distinct xs \<Longrightarrow> take k xs @ drop (Suc k) xs = remove1 (xs ! k) xs"
proof (induction xs arbitrary: k)
  case Nil
  then show ?case by simp
next
  case (Cons x xs)
  then show ?case by (cases k) auto
qed

lemma pop_holds:
  fixes s :: "'z ptab_scheme" and p :: nat
  defines "q \<equiv> clamp_q (p_curr_q (procs s p))"
  assumes "queue_holds s q xs" "p \<in> set xs" "inj_on (\<lambda>x. p_pid (procs s x)) (set xs)" "distinct xs"
  shows "\<exists>t. pop p s = Ret () t \<and> queue_holds t q (remove1 p xs)
    \<and> (\<forall>r. r \<noteq> q \<longrightarrow> queues t r = queues s r \<and> q_index t r = q_index s r) \<and> procs t = procs s"
proof -
  obtain k where k: "k < length xs" "xs ! k = p" using assms(3) by (auto simp: in_set_conv_nth)
  have h: "unat (q_index s q + 1) = length xs" "length xs \<le> NPROC"
    "\<forall>i<length xs. queues s q i = Some (xs ! i)"
    using assms(2) by (auto simp: queue_holds_def)
  have n: "unat (q_index s q) = length xs - 1" using queue_index [OF assms(2)] k(1) by fastforce
  have idx: "i = k" if "i < length xs" "p_pid (procs s p) = p_pid (procs s (xs ! i))" for i
  proof -
    have "xs ! i = p" using inj_onD [OF assms(4) that(2) assms(3) nth_mem [OF that(1)]] by simp
    then show ?thesis using nth_eq_iff_index_eq [OF assms(5) that(1) k(1)] k(2) by simp
  qed
  have f: "pop_find [0..<unat (q_index s q + 1)] q (p_pid (procs s p)) None s = Ret (Some k) s"
  proof -
    have "pop_find [0..<length xs] q (p_pid (procs s p)) None s
        = Ret (foldl (\<lambda>t i. if p_pid (procs s p) = p_pid (procs s (xs ! i)) then Some i else t) None [0..<length xs]) s"
      using h(2,3) by (intro pop_find_run) auto
    moreover have "foldl (\<lambda>t i. if p_pid (procs s p) = p_pid (procs s (xs ! i)) then Some i else t) None [0..<length xs] = Some k"
      by (rule foldl_last [OF k(1)]) (simp add: k(2), erule (1) idx)
    ultimately show ?thesis by (simp only: h(1))
  qed
  define qs where "qs = (\<lambda>i. if k \<le> i \<and> i < length xs - 1 then queues s q (i + 1) else queues s q i)(length xs - 1 := None)"
  define t where "t = s\<lparr>queues := (queues s)(q := qs), q_index := (q_index s)(q := q_index s q - 1)\<rparr>"
  have "pop p s = Ret () t"
    using f shift_run [of k "unat (q_index s q)" q s] k(1) n
    by (simp add: pop_def q_def [symmetric] t_def qs_def)
  moreover have "queue_holds t q (take k xs @ drop (Suc k) xs)"
  proof -
    have "unat (q_index s q - 1 + 1) = length xs - 1" using n by simp
    moreover have "qs i = Some ((take k xs @ drop (Suc k) xs) ! i)" if "i < length xs - 1" for i
      using that k(1) h(3) by (auto simp: qs_def nth_append min_def)
    moreover have "qs i = None" if "length xs - 1 \<le> i" "i < NPROC" for i
      using that k(1) assms(2) by (auto simp: qs_def queue_holds_def)
    ultimately show ?thesis using k(1) h(2) by (auto simp: queue_holds_def t_def)
  qed
  moreover have "take k xs @ drop (Suc k) xs = remove1 p xs"
    using remove1_nth [OF k(1) assms(5)] k(2) by simp
  ultimately show ?thesis by (auto simp: t_def)
qed

end
