(* ===== verification/Kern.thy ===== *)
theory Kern
  imports Scheduler
begin

section \<open>The rest of the kernel's state\<close>

text \<open>
  The data structures of the I/O half of the kernel, one record per C structure
  (\<^verbatim>\<open>kernel/sleeplock.h\<close>, \<^verbatim>\<open>kernel/buf.h\<close>, \<^verbatim>\<open>kernel/virtio.h\<close>, \<^verbatim>\<open>kernel/fs.h\<close>, \<^verbatim>\<open>kernel/file.h\<close> and the
  structures declared in the \<^verbatim>\<open>.c\<close> files), and the state \<open>kern\<close> of the whole kernel, which adds one
  field per component to the state of the process table. Pointers to the elements of a static
  array are indices; a null pointer is \<^term>\<open>None\<close>.

  The block device and the serial line are hardware: the disk is an image of bytes with a
  number of block writes it still performs before the power fails, the serial line the list of
  bytes sent and the list of bytes that wait to be received.
\<close>

declare bindM_gets [simp] bindM_get_proc [simp]

subsection \<open>Little-endian values in byte buffers\<close>

definition ld16 :: "u8 list \<Rightarrow> nat \<Rightarrow> u16" where
  "ld16 d i = ucast (d ! i) OR push_bit 8 (ucast (d ! (i + 1)))"

definition ld32 :: "u8 list \<Rightarrow> nat \<Rightarrow> u32" where
  "ld32 d i = ucast (d ! i) OR push_bit 8 (ucast (d ! (i + 1)))
     OR push_bit 16 (ucast (d ! (i + 2))) OR push_bit 24 (ucast (d ! (i + 3)))"

definition le16 :: "u16 \<Rightarrow> u8 list" where
  "le16 v = [ucast v, ucast (drop_bit 8 v)]"

definition le32 :: "u32 \<Rightarrow> u8 list" where
  "le32 v = [ucast v, ucast (drop_bit 8 v), ucast (drop_bit 16 v), ucast (drop_bit 24 v)]"

definition le64 :: "u64 \<Rightarrow> u8 list" where
  "le64 v = map (\<lambda>k. ucast (drop_bit (8 * k) v)) [0..<8]"

definition splice :: "u8 list \<Rightarrow> nat \<Rightarrow> u8 list \<Rightarrow> u8 list" where
  "splice d i bs = take i d @ bs @ drop (i + length bs) d"

definition st32 :: "u8 list \<Rightarrow> nat \<Rightarrow> u32 \<Rightarrow> u8 list" where
  "st32 d i v = splice d i (le32 v)"

definition slice :: "u8 list \<Rightarrow> nat \<Rightarrow> nat \<Rightarrow> u8 list" where
  "slice d i n = take n (drop i d)"

lemma length_le [simp]: "length (le16 v) = 2" "length (le32 w) = 4" "length (le64 x) = 8"
  by (simp_all add: le16_def le32_def le64_def)

lemma length_splice [simp]: "i + length bs \<le> length d \<Longrightarrow> length (splice d i bs) = length d"
  by (simp add: splice_def)

lemma nth_splice:
  "i + length bs \<le> length d \<Longrightarrow> k < length d
   \<Longrightarrow> splice d i bs ! k = (if i \<le> k \<and> k < i + length bs then bs ! (k - i) else d ! k)"
  by (auto simp: splice_def nth_append min_def)

lemma length_st32 [simp]: "i + 4 \<le> length d \<Longrightarrow> length (st32 d i v) = length d"
  by (simp add: st32_def)

lemma ld32_le32:
  "ucast (ucast v :: u8) OR push_bit 8 (ucast (ucast (drop_bit 8 v) :: u8))
   OR push_bit 16 (ucast (ucast (drop_bit 16 v) :: u8)) OR push_bit 24 (ucast (ucast (drop_bit 24 v) :: u8))
   = (v :: u32)"
proof (rule bit_word_eqI)
  fix n
  assume "n < LENGTH(32)"
  then consider "n < 8" | "8 \<le> n" "n < 16" | "16 \<le> n" "n < 24" | "24 \<le> n" "n < 32" by fastforce
  then show "bit (ucast (ucast v :: u8) OR push_bit 8 (ucast (ucast (drop_bit 8 v) :: u8))
     OR push_bit 16 (ucast (ucast (drop_bit 16 v) :: u8)) OR push_bit 24 (ucast (ucast (drop_bit 24 v) :: u8)) :: u32) n
    = bit v n"
    by cases (auto simp: bit_simps)
qed

lemma ld16_le16:
  "ucast (ucast v :: u8) OR push_bit 8 (ucast (ucast (drop_bit 8 v) :: u8)) = (v :: u16)"
  by (rule bit_word_eqI) (auto simp: bit_simps)

lemma ld32_splice_le32:
  "i + 4 \<le> length d \<Longrightarrow> ld32 (splice d i (le32 v)) i = v"
  using ld32_le32 [of v]
  by (simp add: ld32_def nth_splice) (simp add: le32_def numeral_2_eq_2 numeral_3_eq_3)

lemma ld32_st32_same [simp]: "i + 4 \<le> length d \<Longrightarrow> ld32 (st32 d i v) i = v"
  by (simp add: st32_def ld32_splice_le32)

lemma ld32_splice_other:
  assumes "i + length bs \<le> length d" "j + 4 \<le> length d" "j + 4 \<le> i \<or> i + length bs \<le> j"
  shows "ld32 (splice d i bs) j = ld32 d j"
  using assms by (auto simp: ld32_def nth_splice)

lemma ld32_st32_other:
  "i + 4 \<le> length d \<Longrightarrow> j + 4 \<le> length d \<Longrightarrow> j + 4 \<le> i \<or> i + 4 \<le> j \<Longrightarrow> ld32 (st32 d i v) j = ld32 d j"
  by (simp add: st32_def ld32_splice_other)

subsection \<open>Data structures\<close>

abbreviation (input) BSIZE :: nat where "BSIZE \<equiv> 1024"

record sleeplock =
  sl_locked :: u32
  sl_name :: string
  sl_pid :: int

text \<open>\<open>b_prev\<close> and \<open>b_next\<close> link the cache's list; index 30 is \<^verbatim>\<open>bcache.head\<close>.\<close>

record buf =
  b_valid :: bool
  b_disk :: bool
  b_dev :: u32
  b_blockno :: u32
  b_refcnt :: u32
  b_prev :: nat
  b_next :: nat
  b_data :: "u8 list"

text \<open>The addresses the driver puts into descriptors: a command header, the data of a buffer, a status byte.\<close>

datatype dma_addr = DNull | DOps nat | DData nat | DStatus nat

record virtq_desc =
  d_addr :: dma_addr
  d_len :: u32
  d_flags :: u16
  d_next :: u16

abbreviation (input) zero_desc :: virtq_desc where
  "zero_desc \<equiv> \<lparr>d_addr = DNull, d_len = 0, d_flags = 0, d_next = 0\<rparr>"

record virtio_blk_req =
  rq_type :: u32
  rq_reserved :: u32
  rq_sector :: u64

text \<open>\<open>dk_seen\<close> is the device's own index into the available ring.\<close>

record vdisk =
  dk_desc :: "nat \<Rightarrow> virtq_desc"
  dk_avail_idx :: u16
  dk_avail_ring :: "nat \<Rightarrow> u16"
  dk_dev_used_idx :: u16
  dk_used_ring :: "nat \<Rightarrow> u32"
  dk_free :: "nat \<Rightarrow> bool"
  dk_used_idx :: u16
  dk_info_b :: "nat \<Rightarrow> nat option"
  dk_info_status :: "nat \<Rightarrow> u8"
  dk_ops :: "nat \<Rightarrow> virtio_blk_req"
  dk_seen :: u16

record log =
  log_start :: u32
  log_size :: int
  log_outstanding :: int
  log_committing :: bool
  log_dev :: u32
  lh_n :: int
  lh_block :: "nat \<Rightarrow> u32"

record superblock =
  sb_magic :: u32
  sb_size :: u32
  sb_nblocks :: u32
  sb_ninodes :: u32
  sb_nlog :: u32
  sb_logstart :: u32
  sb_inodestart :: u32
  sb_bmapstart :: u32

record inode =
  i_dev :: u32
  i_inum :: u32
  i_ref :: int
  i_valid :: bool
  i_type :: u16
  i_major :: u16
  i_minor :: u16
  i_nlink :: u16
  i_size :: u32
  i_addrs :: "nat \<Rightarrow> u32"

datatype fdtype = FD_NONE | FD_PIPE | FD_INODE | FD_DEVICE

record kfile =
  f_type :: fdtype
  f_ref :: int
  f_readable :: bool
  f_writable :: bool
  f_pipe :: u64
  f_ip :: nat
  f_off :: u32
  f_major :: u16

record pipe =
  pi_data :: "nat \<Rightarrow> u8"
  pi_nread :: u32
  pi_nwrite :: u32
  pi_readopen :: bool
  pi_writeopen :: bool

datatype devfn = ConsoleRead | ConsoleWrite

record devsw =
  dv_read :: "devfn option"
  dv_write :: "devfn option"

record cons =
  cs_buf :: "nat \<Rightarrow> u8"
  cs_r :: u32
  cs_w :: u32
  cs_e :: u32

text \<open>\<open>u_room\<close> is how many bytes the transmitter still accepts; \<open>u_sent\<close> is the output, latest byte last.\<close>

record uart =
  u_tx_buf :: "nat \<Rightarrow> u8"
  u_tx_w :: u64
  u_tx_r :: u64
  u_reg :: "nat \<Rightarrow> u8"
  u_room :: nat
  u_sent :: "u8 list"
  u_input :: "u8 list"

text \<open>
  The control registers of the current CPU, the interrupt controller, the timer and the addresses the linker gives to the
  kernel's symbols. The interrupt-enable bit of \<^verbatim>\<open>sstatus\<close> is the field \<open>sie\<close> of the machine;
  \<open>plic_claims\<close> are the interrupts the controller hands out, the next one first.
\<close>

record trapst =
  csr_stvec :: u64
  csr_sepc :: u64
  csr_scause :: u64
  csr_stval :: u64
  csr_sstatus :: u64
  csr_sip :: u64
  csr_sie :: u64
  csr_mstatus :: u64
  csr_mepc :: u64
  csr_medeleg :: u64
  csr_mideleg :: u64
  csr_pmpaddr0 :: u64
  csr_pmpcfg0 :: u64
  csr_mscratch :: u64
  csr_mtvec :: u64
  csr_mie :: u64
  csr_mhartid :: u64
  plic :: "u64 \<Rightarrow> u32"
  plic_claims :: "u32 list"
  clint :: "u64 \<Rightarrow> u64"
  timer_scratch :: "nat \<Rightarrow> nat \<Rightarrow> u64"
  symbol :: "string \<Rightarrow> u64"
  started :: bool

record kern = ptab +
  slocks :: "slock_id \<Rightarrow> sleeplock"
  bufs :: "nat \<Rightarrow> buf"
  vdisk :: vdisk
  dimage :: "nat \<Rightarrow> u8"
  dpower :: "nat option"
  klog :: log
  sb :: superblock
  itable :: "nat \<Rightarrow> inode"
  ftable :: "nat \<Rightarrow> kfile"
  pipes :: "u64 \<Rightarrow> pipe"
  devsw :: "nat \<Rightarrow> devsw"
  cons :: cons
  uart :: uart
  pr_locking :: bool
  panicked :: bool
  trap :: trapst

type_synonym 'a K = "(kern, 'a) M"

subsection \<open>Frames of the lock operations\<close>

lemma kern_lock_read [simp]:
  "slocks (acq lk s) = slocks s"
  "slocks (rel lk s) = slocks s"
  "slocks (settle s) = slocks s"
  "bufs (acq lk s) = bufs s"
  "bufs (rel lk s) = bufs s"
  "bufs (settle s) = bufs s"
  "vdisk (acq lk s) = vdisk s"
  "vdisk (rel lk s) = vdisk s"
  "vdisk (settle s) = vdisk s"
  "dimage (acq lk s) = dimage s"
  "dimage (rel lk s) = dimage s"
  "dimage (settle s) = dimage s"
  "dpower (acq lk s) = dpower s"
  "dpower (rel lk s) = dpower s"
  "dpower (settle s) = dpower s"
  "klog (acq lk s) = klog s"
  "klog (rel lk s) = klog s"
  "klog (settle s) = klog s"
  "sb (acq lk s) = sb s"
  "sb (rel lk s) = sb s"
  "sb (settle s) = sb s"
  "itable (acq lk s) = itable s"
  "itable (rel lk s) = itable s"
  "itable (settle s) = itable s"
  "ftable (acq lk s) = ftable s"
  "ftable (rel lk s) = ftable s"
  "ftable (settle s) = ftable s"
  "pipes (acq lk s) = pipes s"
  "pipes (rel lk s) = pipes s"
  "pipes (settle s) = pipes s"
  "devsw (acq lk s) = devsw s"
  "devsw (rel lk s) = devsw s"
  "devsw (settle s) = devsw s"
  "cons (acq lk s) = cons s"
  "cons (rel lk s) = cons s"
  "cons (settle s) = cons s"
  "uart (acq lk s) = uart s"
  "uart (rel lk s) = uart s"
  "uart (settle s) = uart s"
  "pr_locking (acq lk s) = pr_locking s"
  "pr_locking (rel lk s) = pr_locking s"
  "pr_locking (settle s) = pr_locking s"
  "panicked (acq lk s) = panicked s"
  "trap (acq lk s) = trap s"
  "panicked (rel lk s) = panicked s"
  "trap (rel lk s) = trap s"
  "panicked (settle s) = panicked s"
  "trap (settle s) = trap s"
  by (simp_all add: acq_def rel_def settle_def lock_free_def intr_wf_def in_cs_def spin_defs)

lemma kern_lock_update [simp]:
  "acq lk (s\<lparr>slocks := x0\<rparr>) = (acq lk s)\<lparr>slocks := x0\<rparr>"
  "rel lk (s\<lparr>slocks := x0\<rparr>) = (rel lk s)\<lparr>slocks := x0\<rparr>"
  "settle (s\<lparr>slocks := x0\<rparr>) = (settle s)\<lparr>slocks := x0\<rparr>"
  "acq lk (s\<lparr>bufs := x1\<rparr>) = (acq lk s)\<lparr>bufs := x1\<rparr>"
  "rel lk (s\<lparr>bufs := x1\<rparr>) = (rel lk s)\<lparr>bufs := x1\<rparr>"
  "settle (s\<lparr>bufs := x1\<rparr>) = (settle s)\<lparr>bufs := x1\<rparr>"
  "acq lk (s\<lparr>vdisk := x2\<rparr>) = (acq lk s)\<lparr>vdisk := x2\<rparr>"
  "rel lk (s\<lparr>vdisk := x2\<rparr>) = (rel lk s)\<lparr>vdisk := x2\<rparr>"
  "settle (s\<lparr>vdisk := x2\<rparr>) = (settle s)\<lparr>vdisk := x2\<rparr>"
  "acq lk (s\<lparr>dimage := x3\<rparr>) = (acq lk s)\<lparr>dimage := x3\<rparr>"
  "rel lk (s\<lparr>dimage := x3\<rparr>) = (rel lk s)\<lparr>dimage := x3\<rparr>"
  "settle (s\<lparr>dimage := x3\<rparr>) = (settle s)\<lparr>dimage := x3\<rparr>"
  "acq lk (s\<lparr>dpower := x4\<rparr>) = (acq lk s)\<lparr>dpower := x4\<rparr>"
  "rel lk (s\<lparr>dpower := x4\<rparr>) = (rel lk s)\<lparr>dpower := x4\<rparr>"
  "settle (s\<lparr>dpower := x4\<rparr>) = (settle s)\<lparr>dpower := x4\<rparr>"
  "acq lk (s\<lparr>klog := x5\<rparr>) = (acq lk s)\<lparr>klog := x5\<rparr>"
  "rel lk (s\<lparr>klog := x5\<rparr>) = (rel lk s)\<lparr>klog := x5\<rparr>"
  "settle (s\<lparr>klog := x5\<rparr>) = (settle s)\<lparr>klog := x5\<rparr>"
  "acq lk (s\<lparr>sb := x6\<rparr>) = (acq lk s)\<lparr>sb := x6\<rparr>"
  "rel lk (s\<lparr>sb := x6\<rparr>) = (rel lk s)\<lparr>sb := x6\<rparr>"
  "settle (s\<lparr>sb := x6\<rparr>) = (settle s)\<lparr>sb := x6\<rparr>"
  "acq lk (s\<lparr>itable := x7\<rparr>) = (acq lk s)\<lparr>itable := x7\<rparr>"
  "rel lk (s\<lparr>itable := x7\<rparr>) = (rel lk s)\<lparr>itable := x7\<rparr>"
  "settle (s\<lparr>itable := x7\<rparr>) = (settle s)\<lparr>itable := x7\<rparr>"
  "acq lk (s\<lparr>ftable := x8\<rparr>) = (acq lk s)\<lparr>ftable := x8\<rparr>"
  "rel lk (s\<lparr>ftable := x8\<rparr>) = (rel lk s)\<lparr>ftable := x8\<rparr>"
  "settle (s\<lparr>ftable := x8\<rparr>) = (settle s)\<lparr>ftable := x8\<rparr>"
  "acq lk (s\<lparr>pipes := x9\<rparr>) = (acq lk s)\<lparr>pipes := x9\<rparr>"
  "rel lk (s\<lparr>pipes := x9\<rparr>) = (rel lk s)\<lparr>pipes := x9\<rparr>"
  "settle (s\<lparr>pipes := x9\<rparr>) = (settle s)\<lparr>pipes := x9\<rparr>"
  "acq lk (s\<lparr>devsw := x10\<rparr>) = (acq lk s)\<lparr>devsw := x10\<rparr>"
  "rel lk (s\<lparr>devsw := x10\<rparr>) = (rel lk s)\<lparr>devsw := x10\<rparr>"
  "settle (s\<lparr>devsw := x10\<rparr>) = (settle s)\<lparr>devsw := x10\<rparr>"
  "acq lk (s\<lparr>cons := x11\<rparr>) = (acq lk s)\<lparr>cons := x11\<rparr>"
  "rel lk (s\<lparr>cons := x11\<rparr>) = (rel lk s)\<lparr>cons := x11\<rparr>"
  "settle (s\<lparr>cons := x11\<rparr>) = (settle s)\<lparr>cons := x11\<rparr>"
  "acq lk (s\<lparr>uart := x12\<rparr>) = (acq lk s)\<lparr>uart := x12\<rparr>"
  "rel lk (s\<lparr>uart := x12\<rparr>) = (rel lk s)\<lparr>uart := x12\<rparr>"
  "settle (s\<lparr>uart := x12\<rparr>) = (settle s)\<lparr>uart := x12\<rparr>"
  "acq lk (s\<lparr>pr_locking := x13\<rparr>) = (acq lk s)\<lparr>pr_locking := x13\<rparr>"
  "rel lk (s\<lparr>pr_locking := x13\<rparr>) = (rel lk s)\<lparr>pr_locking := x13\<rparr>"
  "settle (s\<lparr>pr_locking := x13\<rparr>) = (settle s)\<lparr>pr_locking := x13\<rparr>"
  "acq lk (s\<lparr>panicked := x14\<rparr>) = (acq lk s)\<lparr>panicked := x14\<rparr>"
  "acq lk (s\<lparr>trap := x15\<rparr>) = (acq lk s)\<lparr>trap := x15\<rparr>"
  "rel lk (s\<lparr>panicked := x14\<rparr>) = (rel lk s)\<lparr>panicked := x14\<rparr>"
  "rel lk (s\<lparr>trap := x15\<rparr>) = (rel lk s)\<lparr>trap := x15\<rparr>"
  "settle (s\<lparr>panicked := x14\<rparr>) = (settle s)\<lparr>panicked := x14\<rparr>"
  "settle (s\<lparr>trap := x15\<rparr>) = (settle s)\<lparr>trap := x15\<rparr>"
  by (simp_all add: acq_def rel_def settle_def lock_free_def intr_wf_def in_cs_def spin_defs)

lemma kern_lock_state [simp]:
  "lock_free lk (s\<lparr>slocks := x0\<rparr>) = lock_free lk s"
  "intr_wf (s\<lparr>slocks := x0\<rparr>) = intr_wf s"
  "in_cs lk (s\<lparr>slocks := x0\<rparr>) = in_cs lk s"
  "holding lk (s\<lparr>slocks := x0\<rparr>) = holding lk s"
  "mycpu (s\<lparr>slocks := x0\<rparr>) = mycpu s"
  "lock_free lk (s\<lparr>bufs := x1\<rparr>) = lock_free lk s"
  "intr_wf (s\<lparr>bufs := x1\<rparr>) = intr_wf s"
  "in_cs lk (s\<lparr>bufs := x1\<rparr>) = in_cs lk s"
  "holding lk (s\<lparr>bufs := x1\<rparr>) = holding lk s"
  "mycpu (s\<lparr>bufs := x1\<rparr>) = mycpu s"
  "lock_free lk (s\<lparr>vdisk := x2\<rparr>) = lock_free lk s"
  "intr_wf (s\<lparr>vdisk := x2\<rparr>) = intr_wf s"
  "in_cs lk (s\<lparr>vdisk := x2\<rparr>) = in_cs lk s"
  "holding lk (s\<lparr>vdisk := x2\<rparr>) = holding lk s"
  "mycpu (s\<lparr>vdisk := x2\<rparr>) = mycpu s"
  "lock_free lk (s\<lparr>dimage := x3\<rparr>) = lock_free lk s"
  "intr_wf (s\<lparr>dimage := x3\<rparr>) = intr_wf s"
  "in_cs lk (s\<lparr>dimage := x3\<rparr>) = in_cs lk s"
  "holding lk (s\<lparr>dimage := x3\<rparr>) = holding lk s"
  "mycpu (s\<lparr>dimage := x3\<rparr>) = mycpu s"
  "lock_free lk (s\<lparr>dpower := x4\<rparr>) = lock_free lk s"
  "intr_wf (s\<lparr>dpower := x4\<rparr>) = intr_wf s"
  "in_cs lk (s\<lparr>dpower := x4\<rparr>) = in_cs lk s"
  "holding lk (s\<lparr>dpower := x4\<rparr>) = holding lk s"
  "mycpu (s\<lparr>dpower := x4\<rparr>) = mycpu s"
  "lock_free lk (s\<lparr>klog := x5\<rparr>) = lock_free lk s"
  "intr_wf (s\<lparr>klog := x5\<rparr>) = intr_wf s"
  "in_cs lk (s\<lparr>klog := x5\<rparr>) = in_cs lk s"
  "holding lk (s\<lparr>klog := x5\<rparr>) = holding lk s"
  "mycpu (s\<lparr>klog := x5\<rparr>) = mycpu s"
  "lock_free lk (s\<lparr>sb := x6\<rparr>) = lock_free lk s"
  "intr_wf (s\<lparr>sb := x6\<rparr>) = intr_wf s"
  "in_cs lk (s\<lparr>sb := x6\<rparr>) = in_cs lk s"
  "holding lk (s\<lparr>sb := x6\<rparr>) = holding lk s"
  "mycpu (s\<lparr>sb := x6\<rparr>) = mycpu s"
  "lock_free lk (s\<lparr>itable := x7\<rparr>) = lock_free lk s"
  "intr_wf (s\<lparr>itable := x7\<rparr>) = intr_wf s"
  "in_cs lk (s\<lparr>itable := x7\<rparr>) = in_cs lk s"
  "holding lk (s\<lparr>itable := x7\<rparr>) = holding lk s"
  "mycpu (s\<lparr>itable := x7\<rparr>) = mycpu s"
  "lock_free lk (s\<lparr>ftable := x8\<rparr>) = lock_free lk s"
  "intr_wf (s\<lparr>ftable := x8\<rparr>) = intr_wf s"
  "in_cs lk (s\<lparr>ftable := x8\<rparr>) = in_cs lk s"
  "holding lk (s\<lparr>ftable := x8\<rparr>) = holding lk s"
  "mycpu (s\<lparr>ftable := x8\<rparr>) = mycpu s"
  "lock_free lk (s\<lparr>pipes := x9\<rparr>) = lock_free lk s"
  "intr_wf (s\<lparr>pipes := x9\<rparr>) = intr_wf s"
  "in_cs lk (s\<lparr>pipes := x9\<rparr>) = in_cs lk s"
  "holding lk (s\<lparr>pipes := x9\<rparr>) = holding lk s"
  "mycpu (s\<lparr>pipes := x9\<rparr>) = mycpu s"
  "lock_free lk (s\<lparr>devsw := x10\<rparr>) = lock_free lk s"
  "intr_wf (s\<lparr>devsw := x10\<rparr>) = intr_wf s"
  "in_cs lk (s\<lparr>devsw := x10\<rparr>) = in_cs lk s"
  "holding lk (s\<lparr>devsw := x10\<rparr>) = holding lk s"
  "mycpu (s\<lparr>devsw := x10\<rparr>) = mycpu s"
  "lock_free lk (s\<lparr>cons := x11\<rparr>) = lock_free lk s"
  "intr_wf (s\<lparr>cons := x11\<rparr>) = intr_wf s"
  "in_cs lk (s\<lparr>cons := x11\<rparr>) = in_cs lk s"
  "holding lk (s\<lparr>cons := x11\<rparr>) = holding lk s"
  "mycpu (s\<lparr>cons := x11\<rparr>) = mycpu s"
  "lock_free lk (s\<lparr>uart := x12\<rparr>) = lock_free lk s"
  "intr_wf (s\<lparr>uart := x12\<rparr>) = intr_wf s"
  "in_cs lk (s\<lparr>uart := x12\<rparr>) = in_cs lk s"
  "holding lk (s\<lparr>uart := x12\<rparr>) = holding lk s"
  "mycpu (s\<lparr>uart := x12\<rparr>) = mycpu s"
  "lock_free lk (s\<lparr>pr_locking := x13\<rparr>) = lock_free lk s"
  "intr_wf (s\<lparr>pr_locking := x13\<rparr>) = intr_wf s"
  "in_cs lk (s\<lparr>pr_locking := x13\<rparr>) = in_cs lk s"
  "holding lk (s\<lparr>pr_locking := x13\<rparr>) = holding lk s"
  "mycpu (s\<lparr>pr_locking := x13\<rparr>) = mycpu s"
  "lock_free lk (s\<lparr>panicked := x14\<rparr>) = lock_free lk s"
  "lock_free lk (s\<lparr>trap := x15\<rparr>) = lock_free lk s"
  "intr_wf (s\<lparr>panicked := x14\<rparr>) = intr_wf s"
  "intr_wf (s\<lparr>trap := x15\<rparr>) = intr_wf s"
  "in_cs lk (s\<lparr>panicked := x14\<rparr>) = in_cs lk s"
  "in_cs lk (s\<lparr>trap := x15\<rparr>) = in_cs lk s"
  "holding lk (s\<lparr>panicked := x14\<rparr>) = holding lk s"
  "holding lk (s\<lparr>trap := x15\<rparr>) = holding lk s"
  "mycpu (s\<lparr>panicked := x14\<rparr>) = mycpu s"
  "mycpu (s\<lparr>trap := x15\<rparr>) = mycpu s"
  by (simp_all add: acq_def rel_def settle_def lock_free_def intr_wf_def in_cs_def spin_defs)

end
