(* ===== verification/Sleeplock.thy ===== *)
theory Sleeplock
  imports Kern
begin

section \<open>Sleep locks (kernel/sleeplock.c)\<close>

text \<open>
  Locks whose holder may sleep. The file-system components run in \<open>calm\<close> states, in which the
  running thread is a process that holds no spin lock; there a spin-locked section of one routine
  is the effect of its body, and a wakeup changes nothing but the states of sleeping processes.
\<close>

subsection \<open>Definitions\<close>

definition get_slock :: "slock_id \<Rightarrow> (sleeplock \<Rightarrow> 'a) \<Rightarrow> 'a K" where
  "get_slock l f = gets (\<lambda>s. f (slocks s l))"

definition set_slock :: "slock_id \<Rightarrow> (sleeplock \<Rightarrow> sleeplock) \<Rightarrow> unit K" where
  "set_slock l f = modify (\<lambda>s. s\<lparr>slocks := (slocks s)(l := f (slocks s l))\<rparr>)"

definition initsleeplock :: "slock_id \<Rightarrow> string \<Rightarrow> unit K" where
  "initsleeplock l nm =
     seqM (initlock (SleepLk l) ''sleep lock'')
          (set_slock l (\<lambda>k. k\<lparr>sl_name := nm, sl_locked := 0, sl_pid := 0\<rparr>))"

text \<open>The loop of \<^verbatim>\<open>acquiresleep\<close>, with the spin lock held.\<close>

definition acquiresleep_turn :: "slock_id \<Rightarrow> unit K" where
  "acquiresleep_turn l =
     bindM (get_slock l sl_locked) (\<lambda>k.
     if k \<noteq> 0 then sleep (ChanSleep l) (SleepLk l) else
     seqM (set_slock l (\<lambda>k. k\<lparr>sl_locked := 1\<rparr>)) (
     bindM curproc (\<lambda>me.
     bindM (get_proc me p_pid) (\<lambda>pid.
     seqM (set_slock l (\<lambda>k. k\<lparr>sl_pid := pid\<rparr>))
          (release (SleepLk l))))))"

definition acquiresleep :: "slock_id \<Rightarrow> unit K" where
  "acquiresleep l = seqM (acquire (SleepLk l)) (acquiresleep_turn l)"

definition acquiresleep_resume :: "slock_id \<Rightarrow> nat \<Rightarrow> bool \<Rightarrow> unit K" where
  "acquiresleep_resume l me en = seqM (sleep_resume me (SleepLk l) en) (acquiresleep_turn l)"

definition releasesleep :: "slock_id \<Rightarrow> unit K" where
  "releasesleep l =
     seqM (acquire (SleepLk l)) (
     seqM (set_slock l (\<lambda>k. k\<lparr>sl_locked := 0\<rparr>)) (
     seqM (set_slock l (\<lambda>k. k\<lparr>sl_pid := 0\<rparr>)) (
     seqM (wakeup (ChanSleep l))
          (release (SleepLk l)))))"

definition holdingsleep :: "slock_id \<Rightarrow> bool K" where
  "holdingsleep l =
     seqM (acquire (SleepLk l)) (
     bindM (get_slock l sl_locked) (\<lambda>k.
     bindM (if k \<noteq> 0
            then bindM (get_slock l sl_pid) (\<lambda>pid.
                 bindM curproc (\<lambda>me.
                 bindM (get_proc me p_pid) (\<lambda>mine. returnM (pid = mine))))
            else returnM False) (\<lambda>r.
     seqM (release (SleepLk l)) (returnM r))))"

subsection \<open>Calm states\<close>

definition calm :: "kern \<Rightarrow> bool" where
  "calm s \<longleftrightarrow> intr_wf s \<and> (noff (mycpu s) = 0 \<longrightarrow> intena (mycpu s) = sie s)
     \<and> (\<forall>lk. lock_free lk s) \<and> c_proc (mycpu s) \<noteq> None"

definition cur :: "kern \<Rightarrow> nat" where
  "cur s = the (c_proc (mycpu s))"

definition mypid :: "kern \<Rightarrow> int" where
  "mypid s = p_pid (procs s (cur s))"

lemma settle_same:
  assumes "noff (mycpu s) = 0 \<longrightarrow> intena (mycpu s) = sie s"
  shows "settle s = s"
proof -
  have "(mycpu s)\<lparr>intena := (if noff (mycpu s) = 0 then sie s else intena (mycpu s))\<rparr> = mycpu s"
    using assms by (cases "mycpu s") simp
  then have "settle s = s\<lparr>cpus := (cpus s)(hart s := mycpu s)\<rparr>" by (simp only: settle_def)
  also have "\<dots> = s" by (simp add: spin_defs)
  finally show ?thesis .
qed

lemma calmD:
  assumes "calm s"
  shows "intr_wf s" "lock_free lk s" "settle s = s" "quiet s" "c_proc (mycpu s) = Some (cur s)"
  using assms by (auto simp: calm_def quiet_def cur_def settle_same)

lemma calm_cong:
  "cpus t = cpus s \<Longrightarrow> hart t = hart s \<Longrightarrow> sie t = sie s \<Longrightarrow> locks t = locks s \<Longrightarrow> calm t = calm s"
  by (simp add: calm_def intr_wf_def lock_free_def spin_defs)

lemma cur_cong: "cpus t = cpus s \<Longrightarrow> hart t = hart s \<Longrightarrow> cur t = cur s"
  by (simp add: cur_def spin_defs)

lemma calm_update [simp]:
  "calm (s\<lparr>phys := x0\<rparr>) = calm s" "cur (s\<lparr>phys := x0\<rparr>) = cur s"
  "calm (s\<lparr>freelist := x1\<rparr>) = calm s" "cur (s\<lparr>freelist := x1\<rparr>) = cur s"
  "calm (s\<lparr>k_end := x2\<rparr>) = calm s" "cur (s\<lparr>k_end := x2\<rparr>) = cur s"
  "calm (s\<lparr>kernel_pagetable := x3\<rparr>) = calm s" "cur (s\<lparr>kernel_pagetable := x3\<rparr>) = cur s"
  "calm (s\<lparr>etext := x4\<rparr>) = calm s" "cur (s\<lparr>etext := x4\<rparr>) = cur s"
  "calm (s\<lparr>trampoline_text := x5\<rparr>) = calm s" "cur (s\<lparr>trampoline_text := x5\<rparr>) = cur s"
  "calm (s\<lparr>satp := x6\<rparr>) = calm s" "cur (s\<lparr>satp := x6\<rparr>) = cur s"
  "calm (s\<lparr>procs := x7\<rparr>) = calm s" "cur (s\<lparr>procs := x7\<rparr>) = cur s"
  "calm (s\<lparr>initproc := x8\<rparr>) = calm s" "cur (s\<lparr>initproc := x8\<rparr>) = cur s"
  "calm (s\<lparr>nextpid := x9\<rparr>) = calm s" "cur (s\<lparr>nextpid := x9\<rparr>) = cur s"
  "calm (s\<lparr>queues := x10\<rparr>) = calm s" "cur (s\<lparr>queues := x10\<rparr>) = cur s"
  "calm (s\<lparr>q_index := x11\<rparr>) = calm s" "cur (s\<lparr>q_index := x11\<rparr>) = cur s"
  "calm (s\<lparr>ticks := x12\<rparr>) = calm s" "cur (s\<lparr>ticks := x12\<rparr>) = cur s"
  "calm (s\<lparr>policy := x13\<rparr>) = calm s" "cur (s\<lparr>policy := x13\<rparr>) = cur s"
  "calm (s\<lparr>forkret_text := x14\<rparr>) = calm s" "cur (s\<lparr>forkret_text := x14\<rparr>) = cur s"
  "calm (s\<lparr>fork_first := x15\<rparr>) = calm s" "cur (s\<lparr>fork_first := x15\<rparr>) = cur s"
  "calm (s\<lparr>slocks := x16\<rparr>) = calm s" "cur (s\<lparr>slocks := x16\<rparr>) = cur s"
  "calm (s\<lparr>bufs := x17\<rparr>) = calm s" "cur (s\<lparr>bufs := x17\<rparr>) = cur s"
  "calm (s\<lparr>vdisk := x18\<rparr>) = calm s" "cur (s\<lparr>vdisk := x18\<rparr>) = cur s"
  "calm (s\<lparr>dimage := x19\<rparr>) = calm s" "cur (s\<lparr>dimage := x19\<rparr>) = cur s"
  "calm (s\<lparr>dpower := x20\<rparr>) = calm s" "cur (s\<lparr>dpower := x20\<rparr>) = cur s"
  "calm (s\<lparr>klog := x21\<rparr>) = calm s" "cur (s\<lparr>klog := x21\<rparr>) = cur s"
  "calm (s\<lparr>sb := x22\<rparr>) = calm s" "cur (s\<lparr>sb := x22\<rparr>) = cur s"
  "calm (s\<lparr>itable := x23\<rparr>) = calm s" "cur (s\<lparr>itable := x23\<rparr>) = cur s"
  "calm (s\<lparr>ftable := x24\<rparr>) = calm s" "cur (s\<lparr>ftable := x24\<rparr>) = cur s"
  "calm (s\<lparr>pipes := x25\<rparr>) = calm s" "cur (s\<lparr>pipes := x25\<rparr>) = cur s"
  "calm (s\<lparr>devsw := x26\<rparr>) = calm s" "cur (s\<lparr>devsw := x26\<rparr>) = cur s"
  "calm (s\<lparr>cons := x27\<rparr>) = calm s" "cur (s\<lparr>cons := x27\<rparr>) = cur s"
  "calm (s\<lparr>uart := x28\<rparr>) = calm s" "cur (s\<lparr>uart := x28\<rparr>) = cur s"
  "calm (s\<lparr>pr_locking := x29\<rparr>) = calm s" "cur (s\<lparr>pr_locking := x29\<rparr>) = cur s"
  "calm (s\<lparr>panicked := x30\<rparr>) = calm s" "cur (s\<lparr>panicked := x30\<rparr>) = cur s"
  "calm (s\<lparr>trap := x31\<rparr>) = calm s" "cur (s\<lparr>trap := x31\<rparr>) = cur s"
  by (simp_all add: calm_def cur_def intr_wf_def lock_free_def spin_defs)

text \<open>The running process is never asleep, so a wakeup leaves its record alone.\<close>

definition wokep :: "kern \<Rightarrow> (nat \<Rightarrow> proc) \<Rightarrow> bool" where
  "wokep s pr \<longleftrightarrow> (\<forall>p. pr p = procs s p
     \<or> p \<noteq> cur s \<and> p_state (procs s p) = SLEEPING \<and> pr p = (procs s p)\<lparr>p_state := RUNNABLE\<rparr>)"

lemma wokep_refl [simp]: "wokep s (procs s)"
  by (simp add: wokep_def)

lemma wokep_me: "wokep s pr \<Longrightarrow> pr (cur s) = procs s (cur s)"
  by (auto simp: wokep_def)

lemma wokep_trans:
  assumes "wokep s pr" "wokep (s\<lparr>procs := pr\<rparr>) pr'"
  shows "wokep s pr'"
  unfolding wokep_def
proof
  fix p
  from assms(1) consider "pr p = procs s p"
    | "p \<noteq> cur s" "p_state (procs s p) = SLEEPING" "pr p = (procs s p)\<lparr>p_state := RUNNABLE\<rparr>"
    by (auto simp: wokep_def)
  moreover from assms(2) have "pr' p = pr p
     \<or> p \<noteq> cur s \<and> p_state (pr p) = SLEEPING \<and> pr' p = (pr p)\<lparr>p_state := RUNNABLE\<rparr>"
    by (auto simp: wokep_def)
  ultimately show "pr' p = procs s p
     \<or> p \<noteq> cur s \<and> p_state (procs s p) = SLEEPING \<and> pr' p = (procs s p)\<lparr>p_state := RUNNABLE\<rparr>"
    by cases auto
qed

definition wakes :: "chan \<Rightarrow> kern \<Rightarrow> nat \<Rightarrow> proc" where
  "wakes ch s = (\<lambda>p. if p < NPROC then woken ch (c_proc (mycpu s)) p (procs s p) else procs s p)"

lemma wokep_wakes:
  assumes "calm s"
  shows "wokep s (wakes ch s)"
  using calmD(5) [OF assms] by (auto simp: wokep_def wakes_def woken_def)

lemma calm_acquire: "calm s \<Longrightarrow> acquire lk s = Ret () (acq lk s)"
  by (simp add: acquire_free calmD)

lemma wakeup_held:
  assumes "calm s" "\<And>p. lk \<noteq> ProcLock p"
  shows "wakeup ch (acq lk s) = Ret () ((acq lk s)\<lparr>procs := wakes ch s\<rparr>)"
proof -
  have "lock_free (ProcLock p) (acq lk s)" for p
    using assms(2) [of p] by (subst lock_free_acq) (auto simp: calmD [OF assms(1)])
  then have "quiet (acq lk s)" by (simp add: quiet_def calmD [OF assms(1)])
  then have w: "wakeup ch (acq lk s) = Ret () ((settle (acq lk s))\<lparr>procs :=
      \<lambda>p. if p < NPROC then woken ch (c_proc (mycpu (acq lk s))) p (procs (acq lk s) p) else procs (acq lk s) p\<rparr>)"
    by (rule wakeup_run)
  have "(\<lambda>p. if p < NPROC then woken ch (c_proc (mycpu (acq lk s))) p (procs (acq lk s) p) else procs (acq lk s) p)
      = wakes ch s"
    by (simp add: wakes_def fun_eq_iff)
  moreover have "settle (acq lk s) = acq lk s" by (simp add: calmD [OF assms(1)])
  ultimately show ?thesis using w by (simp only:)
qed

lemma release_acq:
  assumes "calm s"
  shows "release lk (acq lk s) = Ret () s"
  using assms by (simp add: release_in_cs rel_acq calmD)

lemma curproc_case:
  assumes "intr_wf s"
  shows "curproc s = (case c_proc (mycpu s) of None \<Rightarrow> Stop (Fault ''null process'') (settle s)
    | Some p \<Rightarrow> Ret p (settle s))"
  using myproc_run [OF assms] by (simp add: curproc_def split: option.splits)

text \<open>The state inside a critical section that was entered from a calm state.\<close>

definition held :: "lockid \<Rightarrow> kern \<Rightarrow> bool" where
  "held lk s \<longleftrightarrow> in_cs lk s \<and> intr_wf s \<and> (\<forall>l. l \<noteq> lk \<longrightarrow> lock_free l s) \<and> c_proc (mycpu s) \<noteq> None"

lemma held_update [simp]:
  "held lk (s\<lparr>phys := x0\<rparr>) = held lk s"
  "held lk (s\<lparr>freelist := x1\<rparr>) = held lk s"
  "held lk (s\<lparr>k_end := x2\<rparr>) = held lk s"
  "held lk (s\<lparr>kernel_pagetable := x3\<rparr>) = held lk s"
  "held lk (s\<lparr>etext := x4\<rparr>) = held lk s"
  "held lk (s\<lparr>trampoline_text := x5\<rparr>) = held lk s"
  "held lk (s\<lparr>satp := x6\<rparr>) = held lk s"
  "held lk (s\<lparr>procs := x7\<rparr>) = held lk s"
  "held lk (s\<lparr>initproc := x8\<rparr>) = held lk s"
  "held lk (s\<lparr>nextpid := x9\<rparr>) = held lk s"
  "held lk (s\<lparr>queues := x10\<rparr>) = held lk s"
  "held lk (s\<lparr>q_index := x11\<rparr>) = held lk s"
  "held lk (s\<lparr>ticks := x12\<rparr>) = held lk s"
  "held lk (s\<lparr>policy := x13\<rparr>) = held lk s"
  "held lk (s\<lparr>forkret_text := x14\<rparr>) = held lk s"
  "held lk (s\<lparr>fork_first := x15\<rparr>) = held lk s"
  "held lk (s\<lparr>slocks := x16\<rparr>) = held lk s"
  "held lk (s\<lparr>bufs := x17\<rparr>) = held lk s"
  "held lk (s\<lparr>vdisk := x18\<rparr>) = held lk s"
  "held lk (s\<lparr>dimage := x19\<rparr>) = held lk s"
  "held lk (s\<lparr>dpower := x20\<rparr>) = held lk s"
  "held lk (s\<lparr>klog := x21\<rparr>) = held lk s"
  "held lk (s\<lparr>sb := x22\<rparr>) = held lk s"
  "held lk (s\<lparr>itable := x23\<rparr>) = held lk s"
  "held lk (s\<lparr>ftable := x24\<rparr>) = held lk s"
  "held lk (s\<lparr>pipes := x25\<rparr>) = held lk s"
  "held lk (s\<lparr>devsw := x26\<rparr>) = held lk s"
  "held lk (s\<lparr>cons := x27\<rparr>) = held lk s"
  "held lk (s\<lparr>uart := x28\<rparr>) = held lk s"
  "held lk (s\<lparr>pr_locking := x29\<rparr>) = held lk s"
  "held lk (s\<lparr>panicked := x30\<rparr>) = held lk s"
  "held lk (s\<lparr>trap := x31\<rparr>) = held lk s"
  by (simp_all add: held_def in_cs_def intr_wf_def lock_free_def spin_defs)

lemma held_acq [simp]: "calm s \<Longrightarrow> held lk (acq lk s)"
  by (auto simp: held_def calm_def)

lemma cur_acq [simp]: "cur (acq lk s) = cur s"
  by (simp add: cur_def)

lemma wakeup_cs:
  assumes "held lk u" "\<And>p. lk \<noteq> ProcLock p"
  shows "\<exists>pr. wakeup ch u = Ret () (u\<lparr>procs := pr\<rparr>) \<and> wokep u pr"
proof -
  have "lock_free (ProcLock p) u" for p
    using assms(1) assms(2) [of p, symmetric] by (simp add: held_def)
  then have q: "quiet u" "settle u = u"
    using assms(1) settle_in_cs [of lk u] by (simp_all add: held_def quiet_def)
  have c: "c_proc (mycpu u) = Some (cur u)" using assms(1) by (auto simp: held_def cur_def)
  have "wokep u (wakes ch u)" by (auto simp: wokep_def wakes_def woken_def c)
  then show ?thesis using wakeup_run [OF q(1), of ch] q(2) by (auto simp: wakes_def)
qed

lemma acquire_calm: "calm s \<Longrightarrow> acquire lk s = Ret () (acq lk s)"
  by (simp add: acquire_free calmD)

lemma release_held: "held lk s \<Longrightarrow> release lk s = Ret () (rel lk s)"
  by (simp add: held_def release_in_cs)

lemma rel_acq_calm [simp]: "calm s \<Longrightarrow> rel lk (acq lk s) = s"
  by (simp add: rel_acq calmD)

lemma wokep_cong: "procs t = procs s \<Longrightarrow> cur t = cur s \<Longrightarrow> wokep t pr = wokep s pr"
  by (simp add: wokep_def)

subsection \<open>Sleep locks in calm states\<close>

lemmas slock_defs = get_slock_def set_slock_def

lemma acquiresleep_free:
  assumes "calm s" "sl_locked (slocks s l) = 0"
  shows "acquiresleep l s = Ret () (s\<lparr>slocks := (slocks s)(l := (slocks s l)
    \<lparr>sl_locked := 1, sl_pid := mypid s\<rparr>)\<rparr>)"
  using assms
  by (simp add: acquiresleep_def acquiresleep_turn_def slock_defs calm_acquire release_in_cs calmD
      curproc_case rel_acq mypid_def)

lemma releasesleep_run:
  assumes "calm s"
  shows "releasesleep l s = Ret () (s\<lparr>
    slocks := (slocks s)(l := (slocks s l)\<lparr>sl_locked := 0, sl_pid := 0\<rparr>), procs := wakes (ChanSleep l) s\<rparr>)"
proof -
  let ?t = "s\<lparr>slocks := (slocks s)(l := (slocks s l)\<lparr>sl_locked := 0, sl_pid := 0\<rparr>)\<rparr>"
  have "wakeup (ChanSleep l) (acq (SleepLk l) ?t) = Ret () ((acq (SleepLk l) ?t)\<lparr>procs := wakes (ChanSleep l) ?t\<rparr>)"
    using assms by (intro wakeup_held) simp_all
  moreover have "wakes (ChanSleep l) ?t = wakes (ChanSleep l) s"
    by (simp add: wakes_def fun_eq_iff)
  ultimately show ?thesis
    using assms by (simp add: releasesleep_def slock_defs calm_acquire release_in_cs rel_acq calmD)
qed

lemma holdingsleep_run:
  assumes "calm s"
  shows "holdingsleep l s = Ret (sl_locked (slocks s l) \<noteq> 0 \<and> sl_pid (slocks s l) = mypid s) s"
  using assms
  by (cases "sl_locked (slocks s l) = 0")
    (simp_all add: holdingsleep_def slock_defs calm_acquire release_in_cs rel_acq calmD curproc_case mypid_def)

text \<open>\<^verbatim>\<open>sleep\<close> in a critical section: the process is marked, its own lock held, the section's lock free.\<close>

definition asleep :: "chan \<Rightarrow> lockid \<Rightarrow> kern \<Rightarrow> kern" where
  "asleep ch lk u = (rel lk (acq (ProcLock (cur u)) u))
     \<lparr>procs := (procs u)(cur u := (procs u (cur u))\<lparr>p_chan := Some ch, p_state := SLEEPING\<rparr>)\<rparr>"

lemma sleep_cs:
  assumes "held lk u" "\<And>p. lk \<noteq> ProcLock p"
  shows "sleep ch lk u = (if noff (mycpu u) = 1 then Stop (Switch (Asleep ch)) (asleep ch lk u)
     else Stop (Panic ''sched locks'') (asleep ch lk u))"
proof -
  have "c_proc (mycpu u) = Some (cur u)" "in_cs lk u" "lock_free (ProcLock (cur u)) u"
    using assms(1) assms(2) [of "cur u", symmetric] by (auto simp: held_def cur_def)
  then show ?thesis by (subst sleep_run(1)) (simp_all add: assms(2) asleep_def)
qed

lemma asleep_simps [simp]:
  "slocks (asleep ch lk u) = slocks u" "klog (asleep ch lk u) = klog u" "pipes (asleep ch lk u) = pipes u"
  "procs (asleep ch lk u) = (procs u)(cur u := (procs u (cur u))\<lparr>p_chan := Some ch, p_state := SLEEPING\<rparr>)"
  "cons (asleep ch lk u) = cons u" "uart (asleep ch lk u) = uart u"
  by (simp_all add: asleep_def)

lemma noff_acq_calm: "noff (mycpu (acq lk s)) = noff (mycpu s) + 1"
  by (simp add: noff_acq)

definition blank_buf :: buf where
  "blank_buf = \<lparr>b_valid = False, b_disk = False, b_dev = 0, b_blockno = 0, b_refcnt = 0, b_prev = 30, b_next = 30,
     b_data = replicate BSIZE 0\<rparr>"

definition blank_disk :: vdisk where
  "blank_disk = \<lparr>dk_desc = (\<lambda>_. zero_desc), dk_avail_idx = 0, dk_avail_ring = (\<lambda>_. 0), dk_dev_used_idx = 0,
     dk_used_ring = (\<lambda>_. 0), dk_free = (\<lambda>_. True), dk_used_idx = 0, dk_info_b = (\<lambda>_. None),
     dk_info_status = (\<lambda>_. 0), dk_ops = (\<lambda>_. \<lparr>rq_type = 0, rq_reserved = 0, rq_sector = 0\<rparr>), dk_seen = 0\<rparr>"

text \<open>A kernel that has booted: process 0 runs, the disk holds the byte \<open>a mod 256\<close> at address \<open>a\<close>.\<close>

definition booted :: kern where
  "booted = ptab.extend (demo\<lparr>cpus := (\<lambda>_. \<lparr>c_proc = Some 0, noff = 0, intena = True\<rparr>)\<rparr>)
     (kern.fields (\<lambda>_. \<lparr>sl_locked = 0, sl_name = [], sl_pid = 0\<rparr>) (\<lambda>_. blank_buf) blank_disk (\<lambda>a. of_nat a) None
        \<lparr>log_start = 2, log_size = 30, log_outstanding = 0, log_committing = False, log_dev = 1, lh_n = 0, lh_block = (\<lambda>_. 0)\<rparr>
        \<lparr>sb_magic = 0x10203040, sb_size = 1000, sb_nblocks = 954, sb_ninodes = 200, sb_nlog = 30, sb_logstart = 2,
         sb_inodestart = 32, sb_bmapstart = 45\<rparr>
        (\<lambda>_. \<lparr>i_dev = 0, i_inum = 0, i_ref = 0, i_valid = False, i_type = 0, i_major = 0, i_minor = 0, i_nlink = 0,
              i_size = 0, i_addrs = (\<lambda>_. 0)\<rparr>)
        (\<lambda>_. \<lparr>f_type = FD_NONE, f_ref = 0, f_readable = False, f_writable = False, f_pipe = 0, f_ip = 0, f_off = 0, f_major = 0\<rparr>)
        (\<lambda>_. \<lparr>pi_data = (\<lambda>_. 0), pi_nread = 0, pi_nwrite = 0, pi_readopen = False, pi_writeopen = False\<rparr>)
        (\<lambda>_. \<lparr>dv_read = None, dv_write = None\<rparr>)
        \<lparr>cs_buf = (\<lambda>_. 0), cs_r = 0, cs_w = 0, cs_e = 0\<rparr>
        \<lparr>u_tx_buf = (\<lambda>_. 0), u_tx_w = 0, u_tx_r = 0, u_reg = (\<lambda>_. 0), u_room = 1, u_sent = [], u_input = []\<rparr>
        True False
        \<lparr>csr_stvec = 0, csr_sepc = 0, csr_scause = 0, csr_stval = 0, csr_sstatus = 0, csr_sip = 0, csr_sie = 0, csr_mstatus = 0,
         csr_mepc = 0, csr_medeleg = 0, csr_mideleg = 0, csr_pmpaddr0 = 0, csr_pmpcfg0 = 0, csr_mscratch = 0, csr_mtvec = 0,
         csr_mie = 0, csr_mhartid = 0, plic = (\<lambda>_. 0), plic_claims = [], clint = (\<lambda>_. 0), timer_scratch = (\<lambda>_ _. 0),
         symbol = (\<lambda>_. 0), started = False\<rparr>)"

lemmas booted_unfold = booted_def ptab.extend_def kern.fields_def demo_def

lemma booted_simps [simp]:
  "calm booted" "vdisk booted = blank_disk" "dpower booted = None" "bufs booted = (\<lambda>_. blank_buf)"
  "dimage booted = (\<lambda>a. of_nat a)" "cur booted = 0" "procs booted = demo_procs"
  by (simp_all add: booted_unfold calm_def cur_def intr_wf_def lock_free_def spin_defs)

subsection \<open>Waking up\<close>

text \<open>The state in which the scheduler switches to a process: it runs on this CPU and its own lock is the only one held.\<close>

definition dispatched :: "nat \<Rightarrow> kern \<Rightarrow> bool" where
  "dispatched p s \<longleftrightarrow> held (ProcLock p) s \<and> noff (mycpu s) = 1 \<and> c_proc (mycpu s) = Some p"

text \<open>The state that the process goes on in, with its lock released and the interrupt flag it had.\<close>

definition awake :: "nat \<Rightarrow> bool \<Rightarrow> kern \<Rightarrow> kern" where
  "awake p en s = rel (ProcLock p) (s\<lparr>cpus := (cpus s)(hart s := (mycpu s)\<lparr>intena := en\<rparr>),
     procs := (procs s)(p := (procs s p)\<lparr>p_chan := None\<rparr>)\<rparr>)"

lemma awake_calm:
  assumes "dispatched p s"
  shows "calm (awake p en s)" "noff (mycpu (awake p en s)) = 0" "cur (awake p en s) = p" "slocks (awake p en s) = slocks s"
    "procs (awake p en s) = (procs s)(p := (procs s p)\<lparr>p_chan := None\<rparr>)"
proof -
  have s: "noff (mycpu s) = 1" "c_proc (mycpu s) = Some p" "\<And>lk. lk \<noteq> ProcLock p \<Longrightarrow> lock_free lk s"
    using assms by (auto simp: dispatched_def held_def)
  have "lock_free lk (awake p en s)" for lk
    using s(3) [of lk] by (cases "lk = ProcLock p") (simp_all add: awake_def rel_def lock_free_def)
  then show "calm (awake p en s)"
    using s(1,2) by (simp add: calm_def intr_wf_def awake_def rel_def spin_defs)
  show "noff (mycpu (awake p en s)) = 0" "cur (awake p en s) = p" "slocks (awake p en s) = slocks s"
    "procs (awake p en s) = (procs s)(p := (procs s p)\<lparr>p_chan := None\<rparr>)"
    using s(1,2) by (simp_all add: awake_def rel_def spin_defs cur_def)
qed

lemma acquiresleep_resume_run:
  assumes "dispatched p s"
  shows "acquiresleep_resume l p en s = acquiresleep l (awake p en s)"
proof -
  let ?u = "s\<lparr>cpus := (cpus s)(hart s := (mycpu s)\<lparr>intena := en\<rparr>), procs := (procs s)(p := (procs s p)\<lparr>p_chan := None\<rparr>)\<rparr>"
  have "in_cs (ProcLock p) ?u" using assms by (simp add: dispatched_def held_def in_cs_def spin_defs)
  then have "release (ProcLock p) ?u = Ret () (awake p en s)" by (simp add: release_in_cs awake_def)
  then show ?thesis
    by (simp add: acquiresleep_resume_def acquiresleep_def sleep_resume_def sched_resume_def set_mycpu_def set_proc_def spin_defs seqM_apply)
qed

lemma acquiresleep_taken:
  assumes "calm s" "noff (mycpu s) = 0" "sl_locked (slocks s l) \<noteq> 0"
  shows "acquiresleep l s = Stop (Switch (Asleep (ChanSleep l))) (asleep (ChanSleep l) (SleepLk l) (acq (SleepLk l) s))"
  using assms by (simp add: sleep_cs acquiresleep_def acquiresleep_turn_def slock_defs acquire_calm noff_acq_calm)

subsection \<open>One holder\<close>

text \<open>
  The processes between \<^verbatim>\<open>acquiresleep\<close> and \<^verbatim>\<open>releasesleep\<close>, in any order of calls: a process takes the lock or goes to sleep,
  a sleeping process is dispatched and goes on, the holder gives the lock back, and everything else the kernel does leaves the lock
  alone. The calls are atomic, since each runs in the critical section of the lock's spin lock.
\<close>

inductive sl_step :: "slock_id \<Rightarrow> kern \<times> nat set \<Rightarrow> kern \<times> nat set \<Rightarrow> bool" for l where
  take: "calm s \<Longrightarrow> noff (mycpu s) = 0 \<Longrightarrow> acquiresleep l s = Ret () t \<Longrightarrow> sl_step l (s, H) (t, insert (cur s) H)"
| block: "calm s \<Longrightarrow> noff (mycpu s) = 0 \<Longrightarrow> acquiresleep l s = Stop w t \<Longrightarrow> sl_step l (s, H) (t, H)"
| wake_take: "dispatched p s \<Longrightarrow> acquiresleep_resume l p en s = Ret () t \<Longrightarrow> sl_step l (s, H) (t, insert p H)"
| wake_block: "dispatched p s \<Longrightarrow> acquiresleep_resume l p en s = Stop w t \<Longrightarrow> sl_step l (s, H) (t, H)"
| give: "calm s \<Longrightarrow> cur s \<in> H \<Longrightarrow> releasesleep l s = Ret () t \<Longrightarrow> sl_step l (s, H) (t, H - {cur s})"
| other: "slocks t l = slocks s l \<Longrightarrow> sl_step l (s, H) (t, H)"

inductive sl_reach :: "slock_id \<Rightarrow> kern \<times> nat set \<Rightarrow> bool" for l where
  sl_init: "sl_locked (slocks s l) = 0 \<Longrightarrow> sl_reach l (s, {})"
| sl_more: "sl_reach l x \<Longrightarrow> sl_step l x y \<Longrightarrow> sl_reach l y"

definition sl_inv :: "slock_id \<Rightarrow> kern \<times> nat set \<Rightarrow> bool" where
  "sl_inv l x \<longleftrightarrow> (if sl_locked (slocks (fst x) l) = 0 then snd x = {} else \<exists>p. snd x = {p})"

lemma acquiresleep_outcome:
  assumes "calm s" "noff (mycpu s) = 0"
  shows "acquiresleep l s = Ret () t \<Longrightarrow> sl_locked (slocks s l) = 0 \<and> sl_locked (slocks t l) = 1"
    "acquiresleep l s = Stop w t \<Longrightarrow> slocks t = slocks s"
  using acquiresleep_free [OF assms(1), of l] acquiresleep_taken [OF assms, of l]
  by (cases "sl_locked (slocks s l) = 0"; auto)+

lemma sl_step_inv: "sl_step l x y \<Longrightarrow> sl_inv l x \<Longrightarrow> sl_inv l y"
proof (induction rule: sl_step.induct)
  case (take s t H)
  then show ?case using acquiresleep_outcome(1) [OF take(1-3)] by (simp add: sl_inv_def)
next
  case (block s w t H)
  then show ?case using acquiresleep_outcome(2) [OF block(1-3)] by (auto simp: sl_inv_def)
next
  case (wake_take p s en t H)
  then have "acquiresleep l (awake p en s) = Ret () t" by (simp add: acquiresleep_resume_run)
  from acquiresleep_outcome(1) [OF awake_calm(1,2) [OF wake_take(1)] this] wake_take show ?case
    by (simp add: sl_inv_def awake_calm(4))
next
  case (wake_block p s en w t H)
  then have "acquiresleep l (awake p en s) = Stop w t" by (simp add: acquiresleep_resume_run)
  from acquiresleep_outcome(2) [OF awake_calm(1,2) [OF wake_block(1)] this] wake_block show ?case
    by (auto simp: sl_inv_def awake_calm(4))
next
  case (give s H t)
  then have "sl_locked (slocks t l) = 0" using releasesleep_run [OF give(1), of l] by auto
  then show ?case using give by (auto simp: sl_inv_def split: if_splits)
next
  case (other t s H)
  then show ?case by (auto simp: sl_inv_def)
qed

lemma sl_reach_inv: "sl_reach l x \<Longrightarrow> sl_inv l x"
  by (induction rule: sl_reach.induct) (auto simp: sl_inv_def dest: sl_step_inv)

text \<open>
  C21: the protocol of a sleep lock. A process that calls \<^verbatim>\<open>acquiresleep\<close> on a free lock becomes its holder,
  which \<^verbatim>\<open>holdingsleep\<close> confirms, and \<^verbatim>\<open>releasesleep\<close> then frees the lock and makes every process that sleeps on it
  runnable. On a lock that is taken the caller goes to sleep on the lock's channel and the lock does
  not change hands. A process that the scheduler dispatches after it was woken takes the lock if the lock is free then, and goes
  back to sleep otherwise. In every sequence of these steps at most one process holds the lock, and the lock word is set exactly while one does.
\<close>

theorem sleeplock_protocol:
  assumes "calm s" "noff (mycpu s) = 0" "dispatched p r" "sl_reach l (u, H)"
  shows "(sl_locked (slocks s l) = 0 \<longrightarrow> (\<exists>t. acquiresleep l s = Ret () t \<and> calm t
       \<and> slocks t = (slocks s)(l := (slocks s l)\<lparr>sl_locked := 1, sl_pid := mypid s\<rparr>)
       \<and> holdingsleep l t = Ret True t \<and> (\<exists>u. releasesleep l t = Ret () u \<and> sl_locked (slocks u l) = 0
         \<and> (\<forall>p<NPROC. p \<noteq> cur s \<and> p_state (procs s p) = SLEEPING \<and> p_chan (procs s p) = Some (ChanSleep l)
             \<longrightarrow> p_state (procs u p) = RUNNABLE))))
   \<and> (sl_locked (slocks s l) \<noteq> 0 \<longrightarrow> (\<exists>t. acquiresleep l s = Stop (Switch (Asleep (ChanSleep l))) t
       \<and> slocks t = slocks s \<and> p_state (procs t (cur s)) = SLEEPING \<and> p_chan (procs t (cur s)) = Some (ChanSleep l)))
   \<and> (sl_locked (slocks r l) = 0 \<longrightarrow> (\<exists>t. acquiresleep_resume l p en r = Ret () t \<and> calm t \<and> cur t = p
       \<and> slocks t = (slocks r)(l := (slocks r l)\<lparr>sl_locked := 1, sl_pid := p_pid (procs r p)\<rparr>)))
   \<and> (sl_locked (slocks r l) \<noteq> 0 \<longrightarrow> (\<exists>t. acquiresleep_resume l p en r = Stop (Switch (Asleep (ChanSleep l))) t
       \<and> slocks t = slocks r \<and> p_state (procs t p) = SLEEPING \<and> p_chan (procs t p) = Some (ChanSleep l)))
   \<and> (\<forall>p \<in> H. \<forall>q \<in> H. p = q) \<and> (sl_locked (slocks u l) \<noteq> 0 \<longleftrightarrow> H \<noteq> {})"
proof (intro conjI impI)
  assume free: "sl_locked (slocks s l) = 0"
  let ?t = "s\<lparr>slocks := (slocks s)(l := (slocks s l)\<lparr>sl_locked := 1, sl_pid := mypid s\<rparr>)\<rparr>"
  have "acquiresleep l s = Ret () ?t" by (rule acquiresleep_free [OF assms(1) free])
  moreover have "mypid ?t = mypid s" by (simp add: mypid_def)
  then have "holdingsleep l ?t = Ret True ?t" using holdingsleep_run [of ?t l] assms(1) by simp
  moreover have "c_proc (mycpu s) = Some (cur s)" using assms(1) by (auto simp: cur_def calm_def)
  then have "\<forall>p<NPROC. p \<noteq> cur s \<and> p_state (procs s p) = SLEEPING \<and> p_chan (procs s p) = Some (ChanSleep l)
             \<longrightarrow> p_state (wakes (ChanSleep l) ?t p) = RUNNABLE"
    by (auto simp: wakes_def woken_def)
  ultimately show "\<exists>t. acquiresleep l s = Ret () t \<and> calm t
       \<and> slocks t = (slocks s)(l := (slocks s l)\<lparr>sl_locked := 1, sl_pid := mypid s\<rparr>)
       \<and> holdingsleep l t = Ret True t \<and> (\<exists>u. releasesleep l t = Ret () u \<and> sl_locked (slocks u l) = 0
         \<and> (\<forall>p<NPROC. p \<noteq> cur s \<and> p_state (procs s p) = SLEEPING \<and> p_chan (procs s p) = Some (ChanSleep l)
             \<longrightarrow> p_state (procs u p) = RUNNABLE))"
    using assms(1) releasesleep_run [of ?t l] by (intro exI [of _ ?t]) simp
next
  assume "sl_locked (slocks s l) \<noteq> 0"
  then show "\<exists>t. acquiresleep l s = Stop (Switch (Asleep (ChanSleep l))) t
       \<and> slocks t = slocks s \<and> p_state (procs t (cur s)) = SLEEPING \<and> p_chan (procs t (cur s)) = Some (ChanSleep l)"
    using acquiresleep_taken [OF assms(1,2)] by simp
next
  note A = awake_calm [OF assms(3), of en]
  show "\<exists>t. acquiresleep_resume l p en r = Ret () t \<and> calm t \<and> cur t = p
       \<and> slocks t = (slocks r)(l := (slocks r l)\<lparr>sl_locked := 1, sl_pid := p_pid (procs r p)\<rparr>)" if "sl_locked (slocks r l) = 0"
    unfolding acquiresleep_resume_run [OF assms(3)] using acquiresleep_free [OF A(1), of l] that A by (simp add: mypid_def)
  show "\<exists>t. acquiresleep_resume l p en r = Stop (Switch (Asleep (ChanSleep l))) t
       \<and> slocks t = slocks r \<and> p_state (procs t p) = SLEEPING \<and> p_chan (procs t p) = Some (ChanSleep l)" if "sl_locked (slocks r l) \<noteq> 0"
    unfolding acquiresleep_resume_run [OF assms(3)] using acquiresleep_taken [OF A(1,2), of l] that A by simp
next
  show "\<forall>p \<in> H. \<forall>q \<in> H. p = q" "sl_locked (slocks u l) \<noteq> 0 \<longleftrightarrow> H \<noteq> {}"
    using sl_reach_inv [OF assms(4)] by (auto simp: sl_inv_def split: if_splits)
qed

theorem sleeplock_protocol_witness:
  "\<exists>t v w. acquiresleep (InodeLock 3) booted = Ret () t \<and> holdingsleep (InodeLock 3) t = Ret True t \<and> sl_reach (InodeLock 3) (t, {0})
    \<and> sl_locked (slocks t (InodeLock 3)) \<noteq> 0 \<and> dispatched 1 v \<and> acquiresleep_resume (InodeLock 3) 1 True v = Stop (Switch (Asleep (ChanSleep (InodeLock 3)))) w"
proof -
  let ?l = "InodeLock 3"
  have b: "noff (mycpu booted) = 0" "sl_locked (slocks booted ?l) = 0" by (simp_all add: booted_unfold spin_defs)
  obtain t where t: "acquiresleep ?l booted = Ret () t" "slocks t = (slocks booted)(?l := (slocks booted ?l)\<lparr>sl_locked := 1, sl_pid := mypid booted\<rparr>)"
    using acquiresleep_free [of booted ?l] b(2) by simp
  have r: "sl_reach ?l (t, {0})"
    using sl_more [OF sl_init [of booted ?l] sl_step.take [OF booted_simps(1) b(1) t(1), of "{}"]] b(2) by simp
  let ?v = "acq (ProcLock 1) (t\<lparr>cpus := (cpus booted)(hart booted := (mycpu booted)\<lparr>c_proc := Some 1\<rparr>), hart := hart booted, sie := sie booted, locks := locks booted\<rparr>)"
  have "calm (t\<lparr>cpus := (cpus booted)(hart booted := (mycpu booted)\<lparr>c_proc := Some 1\<rparr>), hart := hart booted, sie := sie booted, locks := locks booted\<rparr>)"
    using booted_simps(1) by (simp add: calm_def intr_wf_def lock_free_def spin_defs)
  then have d: "dispatched 1 ?v" using b(1) by (simp add: dispatched_def noff_acq_calm) (simp add: spin_defs)
  have "slocks ?v = slocks t" by simp
  then show ?thesis using sleeplock_protocol [OF booted_simps(1) b(1) d r, of True] t r d b(2) by auto
qed

end
