(* ===== verification/Virtio.thy ===== *)
theory Virtio
  imports Sleeplock
begin

section \<open>The disk driver (kernel/virtio_disk.c)\<close>

text \<open>
  The driver of the virtio block device: allocation of descriptors, the request chain of
  \<^verbatim>\<open>virtio_disk_rw\<close>, the interrupt handler, and the device itself as the hardware that serves the
  chains the driver makes available. A process that waits for its request sleeps; what happens
  meanwhile is that the device serves the request and the interrupt handler runs.
  The lemmas show that a request transfers one block and gives its descriptors back.
\<close>

subsection \<open>Access to the structures\<close>

abbreviation (input) NUM :: nat where "NUM \<equiv> 8"
abbreviation (input) VRING_DESC_F_NEXT :: u16 where "VRING_DESC_F_NEXT \<equiv> 1"
abbreviation (input) VRING_DESC_F_WRITE :: u16 where "VRING_DESC_F_WRITE \<equiv> 2"
abbreviation (input) VIRTIO_BLK_T_IN :: u32 where "VIRTIO_BLK_T_IN \<equiv> 0"
abbreviation (input) VIRTIO_BLK_T_OUT :: u32 where "VIRTIO_BLK_T_OUT \<equiv> 1"

definition get_buf :: "nat \<Rightarrow> (buf \<Rightarrow> 'a) \<Rightarrow> 'a K" where
  "get_buf b f = gets (\<lambda>s. f (bufs s b))"

definition set_buf :: "nat \<Rightarrow> (buf \<Rightarrow> buf) \<Rightarrow> unit K" where
  "set_buf b f = modify (\<lambda>s. s\<lparr>bufs := (bufs s)(b := f (bufs s b))\<rparr>)"

definition get_disk :: "(vdisk \<Rightarrow> 'a) \<Rightarrow> 'a K" where
  "get_disk f = gets (\<lambda>s. f (vdisk s))"

definition set_disk :: "(vdisk \<Rightarrow> vdisk) \<Rightarrow> unit K" where
  "set_disk f = modify (\<lambda>s. s\<lparr>vdisk := f (vdisk s)\<rparr>)"

definition set_desc :: "nat \<Rightarrow> (virtq_desc \<Rightarrow> virtq_desc) \<Rightarrow> unit K" where
  "set_desc i f = set_disk (\<lambda>d. d\<lparr>dk_desc := (dk_desc d)(i := f (dk_desc d i))\<rparr>)"

lemma disk_apply [simp]:
  "get_buf b f s = Ret (f (bufs s b)) s"
  "set_buf b g s = Ret () (s\<lparr>bufs := (bufs s)(b := g (bufs s b))\<rparr>)"
  "get_disk h s = Ret (h (vdisk s)) s"
  "set_disk k s = Ret () (s\<lparr>vdisk := k (vdisk s)\<rparr>)"
  by (simp_all add: get_buf_def set_buf_def get_disk_def set_disk_def)

lemma bindM_disk [simp]:
  "bindM (get_buf b f) g s = g (f (bufs s b)) s"
  "bindM (get_disk h) k s = k (h (vdisk s)) s"
  by (simp_all add: get_buf_def get_disk_def)

subsection \<open>Initialisation\<close>

text \<open>
  \<open>mmio_read\<close> is what the device answers in its registers; the driver requires a legacy block
  device with a queue of at least \<open>NUM\<close> entries. The registers it writes only configure the device.
\<close>

definition virtio_disk_init :: "(u64 \<Rightarrow> u32) \<Rightarrow> unit K" where
  "virtio_disk_init mmio_read =
     seqM (initlock VdiskLock ''virtio_disk'') (
     if mmio_read 0x000 \<noteq> 0x74726976 \<or> mmio_read 0x004 \<noteq> 1 \<or> mmio_read 0x008 \<noteq> 2
        \<or> mmio_read 0x00c \<noteq> 0x554d4551
     then panic ''could not find virtio disk'' else
     if mmio_read 0x034 = 0 then panic ''virtio disk has no queue 0'' else
     if mmio_read 0x034 < 8 then panic ''virtio disk max queue too short'' else
     seqM (set_disk (\<lambda>d. d\<lparr>dk_desc := (\<lambda>_. zero_desc), dk_avail_idx := 0, dk_avail_ring := (\<lambda>_. 0),
             dk_dev_used_idx := 0, dk_used_ring := (\<lambda>_. 0), dk_seen := 0\<rparr>))
          (forM [0..<NUM] (\<lambda>i. set_disk (\<lambda>d. d\<lparr>dk_free := (dk_free d)(i := True)\<rparr>))))"

subsection \<open>Descriptors\<close>

definition alloc_desc :: "nat option K" where
  "alloc_desc = searchM [0..<NUM] (\<lambda>i.
     bindM (get_disk (\<lambda>d. dk_free d i)) (\<lambda>f.
     if f then seqM (set_disk (\<lambda>d. d\<lparr>dk_free := (dk_free d)(i := False)\<rparr>)) (returnM (Some i))
     else returnM None))"

definition free_desc :: "nat \<Rightarrow> unit K" where
  "free_desc i =
     (if i \<ge> NUM then panic ''free_desc 1'' else
      bindM (get_disk (\<lambda>d. dk_free d i)) (\<lambda>f.
      if f then panic ''free_desc 2'' else
      seqM (set_desc i (\<lambda>_. zero_desc)) (
      seqM (set_disk (\<lambda>d. d\<lparr>dk_free := (dk_free d)(i := True)\<rparr>))
           (wakeup ChanDiskFree))))"

text \<open>A chain has at most \<open>NUM\<close> descriptors: freeing one twice panics.\<close>

primrec free_chain_from :: "nat \<Rightarrow> nat \<Rightarrow> unit K" where
  "free_chain_from 0 i = panic ''free_desc 2''"
| "free_chain_from (Suc k) i =
     bindM (get_disk (\<lambda>d. dk_desc d i)) (\<lambda>e.
     seqM (free_desc i)
          (if d_flags e AND VRING_DESC_F_NEXT \<noteq> 0 then free_chain_from k (unat (d_next e)) else returnM ()))"

definition free_chain :: "nat \<Rightarrow> unit K" where
  "free_chain i = free_chain_from (Suc NUM) i"

text \<open>\<^term>\<open>None\<close> is the result -1.\<close>

definition alloc3_desc :: "(nat \<times> nat \<times> nat) option K" where
  "alloc3_desc =
     bindM alloc_desc (\<lambda>r0. case r0 of None \<Rightarrow> returnM None | Some i0 \<Rightarrow>
     bindM alloc_desc (\<lambda>r1. case r1 of None \<Rightarrow> seqM (free_desc i0) (returnM None) | Some i1 \<Rightarrow>
     bindM alloc_desc (\<lambda>r2. case r2 of None \<Rightarrow> seqM (free_desc i0) (seqM (free_desc i1) (returnM None))
       | Some i2 \<Rightarrow> returnM (Some (i0, i1, i2)))))"

subsection \<open>The device\<close>

definition block_at :: "(nat \<Rightarrow> u8) \<Rightarrow> nat \<Rightarrow> u8 list" where
  "block_at img n = map (\<lambda>i. img (BSIZE * n + i)) [0..<BSIZE]"

definition image_put :: "nat \<Rightarrow> u8 list \<Rightarrow> (nat \<Rightarrow> u8) \<Rightarrow> nat \<Rightarrow> u8" where
  "image_put a bs img = (\<lambda>i. if a \<le> i \<and> i < a + length bs then bs ! (i - a) else img i)"

definition image_get :: "nat \<Rightarrow> nat \<Rightarrow> (nat \<Rightarrow> u8) \<Rightarrow> u8 list" where
  "image_get a n img = map (\<lambda>i. img (a + i)) [0..<n]"

text \<open>
  The device takes the next chain of the available ring: a command header, the data and a status
  byte. A write to the disk is atomic; it does not happen when the power has failed.
\<close>

definition device_transfer :: "virtio_blk_req \<Rightarrow> virtq_desc \<Rightarrow> unit K" where
  "device_transfer rq e =
     (case d_addr e of
        DData b \<Rightarrow>
          if rq_type rq = VIRTIO_BLK_T_OUT then
            bindM (gets dpower) (\<lambda>pw.
            if pw = Some 0 then stopM (Fault ''power failure'') else
            seqM (modify (\<lambda>s. s\<lparr>dpower := map_option (\<lambda>n. n - 1) pw\<rparr>))
                 (modify (\<lambda>s. s\<lparr>dimage := image_put (512 * unat (rq_sector rq))
                    (take (unat (d_len e)) (b_data (bufs s b))) (dimage s)\<rparr>)))
          else
            modify (\<lambda>s. s\<lparr>bufs := (bufs s)(b := (bufs s b)
              \<lparr>b_data := image_get (512 * unat (rq_sector rq)) (unat (d_len e)) (dimage s)\<rparr>)\<rparr>)
      | _ \<Rightarrow> stopM (Fault ''device''))"

definition device_status :: "virtq_desc \<Rightarrow> unit K" where
  "device_status e =
     (case d_addr e of DStatus i \<Rightarrow> set_disk (\<lambda>d. d\<lparr>dk_info_status := (dk_info_status d)(i := 0)\<rparr>)
      | _ \<Rightarrow> stopM (Fault ''device''))"

definition device_serve :: "unit K" where
  "device_serve =
     bindM (gets vdisk) (\<lambda>d.
     if dk_seen d = dk_avail_idx d then returnM () else
     let hd = dk_avail_ring d (unat (dk_seen d mod 8));
         e0 = dk_desc d (unat hd); e1 = dk_desc d (unat (d_next e0)); e2 = dk_desc d (unat (d_next e1))
     in case d_addr e0 of
          DOps k \<Rightarrow>
            seqM (device_transfer (dk_ops d k) e1) (
            seqM (device_status e2)
                 (set_disk (\<lambda>d. d\<lparr>dk_seen := dk_seen d + 1,
                   dk_used_ring := (dk_used_ring d)(unat (dk_dev_used_idx d mod 8) := ucast hd),
                   dk_dev_used_idx := dk_dev_used_idx d + 1\<rparr>)))
        | _ \<Rightarrow> stopM (Fault ''device''))"

subsection \<open>The interrupt handler\<close>

text \<open>The loop runs until the driver's index has reached the device's.\<close>

definition virtio_intr_step :: "unit K" where
  "virtio_intr_step =
     bindM (gets vdisk) (\<lambda>d.
     let i = unat (dk_used_ring d (unat (dk_used_idx d mod 8))) in
     if dk_info_status d i \<noteq> 0 then panic ''virtio_disk_intr status'' else
     case dk_info_b d i of None \<Rightarrow> stopM (Fault ''null buf'') | Some b \<Rightarrow>
       seqM (set_buf b (\<lambda>c. c\<lparr>b_disk := False\<rparr>)) (
       seqM (wakeup (ChanBuf b))
            (set_disk (\<lambda>d. d\<lparr>dk_used_idx := dk_used_idx d + 1\<rparr>))))"

definition virtio_disk_intr :: "unit K" where
  "virtio_disk_intr =
     seqM (acquire VdiskLock) (
     bindM (get_disk (\<lambda>d. unat (dk_dev_used_idx d - dk_used_idx d))) (\<lambda>k.
     seqM (forM [0..<k] (\<lambda>_. virtio_intr_step))
          (release VdiskLock)))"

subsection \<open>A request\<close>

definition virtio_format :: "nat \<Rightarrow> bool \<Rightarrow> nat \<times> nat \<times> nat \<Rightarrow> unit K" where
  "virtio_format b wr idx = (case idx of (i0, i1, i2) \<Rightarrow>
     bindM (get_buf b b_blockno) (\<lambda>bno.
     seqM (set_disk (\<lambda>d. d\<lparr>dk_ops := (dk_ops d)(i0 :=
             \<lparr>rq_type = (if wr then VIRTIO_BLK_T_OUT else VIRTIO_BLK_T_IN), rq_reserved = 0,
              rq_sector = ucast (bno * 2)\<rparr>)\<rparr>)) (
     seqM (set_desc i0 (\<lambda>_. \<lparr>d_addr = DOps i0, d_len = 16, d_flags = VRING_DESC_F_NEXT, d_next = of_nat i1\<rparr>)) (
     seqM (set_desc i1 (\<lambda>_. \<lparr>d_addr = DData b, d_len = 1024,
             d_flags = (if wr then 0 else VRING_DESC_F_WRITE) OR VRING_DESC_F_NEXT, d_next = of_nat i2\<rparr>)) (
     seqM (set_disk (\<lambda>d. d\<lparr>dk_info_status := (dk_info_status d)(i0 := 0xff)\<rparr>)) (
     seqM (set_desc i2 (\<lambda>_. \<lparr>d_addr = DStatus i0, d_len = 1, d_flags = VRING_DESC_F_WRITE, d_next = 0\<rparr>)) (
     seqM (set_buf b (\<lambda>c. c\<lparr>b_disk := True\<rparr>)) (
     seqM (set_disk (\<lambda>d. d\<lparr>dk_info_b := (dk_info_b d)(i0 := Some b)\<rparr>)) (
     seqM (set_disk (\<lambda>d. d\<lparr>dk_avail_ring := (dk_avail_ring d)(unat (dk_avail_idx d mod 8) := of_nat i0)\<rparr>))
          (set_disk (\<lambda>d. d\<lparr>dk_avail_idx := dk_avail_idx d + 1\<rparr>)))))))))))"

text \<open>
  The wait for the interrupt, with the lock given up meanwhile. The sleep and the wakeup by the handler are run in one piece: the device serves
  what is available and the handler runs; a request that is then still not done leaves the process asleep.
\<close>

definition virtio_wait :: "nat \<Rightarrow> unit K" where
  "virtio_wait b =
     bindM (get_buf b b_disk) (\<lambda>busy.
     if \<not> busy then returnM () else
     seqM (release VdiskLock) (
     seqM device_serve (
     seqM virtio_disk_intr (
     seqM (acquire VdiskLock) (
     bindM (get_buf b b_disk) (\<lambda>busy. if busy then sleep (ChanBuf b) VdiskLock else returnM ()))))))"

definition virtio_disk_rw :: "nat \<Rightarrow> bool \<Rightarrow> unit K" where
  "virtio_disk_rw b wr =
     seqM (acquire VdiskLock) (
     bindM alloc3_desc (\<lambda>r.
     case r of None \<Rightarrow> sleep ChanDiskFree VdiskLock | Some idx \<Rightarrow>
       seqM (virtio_format b wr idx) (
       seqM (virtio_wait b) (
       seqM (set_disk (\<lambda>d. d\<lparr>dk_info_b := (dk_info_b d)(fst idx := None)\<rparr>)) (
       seqM (free_chain (fst idx))
            (release VdiskLock))))))"

subsection \<open>One request at a time\<close>

text \<open>Between requests all descriptors are free and both rings are drained.\<close>

definition vd_ready :: "vdisk \<Rightarrow> bool" where
  "vd_ready d \<longleftrightarrow> (\<forall>i<NUM. dk_free d i) \<and> dk_used_idx d = dk_dev_used_idx d \<and> dk_seen d = dk_avail_idx d"

lemma alloc_desc_first:
  assumes "k < NUM" "dk_free (vdisk s) k" "\<forall>i<k. \<not> dk_free (vdisk s) i"
  shows "alloc_desc s = Ret (Some k) (s\<lparr>vdisk := (vdisk s)\<lparr>dk_free := (dk_free (vdisk s))(k := False)\<rparr>\<rparr>)"
proof -
  let ?body = "\<lambda>i. bindM (get_disk (\<lambda>d. dk_free d i)) (\<lambda>f.
     if f then seqM (set_disk (\<lambda>d. d\<lparr>dk_free := (dk_free d)(i := False)\<rparr>)) (returnM (Some i))
     else returnM None)"
  have "searchM (xs @ ys) ?body s = searchM ys ?body s" if "\<forall>i \<in> set xs. \<not> dk_free (vdisk s) i" for xs ys
    using that by (induction xs) simp_all
  from this [of "[0..<k]" "[k..<NUM]"] have "alloc_desc s = searchM [k..<NUM] ?body s"
    using assms(1,3) upt_add_eq_append [of 0 k "NUM - k"] by (simp add: alloc_desc_def)
  also have "[k..<NUM] = k # [Suc k..<NUM]" using assms(1) by (rule upt_conv_Cons)
  finally show ?thesis using assms(2) by simp
qed

lemma alloc3_desc_ready:
  assumes "vd_ready (vdisk s)"
  shows "alloc3_desc s = Ret (Some (0, 1, 2))
    (s\<lparr>vdisk := (vdisk s)\<lparr>dk_free := (dk_free (vdisk s))(0 := False, 1 := False, 2 := False)\<rparr>\<rparr>)"
proof -
  have f: "dk_free (vdisk s) 0" "dk_free (vdisk s) 1" "dk_free (vdisk s) 2"
    using assms by (simp_all add: vd_ready_def)
  let ?s1 = "s\<lparr>vdisk := (vdisk s)\<lparr>dk_free := (dk_free (vdisk s))(0 := False)\<rparr>\<rparr>"
  let ?s2 = "s\<lparr>vdisk := (vdisk s)\<lparr>dk_free := (dk_free (vdisk s))(0 := False, 1 := False)\<rparr>\<rparr>"
  have "alloc_desc s = Ret (Some 0) ?s1" using f alloc_desc_first [of 0 s] by simp
  moreover have "alloc_desc ?s1 = Ret (Some 1) ?s2" using f alloc_desc_first [of 1 ?s1] by simp
  moreover have "alloc_desc ?s2 = Ret (Some 2)
      (s\<lparr>vdisk := (vdisk s)\<lparr>dk_free := (dk_free (vdisk s))(0 := False, 1 := False, 2 := False)\<rparr>\<rparr>)"
    using f alloc_desc_first [of 2 ?s2] by (simp add: less_2_cases_iff)
  ultimately show ?thesis by (simp add: alloc3_desc_def)
qed

lemma free_desc_run:
  assumes "held VdiskLock s" "i < NUM" "\<not> dk_free (vdisk s) i"
  shows "\<exists>pr. free_desc i s = Ret () (s\<lparr>vdisk := (vdisk s)\<lparr>dk_desc := (dk_desc (vdisk s))(i := zero_desc),
      dk_free := (dk_free (vdisk s))(i := True)\<rparr>, procs := pr\<rparr>) \<and> wokep s pr"
proof -
  let ?t = "s\<lparr>vdisk := (vdisk s)\<lparr>dk_desc := (dk_desc (vdisk s))(i := zero_desc),
      dk_free := (dk_free (vdisk s))(i := True)\<rparr>\<rparr>"
  obtain pr where "wakeup ChanDiskFree ?t = Ret () (?t\<lparr>procs := pr\<rparr>)" "wokep ?t pr"
    using wakeup_cs [of VdiskLock ?t ChanDiskFree] assms(1) by auto
  moreover have "wokep ?t pr = wokep s pr" by (rule wokep_cong) simp_all
  ultimately show ?thesis using assms(2,3) by (auto simp: free_desc_def set_desc_def)
qed

text \<open>Where the block of a buffer lies in the image.\<close>

definition disk_pos :: "u32 \<Rightarrow> nat" where
  "disk_pos bno = 512 * unat (ucast (bno * 2) :: u64)"

lemma disk_pos_block: "unat bno < 2 ^ 31 \<Longrightarrow> disk_pos bno = BSIZE * unat bno"
proof -
  assume "unat bno < 2 ^ 31"
  then have "unat (bno * 2) = unat bno * 2" by (subst unat_word_ariths(2)) simp
  moreover have "unat (bno * 2) < 2 ^ LENGTH(32)" by (rule unsigned_less)
  then have "unat (ucast (bno * 2) :: u64) = unat (bno * 2)"
    by (simp add: unsigned_ucast_eq take_bit_nat_eq_self)
  ultimately show ?thesis by (simp add: disk_pos_def)
qed

text \<open>The rings after the driver has made the chain of descriptors 0, 1 and 2 available.\<close>

definition submitted :: "nat \<Rightarrow> bool \<Rightarrow> u32 \<Rightarrow> vdisk \<Rightarrow> vdisk" where
  "submitted b wr bno d = d\<lparr>
     dk_desc := (dk_desc d)
       (0 := \<lparr>d_addr = DOps 0, d_len = 16, d_flags = 1, d_next = 1\<rparr>,
        1 := \<lparr>d_addr = DData b, d_len = 1024, d_flags = (if wr then 0 else 2) OR 1, d_next = 2\<rparr>,
        2 := \<lparr>d_addr = DStatus 0, d_len = 1, d_flags = 2, d_next = 0\<rparr>),
     dk_free := (dk_free d)(0 := False, 1 := False, 2 := False),
     dk_ops := (dk_ops d)(0 := \<lparr>rq_type = (if wr then 1 else 0), rq_reserved = 0, rq_sector = ucast (bno * 2)\<rparr>),
     dk_info_status := (dk_info_status d)(0 := 0xff),
     dk_info_b := (dk_info_b d)(0 := Some b),
     dk_avail_ring := (dk_avail_ring d)(unat (dk_avail_idx d mod 8) := 0),
     dk_avail_idx := dk_avail_idx d + 1\<rparr>"

lemma virtio_format_run:
  assumes "vdisk s = d\<lparr>dk_free := (dk_free d)(0 := False, 1 := False, 2 := False)\<rparr>"
  shows "virtio_format b wr (0, 1, 2) s
    = Ret () (s\<lparr>vdisk := submitted b wr (b_blockno (bufs s b)) d, bufs := (bufs s)(b := (bufs s b)\<lparr>b_disk := True\<rparr>)\<rparr>)"
  using assms
  by (simp add: virtio_format_def set_desc_def submitted_def del: One_nat_def)

definition served :: "vdisk \<Rightarrow> vdisk" where
  "served d = d\<lparr>dk_info_status := (dk_info_status d)(0 := 0), dk_seen := dk_seen d + 1,
     dk_used_ring := (dk_used_ring d)(unat (dk_dev_used_idx d mod 8) := 0),
     dk_dev_used_idx := dk_dev_used_idx d + 1\<rparr>"

lemma device_serve_read:
  assumes "vdisk s = submitted b False bno d" "dk_seen d = dk_avail_idx d"
  shows "device_serve s = Ret () (s\<lparr>vdisk := served (vdisk s),
    bufs := (bufs s)(b := (bufs s b)\<lparr>b_data := image_get (disk_pos bno) BSIZE (dimage s)\<rparr>)\<rparr>)"
  using assms
  by (simp add: device_serve_def device_transfer_def device_status_def submitted_def served_def
      disk_pos_def)

lemma device_serve_write:
  assumes "vdisk s = submitted b True bno d" "dk_seen d = dk_avail_idx d" "dpower s \<noteq> Some 0"
    "length (b_data (bufs s b)) = BSIZE"
  shows "device_serve s = Ret () (s\<lparr>vdisk := served (vdisk s), dpower := map_option (\<lambda>n. n - 1) (dpower s),
    dimage := image_put (disk_pos bno) (b_data (bufs s b)) (dimage s)\<rparr>)"
  using assms
  by (simp add: device_serve_def device_transfer_def device_status_def submitted_def served_def
      disk_pos_def)

lemma device_serve_fails:
  assumes "vdisk s = submitted b True bno d" "dk_seen d = dk_avail_idx d" "dpower s = Some 0"
  shows "device_serve s = Stop (Fault ''power failure'') s"
  using assms
  by (simp add: device_serve_def device_transfer_def device_status_def submitted_def)

lemma virtio_intr_run:
  assumes "calm s" "dk_dev_used_idx (vdisk s) = dk_used_idx (vdisk s) + 1"
    "dk_used_ring (vdisk s) (unat (dk_used_idx (vdisk s) mod 8)) = 0"
    "dk_info_status (vdisk s) 0 = 0" "dk_info_b (vdisk s) 0 = Some b"
  shows "\<exists>pr. virtio_disk_intr s = Ret () (s\<lparr>vdisk := (vdisk s)\<lparr>dk_used_idx := dk_used_idx (vdisk s) + 1\<rparr>,
      bufs := (bufs s)(b := (bufs s b)\<lparr>b_disk := False\<rparr>), procs := pr\<rparr>) \<and> wokep s pr"
proof -
  let ?t = "(acq VdiskLock s)\<lparr>bufs := (bufs s)(b := (bufs s b)\<lparr>b_disk := False\<rparr>)\<rparr>"
  obtain pr where w: "wakeup (ChanBuf b) ?t = Ret () (?t\<lparr>procs := pr\<rparr>)" "wokep ?t pr"
    using wakeup_cs [of VdiskLock ?t "ChanBuf b"] assms(1) by auto
  have "wokep ?t pr = wokep s pr" by (rule wokep_cong) simp_all
  moreover have "unat (dk_dev_used_idx (vdisk s) - dk_used_idx (vdisk s)) = 1" using assms(2) by simp
  ultimately show ?thesis using w assms
    by (intro exI [of _ pr]) (simp add: virtio_disk_intr_def virtio_intr_step_def acquire_calm release_held Let_def)
qed

lemma vd_ready_submitted:
  "vd_ready d \<Longrightarrow> dk_seen d = dk_avail_idx d" "vd_ready d \<Longrightarrow> dk_used_idx d = dk_dev_used_idx d"
  by (simp_all add: vd_ready_def)

text \<open>What the interrupt handler finds when the device has served the chain.\<close>

lemma served_intr:
  assumes "vd_ready d" "d' = served (submitted b wr bno d)"
  shows "dk_dev_used_idx d' = dk_used_idx d' + 1" "dk_used_ring d' (unat (dk_used_idx d' mod 8)) = 0"
    "dk_info_status d' 0 = 0" "dk_info_b d' 0 = Some b"
  using assms by (simp_all add: served_def submitted_def vd_ready_def)

lemma free_chain_run:
  assumes "held VdiskLock s" "vd_ready d"
    "vdisk s = (served (submitted b wr bno d))\<lparr>dk_used_idx := k, dk_info_b := ib\<rparr>" "k = dk_used_idx d + 1"
  shows "\<exists>pr v. free_chain 0 s = Ret () (s\<lparr>vdisk := v, procs := pr\<rparr>) \<and> wokep s pr \<and> vd_ready v"
proof -
  define v0 where "v0 = vdisk s"
  define v1 where "v1 = v0\<lparr>dk_desc := (dk_desc v0)(0 := zero_desc), dk_free := (dk_free v0)(0 := True)\<rparr>"
  define v2 where "v2 = v1\<lparr>dk_desc := (dk_desc v1)(1 := zero_desc), dk_free := (dk_free v1)(1 := True)\<rparr>"
  define v3 where "v3 = v2\<lparr>dk_desc := (dk_desc v2)(2 := zero_desc), dk_free := (dk_free v2)(2 := True)\<rparr>"
  have d: "dk_free v0 = (dk_free d)(0 := False, 1 := False, 2 := False)"
      "d_flags (dk_desc v0 0) = 1" "d_next (dk_desc v0 0) = 1" "d_flags (dk_desc v1 1) AND 1 \<noteq> 0"
      "d_next (dk_desc v1 1) = 2" "d_flags (dk_desc v2 2) = 2"
    using assms(3) by (simp_all add: v0_def v1_def v2_def served_def submitted_def)
  obtain p1 where p1: "free_desc 0 s = Ret () (s\<lparr>vdisk := v1, procs := p1\<rparr>)" "wokep s p1"
    using free_desc_run [OF assms(1), of 0] d(1) by (auto simp: v1_def v0_def)
  obtain p2 where p2: "free_desc 1 (s\<lparr>vdisk := v1, procs := p1\<rparr>) = Ret () (s\<lparr>vdisk := v2, procs := p2\<rparr>)"
      "wokep (s\<lparr>vdisk := v1, procs := p1\<rparr>) p2"
    using free_desc_run [of "s\<lparr>vdisk := v1, procs := p1\<rparr>" 1] assms(1) d(1) by (auto simp: v1_def v2_def)
  obtain p3 where p3: "free_desc 2 (s\<lparr>vdisk := v2, procs := p2\<rparr>) = Ret () (s\<lparr>vdisk := v3, procs := p3\<rparr>)"
      "wokep (s\<lparr>vdisk := v2, procs := p2\<rparr>) p3"
    using free_desc_run [of "s\<lparr>vdisk := v2, procs := p2\<rparr>" 2] assms(1) d(1) by (auto simp: v1_def v2_def v3_def)
  have "free_chain_from (Suc (Suc (Suc k))) 0 s = Ret () (s\<lparr>vdisk := v3, procs := p3\<rparr>)" for k
    using p1(1) p2(1) p3(1) d by (simp add: v0_def del: One_nat_def)
  from this [of 6] have "free_chain_from 9 0 s = Ret () (s\<lparr>vdisk := v3, procs := p3\<rparr>)" by simp
  moreover have "wokep s p3"
  proof -
    have "wokep (s\<lparr>procs := p1\<rparr>) p2" "wokep (s\<lparr>procs := p2\<rparr>) p3"
      using p2(2) p3(2) by (simp_all add: wokep_def)
    then show ?thesis using p1(2) wokep_trans by blast
  qed
  moreover have "vd_ready v3"
    using assms(2,4) assms(3) [folded v0_def] d(1)
    by (auto simp: v3_def v2_def v1_def vd_ready_def served_def submitted_def)
  ultimately show ?thesis by (auto simp: free_chain_def)
qed

text \<open>The effect of a request on the buffer and on the disk.\<close>

definition transferred :: "nat \<Rightarrow> bool \<Rightarrow> kern \<Rightarrow> kern" where
  "transferred b wr s =
     (if wr then s\<lparr>dpower := map_option (\<lambda>n. n - 1) (dpower s),
        dimage := image_put (disk_pos (b_blockno (bufs s b))) (b_data (bufs s b)) (dimage s)\<rparr>
      else s\<lparr>bufs := (bufs s)(b := (bufs s b)
        \<lparr>b_data := image_get (disk_pos (b_blockno (bufs s b))) BSIZE (dimage s)\<rparr>)\<rparr>)"

lemma virtio_submit:
  assumes "calm s" "vd_ready (vdisk s)"
  shows "virtio_disk_rw b wr s =
    seqM (virtio_wait b) (
    seqM (set_disk (\<lambda>d. d\<lparr>dk_info_b := (dk_info_b d)(0 := None)\<rparr>)) (
    seqM (free_chain 0) (release VdiskLock)))
    ((acq VdiskLock s)\<lparr>vdisk := submitted b wr (b_blockno (bufs s b)) (vdisk s),
       bufs := (bufs s)(b := (bufs s b)\<lparr>b_disk := True\<rparr>)\<rparr>)"
  using assms
  by (simp add: virtio_disk_rw_def acquire_calm alloc3_desc_ready virtio_format_run del: One_nat_def)

lemma virtio_disk_rw_run:
  assumes "calm s" "vd_ready (vdisk s)"
    "wr \<Longrightarrow> dpower s \<noteq> Some 0 \<and> length (b_data (bufs s b)) = BSIZE"
  shows "\<exists>pr v. virtio_disk_rw b wr s = Ret () ((transferred b wr s)
      \<lparr>bufs := (bufs (transferred b wr s))(b := (bufs (transferred b wr s) b)\<lparr>b_disk := False\<rparr>), procs := pr, vdisk := v\<rparr>)
    \<and> wokep s pr \<and> vd_ready v"
proof -
  define bno where "bno = b_blockno (bufs s b)"
  define d1 where "d1 = submitted b wr bno (vdisk s)"
  define s1 where "s1 = s\<lparr>vdisk := d1, bufs := (bufs s)(b := (bufs s b)\<lparr>b_disk := True\<rparr>)\<rparr>"
  define s2 where "s2 = (transferred b wr s1)\<lparr>vdisk := served d1\<rparr>"
  have c1: "calm s1" "calm s2" using assms(1) by (simp_all add: s1_def s2_def transferred_def)
  have serve: "device_serve s1 = Ret () s2"
    using device_serve_read [of s1 b bno "vdisk s"] device_serve_write [of s1 b bno "vdisk s"]
      vd_ready_submitted(1) [OF assms(2)] assms(3)
    by (cases wr) (simp_all add: s2_def s1_def d1_def transferred_def bno_def)
  obtain p1 where intr: "virtio_disk_intr s2 = Ret () (s2\<lparr>vdisk := (vdisk s2)\<lparr>dk_used_idx := dk_used_idx (vdisk s2) + 1\<rparr>,
      bufs := (bufs s2)(b := (bufs s2 b)\<lparr>b_disk := False\<rparr>), procs := p1\<rparr>)" "wokep s2 p1"
    using virtio_intr_run [OF c1(2)] served_intr [OF assms(2), of "vdisk s2" b wr bno]
    by (auto simp: s2_def d1_def)
  define s3 where "s3 = s2\<lparr>vdisk := (vdisk s2)\<lparr>dk_used_idx := dk_used_idx (vdisk s2) + 1\<rparr>,
      bufs := (bufs s2)(b := (bufs s2 b)\<lparr>b_disk := False\<rparr>), procs := p1\<rparr>"
  have c3: "calm s3" using c1(2) by (simp add: s3_def)
  have b3: "\<not> b_disk (bufs s3 b)" "dk_used_idx (vdisk s2) = dk_used_idx (vdisk s)"
    by (simp_all add: s3_def s2_def d1_def submitted_def served_def)
  have wait: "virtio_wait b (acq VdiskLock s1) = Ret () (acq VdiskLock s3)"
    using c1(1) c3 serve intr(1) b3(1)
    by (simp add: virtio_wait_def release_held acquire_calm s3_def [symmetric])
       (simp add: s1_def)
  define s4 where "s4 = (acq VdiskLock s3)\<lparr>vdisk := (vdisk s3)\<lparr>dk_info_b := (dk_info_b (vdisk s3))(0 := None)\<rparr>\<rparr>"
  obtain p2 v where chain: "free_chain 0 s4 = Ret () (s4\<lparr>vdisk := v, procs := p2\<rparr>)" "wokep s4 p2" "vd_ready v"
  proof -
    have "vdisk s4 = (served (submitted b wr bno (vdisk s)))\<lparr>dk_used_idx := dk_used_idx (vdisk s) + 1,
        dk_info_b := (dk_info_b (vdisk s3))(0 := None)\<rparr>"
      using b3(2) by (simp add: s4_def s3_def s2_def d1_def)
    moreover have "held VdiskLock s4" using c3 by (simp add: s4_def)
    ultimately show ?thesis using that free_chain_run [OF _ assms(2)] by blast
  qed
  have fin: "virtio_disk_rw b wr s = Ret () (s3\<lparr>vdisk := v, procs := p2\<rparr>)"
  proof -
    have "virtio_disk_rw b wr s = seqM (virtio_wait b) (
      seqM (set_disk (\<lambda>d. d\<lparr>dk_info_b := (dk_info_b d)(0 := None)\<rparr>)) (
      seqM (free_chain 0) (release VdiskLock))) (acq VdiskLock s1)"
      using virtio_submit [OF assms(1,2), of b wr] by (simp add: s1_def d1_def bno_def)
    also have "\<dots> = seqM (free_chain 0) (release VdiskLock) s4"
      using wait by (simp add: s4_def)
    also have "\<dots> = Ret () (s3\<lparr>vdisk := v, procs := p2\<rparr>)"
      using chain(1) c3 by (simp add: release_held s4_def)
    finally show ?thesis .
  qed
  moreover have "wokep s p2"
  proof -
    have "wokep s p1" using intr(2) by (simp add: wokep_def s2_def s1_def transferred_def split: if_splits)
    moreover have "wokep (s\<lparr>procs := p1\<rparr>) p2"
      using chain(2) by (simp add: wokep_def s4_def s3_def s2_def s1_def transferred_def split: if_splits)
    ultimately show ?thesis by (rule wokep_trans)
  qed
  moreover have "s3\<lparr>vdisk := v, procs := p2\<rparr> = (transferred b wr s)
      \<lparr>bufs := (bufs (transferred b wr s))(b := (bufs (transferred b wr s) b)\<lparr>b_disk := False\<rparr>), procs := p2, vdisk := v\<rparr>"
    by (simp add: s3_def s2_def s1_def transferred_def)
  ultimately show ?thesis using chain(3) by auto
qed

lemma virtio_disk_rw_fails:
  assumes "calm s" "vd_ready (vdisk s)" "dpower s = Some 0"
  shows "\<exists>t. virtio_disk_rw b True s = Stop (Fault ''power failure'') t \<and> dimage t = dimage s"
proof -
  let ?s1 = "s\<lparr>vdisk := submitted b True (b_blockno (bufs s b)) (vdisk s),
     bufs := (bufs s)(b := (bufs s b)\<lparr>b_disk := True\<rparr>)\<rparr>"
  have "device_serve ?s1 = Stop (Fault ''power failure'') ?s1"
    using device_serve_fails [of ?s1 b "b_blockno (bufs s b)" "vdisk s"] vd_ready_submitted(1) [OF assms(2)] assms(3)
    by simp
  then show ?thesis
    using virtio_submit [OF assms(1,2), of b True] assms(1)
    by (simp add: virtio_wait_def release_held)
qed

subsection \<open>Blocks of the image\<close>

lemma length_block_at [simp]: "length (block_at img n) = BSIZE"
  by (simp add: block_at_def)

lemma image_get_block: "image_get (BSIZE * n) BSIZE img = block_at img n"
  by (simp add: image_get_def block_at_def)

lemma block_at_put:
  assumes "length bs = BSIZE"
  shows "block_at (image_put (BSIZE * n) bs img) m = (if m = n then bs else block_at img m)"
proof (rule nth_equalityI)
  show "length (block_at (image_put (BSIZE * n) bs img) m) = length (if m = n then bs else block_at img m)"
    using assms by simp
next
  fix i
  assume "i < length (block_at (image_put (BSIZE * n) bs img) m)"
  then have i: "i < BSIZE" by simp
  have "BSIZE * n \<le> BSIZE * m + i \<and> BSIZE * m + i < BSIZE * n + BSIZE \<longleftrightarrow> m = n" using i by linarith
  then show "block_at (image_put (BSIZE * n) bs img) m ! i = (if m = n then bs else block_at img m) ! i"
    using i assms by (simp add: block_at_def image_put_def)
qed

text \<open>
  C20: a request to the disk returns with the block transferred. A read fills the buffer with the
  block of its number and leaves the disk alone; a write stores the buffer in that block and in no
  other. Afterwards every descriptor is free and both rings are drained again.
\<close>

theorem virtio_transfers_block:
  assumes "calm s" "vd_ready (vdisk s)" "dpower s = None"
    "unat (b_blockno (bufs s b)) < 2 ^ 31" "length (b_data (bufs s b)) = BSIZE"
  shows "\<exists>t. virtio_disk_rw b wr s = Ret () t \<and> calm t \<and> vd_ready (vdisk t)
    \<and> bufs t = (bufs s)(b := (bufs s b)\<lparr>b_data :=
        (if wr then b_data (bufs s b) else block_at (dimage s) (unat (b_blockno (bufs s b)))), b_disk := False\<rparr>)
    \<and> (\<forall>n. block_at (dimage t) n =
        (if wr \<and> n = unat (b_blockno (bufs s b)) then b_data (bufs s b) else block_at (dimage s) n))"
proof -
  obtain pr v where "virtio_disk_rw b wr s = Ret () ((transferred b wr s)
      \<lparr>bufs := (bufs (transferred b wr s))(b := (bufs (transferred b wr s) b)\<lparr>b_disk := False\<rparr>), procs := pr, vdisk := v\<rparr>)"
    "vd_ready v"
    using virtio_disk_rw_run [OF assms(1,2), of wr b] assms(3,5) by auto
  then show ?thesis
    using assms(1,5)
    by (cases wr) (simp_all add: transferred_def disk_pos_block [OF assms(4)] image_get_block block_at_put)
qed

lemma vd_ready_blank [simp]: "vd_ready blank_disk"
  by (simp add: vd_ready_def blank_disk_def)

theorem virtio_transfers_block_witness:
  "\<exists>t. virtio_disk_rw 3 False booted = Ret () t \<and> b_data (bufs t 3) ! 5 = 5"
proof -
  have "length (b_data blank_buf) = BSIZE" "unat (b_blockno blank_buf) = 0" by (simp_all add: blank_buf_def)
  then have "\<exists>t. virtio_disk_rw 3 False booted = Ret () t \<and> b_data (bufs t 3) = block_at (\<lambda>a. of_nat a) 0"
    using virtio_transfers_block [of booted 3 False] by auto
  moreover have "block_at (\<lambda>a. of_nat a) 0 ! 5 = (5 :: u8)" by (simp add: block_at_def)
  ultimately show ?thesis by auto
qed

end
