(* ===== verification/Bio.thy ===== *)
theory Bio
  imports Virtio
begin

section \<open>The buffer cache (kernel/bio.c)\<close>

text \<open>
  The cache of disk blocks: 30 buffers on a doubly linked list in order of use, whose head is the
  extra buffer 30. The lemmas show that the pointer operations keep the list, that a cached block
  has one buffer, and that \<^verbatim>\<open>bread\<close> returns the current contents of a block in a locked buffer.
\<close>

abbreviation (input) NBUF :: nat where "NBUF \<equiv> 30"

subsection \<open>Definitions\<close>

definition binit :: "unit K" where
  "binit =
     seqM (initlock BcacheLock ''bcache'') (
     seqM (set_buf NBUF (\<lambda>h. h\<lparr>b_prev := NBUF\<rparr>)) (
     seqM (set_buf NBUF (\<lambda>h. h\<lparr>b_next := NBUF\<rparr>)) (
     forM [0..<NBUF] (\<lambda>b.
       bindM (get_buf NBUF b_next) (\<lambda>first.
       seqM (set_buf b (\<lambda>c. c\<lparr>b_next := first\<rparr>)) (
       seqM (set_buf b (\<lambda>c. c\<lparr>b_prev := NBUF\<rparr>)) (
       seqM (initsleeplock (BufLock b) ''buffer'') (
       bindM (get_buf NBUF b_next) (\<lambda>first.
       seqM (set_buf first (\<lambda>c. c\<lparr>b_prev := b\<rparr>))
            (set_buf NBUF (\<lambda>h. h\<lparr>b_next := b\<rparr>))))))))))) "

text \<open>
  The two loops of \<^verbatim>\<open>bget\<close> follow the list from the head to the head, which a list of at most
  30 buffers reaches within the fuel.
\<close>

primrec bget_find :: "nat \<Rightarrow> nat \<Rightarrow> u32 \<Rightarrow> u32 \<Rightarrow> nat option K" where
  "bget_find 0 b dev bno = stopM (Fault ''bcache list'')"
| "bget_find (Suc k) b dev bno =
     (if b = NBUF then returnM None else
      bindM (gets (\<lambda>s. bufs s b)) (\<lambda>c.
      if b_dev c = dev \<and> b_blockno c = bno then returnM (Some b)
      else bget_find k (b_next c) dev bno))"

primrec bget_victim :: "nat \<Rightarrow> nat \<Rightarrow> nat option K" where
  "bget_victim 0 b = stopM (Fault ''bcache list'')"
| "bget_victim (Suc k) b =
     (if b = NBUF then returnM None else
      bindM (gets (\<lambda>s. bufs s b)) (\<lambda>c.
      if b_refcnt c = 0 then returnM (Some b) else bget_victim k (b_prev c)))"

definition bget :: "u32 \<Rightarrow> u32 \<Rightarrow> nat K" where
  "bget dev bno =
     seqM (acquire BcacheLock) (
     bindM (get_buf NBUF b_next) (\<lambda>first.
     bindM (bget_find (Suc NBUF) first dev bno) (\<lambda>r.
     case r of
       Some b \<Rightarrow>
         seqM (set_buf b (\<lambda>c. c\<lparr>b_refcnt := b_refcnt c + 1\<rparr>)) (
         seqM (release BcacheLock) (
         seqM (acquiresleep (BufLock b)) (returnM b)))
     | None \<Rightarrow>
         bindM (get_buf NBUF b_prev) (\<lambda>last.
         bindM (bget_victim (Suc NBUF) last) (\<lambda>r.
         case r of
           Some b \<Rightarrow>
             seqM (set_buf b (\<lambda>c. c\<lparr>b_dev := dev, b_blockno := bno, b_valid := False, b_refcnt := 1\<rparr>)) (
             seqM (release BcacheLock) (
             seqM (acquiresleep (BufLock b)) (returnM b)))
         | None \<Rightarrow> panic ''bget: no buffers'')))))"

definition bread :: "u32 \<Rightarrow> u32 \<Rightarrow> nat K" where
  "bread dev bno =
     bindM (bget dev bno) (\<lambda>b.
     bindM (get_buf b b_valid) (\<lambda>v.
     seqM (whenM (\<not> v) (seqM (virtio_disk_rw b False) (set_buf b (\<lambda>c. c\<lparr>b_valid := True\<rparr>))))
          (returnM b)))"

definition bwrite :: "nat \<Rightarrow> unit K" where
  "bwrite b =
     bindM (holdingsleep (BufLock b)) (\<lambda>h.
     if \<not> h then panic ''bwrite'' else virtio_disk_rw b True)"

definition bmove_front :: "nat \<Rightarrow> unit K" where
  "bmove_front b =
     bindM (gets (\<lambda>s. bufs s b)) (\<lambda>c.
     seqM (set_buf (b_next c) (\<lambda>n. n\<lparr>b_prev := b_prev c\<rparr>)) (
     bindM (gets (\<lambda>s. bufs s b)) (\<lambda>c.
     seqM (set_buf (b_prev c) (\<lambda>p. p\<lparr>b_next := b_next c\<rparr>)) (
     bindM (get_buf NBUF b_next) (\<lambda>first.
     seqM (set_buf b (\<lambda>c. c\<lparr>b_next := first\<rparr>)) (
     seqM (set_buf b (\<lambda>c. c\<lparr>b_prev := NBUF\<rparr>)) (
     bindM (get_buf NBUF b_next) (\<lambda>first.
     seqM (set_buf first (\<lambda>c. c\<lparr>b_prev := b\<rparr>))
          (set_buf NBUF (\<lambda>h. h\<lparr>b_next := b\<rparr>))))))))))"

definition brelse :: "nat \<Rightarrow> unit K" where
  "brelse b =
     bindM (holdingsleep (BufLock b)) (\<lambda>h.
     if \<not> h then panic ''brelse'' else
     seqM (releasesleep (BufLock b)) (
     seqM (acquire BcacheLock) (
     seqM (set_buf b (\<lambda>c. c\<lparr>b_refcnt := b_refcnt c - 1\<rparr>)) (
     bindM (get_buf b b_refcnt) (\<lambda>r.
     seqM (whenM (r = 0) (bmove_front b))
          (release BcacheLock))))))"

definition bpin :: "nat \<Rightarrow> unit K" where
  "bpin b =
     seqM (acquire BcacheLock) (
     seqM (set_buf b (\<lambda>c. c\<lparr>b_refcnt := b_refcnt c + 1\<rparr>))
          (release BcacheLock))"

definition bunpin :: "nat \<Rightarrow> unit K" where
  "bunpin b =
     seqM (acquire BcacheLock) (
     seqM (set_buf b (\<lambda>c. c\<lparr>b_refcnt := b_refcnt c - 1\<rparr>))
          (release BcacheLock))"

subsection \<open>The list\<close>

primrec path_next :: "(nat \<Rightarrow> buf) \<Rightarrow> nat \<Rightarrow> nat list \<Rightarrow> nat \<Rightarrow> bool" where
  "path_next B a [] c \<longleftrightarrow> b_next (B a) = c"
| "path_next B a (x # xs) c \<longleftrightarrow> b_next (B a) = x \<and> path_next B x xs c"

primrec path_prev :: "(nat \<Rightarrow> buf) \<Rightarrow> nat \<Rightarrow> nat list \<Rightarrow> nat \<Rightarrow> bool" where
  "path_prev B a [] c \<longleftrightarrow> b_prev (B c) = a"
| "path_prev B a (x # xs) c \<longleftrightarrow> b_prev (B x) = a \<and> path_prev B x xs c"

definition lru :: "(nat \<Rightarrow> buf) \<Rightarrow> nat list \<Rightarrow> bool" where
  "lru B xs \<longleftrightarrow> path_next B NBUF xs NBUF \<and> path_prev B NBUF xs NBUF \<and> distinct xs \<and> set xs \<subseteq> {..<NBUF}"

lemma path_next_append: "path_next B a (xs @ y # ys) c \<longleftrightarrow> path_next B a xs y \<and> path_next B y ys c"
  by (induction xs arbitrary: a) auto

lemma path_prev_append: "path_prev B a (xs @ y # ys) c \<longleftrightarrow> path_prev B a xs y \<and> path_prev B y ys c"
  by (induction xs arbitrary: a) auto

lemma path_next_cong:
  "(\<And>x. x \<in> insert a (set xs) \<Longrightarrow> b_next (B' x) = b_next (B x)) \<Longrightarrow> path_next B' a xs c = path_next B a xs c"
  by (induction xs arbitrary: a) auto

lemma path_prev_cong:
  "(\<And>x. x \<in> insert c (set xs) \<Longrightarrow> b_prev (B' x) = b_prev (B x)) \<Longrightarrow> path_prev B' a xs c = path_prev B a xs c"
  by (induction xs arbitrary: a) auto

lemma path_next_last: "path_next B a xs c \<Longrightarrow> b_next (B (last (a # xs))) = c"
  by (induction xs arbitrary: a) auto

lemma path_prev_last: "path_prev B a xs c \<Longrightarrow> b_prev (B c) = last (a # xs)"
  by (induction xs arbitrary: a) auto

lemma lru_cong:
  assumes "\<And>x. x \<le> NBUF \<Longrightarrow> b_next (B' x) = b_next (B x) \<and> b_prev (B' x) = b_prev (B x)"
  shows "lru B' xs = lru B xs"
proof (cases "set xs \<subseteq> {..<NBUF}")
  case True
  then have "x \<le> NBUF" if "x \<in> insert NBUF (set xs)" for x using that by fastforce
  then have "path_next B' NBUF xs NBUF = path_next B NBUF xs NBUF"
    "path_prev B' NBUF xs NBUF = path_prev B NBUF xs NBUF"
    using assms by (auto intro!: path_next_cong path_prev_cong)
  then show ?thesis by (simp add: lru_def)
next
  case False
  then show ?thesis by (simp add: lru_def)
qed

lemma path_next_redirect:
  assumes "path_next B a xs b" "distinct (a # xs)" "b_next (B' (last (a # xs))) = c"
    "\<And>x. x \<in> set (a # xs) \<Longrightarrow> x \<noteq> last (a # xs) \<Longrightarrow> b_next (B' x) = b_next (B x)"
  shows "path_next B' a xs c"
  using assms
proof (induction xs arbitrary: a)
  case Nil
  then show ?case by simp
next
  case (Cons x xs)
  have "a \<noteq> last (x # xs)" using Cons.prems(2) by (metis distinct.simps(2) last_in_set list.distinct(1))
  then show ?case using Cons by auto
qed

text \<open>Unlinking a buffer, and linking one in behind the head.\<close>

definition unlink :: "nat \<Rightarrow> (nat \<Rightarrow> buf) \<Rightarrow> nat \<Rightarrow> buf" where
  "unlink b B =
     (let B1 = B(b_next (B b) := (B (b_next (B b)))\<lparr>b_prev := b_prev (B b)\<rparr>)
      in B1(b_prev (B1 b) := (B1 (b_prev (B1 b)))\<lparr>b_next := b_next (B1 b)\<rparr>))"

definition link_front :: "nat \<Rightarrow> (nat \<Rightarrow> buf) \<Rightarrow> nat \<Rightarrow> buf" where
  "link_front b B =
     (let B0 = B(b := (B b)\<lparr>b_next := b_next (B NBUF)\<rparr>);
          B1 = B0(b := (B0 b)\<lparr>b_prev := NBUF\<rparr>);
          B2 = B1(b_next (B1 NBUF) := (B1 (b_next (B1 NBUF)))\<lparr>b_prev := b\<rparr>)
      in B2(NBUF := (B2 NBUF)\<lparr>b_next := b\<rparr>))"

lemma lru_unlink:
  assumes "lru B (ys @ b # zs)"
  shows "lru (unlink b B) (ys @ zs)"
proof -
  define p where "p = last (NBUF # ys)"
  define n where "n = hd (zs @ [NBUF])"
  have d: "distinct (NBUF # ys @ b # zs)" "b < NBUF" "set (ys @ zs) \<subseteq> {..<NBUF}"
    using assms by (auto simp: lru_def)
  have nx: "path_next B NBUF ys b" "path_next B b zs NBUF" and pv: "path_prev B NBUF ys b" "path_prev B b zs NBUF"
    using assms by (simp_all add: lru_def path_next_append path_prev_append)
  have bp: "b_prev (B b) = p" using path_prev_last [OF pv(1)] by (simp add: p_def)
  have bn: "b_next (B b) = n" using nx(2) by (cases zs) (simp_all add: n_def)
  have p_in: "p \<in> set (NBUF # ys)" by (simp add: p_def)
  have n_in: "n \<in> set (zs @ [NBUF])" by (cases zs) (simp_all add: n_def)
  have ne: "n \<noteq> b" "p \<noteq> b" using d(1,2) p_in n_in by auto
  have u: "b_next (unlink b B x) = (if x = p then n else b_next (B x))"
    "b_prev (unlink b B x) = (if x = n then p else b_prev (B x))" for x
    using ne by (auto simp: unlink_def Let_def bp bn)
  have 1: "path_next (unlink b B) NBUF ys n"
    using d(1) by (intro path_next_redirect [OF nx(1)]) (auto simp: u p_def)
  have 2: "path_prev (unlink b B) NBUF ys c = path_prev B NBUF ys c" if "c \<noteq> n" "c = b" for c
    using d(1) n_in that by (intro path_prev_cong) (auto simp: u)
  have p_last: "path_prev (unlink b B) NBUF ys n"
  proof -
    have "path_prev B' NBUF xs c'" if "path_prev B' NBUF xs c" "b_prev (B' c') = last (NBUF # xs)" for B' xs c c'
    proof -
      have "path_prev B' a xs c'" if "path_prev B' a xs c" "b_prev (B' c') = last (a # xs)" for a
        using that by (induction xs arbitrary: a) auto
      then show ?thesis using that by blast
    qed
    moreover have "path_prev (unlink b B) NBUF ys b" using 2 [of b] pv(1) ne by auto
    ultimately show ?thesis by (simp add: u p_def)
  qed
  show ?thesis
  proof (cases zs)
    case Nil
    then show ?thesis using 1 p_last d by (auto simp: lru_def n_def)
  next
    case (Cons z zs')
    have "path_next (unlink b B) z zs' NBUF = path_next B z zs' NBUF"
      using d(1) p_in Cons by (intro path_next_cong) (auto simp: u)
    moreover have "path_prev (unlink b B) z zs' NBUF = path_prev B z zs' NBUF"
      using d(1) n_in Cons by (intro path_prev_cong) (auto simp: u n_def)
    ultimately show ?thesis
      using 1 p_last nx(2) pv(2) d Cons
      by (auto simp: lru_def n_def path_next_append path_prev_append)
  qed
qed

lemma lru_link_front:
  assumes "lru B xs" "b < NBUF" "b \<notin> set xs"
  shows "lru (link_front b B) (b # xs)"
proof -
  define n where "n = b_next (B NBUF)"
  have n: "n = hd (xs @ [NBUF])" using assms(1) by (cases xs) (auto simp: lru_def n_def)
  have "n \<noteq> b" using assms n by (cases xs) auto
  then have u: "b_next (link_front b B x) = (if x = NBUF then b else if x = b then n else b_next (B x))"
    "b_prev (link_front b B x) = (if x = n then b else if x = b then NBUF else b_prev (B x))" for x
    using assms(2) by (auto simp: link_front_def Let_def n_def)
  have d: "NBUF \<notin> set xs" "distinct xs" "set xs \<subseteq> {..<NBUF}" using assms(1) by (auto simp: lru_def)
  show ?thesis
  proof (cases xs)
    case Nil
    then show ?thesis using assms n by (auto simp: lru_def u)
  next
    case (Cons y ys)
    have "path_next (link_front b B) y ys NBUF = path_next B y ys NBUF"
      using d assms(3) Cons by (intro path_next_cong) (auto simp: u)
    moreover have "path_prev (link_front b B) y ys NBUF = path_prev B y ys NBUF"
      using d assms(2,3) n Cons by (intro path_prev_cong) (auto simp: u)
    ultimately show ?thesis using assms n d Cons by (auto simp: lru_def u)
  qed
qed

lemma bmove_front_run: "bmove_front b s = Ret () (s\<lparr>bufs := link_front b (unlink b (bufs s))\<rparr>)"
  by (simp add: bmove_front_def link_front_def unlink_def Let_def del: fun_upd_apply)

lemma bget_find_path:
  assumes "path_next (bufs s) a ys NBUF" "set ys \<subseteq> {..<NBUF}" "length ys < k"
  shows "bget_find k (b_next (bufs s a)) dev bno s
    = Ret (find (\<lambda>b. b_dev (bufs s b) = dev \<and> b_blockno (bufs s b) = bno) ys) s"
  using assms
proof (induction ys arbitrary: a k)
  case Nil
  then show ?case by (cases k) auto
next
  case (Cons y ys)
  then show ?case by (cases k) auto
qed

lemma bget_victim_path:
  assumes "path_prev (bufs s) NBUF ys c" "set ys \<subseteq> {..<NBUF}" "length ys < k"
  shows "bget_victim k (b_prev (bufs s c)) s = Ret (find (\<lambda>b. b_refcnt (bufs s b) = 0) (rev ys)) s"
  using assms
proof (induction ys arbitrary: c k rule: rev_induct)
  case Nil
  then show ?case by (cases k) auto
next
  case (snoc y ys)
  have "path_prev (bufs s) NBUF ys y" "b_prev (bufs s c) = y"
    using snoc.prems(1) path_prev_append [of "bufs s" NBUF ys y "[]" c] by simp_all
  then show ?case using snoc by (cases k) auto
qed

subsection \<open>The invariant of the cache\<close>

definition bcache_ok :: "(nat \<Rightarrow> buf) \<Rightarrow> bool" where
  "bcache_ok B \<longleftrightarrow> (\<exists>xs. lru B xs \<and> set xs = {..<NBUF})
     \<and> (\<forall>b<NBUF. length (b_data (B b)) = BSIZE \<and> unat (b_blockno (B b)) < 2 ^ 31
          \<and> (b_dev (B b) = 1 \<or> b_dev (B b) = 0 \<and> b_refcnt (B b) = 0))
     \<and> (\<forall>b<NBUF. \<forall>c<NBUF. b_dev (B b) = 1 \<and> b_dev (B c) = 1 \<and> b_blockno (B b) = b_blockno (B c) \<longrightarrow> b = c)"

text \<open>The buffer of a block of the root device.\<close>

definition slot_of :: "(nat \<Rightarrow> buf) \<Rightarrow> u32 \<Rightarrow> nat option" where
  "slot_of B bno = find (\<lambda>b. b_dev (B b) = 1 \<and> b_blockno (B b) = bno) [0..<NBUF]"

lemma find_SomeD: "find P xs = Some x \<Longrightarrow> x \<in> set xs \<and> P x"
  by (induction xs) (auto split: if_splits)

lemma find_unique:
  assumes "\<And>x y. x \<in> set xs \<Longrightarrow> y \<in> set xs \<Longrightarrow> P x \<Longrightarrow> P y \<Longrightarrow> x = y"
  shows "find P xs = Some x \<longleftrightarrow> x \<in> set xs \<and> P x"
  using assms
proof (induction xs)
  case Nil
  then show ?case by simp
next
  case (Cons a xs)
  have "find P xs = Some x \<longleftrightarrow> x \<in> set xs \<and> P x" using Cons by simp
  then show ?case using Cons.prems [of a x] by auto
qed

lemma slot_of_Some:
  assumes "bcache_ok B"
  shows "slot_of B bno = Some b \<longleftrightarrow> b < NBUF \<and> b_dev (B b) = 1 \<and> b_blockno (B b) = bno"
proof -
  have "x = y" if "x < NBUF" "y < NBUF" "b_dev (B x) = 1" "b_blockno (B x) = bno" "b_dev (B y) = 1" "b_blockno (B y) = bno"
    for x y
    using assms that unfolding bcache_ok_def by blast
  then show ?thesis unfolding slot_of_def by (subst find_unique) auto
qed

lemma slot_of_None:
  "slot_of B bno = None \<longleftrightarrow> (\<forall>b<NBUF. \<not> (b_dev (B b) = 1 \<and> b_blockno (B b) = bno))"
  by (auto simp: slot_of_def find_None_iff)

lemma bcache_okD:
  assumes "bcache_ok B" "b < NBUF"
  shows "length (b_data (B b)) = BSIZE" "unat (b_blockno (B b)) < 2 ^ 31"
    "b_dev (B b) = 1 \<or> b_dev (B b) = 0 \<and> b_refcnt (B b) = 0"
    "slot_of B (b_blockno (B b)) = Some b \<or> b_dev (B b) = 0"
  using assms slot_of_Some [OF assms(1)] by (auto simp: bcache_ok_def)

text \<open>A buffer given a block that no other buffer has.\<close>

lemma bcache_ok_put:
  assumes "bcache_ok B" "v < NBUF" "b_prev c = b_prev (B v)" "b_next c = b_next (B v)"
    "length (b_data c) = BSIZE" "b_dev c = 1" "unat (b_blockno c) < 2 ^ 31"
    "slot_of B (b_blockno c) = None \<or> slot_of B (b_blockno c) = Some v"
  shows "bcache_ok (B(v := c))"
    "slot_of (B(v := c)) n = (if n = b_blockno c then Some v else if slot_of B n = Some v then None else slot_of B n)"
proof -
  have other: "b_blockno (B b) \<noteq> b_blockno c" if "b < NBUF" "b \<noteq> v" "b_dev (B b) = 1" for b
  proof
    assume "b_blockno (B b) = b_blockno c"
    then have "slot_of B (b_blockno c) = Some b" using slot_of_Some [OF assms(1)] that by simp
    then show False using assms(8) that(2) by auto
  qed
  obtain xs where xs: "lru B xs" "set xs = {..<NBUF}" using assms(1) by (auto simp: bcache_ok_def)
  have "lru (B(v := c)) xs = lru B xs" by (rule lru_cong) (use assms(3,4) in auto)
  moreover have "length (b_data ((B(v := c)) b)) = BSIZE \<and> unat (b_blockno ((B(v := c)) b)) < 2 ^ 31
      \<and> (b_dev ((B(v := c)) b) = 1 \<or> b_dev ((B(v := c)) b) = 0 \<and> b_refcnt ((B(v := c)) b) = 0)" if "b < NBUF" for b
    using bcache_okD [OF assms(1) that] assms(5-7) by simp
  moreover have "b = d" if "b < NBUF" "d < NBUF" "b_dev ((B(v := c)) b) = 1" "b_dev ((B(v := c)) d) = 1"
      "b_blockno ((B(v := c)) b) = b_blockno ((B(v := c)) d)" for b d
  proof (cases "b = v \<or> d = v")
    case True
    then show ?thesis using that other [of b] other [of d] by (auto split: if_splits)
  next
    case False
    then have "slot_of B (b_blockno (B b)) = Some b" "slot_of B (b_blockno (B b)) = Some d"
      using that slot_of_Some [OF assms(1)] by auto
    then show ?thesis by simp
  qed
  ultimately show ok: "bcache_ok (B(v := c))"
    using xs unfolding bcache_ok_def by blast
  show "slot_of (B(v := c)) n = (if n = b_blockno c then Some v else if slot_of B n = Some v then None else slot_of B n)"
  proof (cases "n = b_blockno c")
    case True
    then show ?thesis using slot_of_Some [OF ok, of n v] assms by simp
  next
    case False
    show ?thesis
    proof (cases "slot_of B n")
      case None
      then show ?thesis using False slot_of_None [of B n] slot_of_None [of "B(v := c)" n] by auto
    next
      case (Some w)
      then have w: "w < NBUF" "b_dev (B w) = 1" "b_blockno (B w) = n" using slot_of_Some [OF assms(1)] by auto
      show ?thesis
      proof (cases "w = v")
        case True
        have "b = v" if "b < NBUF" "b_dev (B b) = 1" "b_blockno (B b) = n" for b
          using slot_of_Some [OF assms(1), of n b] that Some True by simp
        then show ?thesis using Some True False by (auto simp: slot_of_None)
      next
        case w_ne: False
        then show ?thesis using Some False w slot_of_Some [OF ok, of n w] by simp
      qed
    qed
  qed
qed

subsection \<open>The contents of blocks\<close>

text \<open>What a block holds, as the users of the cache see it, and how often its buffer is referenced.\<close>

definition content :: "kern \<Rightarrow> u32 \<Rightarrow> u8 list" where
  "content s bno = (case slot_of (bufs s) bno of
       Some b \<Rightarrow> if b_valid (bufs s b) then b_data (bufs s b) else block_at (dimage s) (unat bno)
     | None \<Rightarrow> block_at (dimage s) (unat bno))"

definition refs :: "kern \<Rightarrow> u32 \<Rightarrow> nat" where
  "refs s bno = (case slot_of (bufs s) bno of Some b \<Rightarrow> unat (b_refcnt (bufs s b)) | None \<Rightarrow> 0)"

text \<open>
  \<open>bio_inv H s\<close>: between routines, with the buffers \<open>H\<close> locked by the running process. A buffer
  that nobody references holds what the disk holds.
\<close>

definition bio_inv :: "nat set \<Rightarrow> kern \<Rightarrow> bool" where
  "bio_inv H s \<longleftrightarrow> calm s \<and> vd_ready (vdisk s) \<and> bcache_ok (bufs s) \<and> H \<subseteq> {..<NBUF}
     \<and> (\<forall>b<NBUF. sl_locked (slocks s (BufLock b)) = (if b \<in> H then 1 else 0))
     \<and> (\<forall>b \<in> H. sl_pid (slocks s (BufLock b)) = mypid s \<and> b_dev (bufs s b) = 1 \<and> b_valid (bufs s b)
          \<and> b_refcnt (bufs s b) \<noteq> 0)
     \<and> (\<forall>b<NBUF. b_dev (bufs s b) = 1 \<and> b_valid (bufs s b) \<and> b_refcnt (bufs s b) = 0
          \<longrightarrow> b_data (bufs s b) = block_at (dimage s) (unat (b_blockno (bufs s b))))"

text \<open>What the operations of the cache leave alone.\<close>

definition bio_frame :: "kern \<Rightarrow> kern \<Rightarrow> bool" where
  "bio_frame s t \<longleftrightarrow> t = s\<lparr>bufs := bufs t, slocks := slocks t, vdisk := vdisk t, procs := procs t,
       dimage := dimage t, dpower := dpower t\<rparr>
     \<and> wokep s (procs t) \<and> (\<forall>i. slocks t (InodeLock i) = slocks s (InodeLock i))
     \<and> (dpower s = None \<longrightarrow> dpower t = None)"

lemma bio_frame_refl [simp]: "bio_frame s s"
  by (simp add: bio_frame_def)

lemma bio_frame_cur: "bio_frame s t \<Longrightarrow> cur t = cur s"
  unfolding bio_frame_def by (metis calm_update)

lemma bio_frame_trans:
  assumes "bio_frame s t" "bio_frame t u"
  shows "bio_frame s u"
proof -
  have t: "t = s\<lparr>bufs := bufs t, slocks := slocks t, vdisk := vdisk t, procs := procs t,
       dimage := dimage t, dpower := dpower t\<rparr>" using assms(1) by (simp add: bio_frame_def)
  have u: "u = t\<lparr>bufs := bufs u, slocks := slocks u, vdisk := vdisk u, procs := procs u,
       dimage := dimage u, dpower := dpower u\<rparr>" using assms(2) by (simp add: bio_frame_def)
  have "u = s\<lparr>bufs := bufs u, slocks := slocks u, vdisk := vdisk u, procs := procs u,
       dimage := dimage u, dpower := dpower u\<rparr>" by (subst u, subst t) simp
  moreover have "wokep s (procs u)"
  proof -
    have "wokep (s\<lparr>procs := procs t\<rparr>) (procs u)"
      using assms(2) bio_frame_cur [OF assms(1)] by (simp add: bio_frame_def wokep_def)
    moreover have "wokep s (procs t)" using assms(1) by (simp add: bio_frame_def)
    ultimately show ?thesis by (rule wokep_trans [rotated])
  qed
  ultimately show ?thesis using assms by (simp add: bio_frame_def)
qed

lemma bio_frameD:
  assumes "bio_frame s t"
  shows "phys t = phys s" "klog t = klog s" "sb t = sb s" "itable t = itable s" "ftable t = ftable s"
    "pipes t = pipes s" "freelist t = freelist s" "mypid t = mypid s" "procs t (cur s) = procs s (cur s)"
    "slocks t (InodeLock i) = slocks s (InodeLock i)" "cons t = cons s" "uart t = uart s"
proof -
  have t: "t = s\<lparr>bufs := bufs t, slocks := slocks t, vdisk := vdisk t, procs := procs t,
       dimage := dimage t, dpower := dpower t\<rparr>" using assms by (simp add: bio_frame_def)
  show "phys t = phys s" "klog t = klog s" "sb t = sb s" "itable t = itable s" "ftable t = ftable s"
    "pipes t = pipes s" "freelist t = freelist s" "cons t = cons s" "uart t = uart s"
    by (subst t, simp)+
  show "slocks t (InodeLock i) = slocks s (InodeLock i)" using assms by (simp add: bio_frame_def)
  show p: "procs t (cur s) = procs s (cur s)" using assms wokep_me by (auto simp: bio_frame_def)
  show "mypid t = mypid s" using p bio_frame_cur [OF assms] by (simp add: mypid_def)
qed

lemma slot_of_block:
  "bcache_ok B \<Longrightarrow> b < NBUF \<Longrightarrow> b_dev (B b) = 1 \<Longrightarrow> slot_of B (b_blockno (B b)) = Some b"
  by (simp add: slot_of_Some)

subsection \<open>Getting a buffer\<close>

lemma bcache_find:
  assumes "bcache_ok (bufs s)"
  shows "bget_find 31 (b_next (bufs s NBUF)) 1 bno s = Ret (slot_of (bufs s) bno) s"
proof -
  obtain xs where xs: "lru (bufs s) xs" "set xs = {..<NBUF}" using assms by (auto simp: bcache_ok_def)
  have "length xs = card {..<NBUF}" using xs by (metis distinct_card lru_def)
  then have l: "length xs < 31" by simp
  let ?P = "\<lambda>b. b_dev (bufs s b) = 1 \<and> b_blockno (bufs s b) = bno"
  have "find ?P xs = slot_of (bufs s) bno"
  proof (cases "slot_of (bufs s) bno")
    case None
    then show ?thesis using xs(2) slot_of_None [of "bufs s" bno] by (auto simp: find_None_iff)
  next
    case (Some b)
    have "x = y" if "x \<in> set xs" "y \<in> set xs" "?P x" "?P y" for x y
      using slot_of_Some [OF assms, of bno x] slot_of_Some [OF assms, of bno y] that xs(2) by auto
    then have "find ?P xs = Some b \<longleftrightarrow> b \<in> set xs \<and> ?P b" by (rule find_unique)
    then show ?thesis using Some slot_of_Some [OF assms, of bno b] xs(2) by auto
  qed
  then show ?thesis
    using bget_find_path [of s NBUF xs 31 1 bno] xs l by (simp add: lru_def)
qed

lemma bcache_victim:
  assumes "bcache_ok (bufs s)" "\<exists>b<NBUF. b_refcnt (bufs s b) = 0"
  shows "\<exists>b<NBUF. b_refcnt (bufs s b) = 0 \<and> bget_victim 31 (b_prev (bufs s NBUF)) s = Ret (Some b) s"
proof -
  obtain xs where xs: "lru (bufs s) xs" "set xs = {..<NBUF}" using assms by (auto simp: bcache_ok_def)
  have "length xs = card {..<NBUF}" using xs by (metis distinct_card lru_def)
  then have l: "length xs < 31" by simp
  obtain b where b: "find (\<lambda>b. b_refcnt (bufs s b) = 0) (rev xs) = Some b"
    using assms(2) xs(2) by (cases "find (\<lambda>b. b_refcnt (bufs s b) = 0) (rev xs)") (auto simp: find_None_iff)
  from find_SomeD [OF b] have "b \<in> set xs" "b_refcnt (bufs s b) = 0" by simp_all
  then show ?thesis
    using bget_victim_path [of s xs NBUF 31] xs l b by (auto simp: lru_def)
qed

lemma bio_invD:
  assumes "bio_inv H s"
  shows "calm s" "vd_ready (vdisk s)" "bcache_ok (bufs s)" "H \<subseteq> {..<NBUF}"
    "b < NBUF \<Longrightarrow> b \<notin> H \<Longrightarrow> sl_locked (slocks s (BufLock b)) = 0"
    "b \<in> H \<Longrightarrow> sl_locked (slocks s (BufLock b)) = 1" "b \<in> H \<Longrightarrow> sl_pid (slocks s (BufLock b)) = mypid s"
    "b \<in> H \<Longrightarrow> b_dev (bufs s b) = 1" "b \<in> H \<Longrightarrow> b_valid (bufs s b)" "b \<in> H \<Longrightarrow> b_refcnt (bufs s b) \<noteq> 0"
    "b \<in> H \<Longrightarrow> b < NBUF"
  using assms by (auto simp: bio_inv_def)

text \<open>The state after a buffer has been handed out: \<open>c\<close> is the buffer's new record.\<close>

definition handed :: "nat \<Rightarrow> buf \<Rightarrow> kern \<Rightarrow> kern" where
  "handed b c s = s\<lparr>bufs := (bufs s)(b := c),
     slocks := (slocks s)(BufLock b := (slocks s (BufLock b))\<lparr>sl_locked := 1, sl_pid := mypid s\<rparr>)\<rparr>"

lemma handed_simps [simp]:
  "calm (handed b c s) = calm s" "vdisk (handed b c s) = vdisk s" "dpower (handed b c s) = dpower s"
  "dimage (handed b c s) = dimage s" "bufs (handed b c s) = (bufs s)(b := c)" "cur (handed b c s) = cur s"
  "procs (handed b c s) = procs s"
  by (simp_all add: handed_def)

lemma bget_hit:
  assumes "bio_inv H s" "slot_of (bufs s) bno = Some b" "b \<notin> H"
  shows "bget 1 bno s = Ret b (handed b ((bufs s b)\<lparr>b_refcnt := b_refcnt (bufs s b) + 1\<rparr>) s)"
proof -
  note d = bio_invD [OF assms(1)]
  have b: "b < NBUF" using assms(2) slot_of_Some [OF d(3)] by simp
  let ?s1 = "s\<lparr>bufs := (bufs s)(b := (bufs s b)\<lparr>b_refcnt := b_refcnt (bufs s b) + 1\<rparr>)\<rparr>"
  have "bget_find 31 (b_next (bufs s NBUF)) 1 bno (acq BcacheLock s) = Ret (Some b) (acq BcacheLock s)"
    using bcache_find [of "acq BcacheLock s" bno] d(3) assms(2) by simp
  moreover have "acquiresleep (BufLock b) ?s1 = Ret () (?s1\<lparr>slocks := (slocks ?s1)(BufLock b := (slocks ?s1 (BufLock b))
      \<lparr>sl_locked := 1, sl_pid := mypid ?s1\<rparr>)\<rparr>)"
    by (rule acquiresleep_free) (use d(1) d(5) [OF b assms(3)] in simp_all)
  moreover have "mypid ?s1 = mypid s" by (simp add: mypid_def)
  ultimately show ?thesis
    using d(1) by (simp add: bget_def acquire_calm release_held handed_def)
qed

lemma bget_miss:
  assumes "bio_inv H s" "slot_of (bufs s) bno = None" "\<exists>b<NBUF. b_refcnt (bufs s b) = 0"
  shows "\<exists>b<NBUF. b \<notin> H \<and> b_refcnt (bufs s b) = 0 \<and>
    bget 1 bno s = Ret b (handed b ((bufs s b)\<lparr>b_dev := 1, b_blockno := bno, b_valid := False, b_refcnt := 1\<rparr>) s)"
proof -
  note d = bio_invD [OF assms(1)]
  obtain b where b: "b < NBUF" "b_refcnt (bufs s b) = 0"
      "bget_victim 31 (b_prev (bufs s NBUF)) (acq BcacheLock s) = Ret (Some b) (acq BcacheLock s)"
    using bcache_victim [of "acq BcacheLock s"] d(3) assms(3) by auto
  have nh: "b \<notin> H" using d(10) [of b] b(2) by auto
  let ?s1 = "s\<lparr>bufs := (bufs s)(b := (bufs s b)\<lparr>b_dev := 1, b_blockno := bno, b_valid := False, b_refcnt := 1\<rparr>)\<rparr>"
  have "bget_find 31 (b_next (bufs s NBUF)) 1 bno (acq BcacheLock s) = Ret None (acq BcacheLock s)"
    using bcache_find [of "acq BcacheLock s" bno] d(3) assms(2) by simp
  moreover have "acquiresleep (BufLock b) ?s1 = Ret () (?s1\<lparr>slocks := (slocks ?s1)(BufLock b := (slocks ?s1 (BufLock b))
      \<lparr>sl_locked := 1, sl_pid := mypid ?s1\<rparr>)\<rparr>)"
    by (rule acquiresleep_free) (use d(1) d(5) [OF b(1) nh] in simp_all)
  moreover have "mypid ?s1 = mypid s" by (simp add: mypid_def)
  ultimately have "bget 1 bno s = Ret b (handed b ((bufs s b)\<lparr>b_dev := 1, b_blockno := bno, b_valid := False, b_refcnt := 1\<rparr>) s)"
    using d(1) b(3) by (simp add: bget_def acquire_calm release_held handed_def)
  then show ?thesis using b nh by blast
qed

text \<open>The record of a buffer that \<^verbatim>\<open>bread\<close> returns.\<close>

definition filled :: "u32 \<Rightarrow> bool \<Rightarrow> u32 \<Rightarrow> u8 list \<Rightarrow> buf \<Rightarrow> buf" where
  "filled bno dk r d c = c\<lparr>b_valid := True, b_disk := dk, b_dev := 1, b_blockno := bno, b_refcnt := r, b_data := d\<rparr>"

lemma fill_from_disk:
  assumes "calm s" "vd_ready (vdisk s)" "unat (b_blockno c) < 2 ^ 31" "\<not> b_valid c" "b_dev c = 1"
  shows "\<exists>pr v. seqM (virtio_disk_rw b False) (set_buf b (\<lambda>c. c\<lparr>b_valid := True\<rparr>)) (handed b c s)
     = Ret () ((handed b (filled (b_blockno c) False (b_refcnt c) (block_at (dimage s) (unat (b_blockno c))) c) s)\<lparr>procs := pr, vdisk := v\<rparr>)
    \<and> wokep s pr \<and> vd_ready v"
proof -
  obtain pr v where "virtio_disk_rw b False (handed b c s) = Ret () ((transferred b False (handed b c s))
      \<lparr>bufs := (bufs (transferred b False (handed b c s)))(b := (bufs (transferred b False (handed b c s)) b)\<lparr>b_disk := False\<rparr>),
       procs := pr, vdisk := v\<rparr>)" "wokep (handed b c s) pr" "vd_ready v"
    using virtio_disk_rw_run [of "handed b c s" False b] assms(1,2) by auto
  moreover have "wokep (handed b c s) pr = wokep s pr" by (rule wokep_cong) simp_all
  moreover have "filled (b_blockno c) False (b_refcnt c) d c = c\<lparr>b_data := d, b_disk := False, b_valid := True\<rparr>" for d
    using assms(5) by (simp add: filled_def)
  ultimately show ?thesis
    using disk_pos_block [OF assms(3)]
    by (intro exI [of _ pr] exI [of _ v]) (simp add: transferred_def image_get_block handed_def)
qed

lemma bread_run:
  assumes "bio_inv H s" "unat bno < 2 ^ 31" "\<forall>b \<in> H. b_blockno (bufs s b) \<noteq> bno"
    "slot_of (bufs s) bno = None \<Longrightarrow> \<exists>b<NBUF. b_refcnt (bufs s b) = 0"
  shows "\<exists>b dk pr v. b < NBUF \<and> b \<notin> H \<and> wokep s pr \<and> vd_ready v
    \<and> (slot_of (bufs s) bno = Some b \<or> slot_of (bufs s) bno = None \<and> b_refcnt (bufs s b) = 0)
    \<and> bread 1 bno s = Ret b ((handed b (filled bno dk (of_nat (Suc (refs s bno))) (content s bno) (bufs s b)) s)
        \<lparr>procs := pr, vdisk := v\<rparr>)"
proof (cases "slot_of (bufs s) bno")
  case (Some b)
  note d = bio_invD [OF assms(1)]
  have b: "b < NBUF" "b_dev (bufs s b) = 1" "b_blockno (bufs s b) = bno" using Some slot_of_Some [OF d(3)] by auto
  then have nh: "b \<notin> H" using assms(3) by auto
  let ?c = "(bufs s b)\<lparr>b_refcnt := b_refcnt (bufs s b) + 1\<rparr>"
  have g: "bget 1 bno s = Ret b (handed b ?c s)" using bget_hit [OF assms(1) Some nh] .
  have r: "of_nat (Suc (refs s bno)) = b_refcnt (bufs s b) + 1" by (simp add: refs_def Some)
  show ?thesis
  proof (cases "b_valid (bufs s b)")
    case True
    then have "filled bno (b_disk (bufs s b)) (of_nat (Suc (refs s bno))) (content s bno) (bufs s b) = ?c"
      using b r Some by (cases "bufs s b") (simp add: filled_def content_def)
    moreover have "bread 1 bno s = Ret b ((handed b ?c s)\<lparr>procs := procs s, vdisk := vdisk s\<rparr>)"
      using g True by (simp add: bread_def handed_def)
    ultimately show ?thesis using b nh d(2) Some wokep_refl by metis
  next
    case False
    have "content s bno = block_at (dimage s) (unat bno)" using Some False by (simp add: content_def)
    moreover obtain pr v where "seqM (virtio_disk_rw b False) (set_buf b (\<lambda>c. c\<lparr>b_valid := True\<rparr>)) (handed b ?c s)
       = Ret () ((handed b (filled bno False (b_refcnt ?c) (block_at (dimage s) (unat bno)) ?c) s)\<lparr>procs := pr, vdisk := v\<rparr>)"
       "wokep s pr" "vd_ready v"
      using fill_from_disk [OF d(1,2), of ?c b] False assms(2) b by auto
    moreover have "filled bno False (b_refcnt ?c) dd ?c = filled bno False (of_nat (Suc (refs s bno))) dd (bufs s b)" for dd
      using r by (simp add: filled_def)
    ultimately have "bread 1 bno s = Ret b ((handed b (filled bno False (of_nat (Suc (refs s bno))) (content s bno) (bufs s b)) s)
        \<lparr>procs := pr, vdisk := v\<rparr>)"
      using g False by (simp add: bread_def)
    then show ?thesis using b nh Some \<open>wokep s pr\<close> \<open>vd_ready v\<close> by blast
  qed
next
  case None
  note d = bio_invD [OF assms(1)]
  obtain b where b: "b < NBUF" "b \<notin> H" "b_refcnt (bufs s b) = 0"
    "bget 1 bno s = Ret b (handed b ((bufs s b)\<lparr>b_dev := 1, b_blockno := bno, b_valid := False, b_refcnt := 1\<rparr>) s)"
    using bget_miss [OF assms(1) None] assms(4) None by blast
  let ?c = "(bufs s b)\<lparr>b_dev := 1, b_blockno := bno, b_valid := False, b_refcnt := 1\<rparr>"
  have c: "content s bno = block_at (dimage s) (unat bno)" using None by (simp add: content_def)
  obtain pr v where f: "seqM (virtio_disk_rw b False) (set_buf b (\<lambda>c. c\<lparr>b_valid := True\<rparr>)) (handed b ?c s)
     = Ret () ((handed b (filled bno False 1 (block_at (dimage s) (unat bno)) ?c) s)\<lparr>procs := pr, vdisk := v\<rparr>)"
     "wokep s pr" "vd_ready v"
    using fill_from_disk [OF d(1,2), of ?c b] assms(2) by auto
  have "filled bno False 1 dd ?c = filled bno False (of_nat (Suc (refs s bno))) dd (bufs s b)" for dd
    using None by (simp add: filled_def refs_def)
  then have "bread 1 bno s = Ret b ((handed b (filled bno False (of_nat (Suc (refs s bno))) (content s bno) (bufs s b)) s)
      \<lparr>procs := pr, vdisk := v\<rparr>)"
    using b(4) f(1) c by (simp add: bread_def)
  then show ?thesis using b None f by blast
qed

lemma filled_simps [simp]:
  "b_valid (filled bno dk r d c)" "b_dev (filled bno dk r d c) = 1" "b_blockno (filled bno dk r d c) = bno"
  "b_refcnt (filled bno dk r d c) = r" "b_data (filled bno dk r d c) = d"
  "b_prev (filled bno dk r d c) = b_prev c" "b_next (filled bno dk r d c) = b_next c"
  by (simp_all add: filled_def)

lemma length_content:
  assumes "bcache_ok (bufs s)"
  shows "length (content s bno) = BSIZE"
  using slot_of_Some [OF assms, of bno] bcache_okD(1) [OF assms]
  by (auto simp: content_def split: option.splits)

lemma bio_inv_clean:
  "bio_inv H s \<Longrightarrow> b < NBUF \<Longrightarrow> b_dev (bufs s b) = 1 \<Longrightarrow> b_valid (bufs s b) \<Longrightarrow> b_refcnt (bufs s b) = 0
   \<Longrightarrow> b_data (bufs s b) = block_at (dimage s) (unat (b_blockno (bufs s b)))"
  by (simp add: bio_inv_def)

lemma bread_spec:
  assumes "bio_inv H s" "unat bno < 2 ^ 31" "\<forall>b \<in> H. b_blockno (bufs s b) \<noteq> bno"
    "slot_of (bufs s) bno = None \<Longrightarrow> \<exists>b<NBUF. b_refcnt (bufs s b) = 0" "refs s bno < 2 ^ 32 - 1"
  shows "\<exists>b t. bread 1 bno s = Ret b t \<and> b \<notin> H \<and> bio_inv (insert b H) t \<and> b_blockno (bufs t b) = bno
    \<and> b_data (bufs t b) = content s bno \<and> content t = content s \<and> refs t = (refs s)(bno := Suc (refs s bno))
    \<and> dimage t = dimage s \<and> dpower t = dpower s \<and> (\<forall>h \<in> H. bufs t h = bufs s h) \<and> bio_frame s t"
proof -
  note d = bio_invD [OF assms(1)]
  obtain b dk pr v where b: "b < NBUF" "b \<notin> H" "wokep s pr" "vd_ready v"
      "slot_of (bufs s) bno = Some b \<or> slot_of (bufs s) bno = None \<and> b_refcnt (bufs s b) = 0"
      "bread 1 bno s = Ret b ((handed b (filled bno dk (of_nat (Suc (refs s bno))) (content s bno) (bufs s b)) s)
        \<lparr>procs := pr, vdisk := v\<rparr>)"
    using bread_run [OF assms(1-4)] by blast
  define c where "c = filled bno dk (of_nat (Suc (refs s bno))) (content s bno) (bufs s b)"
  define t where "t = (handed b c s)\<lparr>procs := pr, vdisk := v\<rparr>"
  have bt: "bufs t = (bufs s)(b := c)" by (simp add: t_def)
  have fit: "slot_of (bufs s) (b_blockno c) = None \<or> slot_of (bufs s) (b_blockno c) = Some b"
    using b(5) by (auto simp: c_def)
  note put = bcache_ok_put [OF d(3) b(1), of c]
  have ok: "bcache_ok (bufs t)"
    using put(1) assms(2) length_content [OF d(3)] fit by (simp add: bt c_def)
  have sl: "slot_of (bufs t) n = (if n = bno then Some b else if slot_of (bufs s) n = Some b then None else slot_of (bufs s) n)" for n
    using put(2) [of n] assms(2) length_content [OF d(3)] fit by (simp add: bt c_def)
  have old: "b_refcnt (bufs s b) = 0 \<and> b_dev (bufs s b) = 1 \<and> b_blockno (bufs s b) = n"
    if "slot_of (bufs s) n = Some b" "n \<noteq> bno" for n
    using that b(5) slot_of_Some [OF d(3), of n b] slot_of_Some [OF d(3), of bno b] by auto
  have cont: "content t n = content s n" for n
  proof (cases "n = bno")
    case True
    then show ?thesis using sl [of bno] by (simp add: content_def [of t] bt) (simp add: c_def)
  next
    case False
    show ?thesis
    proof (cases "slot_of (bufs s) n = Some b")
      case True
      then show ?thesis
        using sl [of n] False old [OF True False] bio_inv_clean [OF assms(1) b(1)]
        by (simp add: content_def t_def)
    next
      case ne: False
      then show ?thesis using sl [of n] False
        by (auto simp: content_def bt t_def split: option.splits)
    qed
  qed
  have ref: "refs t n = ((refs s)(bno := Suc (refs s bno))) n" for n
  proof (cases "n = bno")
    case True
    have "unat (of_nat (Suc (refs s bno)) :: u32) = Suc (refs s bno)"
      using assms(5) unfolding unat_of_nat by simp
    then show ?thesis using True sl [of bno] by (simp add: refs_def [of t] bt c_def)
  next
    case False
    then show ?thesis using sl [of n] old [of n]
      by (auto simp: refs_def bt split: option.splits)
  qed
  have rc: "(of_nat (Suc (refs s bno)) :: u32) \<noteq> 0"
  proof
    assume "(of_nat (Suc (refs s bno)) :: u32) = 0"
    then have "unat (of_nat (Suc (refs s bno)) :: u32) = 0" by simp
    then show False using assms(5) unfolding unat_of_nat by simp
  qed
  have pid: "mypid t = mypid s"
    using wokep_me [OF b(3)] by (simp add: mypid_def t_def)
  have inv: "bio_inv (insert b H) t"
    unfolding bio_inv_def
  proof (intro conjI allI ballI impI)
    show "calm t" "vd_ready (vdisk t)" using d(1) b(4) by (simp_all add: t_def)
    show "bcache_ok (bufs t)" by (rule ok)
    show "insert b H \<subseteq> {..<NBUF}" using d(4) b(1) by simp
  next
    fix x assume "x < NBUF"
    then show "sl_locked (slocks t (BufLock x)) = (if x \<in> insert b H then 1 else 0)"
      using assms(1) by (simp add: t_def handed_def bio_inv_def)
  next
    fix x assume x: "x \<in> insert b H"
    show "sl_pid (slocks t (BufLock x)) = mypid t"
      using x d(7) [of x] pid by (auto simp: t_def handed_def)
    show "b_dev (bufs t x) = 1" "b_valid (bufs t x)" "b_refcnt (bufs t x) \<noteq> 0"
      using x d(8-10) [of x] b(2) rc by (auto simp: bt c_def simp del: of_nat_Suc)
  next
    fix x assume x: "x < NBUF" "b_dev (bufs t x) = 1 \<and> b_valid (bufs t x) \<and> b_refcnt (bufs t x) = 0"
    then have "x \<noteq> b" using rc by (auto simp: bt c_def simp del: of_nat_Suc)
    then show "b_data (bufs t x) = block_at (dimage t) (unat (b_blockno (bufs t x)))"
      using x bio_inv_clean [OF assms(1) x(1)] by (simp add: bt t_def)
  qed
  have "bio_frame s t" using b(3) by (simp add: bio_frame_def t_def handed_def)
  moreover have "bread 1 bno s = Ret b t" using b(6) by (simp add: t_def c_def)
  ultimately show ?thesis
    using inv cont ref b(2)
    by (intro exI [of _ b] exI [of _ t]) (auto simp: bt c_def fun_eq_iff, auto simp: t_def)
qed

subsection \<open>Working with a locked buffer\<close>

text \<open>
  A change of the buffers that keeps who has which block. It covers a new reference count, new data in
  one locked buffer, and a new order of the list.
\<close>

definition same_blocks :: "(nat \<Rightarrow> buf) \<Rightarrow> (nat \<Rightarrow> buf) \<Rightarrow> bool" where
  "same_blocks B B' \<longleftrightarrow> (\<forall>b<NBUF. b_dev (B' b) = b_dev (B b) \<and> b_blockno (B' b) = b_blockno (B b)
     \<and> b_valid (B' b) = b_valid (B b))"

lemma slot_of_same: "same_blocks B B' \<Longrightarrow> slot_of B' n = slot_of B n"
proof -
  assume a: "same_blocks B B'"
  have "find P xs = find Q xs" if "\<forall>x \<in> set xs. P x = Q x" for P Q and xs :: "nat list"
    using that by (induction xs) auto
  then show ?thesis using a by (auto simp: slot_of_def same_blocks_def)
qed

lemma same_blocks_ok:
  assumes "bcache_ok B" "same_blocks B B'" "lru B' xs" "set xs = {..<NBUF}"
    "\<forall>b<NBUF. length (b_data (B' b)) = BSIZE \<and> (b_dev (B b) = 0 \<longrightarrow> b_refcnt (B' b) = 0)"
  shows "bcache_ok B'"
proof -
  have "b_dev (B' b) = 1 \<or> b_dev (B' b) = 0 \<and> b_refcnt (B' b) = 0" if "b < NBUF" for b
    using assms that by (auto simp: bcache_ok_def same_blocks_def)
  moreover have "b = c" if "b < NBUF" "c < NBUF" "b_dev (B' b) = 1" "b_dev (B' c) = 1" "b_blockno (B' b) = b_blockno (B' c)" for b c
    using assms(1,2) that unfolding bcache_ok_def same_blocks_def by metis
  ultimately show ?thesis using assms unfolding bcache_ok_def same_blocks_def by auto
qed

text \<open>
  The common step of the specifications below: the buffers change from \<open>bufs s\<close> to \<open>bufs t\<close>, the
  set of locked buffers from \<open>H\<close> to \<open>H'\<close>.
\<close>

lemma bio_inv_step:
  assumes "bio_inv H s" "bio_frame s t" "calm t" "vd_ready (vdisk t)" "same_blocks (bufs s) (bufs t)" "bcache_ok (bufs t)"
    "H' \<subseteq> H" "\<forall>b<NBUF. sl_locked (slocks t (BufLock b)) = (if b \<in> H' then 1 else 0)"
    "\<forall>b \<in> H'. sl_pid (slocks t (BufLock b)) = sl_pid (slocks s (BufLock b)) \<and> b_refcnt (bufs t b) \<noteq> 0"
    "\<forall>b<NBUF. b_dev (bufs s b) = 1 \<and> b_valid (bufs s b) \<and> b_refcnt (bufs t b) = 0
       \<longrightarrow> b_data (bufs t b) = block_at (dimage t) (unat (b_blockno (bufs s b)))"
  shows "bio_inv H' t"
proof -
  note d = bio_invD [OF assms(1)]
  have "b < NBUF" if "b \<in> H'" for b using that assms(7) d(4) by auto
  then show ?thesis
    unfolding bio_inv_def
    using assms d(4,7-9) bio_frameD(8) [OF assms(2)] by (auto simp: same_blocks_def)
qed

lemma buf_write_spec:
  assumes "bio_inv H s" "b \<in> H" "length d = BSIZE"
  defines "t \<equiv> s\<lparr>bufs := (bufs s)(b := (bufs s b)\<lparr>b_data := d\<rparr>)\<rparr>"
  shows "bio_inv H t" "content t = (content s)(b_blockno (bufs s b) := d)" "refs t = refs s" "bio_frame s t"
proof -
  note D = bio_invD [OF assms(1)]
  note b = D(8-11) [OF assms(2)]
  have same: "same_blocks (bufs s) (bufs t)" by (simp add: same_blocks_def t_def)
  have ok: "bcache_ok (bufs t)"
    using bcache_ok_put(1) [OF D(3) b(4), of "(bufs s b)\<lparr>b_data := d\<rparr>"] assms(3) b
      bcache_okD(2) [OF D(3) b(4)] slot_of_Some [OF D(3), of "b_blockno (bufs s b)" b]
    by (simp add: t_def)
  show f: "bio_frame s t" by (simp add: bio_frame_def t_def)
  show "bio_inv H t"
  proof (rule bio_inv_step [OF assms(1) f _ _ same ok order_refl])
    show "calm t" "vd_ready (vdisk t)" using D(1,2) by (simp_all add: t_def)
    show "\<forall>b<NBUF. sl_locked (slocks t (BufLock b)) = (if b \<in> H then 1 else 0)"
      using assms(1) by (simp add: t_def bio_inv_def)
    show "\<forall>b \<in> H. sl_pid (slocks t (BufLock b)) = sl_pid (slocks s (BufLock b)) \<and> b_refcnt (bufs t b) \<noteq> 0"
      using D(10) by (simp add: t_def)
    show "\<forall>x<NBUF. b_dev (bufs s x) = 1 \<and> b_valid (bufs s x) \<and> b_refcnt (bufs t x) = 0
       \<longrightarrow> b_data (bufs t x) = block_at (dimage t) (unat (b_blockno (bufs s x)))"
      using bio_inv_clean [OF assms(1)] b(3) by (auto simp: t_def)
  qed
  note sl = slot_of_same [OF same]
  show "content t = (content s)(b_blockno (bufs s b) := d)"
  proof
    fix n
    show "content t n = ((content s)(b_blockno (bufs s b) := d)) n"
    proof (cases "slot_of (bufs s) n = Some b")
      case True
      then have "n = b_blockno (bufs s b)" using slot_of_Some [OF D(3)] by auto
      then show ?thesis using True sl [of n] b by (simp add: content_def t_def)
    next
      case False
      then have "n \<noteq> b_blockno (bufs s b)" using slot_of_Some [OF D(3), of n b] b by auto
      then show ?thesis using False sl [of n] by (auto simp: content_def t_def split: option.splits)
    qed
  qed
  show "refs t = refs s" by (simp add: refs_def sl fun_eq_iff split: option.splits) (simp add: t_def)
qed

lemma content_same:
  assumes "same_blocks (bufs s) (bufs t)" "bcache_ok (bufs s)"
    "\<And>b. b < NBUF \<Longrightarrow> b_data (bufs t b) = b_data (bufs s b)"
    "\<And>n. slot_of (bufs s) n = None \<or> \<not> b_valid (bufs s (the (slot_of (bufs s) n)))
       \<Longrightarrow> block_at (dimage t) (unat n) = block_at (dimage s) (unat n)"
  shows "content t = content s"
proof
  fix n
  show "content t n = content s n"
  proof (cases "slot_of (bufs s) n")
    case None
    then show ?thesis using slot_of_same [OF assms(1), of n] assms(4) [of n] by (simp add: content_def)
  next
    case (Some b)
    then have "b < NBUF" using slot_of_Some [OF assms(2)] by simp
    then show ?thesis
      using Some slot_of_same [OF assms(1), of n] assms(3) [of b] assms(4) [of n] assms(1)
      by (simp add: content_def same_blocks_def)
  qed
qed

lemma bwrite_spec:
  assumes "bio_inv H s" "b \<in> H" "dpower s \<noteq> Some 0"
  shows "\<exists>t. bwrite b s = Ret () t \<and> bio_inv H t \<and> content t = content s \<and> refs t = refs s
    \<and> (\<forall>n. block_at (dimage t) n = (if n = unat (b_blockno (bufs s b)) then b_data (bufs s b) else block_at (dimage s) n))
    \<and> dpower t = map_option (\<lambda>n. n - 1) (dpower s)
    \<and> (\<forall>h \<in> H. b_data (bufs t h) = b_data (bufs s h) \<and> b_blockno (bufs t h) = b_blockno (bufs s h)) \<and> bio_frame s t"
proof -
  note D = bio_invD [OF assms(1)]
  note b = D(8-11) [OF assms(2)]
  define bno where "bno = b_blockno (bufs s b)"
  have len: "length (b_data (bufs s b)) = BSIZE" and small: "unat bno < 2 ^ 31"
    using bcache_okD [OF D(3) b(4)] by (simp_all add: bno_def)
  obtain pr v where w: "virtio_disk_rw b True s = Ret () ((transferred b True s)
      \<lparr>bufs := (bufs (transferred b True s))(b := (bufs (transferred b True s) b)\<lparr>b_disk := False\<rparr>), procs := pr, vdisk := v\<rparr>)"
    "wokep s pr" "vd_ready v"
    using virtio_disk_rw_run [OF D(1,2), of True b] assms(3) len by auto
  define t where "t = s\<lparr>bufs := (bufs s)(b := (bufs s b)\<lparr>b_disk := False\<rparr>), procs := pr, vdisk := v,
    dpower := map_option (\<lambda>n. n - 1) (dpower s), dimage := image_put (BSIZE * unat bno) (b_data (bufs s b)) (dimage s)\<rparr>"
  have run: "bwrite b s = Ret () t"
    using w(1) D(6,7) [OF assms(2)] holdingsleep_run [OF D(1)] disk_pos_block [OF small]
    by (simp add: bwrite_def transferred_def t_def bno_def)
  have disk: "block_at (dimage t) n = (if n = unat bno then b_data (bufs s b) else block_at (dimage s) n)" for n
    using len by (simp add: t_def block_at_put)
  have same: "same_blocks (bufs s) (bufs t)" by (simp add: same_blocks_def t_def)
  have f: "bio_frame s t" using w(2) by (simp add: bio_frame_def t_def)
  have ok: "bcache_ok (bufs t)"
    using bcache_ok_put(1) [OF D(3) b(4), of "(bufs s b)\<lparr>b_disk := False\<rparr>"] len small b
      slot_of_Some [OF D(3), of bno b]
    by (simp add: t_def bno_def)
  have inj: "n = bno" if "unat n = unat bno" for n using that by (simp add: word_unat_eq_iff)
  have "bio_inv H t"
  proof (rule bio_inv_step [OF assms(1) f _ _ same ok order_refl])
    show "calm t" "vd_ready (vdisk t)" using D(1) w(3) by (simp_all add: t_def)
    show "\<forall>b<NBUF. sl_locked (slocks t (BufLock b)) = (if b \<in> H then 1 else 0)"
      using assms(1) by (simp add: t_def bio_inv_def)
    show "\<forall>b \<in> H. sl_pid (slocks t (BufLock b)) = sl_pid (slocks s (BufLock b)) \<and> b_refcnt (bufs t b) \<noteq> 0"
      using D(10) by (simp add: t_def)
    show "\<forall>x<NBUF. b_dev (bufs s x) = 1 \<and> b_valid (bufs s x) \<and> b_refcnt (bufs t x) = 0
       \<longrightarrow> b_data (bufs t x) = block_at (dimage t) (unat (b_blockno (bufs s x)))"
    proof (intro allI impI)
      fix x assume x: "x < NBUF" "b_dev (bufs s x) = 1 \<and> b_valid (bufs s x) \<and> b_refcnt (bufs t x) = 0"
      then have ne: "x \<noteq> b" using b(3) by (auto simp: t_def)
      have "b_blockno (bufs s x) \<noteq> bno"
      proof
        assume "b_blockno (bufs s x) = bno"
        then have "slot_of (bufs s) bno = Some x" using x slot_of_Some [OF D(3)] by simp
        moreover have "slot_of (bufs s) bno = Some b" using b slot_of_Some [OF D(3)] by (simp add: bno_def)
        ultimately show False using ne by simp
      qed
      then show "b_data (bufs t x) = block_at (dimage t) (unat (b_blockno (bufs s x)))"
        using bio_inv_clean [OF assms(1) x(1)] x ne inj disk by (auto simp: t_def)
    qed
  qed
  moreover have "content t = content s"
  proof (rule content_same [OF same D(3)])
    fix x show "b_data (bufs t x) = b_data (bufs s x)" by (simp add: t_def)
  next
    fix n assume "slot_of (bufs s) n = None \<or> \<not> b_valid (bufs s (the (slot_of (bufs s) n)))"
    moreover have "slot_of (bufs s) bno = Some b" using b slot_of_Some [OF D(3)] by (simp add: bno_def)
    ultimately have "n \<noteq> bno" using b(2) by auto
    then show "block_at (dimage t) (unat n) = block_at (dimage s) (unat n)" using inj disk by auto
  qed
  moreover have "refs t = refs s"
    using slot_of_same [OF same] by (simp add: refs_def fun_eq_iff split: option.splits) (simp add: t_def)
  ultimately show ?thesis using run f disk
    by (intro exI [of _ t]) (auto simp: t_def bno_def)
qed

lemma bwrite_fails:
  assumes "bio_inv H s" "b \<in> H" "dpower s = Some 0"
  shows "\<exists>t. bwrite b s = Stop (Fault ''power failure'') t \<and> dimage t = dimage s"
proof -
  note D = bio_invD [OF assms(1)]
  show ?thesis
    using virtio_disk_rw_fails [OF D(1,2) assms(3), of b] D(6,7) [OF assms(2)] holdingsleep_run [OF D(1)]
    by (auto simp: bwrite_def)
qed

lemma refs_held:
  assumes "bio_inv H s" "b \<in> H"
  shows "refs s (b_blockno (bufs s b)) = unat (b_refcnt (bufs s b))" "slot_of (bufs s) (b_blockno (bufs s b)) = Some b"
    "content s (b_blockno (bufs s b)) = b_data (bufs s b)"
  using bio_invD(8-11) [OF assms] slot_of_Some [OF bio_invD(3) [OF assms(1)], of "b_blockno (bufs s b)" b]
  by (simp_all add: refs_def content_def)

lemma refcnt_spec:
  assumes "bio_inv H s" "b \<in> H" "r \<noteq> 0"
  defines "t \<equiv> s\<lparr>bufs := (bufs s)(b := (bufs s b)\<lparr>b_refcnt := r\<rparr>)\<rparr>"
  shows "bio_inv H t" "content t = content s" "refs t = (refs s)(b_blockno (bufs s b) := unat r)" "bio_frame s t"
proof -
  note D = bio_invD [OF assms(1)]
  note b = D(8-11) [OF assms(2)]
  have same: "same_blocks (bufs s) (bufs t)" by (simp add: same_blocks_def t_def)
  have ok: "bcache_ok (bufs t)"
    using bcache_ok_put(1) [OF D(3) b(4), of "(bufs s b)\<lparr>b_refcnt := r\<rparr>"] b
      bcache_okD [OF D(3) b(4)] slot_of_Some [OF D(3), of "b_blockno (bufs s b)" b]
    by (simp add: t_def)
  show f: "bio_frame s t" by (simp add: bio_frame_def t_def)
  show "bio_inv H t"
  proof (rule bio_inv_step [OF assms(1) f _ _ same ok order_refl])
    show "calm t" "vd_ready (vdisk t)" using D(1,2) by (simp_all add: t_def)
    show "\<forall>b<NBUF. sl_locked (slocks t (BufLock b)) = (if b \<in> H then 1 else 0)"
      using assms(1) by (simp add: t_def bio_inv_def)
    show "\<forall>b \<in> H. sl_pid (slocks t (BufLock b)) = sl_pid (slocks s (BufLock b)) \<and> b_refcnt (bufs t b) \<noteq> 0"
      using D(10) assms(3) by (simp add: t_def)
    show "\<forall>x<NBUF. b_dev (bufs s x) = 1 \<and> b_valid (bufs s x) \<and> b_refcnt (bufs t x) = 0
       \<longrightarrow> b_data (bufs t x) = block_at (dimage t) (unat (b_blockno (bufs s x)))"
      using bio_inv_clean [OF assms(1)] assms(3) by (auto simp: t_def)
  qed
  show "content t = content s" by (rule content_same [OF same D(3)]) (simp_all add: t_def)
  show "refs t = (refs s)(b_blockno (bufs s b) := unat r)"
  proof
    fix n
    show "refs t n = ((refs s)(b_blockno (bufs s b) := unat r)) n"
      using slot_of_same [OF same, of n] slot_of_Some [OF D(3), of n b] refs_held(2) [OF assms(1,2)]
      by (auto simp: refs_def t_def split: option.splits)
  qed
qed

lemma bpin_spec:
  assumes "bio_inv H s" "b \<in> H" "refs s (b_blockno (bufs s b)) < 2 ^ 32 - 1"
  shows "\<exists>t. bpin b s = Ret () t \<and> bio_inv H t \<and> content t = content s
    \<and> refs t = (refs s)(b_blockno (bufs s b) := Suc (refs s (b_blockno (bufs s b))))
    \<and> bufs t = (bufs s)(b := (bufs s b)\<lparr>b_refcnt := b_refcnt (bufs s b) + 1\<rparr>)
    \<and> dimage t = dimage s \<and> dpower t = dpower s \<and> bio_frame s t"
proof -
  have u: "unat (b_refcnt (bufs s b) + 1) = Suc (unat (b_refcnt (bufs s b)))"
    using assms(3) refs_held(1) [OF assms(1,2)] by (subst unat_word_ariths(1)) simp
  then have "b_refcnt (bufs s b) + 1 \<noteq> 0" by auto
  from refcnt_spec [OF assms(1,2) this] show ?thesis
    using bio_invD(1) [OF assms(1)] u refs_held(1) [OF assms(1,2)]
    by (simp add: bpin_def acquire_calm release_held)
qed

lemma bunpin_spec:
  assumes "bio_inv H s" "b \<in> H" "1 < refs s (b_blockno (bufs s b))"
  shows "\<exists>t. bunpin b s = Ret () t \<and> bio_inv H t \<and> content t = content s
    \<and> refs t = (refs s)(b_blockno (bufs s b) := refs s (b_blockno (bufs s b)) - 1)
    \<and> bufs t = (bufs s)(b := (bufs s b)\<lparr>b_refcnt := b_refcnt (bufs s b) - 1\<rparr>)
    \<and> dimage t = dimage s \<and> dpower t = dpower s \<and> bio_frame s t"
proof -
  have u: "unat (b_refcnt (bufs s b) - 1) = unat (b_refcnt (bufs s b)) - 1"
    using bio_invD(10) [OF assms(1,2)] by (rule unat_minus_one)
  then have "b_refcnt (bufs s b) - 1 \<noteq> 0"
    using assms(3) refs_held(1) [OF assms(1,2)] by (metis diff_is_0_eq not_le unat_0)
  from refcnt_spec [OF assms(1,2) this] show ?thesis
    using bio_invD(1) [OF assms(1)] u refs_held(1) [OF assms(1,2)]
    by (simp add: bunpin_def acquire_calm release_held)
qed

subsection \<open>Releasing a buffer\<close>

lemma link_upd:
  "b_dev ((B(y := (B y)\<lparr>b_prev := p\<rparr>)) x) = b_dev (B x)" "b_dev ((B(y := (B y)\<lparr>b_next := p\<rparr>)) x) = b_dev (B x)"
  "b_blockno ((B(y := (B y)\<lparr>b_prev := p\<rparr>)) x) = b_blockno (B x)" "b_blockno ((B(y := (B y)\<lparr>b_next := p\<rparr>)) x) = b_blockno (B x)"
  "b_valid ((B(y := (B y)\<lparr>b_prev := p\<rparr>)) x) = b_valid (B x)" "b_valid ((B(y := (B y)\<lparr>b_next := p\<rparr>)) x) = b_valid (B x)"
  "b_data ((B(y := (B y)\<lparr>b_prev := p\<rparr>)) x) = b_data (B x)" "b_data ((B(y := (B y)\<lparr>b_next := p\<rparr>)) x) = b_data (B x)"
  "b_refcnt ((B(y := (B y)\<lparr>b_prev := p\<rparr>)) x) = b_refcnt (B x)" "b_refcnt ((B(y := (B y)\<lparr>b_next := p\<rparr>)) x) = b_refcnt (B x)"
  by simp_all

lemma move_front_fields:
  "b_dev (link_front b (unlink b B) x) = b_dev (B x)" "b_blockno (link_front b (unlink b B) x) = b_blockno (B x)"
  "b_valid (link_front b (unlink b B) x) = b_valid (B x)" "b_data (link_front b (unlink b B) x) = b_data (B x)"
  "b_refcnt (link_front b (unlink b B) x) = b_refcnt (B x)"
  by (simp_all only: link_front_def unlink_def Let_def link_upd)

lemma lru_move_front:
  assumes "lru B xs" "set xs = {..<NBUF}" "b < NBUF"
  shows "\<exists>ys zs. xs = ys @ b # zs \<and> lru (link_front b (unlink b B)) (b # ys @ zs)"
proof -
  obtain ys zs where xs: "xs = ys @ b # zs" using assms(2,3) split_list [of b xs] by auto
  then have "lru (unlink b B) (ys @ zs)" using lru_unlink assms(1) by simp
  moreover have "b \<notin> set (ys @ zs)" using assms(1) xs by (auto simp: lru_def)
  ultimately have "lru (link_front b (unlink b B)) (b # ys @ zs)" using assms(3) by (intro lru_link_front) auto
  then show ?thesis using xs by blast
qed

text \<open>The buffers after the reference count of \<open>b\<close> has been decremented.\<close>

definition dropped :: "nat \<Rightarrow> (nat \<Rightarrow> buf) \<Rightarrow> nat \<Rightarrow> buf" where
  "dropped b B =
     (let B1 = B(b := (B b)\<lparr>b_refcnt := b_refcnt (B b) - 1\<rparr>)
      in if b_refcnt (B b) - 1 = 0 then link_front b (unlink b B1) else B1)"

lemma dropped_fields:
  "b_dev (dropped b B x) = b_dev (B x)" "b_blockno (dropped b B x) = b_blockno (B x)"
  "b_valid (dropped b B x) = b_valid (B x)" "b_data (dropped b B x) = b_data (B x)"
  "b_refcnt (dropped b B x) = (if x = b then b_refcnt (B b) - 1 else b_refcnt (B x))"
  by (simp_all add: dropped_def Let_def move_front_fields)

lemma brelse_run:
  assumes "bio_inv H s" "b \<in> H"
  shows "brelse b s = Ret () (s\<lparr>slocks := (slocks s)(BufLock b := (slocks s (BufLock b))\<lparr>sl_locked := 0, sl_pid := 0\<rparr>),
     procs := wakes (ChanSleep (BufLock b)) s, bufs := dropped b (bufs s)\<rparr>)"
proof -
  note D = bio_invD [OF assms(1)]
  show ?thesis
    using D(1) D(6,7) [OF assms(2)] holdingsleep_run [OF D(1)] releasesleep_run [OF D(1)]
    by (simp add: brelse_def acquire_calm release_held dropped_def Let_def bmove_front_run)
qed

lemma lru_refcnt: "lru (B(b := (B b)\<lparr>b_refcnt := r\<rparr>)) xs = lru B xs"
  by (rule lru_cong) simp

lemma dropped_ok:
  assumes "bcache_ok B" "b < NBUF" "b_dev (B b) = 1"
  shows "bcache_ok (dropped b B)"
proof -
  obtain xs where xs: "lru B xs" "set xs = {..<NBUF}" using assms(1) by (auto simp: bcache_ok_def)
  have "\<exists>ys. lru (dropped b B) ys \<and> set ys = {..<NBUF}"
  proof (cases "b_refcnt (B b) - 1 = 0")
    case True
    obtain ys zs where "xs = ys @ b # zs" "lru (link_front b (unlink b (B(b := (B b)\<lparr>b_refcnt := b_refcnt (B b) - 1\<rparr>)))) (b # ys @ zs)"
      using lru_move_front [of "B(b := (B b)\<lparr>b_refcnt := b_refcnt (B b) - 1\<rparr>)" xs b] xs assms(2) lru_refcnt by blast
    then show ?thesis using xs True by (intro exI [of _ "b # ys @ zs"]) (auto simp: dropped_def Let_def)
  next
    case False
    then show ?thesis using xs lru_refcnt by (auto simp: dropped_def Let_def)
  qed
  then obtain ys where "lru (dropped b B) ys" "set ys = {..<NBUF}" by blast
  moreover have "b_refcnt (B x) = 0" if "x < NBUF" "b_dev (B x) = 0" for x
    using bcache_okD(3) [OF assms(1) that(1)] that(2) by auto
  ultimately show ?thesis
    using assms bcache_okD(1) [OF assms(1)]
    by (intro same_blocks_ok [OF assms(1), of _ ys]) (auto simp: same_blocks_def dropped_fields)
qed

lemma brelse_spec:
  assumes "bio_inv H s" "b \<in> H"
    "1 < refs s (b_blockno (bufs s b)) \<or> b_data (bufs s b) = block_at (dimage s) (unat (b_blockno (bufs s b)))"
  shows "\<exists>t. brelse b s = Ret () t \<and> bio_inv (H - {b}) t \<and> content t = content s
    \<and> refs t = (refs s)(b_blockno (bufs s b) := refs s (b_blockno (bufs s b)) - 1)
    \<and> dimage t = dimage s \<and> dpower t = dpower s
    \<and> (\<forall>h. b_data (bufs t h) = b_data (bufs s h) \<and> b_blockno (bufs t h) = b_blockno (bufs s h)) \<and> bio_frame s t"
proof -
  note D = bio_invD [OF assms(1)]
  note b = D(8-11) [OF assms(2)]
  define t where "t = s\<lparr>slocks := (slocks s)(BufLock b := (slocks s (BufLock b))\<lparr>sl_locked := 0, sl_pid := 0\<rparr>),
     procs := wakes (ChanSleep (BufLock b)) s, bufs := dropped b (bufs s)\<rparr>"
  have bt: "bufs t = dropped b (bufs s)" by (simp add: t_def)
  have u: "unat (b_refcnt (bufs s b) - 1) = unat (b_refcnt (bufs s b)) - 1" using b(3) by (rule unat_minus_one)
  have same: "same_blocks (bufs s) (bufs t)" by (simp add: same_blocks_def bt dropped_fields)
  have ok: "bcache_ok (bufs t)" using dropped_ok [OF D(3) b(4,1)] by (simp add: bt)
  have f: "bio_frame s t" using wokep_wakes [OF D(1)] by (simp add: bio_frame_def t_def)
  have "bio_inv (H - {b}) t"
  proof (rule bio_inv_step [OF assms(1) f _ _ same ok])
    show "calm t" "vd_ready (vdisk t)" "H - {b} \<subseteq> H" using D(1,2) by (auto simp: t_def)
    show "\<forall>x<NBUF. sl_locked (slocks t (BufLock x)) = (if x \<in> H - {b} then 1 else 0)"
      using assms(1) by (auto simp: t_def bio_inv_def)
    show "\<forall>x \<in> H - {b}. sl_pid (slocks t (BufLock x)) = sl_pid (slocks s (BufLock x)) \<and> b_refcnt (bufs t x) \<noteq> 0"
      using D(10) by (simp add: bt dropped_fields) (auto simp: t_def)
    show "\<forall>x<NBUF. b_dev (bufs s x) = 1 \<and> b_valid (bufs s x) \<and> b_refcnt (bufs t x) = 0
       \<longrightarrow> b_data (bufs t x) = block_at (dimage t) (unat (b_blockno (bufs s x)))"
    proof (intro allI impI)
      fix x assume x: "x < NBUF" "b_dev (bufs s x) = 1 \<and> b_valid (bufs s x) \<and> b_refcnt (bufs t x) = 0"
      show "b_data (bufs t x) = block_at (dimage t) (unat (b_blockno (bufs s x)))"
      proof (cases "x = b")
        case True
        then have "b_refcnt (bufs s b) - 1 = 0" using x by (simp add: bt dropped_fields)
        then have "unat (b_refcnt (bufs s b)) - 1 = 0" using u by simp
        then show ?thesis using True assms(3) refs_held(1) [OF assms(1,2)] by (simp add: bt dropped_fields) (simp add: t_def)
      next
        case False
        then show ?thesis using x bio_inv_clean [OF assms(1) x(1)] by (simp add: bt dropped_fields) (simp add: t_def)
      qed
    qed
  qed
  moreover have "content t = content s" by (rule content_same [OF same D(3)]) (simp_all add: bt dropped_fields, simp_all add: t_def)
  moreover have "refs t = (refs s)(b_blockno (bufs s b) := refs s (b_blockno (bufs s b)) - 1)"
  proof
    fix n
    show "refs t n = ((refs s)(b_blockno (bufs s b) := refs s (b_blockno (bufs s b)) - 1)) n"
      using slot_of_same [OF same, of n] slot_of_Some [OF D(3), of n b] refs_held(1,2) [OF assms(1,2)] u
      by (auto simp: refs_def bt dropped_fields split: option.splits)
  qed
  ultimately show ?thesis
    using brelse_run [OF assms(1,2)] f
    by (intro exI [of _ t]) (auto simp: bt dropped_fields, auto simp: t_def)
qed

text \<open>A free buffer exists while fewer than 30 blocks are referenced.\<close>

lemma free_buffer:
  assumes "bcache_ok (bufs s)" "card {n. 0 < refs s n} < NBUF"
  shows "\<exists>b<NBUF. b_refcnt (bufs s b) = 0"
proof (rule ccontr)
  assume "\<not> ?thesis"
  then have busy: "b_refcnt (bufs s b) \<noteq> 0" if "b < NBUF" for b using that by blast
  have dev: "b_dev (bufs s b) = 1" if "b < NBUF" for b using bcache_okD(3) [OF assms(1) that] busy [OF that] by auto
  have "inj_on (\<lambda>b. b_blockno (bufs s b)) {..<NBUF}"
  proof (rule inj_onI)
    fix x y assume "x \<in> {..<NBUF}" "y \<in> {..<NBUF}" and e: "b_blockno (bufs s x) = b_blockno (bufs s y)"
    then have x: "x < NBUF" and y: "y < NBUF" by (simp_all only: lessThan_iff)
    have "Some x = Some y"
      by (rule trans [OF slot_of_block [OF assms(1) x dev [OF x], unfolded e, symmetric]
            slot_of_block [OF assms(1) y dev [OF y]]])
    then show "x = y" by (simp only: option.inject)
  qed
  moreover have "(\<lambda>b. b_blockno (bufs s b)) ` {..<NBUF} \<subseteq> {n. 0 < refs s n}"
  proof (rule image_subsetI)
    fix x assume "x \<in> {..<NBUF}"
    then have x: "x < NBUF" by (simp only: lessThan_iff)
    show "b_blockno (bufs s x) \<in> {n. 0 < refs s n}"
      using busy [OF x] slot_of_block [OF assms(1) x dev [OF x]] by (simp add: refs_def unat_gt_0)
  qed
  ultimately have "card {..<NBUF} \<le> card {n. 0 < refs s n}" by (rule card_inj_on_le [OF _ _ finite])
  then show False using assms(2) by simp
qed

subsection \<open>Initialisation\<close>

lemma initlock_calm: "\<exists>l. initlock lk nm s = Ret () (s\<lparr>locks := l\<rparr>) \<and> (calm s \<longrightarrow> calm (s\<lparr>locks := l\<rparr>))"
proof -
  let ?l = "(locks s)(lk := (locks s lk)\<lparr>lk_name := nm, locked := 0, lk_cpu := None\<rparr>)"
  have "initlock lk nm s = Ret () (s\<lparr>locks := ?l\<rparr>)" by (simp add: initlock_def set_lock_def)
  moreover have "calm s \<longrightarrow> calm (s\<lparr>locks := ?l\<rparr>)"
    by (simp add: calm_def intr_wf_def lock_free_def spin_defs)
  ultimately show ?thesis by blast
qed

definition binit_body :: "nat \<Rightarrow> unit K" where
  "binit_body b =
     bindM (get_buf NBUF b_next) (\<lambda>first.
     seqM (set_buf b (\<lambda>c. c\<lparr>b_next := first\<rparr>)) (
     seqM (set_buf b (\<lambda>c. c\<lparr>b_prev := NBUF\<rparr>)) (
     seqM (initsleeplock (BufLock b) ''buffer'') (
     bindM (get_buf NBUF b_next) (\<lambda>first.
     seqM (set_buf first (\<lambda>c. c\<lparr>b_prev := b\<rparr>))
          (set_buf NBUF (\<lambda>h. h\<lparr>b_next := b\<rparr>)))))))"

text \<open>Each turn of the loop links one buffer in behind the head.\<close>

lemma binit_body_run:
  "\<exists>l. binit_body b s = Ret () (s\<lparr>locks := l, bufs := link_front b (bufs s),
      slocks := (slocks s)(BufLock b := (slocks s (BufLock b))\<lparr>sl_name := ''buffer'', sl_locked := 0, sl_pid := 0\<rparr>)\<rparr>)
    \<and> (calm s \<longrightarrow> calm (s\<lparr>locks := l\<rparr>))"
proof -
  define B1 where "B1 = (let B0 = (bufs s)(b := (bufs s b)\<lparr>b_next := b_next (bufs s NBUF)\<rparr>)
      in B0(b := (B0 b)\<lparr>b_prev := NBUF\<rparr>))"
  obtain l where l: "initlock (SleepLk (BufLock b)) ''sleep lock'' (s\<lparr>bufs := B1\<rparr>) = Ret () (s\<lparr>bufs := B1\<rparr>\<lparr>locks := l\<rparr>)"
      "calm s \<longrightarrow> calm (s\<lparr>bufs := B1\<rparr>\<lparr>locks := l\<rparr>)"
    using initlock_calm [of _ _ "s\<lparr>bufs := B1\<rparr>"] by auto
  have "calm s \<longrightarrow> calm (s\<lparr>locks := l\<rparr>)" using l(2) by (simp add: calm_def intr_wf_def lock_free_def spin_defs)
  moreover have "binit_body b s = Ret () (s\<lparr>locks := l, bufs := link_front b (bufs s),
      slocks := (slocks s)(BufLock b := (slocks s (BufLock b))\<lparr>sl_name := ''buffer'', sl_locked := 0, sl_pid := 0\<rparr>)\<rparr>)"
    using l(1)
    by (simp add: binit_body_def initsleeplock_def set_slock_def link_front_def Let_def B1_def del: fun_upd_apply)
  ultimately show ?thesis by blast
qed

lemma link_front_fields:
  "b_dev (link_front b B x) = b_dev (B x)" "b_blockno (link_front b B x) = b_blockno (B x)"
  "b_valid (link_front b B x) = b_valid (B x)" "b_data (link_front b B x) = b_data (B x)"
  "b_refcnt (link_front b B x) = b_refcnt (B x)"
  by (simp_all only: link_front_def Let_def link_upd)

definition zero_bufs :: "(nat \<Rightarrow> buf) \<Rightarrow> bool" where
  "zero_bufs B \<longleftrightarrow> (\<forall>b<NBUF. length (b_data (B b)) = BSIZE \<and> b_dev (B b) = 0 \<and> b_refcnt (B b) = 0 \<and> b_blockno (B b) = 0)"

text \<open>What \<^verbatim>\<open>binit\<close> changes: the lock words, the buffers and their sleep locks.\<close>

definition binit_frame :: "kern \<Rightarrow> kern \<Rightarrow> bool" where
  "binit_frame s t \<longleftrightarrow> t = s\<lparr>locks := locks t, bufs := bufs t, slocks := slocks t\<rparr>"

lemma binit_frameD:
  assumes "binit_frame s t"
  shows "vdisk t = vdisk s" "dimage t = dimage s" "dpower t = dpower s" "klog t = klog s"
proof -
  have t: "t = s\<lparr>locks := locks t, bufs := bufs t, slocks := slocks t\<rparr>" using assms by (simp add: binit_frame_def)
  show "vdisk t = vdisk s" "dimage t = dimage s" "dpower t = dpower s" "klog t = klog s" by (subst t, simp)+
qed

lemma binit_loop:
  assumes "lru (bufs s) []" "zero_bufs (bufs s)"
  shows "n \<le> NBUF \<Longrightarrow> \<exists>t. forM [0..<n] binit_body s = Ret () t \<and> (calm s \<longrightarrow> calm t) \<and> lru (bufs t) (rev [0..<n])
    \<and> zero_bufs (bufs t) \<and> binit_frame s t \<and> (\<forall>b<n. sl_locked (slocks t (BufLock b)) = 0)"
proof (induction n)
  case 0
  then show ?case using assms by (simp add: binit_frame_def)
next
  case (Suc n)
  then obtain t where t: "forM [0..<n] binit_body s = Ret () t" "calm s \<longrightarrow> calm t" "lru (bufs t) (rev [0..<n])"
      "zero_bufs (bufs t)" "binit_frame s t" "\<forall>b<n. sl_locked (slocks t (BufLock b)) = 0" by auto
  obtain l where l: "binit_body n t = Ret () (t\<lparr>locks := l, bufs := link_front n (bufs t),
      slocks := (slocks t)(BufLock n := (slocks t (BufLock n))\<lparr>sl_name := ''buffer'', sl_locked := 0, sl_pid := 0\<rparr>)\<rparr>)"
      "calm t \<longrightarrow> calm (t\<lparr>locks := l\<rparr>)"
    using binit_body_run by blast
  have "lru (link_front n (bufs t)) (n # rev [0..<n])"
    using t(3) Suc.prems by (intro lru_link_front) auto
  moreover have "binit_frame s (t\<lparr>locks := l, bufs := B, slocks := L\<rparr>)" for B L
  proof -
    obtain a b c where "t = s\<lparr>locks := a, bufs := b, slocks := c\<rparr>" using t(5) unfolding binit_frame_def by blast
    then show ?thesis by (simp add: binit_frame_def)
  qed
  ultimately show ?case
    using t l by (auto simp: forM_append seqM_apply zero_bufs_def link_front_fields less_Suc_eq)
qed

text \<open>The cache after \<^verbatim>\<open>binit\<close>: the list of all buffers, none of them locked, referenced or in use for a block.\<close>

definition fresh_cache :: "kern \<Rightarrow> bool" where
  "fresh_cache s \<longleftrightarrow> lru (bufs s) (rev [0..<NBUF]) \<and> zero_bufs (bufs s) \<and> (\<forall>b<NBUF. sl_locked (slocks s (BufLock b)) = 0)"

lemma binit_fresh:
  assumes "zero_bufs (bufs s)"
  shows "\<exists>t. binit s = Ret () t \<and> (calm s \<longrightarrow> calm t) \<and> fresh_cache t \<and> binit_frame s t"
proof -
  obtain l where l: "initlock BcacheLock ''bcache'' s = Ret () (s\<lparr>locks := l\<rparr>)" "calm s \<longrightarrow> calm (s\<lparr>locks := l\<rparr>)"
    using initlock_calm by blast
  define u where "u = s\<lparr>locks := l, bufs := (bufs s)(NBUF := (bufs s NBUF)\<lparr>b_prev := NBUF, b_next := NBUF\<rparr>)\<rparr>"
  have u: "calm s \<longrightarrow> calm u" "lru (bufs u) []" "zero_bufs (bufs u)" using l(2) assms by (simp_all add: u_def lru_def zero_bufs_def)
  obtain t where t: "forM [0..<NBUF] binit_body u = Ret () t" "calm u \<longrightarrow> calm t" "lru (bufs t) (rev [0..<NBUF])"
      "zero_bufs (bufs t)" "binit_frame u t" "\<forall>b<NBUF. sl_locked (slocks t (BufLock b)) = 0"
    using binit_loop [OF u(2,3), of NBUF] by blast
  have "binit_frame s t"
    using t(5) unfolding binit_frame_def u_def by simp
  moreover have "binit s = Ret () t"
    using l(1) t(1) by (simp add: binit_def binit_body_def [abs_def] u_def del: upt_Suc)
  ultimately show ?thesis using t u by (auto simp: fresh_cache_def)
qed

lemma fresh_cache_inv:
  assumes "fresh_cache s" "calm s" "vd_ready (vdisk s)"
  shows "bio_inv {} s" "refs s = (\<lambda>_. 0)" "content s n = block_at (dimage s) (unat n)"
proof -
  have z: "length (b_data (bufs s b)) = BSIZE" "b_dev (bufs s b) = 0" "b_refcnt (bufs s b) = 0" "b_blockno (bufs s b) = 0"
    if "b < NBUF" for b using assms(1) that by (auto simp: fresh_cache_def zero_bufs_def)
  have xs: "set (rev [0..<NBUF]) = {..<NBUF}" by (simp only: set_rev set_upt) (auto simp only: atLeastLessThan_iff lessThan_iff)
  have ok: "bcache_ok (bufs s)"
    unfolding bcache_ok_def
  proof (intro conjI allI impI)
    show "\<exists>xs. lru (bufs s) xs \<and> set xs = {..<NBUF}" using assms(1) xs unfolding fresh_cache_def by blast
  qed (use z in auto)
  have none: "slot_of (bufs s) n = None" for n using z(2) by (simp add: slot_of_None)
  show "bio_inv {} s" using assms ok z by (simp add: bio_inv_def fresh_cache_def)
  show "refs s = (\<lambda>_. 0)" by (rule ext) (simp add: refs_def none)
  show "content s n = block_at (dimage s) (unat n)" using none by (simp add: content_def)
qed

lemma binit_run:
  assumes "calm s" "zero_bufs (bufs s)" "vd_ready (vdisk s)"
  shows "\<exists>t. binit s = Ret () t \<and> bio_inv {} t \<and> refs t = (\<lambda>_. 0) \<and> lru (bufs t) (rev [0..<NBUF])
    \<and> (\<forall>n. content t n = block_at (dimage s) (unat n)) \<and> dimage t = dimage s \<and> dpower t = dpower s \<and> klog t = klog s"
proof -
  obtain t where t: "binit s = Ret () t" "calm t" "fresh_cache t" "binit_frame s t" using binit_fresh [OF assms(2)] assms(1) by blast
  note f = binit_frameD [OF t(4)]
  have "lru (bufs t) (rev [0..<NBUF])" using t(3) by (simp only: fresh_cache_def)
  then show ?thesis using fresh_cache_inv [OF t(3,2)] f t(1) assms(3) by (intro exI [of _ t]) simp
qed

lemma zero_bufs_booted: "zero_bufs (bufs booted)"
  by (simp add: zero_bufs_def blank_buf_def)

text \<open>
  C17: \<^verbatim>\<open>bread\<close> returns, while fewer than 30 blocks are in use, a buffer that is locked by the caller and
  holds the current contents of the block, from the cache or from the disk. No block changes its
  contents (a buffer is recycled only when it agrees with the disk), and only the reference count of
  this block grows.
\<close>

theorem bread_returns_contents:
  assumes "bio_inv H s" "unat bno < 2 ^ 31" "\<forall>b \<in> H. b_blockno (bufs s b) \<noteq> bno"
    "card {n. 0 < refs s n} < NBUF" "refs s bno < 2 ^ 32 - 1"
  shows "\<exists>b t. bread 1 bno s = Ret b t \<and> b \<notin> H \<and> bio_inv (insert b H) t \<and> b_blockno (bufs t b) = bno
    \<and> b_data (bufs t b) = content s bno \<and> content t = content s \<and> refs t = (refs s)(bno := Suc (refs s bno))
    \<and> dimage t = dimage s"
  using bread_spec [OF assms(1-3) _ assms(5)] free_buffer [OF bio_invD(3) [OF assms(1)] assms(4)] by blast

theorem bread_returns_contents_witness:
  "\<exists>s b t. binit booted = Ret () s \<and> bread 1 7 s = Ret b t \<and> b_data (bufs t b) = block_at (dimage booted) 7"
proof -
  obtain s where s: "binit booted = Ret () s" "bio_inv {} s" "refs s = (\<lambda>_. 0)"
      "\<forall>n. content s n = block_at (dimage booted) (unat n)"
    using binit_run [of booted] zero_bufs_booted by auto
  then have "card {n. 0 < refs s n} < NBUF" "refs s 7 < 2 ^ 32 - 1" by simp_all
  from bread_returns_contents [OF s(2), of 7] this s show ?thesis by fastforce
qed

text \<open>
  C18: the cache recycles in order of use. With the buffers in the order \<open>xs\<close>, most recently used first, a
  miss takes the last unreferenced buffer of \<open>xs\<close>, and the release of the last reference to a buffer moves it
  to the front and keeps the order of the others.
\<close>

theorem cache_is_lru:
  assumes "bio_inv H s" "lru (bufs s) xs" "set xs = {..<NBUF}"
  shows "bget_victim 31 (b_prev (bufs s NBUF)) s = Ret (find (\<lambda>b. b_refcnt (bufs s b) = 0) (rev xs)) s
    \<and> (\<forall>b \<in> H. b_refcnt (bufs s b) = 1 \<longrightarrow> (\<exists>t. brelse b s = Ret () t \<and> lru (bufs t) (b # remove1 b xs)))"
proof (intro conjI ballI impI)
  have "length xs = card {..<NBUF}" using assms(2,3) by (metis distinct_card lru_def)
  then have "length xs < 31" by simp
  then show "bget_victim 31 (b_prev (bufs s NBUF)) s = Ret (find (\<lambda>b. b_refcnt (bufs s b) = 0) (rev xs)) s"
    using bget_victim_path [of s xs NBUF 31] assms(2) by (simp add: lru_def)
next
  fix b
  assume b: "b \<in> H" "b_refcnt (bufs s b) = 1"
  let ?B = "(bufs s)(b := (bufs s b)\<lparr>b_refcnt := b_refcnt (bufs s b) - 1\<rparr>)"
  obtain ys zs where xs: "xs = ys @ b # zs" "lru (link_front b (unlink b ?B)) (b # ys @ zs)"
    using lru_move_front [of ?B xs b] assms(2,3) bio_invD(11) [OF assms(1) b(1)] lru_refcnt by blast
  have "b \<notin> set ys" using assms(2) xs(1) by (simp add: lru_def)
  then have "remove1 b xs = ys @ zs" using xs(1) by (simp add: remove1_append)
  moreover have "dropped b (bufs s) = link_front b (unlink b ?B)" using b(2) by (simp add: dropped_def)
  ultimately show "\<exists>t. brelse b s = Ret () t \<and> lru (bufs t) (b # remove1 b xs)"
    using brelse_run [OF assms(1) b(1)] xs(2) by simp
qed

theorem cache_is_lru_witness:
  "\<exists>s. binit booted = Ret () s \<and> bget_victim 31 (b_prev (bufs s NBUF)) s = Ret (Some 0) s"
proof -
  obtain s where s: "binit booted = Ret () s" "bio_inv {} s" "lru (bufs s) (rev [0..<NBUF])" "refs s = (\<lambda>_. 0)"
    using binit_run [of booted] zero_bufs_booted by auto
  have "b_refcnt (bufs s 0) = 0"
  proof (rule ccontr)
    assume a: "b_refcnt (bufs s 0) \<noteq> 0"
    then have "b_dev (bufs s 0) = 1" using bcache_okD(3) [OF bio_invD(3) [OF s(2)], of 0] by auto
    then have "refs s (b_blockno (bufs s 0)) = unat (b_refcnt (bufs s 0))"
      using slot_of_block [OF bio_invD(3) [OF s(2)], of 0] by (simp add: refs_def)
    then show False using s(4) a by (simp add: unat_eq_zero)
  qed
  moreover have "rev (rev [0..<NBUF]) = 0 # [1..<NBUF]" by (simp add: upt_conv_Cons del: upt_Suc)
  moreover have set: "set (rev [0..<NBUF]) = {..<NBUF}"
    by (simp only: set_rev set_upt) (auto simp only: atLeastLessThan_iff lessThan_iff)
  note cache_is_lru [OF s(2,3) set]
  ultimately have "bget_victim 31 (b_prev (bufs s NBUF)) s = Ret (Some 0) s" by (simp del: upt_Suc)
  then show ?thesis using s(1) by blast
qed

end
