(* ===== verification/Log.thy ===== *)
theory Log
  imports Bio
begin

section \<open>The log (kernel/log.c)\<close>

text \<open>
  The write-ahead log that makes file-system operations atomic. The on-disk log is a header block
  and the blocks of the transaction. The lemmas show that a commit interrupted by a power failure at any
  of its disk writes leaves a disk from which recovery makes either none or all of the
  transaction's writes.
\<close>

abbreviation (input) LOGSIZE :: nat where "LOGSIZE \<equiv> 30"
abbreviation (input) MAXOPBLOCKS :: int where "MAXOPBLOCKS \<equiv> 10"

subsection \<open>Definitions\<close>

definition get_log :: "(log \<Rightarrow> 'a) \<Rightarrow> 'a K" where
  "get_log f = gets (\<lambda>s. f (klog s))"

definition set_log :: "(log \<Rightarrow> log) \<Rightarrow> unit K" where
  "set_log f = modify (\<lambda>s. s\<lparr>klog := f (klog s)\<rparr>)"

lemma log_apply [simp]:
  "get_log f s = Ret (f (klog s)) s" "set_log g s = Ret () (s\<lparr>klog := g (klog s)\<rparr>)"
  "bindM (get_log f) k s = k (f (klog s)) s"
  by (simp_all add: get_log_def set_log_def)

text \<open>\<^verbatim>\<open>log.lh.block[i]\<close>, an array of 30 elements.\<close>

definition log_block :: "nat \<Rightarrow> u32 K" where
  "log_block i = (if i < LOGSIZE then get_log (\<lambda>l. lh_block l i) else stopM (Fault ''log header''))"

definition set_log_block :: "nat \<Rightarrow> u32 \<Rightarrow> unit K" where
  "set_log_block i b = (if i < LOGSIZE then set_log (\<lambda>l. l\<lparr>lh_block := (lh_block l)(i := b)\<rparr>)
     else stopM (Fault ''log header''))"

definition copy_buf :: "nat \<Rightarrow> nat \<Rightarrow> unit K" where
  "copy_buf dst src = bindM (get_buf src b_data) (\<lambda>d. set_buf dst (\<lambda>c. c\<lparr>b_data := d\<rparr>))"

definition install_block :: "bool \<Rightarrow> nat \<Rightarrow> unit K" where
  "install_block recovering tail =
     bindM (gets klog) (\<lambda>l.
     bindM (bread (log_dev l) (log_start l + of_nat tail + 1)) (\<lambda>lbuf.
     bindM (log_block tail) (\<lambda>bn.
     bindM (bread (log_dev l) bn) (\<lambda>dbuf.
     seqM (copy_buf dbuf lbuf) (
     seqM (bwrite dbuf) (
     seqM (whenM (\<not> recovering) (bunpin dbuf)) (
     seqM (brelse lbuf)
          (brelse dbuf))))))))"

definition install_trans :: "bool \<Rightarrow> unit K" where
  "install_trans recovering = bindM (get_log lh_n) (\<lambda>n. forM [0..<nat n] (install_block recovering))"

definition read_head :: "unit K" where
  "read_head =
     bindM (gets klog) (\<lambda>l.
     bindM (bread (log_dev l) (log_start l)) (\<lambda>b.
     bindM (get_buf b b_data) (\<lambda>d.
     seqM (set_log (\<lambda>l. l\<lparr>lh_n := sint (ld32 d 0)\<rparr>)) (
     seqM (forM [0..<nat (sint (ld32 d 0))] (\<lambda>i. set_log_block i (ld32 d (4 + 4 * i))))
          (brelse b)))))"

definition write_head :: "unit K" where
  "write_head =
     bindM (gets klog) (\<lambda>l.
     bindM (bread (log_dev l) (log_start l)) (\<lambda>b.
     seqM (set_buf b (\<lambda>c. c\<lparr>b_data := st32 (b_data c) 0 (word_of_int (lh_n l))\<rparr>)) (
     seqM (forM [0..<nat (lh_n l)] (\<lambda>i.
        bindM (log_block i) (\<lambda>bn. set_buf b (\<lambda>c. c\<lparr>b_data := st32 (b_data c) (4 + 4 * i) bn\<rparr>)))) (
     seqM (bwrite b)
          (brelse b)))))"

definition recover_from_log :: "unit K" where
  "recover_from_log =
     seqM read_head (
     seqM (install_trans True) (
     seqM (set_log (\<lambda>l. l\<lparr>lh_n := 0\<rparr>))
          write_head))"

definition initlog :: "u32 \<Rightarrow> superblock \<Rightarrow> unit K" where
  "initlog dev sbl =
     (if 124 \<ge> BSIZE then panic ''initlog: too big logheader'' else
      seqM (initlock LogLock ''log'') (
      seqM (set_log (\<lambda>l. l\<lparr>log_start := sb_logstart sbl, log_size := sint (sb_nlog sbl), log_dev := dev\<rparr>))
           recover_from_log))"

definition begin_op_turn :: "unit K" where
  "begin_op_turn =
     bindM (gets klog) (\<lambda>l.
     if log_committing l then sleep ChanLog LogLock
     else if lh_n l + (log_outstanding l + 1) * MAXOPBLOCKS > int LOGSIZE then sleep ChanLog LogLock
     else seqM (set_log (\<lambda>l. l\<lparr>log_outstanding := log_outstanding l + 1\<rparr>)) (release LogLock))"

definition begin_op :: "unit K" where
  "begin_op = seqM (acquire LogLock) begin_op_turn"

definition begin_op_resume :: "nat \<Rightarrow> bool \<Rightarrow> unit K" where
  "begin_op_resume me en = seqM (sleep_resume me LogLock en) begin_op_turn"

definition write_log_block :: "nat \<Rightarrow> unit K" where
  "write_log_block tail =
     bindM (gets klog) (\<lambda>l.
     bindM (bread (log_dev l) (log_start l + of_nat tail + 1)) (\<lambda>to.
     bindM (log_block tail) (\<lambda>bn.
     bindM (bread (log_dev l) bn) (\<lambda>from.
     seqM (copy_buf to from) (
     seqM (bwrite to) (
     seqM (brelse from)
          (brelse to)))))))"

definition write_log :: "unit K" where
  "write_log = bindM (get_log lh_n) (\<lambda>n. forM [0..<nat n] write_log_block)"

definition commit :: "unit K" where
  "commit =
     bindM (get_log lh_n) (\<lambda>n.
     whenM (n > 0) (
       seqM write_log (
       seqM write_head (
       seqM (install_trans False) (
       seqM (set_log (\<lambda>l. l\<lparr>lh_n := 0\<rparr>))
            write_head)))))"

definition end_op :: "unit K" where
  "end_op =
     seqM (acquire LogLock) (
     seqM (set_log (\<lambda>l. l\<lparr>log_outstanding := log_outstanding l - 1\<rparr>)) (
     bindM (gets klog) (\<lambda>l.
     if log_committing l then panic ''log.committing'' else
     let do_commit = (log_outstanding l = 0) in
     seqM (if do_commit then set_log (\<lambda>l. l\<lparr>log_committing := True\<rparr>) else wakeup ChanLog) (
     seqM (release LogLock)
          (whenM do_commit (
             seqM commit (
             seqM (acquire LogLock) (
             seqM (set_log (\<lambda>l. l\<lparr>log_committing := False\<rparr>)) (
             seqM (wakeup ChanLog)
                  (release LogLock))))))))))"

definition log_write :: "nat \<Rightarrow> unit K" where
  "log_write b =
     seqM (acquire LogLock) (
     bindM (gets klog) (\<lambda>l.
     if lh_n l \<ge> int LOGSIZE \<or> lh_n l \<ge> log_size l - 1 then panic ''too big a transaction'' else
     if log_outstanding l < 1 then panic ''log_write outside of trans'' else
     bindM (get_buf b b_blockno) (\<lambda>bno.
     let i = (case find (\<lambda>i. lh_block l i = bno) [0..<nat (lh_n l)] of Some i \<Rightarrow> i | None \<Rightarrow> nat (lh_n l)) in
     seqM (set_log_block i bno) (
     seqM (whenM (i = nat (lh_n l)) (seqM (bpin b) (set_log (\<lambda>l. l\<lparr>lh_n := lh_n l + 1\<rparr>))))
          (release LogLock)))))"

subsection \<open>Correctness with a crash condition\<close>

text \<open>
  \<open>wpc m Q C s\<close>: started in \<open>s\<close>, the routine returns and \<open>Q\<close> holds, or the power fails and the blocks of
  the disk satisfy \<open>C\<close>. It never panics.
\<close>

definition wpc :: "'a K \<Rightarrow> ('a \<Rightarrow> kern \<Rightarrow> bool) \<Rightarrow> ((nat \<Rightarrow> u8 list) \<Rightarrow> bool) \<Rightarrow> kern \<Rightarrow> bool" where
  "wpc m Q C s \<longleftrightarrow> (case m s of Ret x t \<Rightarrow> Q x t
     | Stop r t \<Rightarrow> r = Fault ''power failure'' \<and> C (block_at (dimage t)))"

lemma wpc_bindM: "wpc (bindM m f) Q C = wpc m (\<lambda>x. wpc (f x) Q C) C"
  by (simp add: wpc_def bindM_def fun_eq_iff split: outcome.splits)

lemma wpc_seqM: "wpc (seqM m n) Q C = wpc m (\<lambda>_. wpc n Q C) C"
  by (simp add: seqM_def wpc_bindM)

lemma wpc_returnM [simp]: "wpc (returnM x) Q C = Q x"
  by (simp add: wpc_def fun_eq_iff)

lemma wpc_simps [simp]:
  "wpc (Ret x) Q C s = Q x s" "wpc (gets f) R C s = R (f s) s" "wpc (modify g) P C s = P () (g s)"
  "wpc (get_log h) S C s = S (h (klog s)) s" "wpc (set_log k) T C s = T () (s\<lparr>klog := k (klog s)\<rparr>)"
  "wpc (get_buf b i) U C s = U (i (bufs s b)) s"
  "wpc (set_buf b j) V C s = V () (s\<lparr>bufs := (bufs s)(b := j (bufs s b))\<rparr>)"
  by (simp_all add: wpc_def)

lemma wpc_Ret: "m s = Ret x t \<Longrightarrow> Q x t \<Longrightarrow> wpc m Q C s"
  by (simp add: wpc_def)

lemma wpc_mono: "wpc m Q C s \<Longrightarrow> (\<And>x t. Q x t \<Longrightarrow> Q' x t) \<Longrightarrow> (\<And>D. C D \<Longrightarrow> C' D) \<Longrightarrow> wpc m Q' C' s"
  by (auto simp: wpc_def split: outcome.splits)

lemma wpc_forM:
  assumes "\<And>i s. i < n \<Longrightarrow> I i s \<Longrightarrow> wpc (body i) (\<lambda>_. I (Suc i)) C s" "I 0 s" "\<And>s. I n s \<Longrightarrow> Q () s"
  shows "wpc (forM [0..<n] body) Q C s"
proof -
  have "wpc (forM [0..<k] body) (\<lambda>_. I k) C s" if "k \<le> n" for k
    using that
  proof (induction k)
    case 0
    then show ?case using assms(2) by simp
  next
    case (Suc k)
    then have "wpc (forM [0..<k] body) (\<lambda>_. I k) C s" by simp
    then have "wpc (forM [0..<k] body) (\<lambda>_. wpc (body k) (\<lambda>_. I (Suc k)) C) C s"
      using assms(1) [of k] Suc.prems by (auto intro: wpc_mono)
    then have "wpc (seqM (forM [0..<k] body) (forM [k] body)) (\<lambda>_. I (Suc k)) C s"
      by (simp add: wpc_seqM)
    then show ?case by (simp add: forM_append)
  qed
  from this [of n] show ?thesis using assms(3) by (auto intro: wpc_mono)
qed

subsection \<open>The cache seen by its clients\<close>

text \<open>
  \<open>view s0 h s c r D\<close>: the state \<open>s\<close> differs from \<open>s0\<close> in the cache and the disk only, the running
  process has locked the buffers \<open>dom h\<close>, buffer \<open>b\<close> holding block \<open>h b\<close>, the blocks have the contents \<open>c\<close> and the
  reference counts \<open>r\<close>, and the disk has the blocks \<open>D\<close>. Every operation of the cache is a
  rule on these functions.
\<close>

definition view :: "kern \<Rightarrow> (nat \<rightharpoonup> u32) \<Rightarrow> kern \<Rightarrow> (u32 \<Rightarrow> u8 list) \<Rightarrow> (u32 \<Rightarrow> nat) \<Rightarrow> (nat \<Rightarrow> u8 list) \<Rightarrow> bool" where
  "view s0 h s c r D \<longleftrightarrow> bio_inv (dom h) s \<and> (\<forall>b n. h b = Some n \<longrightarrow> b_blockno (bufs s b) = n)
     \<and> content s = c \<and> refs s = r \<and> block_at (dimage s) = D \<and> bio_frame s0 s"

lemma view_refl: "bio_inv {} s \<Longrightarrow> view s (\<lambda>_. None) s (content s) (refs s) (block_at (dimage s))"
  by (simp add: view_def)

lemma view_held:
  assumes "view s0 h s c r D" "h b = Some n"
  shows "b \<in> dom h" "b_data (bufs s b) = c n" "b_blockno (bufs s b) = n" "bio_inv (dom h) s" "0 < r n"
proof -
  show b: "b \<in> dom h" and n: "b_blockno (bufs s b) = n" and inv: "bio_inv (dom h) s"
    using assms by (auto simp: view_def)
  show "b_data (bufs s b) = c n" using refs_held(3) [OF inv b] n assms(1) by (simp add: view_def)
  show "0 < r n" using refs_held(1) [OF inv b] bio_invD(10) [OF inv b] n assms(1) by (simp add: view_def unat_gt_0)
qed

lemma view_length: "view s0 h s c r D \<Longrightarrow> length (c n) = BSIZE"
  using length_content bio_invD(3) by (auto simp: view_def)

lemma view_clean:
  assumes "view s0 h s c r D" "r n = 0"
  shows "c n = D (unat n)"
proof -
  have inv: "bio_inv (dom h) s" and e: "content s = c" "refs s = r" "block_at (dimage s) = D"
    using assms(1) by (auto simp: view_def)
  show ?thesis
  proof (cases "slot_of (bufs s) n")
    case None
    then show ?thesis using e by (auto simp: content_def)
  next
    case (Some b)
    then have b: "b < NBUF" "b_dev (bufs s b) = 1" "b_blockno (bufs s b) = n"
      using slot_of_Some [OF bio_invD(3) [OF inv]] by auto
    have "b_refcnt (bufs s b) = 0" using assms(2) e(2) Some by (auto simp: refs_def unat_eq_zero)
    then show ?thesis
      using Some e(1,3) bio_inv_clean [OF inv b(1,2)] b(3) by (auto simp: content_def)
  qed
qed

lemma view_bread:
  assumes "view s0 h s c r D" "n \<notin> ran h" "unat n < 2 ^ 31" "0 < r n \<or> card {n. 0 < r n} < NBUF" "r n < 2 ^ 32 - 1"
    "\<And>b t. h b = None \<Longrightarrow> view s0 (h(b \<mapsto> n)) t c (r(n := Suc (r n))) D \<Longrightarrow> Q b t"
  shows "wpc (bread 1 n) Q C s"
proof -
  have v: "bio_inv (dom h) s" "content s = c" "refs s = r" "block_at (dimage s) = D" "bio_frame s0 s"
    using assms(1) by (auto simp: view_def)
  have nb: "b_blockno (bufs s b) \<noteq> n" if "b \<in> dom h" for b
    using assms(1,2) that by (auto simp: view_def ran_def)
  have free: "\<exists>b<NBUF. b_refcnt (bufs s b) = 0" if "slot_of (bufs s) n = None"
    using free_buffer [OF bio_invD(3) [OF v(1)]] assms(4) that v(3) by (auto simp: refs_def)
  obtain b t where t: "bread 1 n s = Ret b t" "b \<notin> dom h" "bio_inv (insert b (dom h)) t" "b_blockno (bufs t b) = n"
      "content t = content s" "refs t = (refs s)(n := Suc (refs s n))" "dimage t = dimage s"
      "\<forall>x \<in> dom h. bufs t x = bufs s x" "bio_frame s t"
    using bread_spec [OF v(1) assms(3) _ free] nb assms(5) v(3) by blast
  have "b_blockno (bufs t x) = m" if "(h(b \<mapsto> n)) x = Some m" for x m
    using that t(4,8) assms(1) by (cases "x = b") (auto simp: view_def dom_def)
  then have "view s0 (h(b \<mapsto> n)) t c (r(n := Suc (r n))) D"
    using t v bio_frame_trans [OF v(5) t(9)] by (simp add: view_def)
  then show ?thesis using assms(6) t(1,2) by (auto intro: wpc_Ret)
qed

lemma view_bwrite:
  assumes "view s0 h s c r D" "h b = Some n" "dpower s0 \<noteq> None \<Longrightarrow> C D" "\<And>t. view s0 h t c r (D(unat n := c n)) \<Longrightarrow> Q () t"
  shows "wpc (bwrite b) Q C s"
proof (cases "dpower s = Some 0")
  case True
  moreover have "dpower s0 \<noteq> None" using True assms(1) by (auto simp: view_def bio_frame_def)
  ultimately show ?thesis
    using bwrite_fails [OF view_held(4,1) [OF assms(1,2)]] assms(1,3) by (auto simp: wpc_def view_def)
next
  case False
  note b = view_held [OF assms(1,2)]
  obtain t where t: "bwrite b s = Ret () t" "bio_inv (dom h) t" "content t = content s" "refs t = refs s"
     "\<forall>n. block_at (dimage t) n = (if n = unat (b_blockno (bufs s b)) then b_data (bufs s b) else block_at (dimage s) n)"
     "\<forall>x \<in> dom h. b_data (bufs t x) = b_data (bufs s x) \<and> b_blockno (bufs t x) = b_blockno (bufs s x)" "bio_frame s t"
    using bwrite_spec [OF b(4,1) False] by blast
  have "block_at (dimage t) = D(unat n := c n)" using t(5) b(2,3) assms(1) by (auto simp: fun_eq_iff view_def)
  then have "view s0 h t c r (D(unat n := c n))"
    using t assms(1) bio_frame_trans [of s0 s t] by (auto simp: view_def dom_def)
  then show ?thesis using assms(4) t(1) by (auto intro: wpc_Ret)
qed

lemma view_put:
  assumes "view s0 h s c r D" "h b = Some n" "length d = BSIZE"
  shows "view s0 h (s\<lparr>bufs := (bufs s)(b := (bufs s b)\<lparr>b_data := d\<rparr>)\<rparr>) (c(n := d)) r D"
proof -
  note b = view_held [OF assms(1,2)]
  note w = buf_write_spec [OF b(4,1) assms(3)]
  show ?thesis
    using w assms(1) b(3) bio_frame_trans [OF _ w(4), of s0] by (auto simp: view_def)
qed

lemma view_copy:
  assumes "view s0 h s c r D" "h d = Some n" "h b = Some m" "\<And>t. view s0 h t (c(n := c m)) r D \<Longrightarrow> Q () t"
  shows "wpc (copy_buf d b) Q C s"
  using view_put [OF assms(1,2), of "c m"] view_length [OF assms(1), of m] view_held(2) [OF assms(1,3)] assms(4)
  by (simp add: copy_buf_def wpc_bindM)

lemma view_brelse:
  assumes "view s0 h s c r D" "h b = Some n" "1 < r n \<or> c n = D (unat n)"
    "\<And>t. view s0 (h(b := None)) t c (r(n := r n - 1)) D \<Longrightarrow> Q () t"
  shows "wpc (brelse b) Q C s"
proof -
  note b = view_held [OF assms(1,2)]
  obtain t where t: "brelse b s = Ret () t" "bio_inv (dom h - {b}) t" "content t = content s"
    "refs t = (refs s)(b_blockno (bufs s b) := refs s (b_blockno (bufs s b)) - 1)" "dimage t = dimage s"
    "\<forall>x. b_data (bufs t x) = b_data (bufs s x) \<and> b_blockno (bufs t x) = b_blockno (bufs s x)" "bio_frame s t"
    using brelse_spec [OF b(4,1)] assms(1,3) b(2,3) by (auto simp: view_def)
  have "view s0 (h(b := None)) t c (r(n := r n - 1)) D"
    using t assms(1) b(3) bio_frame_trans [of s0 s t] by (auto simp: view_def)
  then show ?thesis using assms(4) t(1) by (auto intro: wpc_Ret)
qed

lemma view_bunpin:
  assumes "view s0 h s c r D" "h b = Some n" "1 < r n" "\<And>t. view s0 h t c (r(n := r n - 1)) D \<Longrightarrow> Q () t"
  shows "wpc (bunpin b) Q C s"
proof -
  note b = view_held [OF assms(1,2)]
  obtain t where t: "bunpin b s = Ret () t" "bio_inv (dom h) t" "content t = content s"
    "refs t = (refs s)(b_blockno (bufs s b) := refs s (b_blockno (bufs s b)) - 1)"
    "bufs t = (bufs s)(b := (bufs s b)\<lparr>b_refcnt := b_refcnt (bufs s b) - 1\<rparr>)" "dimage t = dimage s" "bio_frame s t"
    using bunpin_spec [OF b(4,1)] assms(1,3) b(3) by (auto simp: view_def)
  have "view s0 h t c (r(n := r n - 1)) D"
    using t assms(1) b(3) bio_frame_trans [of s0 s t] by (auto simp: view_def)
  then show ?thesis using assms(4) t(1) by (auto intro: wpc_Ret)
qed

lemma view_bpin:
  assumes "view s0 h s c r D" "h b = Some n" "r n < 2 ^ 32 - 1" "\<And>t. view s0 h t c (r(n := Suc (r n))) D \<Longrightarrow> Q () t"
  shows "wpc (bpin b) Q C s"
proof -
  note b = view_held [OF assms(1,2)]
  obtain t where t: "bpin b s = Ret () t" "bio_inv (dom h) t" "content t = content s"
    "refs t = (refs s)(b_blockno (bufs s b) := Suc (refs s (b_blockno (bufs s b))))"
    "bufs t = (bufs s)(b := (bufs s b)\<lparr>b_refcnt := b_refcnt (bufs s b) + 1\<rparr>)" "dimage t = dimage s" "bio_frame s t"
    using bpin_spec [OF b(4,1)] assms(1,3) b(3) by (auto simp: view_def)
  have "view s0 h t c (r(n := Suc (r n))) D"
    using t assms(1) b(3) bio_frame_trans [of s0 s t] by (auto simp: view_def)
  then show ?thesis using assms(4) t(1) by (auto intro: wpc_Ret)
qed

lemma view_klog: "view s0 h s c r D \<Longrightarrow> klog s = klog s0"
  using bio_frameD(2) by (auto simp: view_def)

subsection \<open>A transaction\<close>

text \<open>The blocks of the disk that hold the log: the header at \<open>log_start\<close> and the 29 blocks behind it.\<close>

definition in_log :: "log \<Rightarrow> nat \<Rightarrow> bool" where
  "in_log l m \<longleftrightarrow> unat (log_start l) \<le> m \<and> m < unat (log_start l) + LOGSIZE"

definition log_slot :: "log \<Rightarrow> nat \<Rightarrow> u32" where
  "log_slot l i = log_start l + of_nat i + 1"

definition logged :: "log \<Rightarrow> u32 set" where
  "logged l = lh_block l ` {..<nat (lh_n l)}"

definition log_wf :: "log \<Rightarrow> bool" where
  "log_wf l \<longleftrightarrow> log_dev l = 1 \<and> unat (log_start l) + LOGSIZE < 2 ^ 31 \<and> 0 \<le> lh_n l \<and> lh_n l < int LOGSIZE
     \<and> (\<forall>b \<in> logged l. unat b < 2 ^ 31 \<and> \<not> in_log l (unat b)) \<and> inj_on (lh_block l) {..<nat (lh_n l)}"

text \<open>The references that the log itself holds: every logged block is pinned once.\<close>

definition pins :: "log \<Rightarrow> u32 \<Rightarrow> nat" where
  "pins l b = (if b \<in> logged l then 1 else 0)"

lemma log_wf_n: "log_wf l \<Longrightarrow> nat (lh_n l) < LOGSIZE" "log_wf l \<Longrightarrow> i < nat (lh_n l) \<Longrightarrow> i < LOGSIZE"
    "log_wf l \<Longrightarrow> i < nat (lh_n l) \<Longrightarrow> Suc i < LOGSIZE"
  by (auto simp: log_wf_def)

lemma unat_log_slot:
  assumes "log_wf l" "i < LOGSIZE"
  shows "unat (log_slot l i) = unat (log_start l) + i + 1"
proof -
  have a: "unat (log_start l) + LOGSIZE < 2 ^ 31" using assms(1) by (simp add: log_wf_def)
  have "unat (of_nat i :: u32) = i" using assms(2) unfolding unat_of_nat by simp
  then have "unat (log_start l + of_nat i) = unat (log_start l) + i"
    using a assms(2) by (subst unat_word_ariths(1)) simp
  then show ?thesis
    unfolding log_slot_def using a assms(2) by (subst unat_word_ariths(1)) simp
qed

lemma log_slot_in_log: "log_wf l \<Longrightarrow> Suc i < LOGSIZE \<Longrightarrow> in_log l (unat (log_slot l i))"
  by (simp add: unat_log_slot in_log_def)

lemma log_slot_small: "log_wf l \<Longrightarrow> i < LOGSIZE \<Longrightarrow> unat (log_slot l i) < 2 ^ 31"
  using unat_log_slot [of l i] by (simp add: log_wf_def)

lemma log_slot_not_logged:
  assumes "log_wf l" "Suc i < LOGSIZE"
  shows "log_slot l i \<notin> logged l"
  using log_slot_in_log [OF assms] assms(1) by (auto simp: log_wf_def)

lemma logged_nth: "i < nat (lh_n l) \<Longrightarrow> lh_block l i \<in> logged l"
  by (simp add: logged_def)

lemma logged_small: "log_wf l \<Longrightarrow> b \<in> logged l \<Longrightarrow> unat b < 2 ^ 31"
  and logged_not_in_log: "log_wf l \<Longrightarrow> b \<in> logged l \<Longrightarrow> \<not> in_log l (unat b)"
  by (auto simp: log_wf_def)

lemma card_logged: "log_wf l \<Longrightarrow> card {b. 0 < pins l b} < NBUF"
proof -
  assume a: "log_wf l"
  have "{b. 0 < pins l b} = logged l" by (auto simp: pins_def)
  moreover have "card (logged l) = nat (lh_n l)"
    using a by (simp add: logged_def log_wf_def card_image)
  ultimately show ?thesis using log_wf_n(1) [OF a] by simp
qed

lemma wpc_log_block: "i < LOGSIZE \<Longrightarrow> wpc (log_block i) Q C s = Q (lh_block (klog s) i) s"
  by (simp add: log_block_def)

text \<open>
  During \<^verbatim>\<open>write_log\<close>: the first \<open>i\<close> blocks of the transaction have been copied to the log, and
  the rest of the disk, the log's header included, has not changed.
\<close>

definition outside :: "log \<Rightarrow> nat \<Rightarrow> bool" where
  "outside l m \<longleftrightarrow> \<not> in_log l m \<or> m = unat (log_start l)"

definition writing :: "kern \<Rightarrow> (u32 \<Rightarrow> u8 list) \<Rightarrow> (nat \<Rightarrow> u8 list) \<Rightarrow> nat \<Rightarrow> kern \<Rightarrow> bool" where
  "writing s0 new old i s \<longleftrightarrow> (\<exists>c D. view s0 (\<lambda>_. None) s c (pins (klog s0)) D
     \<and> (\<forall>b. \<not> in_log (klog s0) (unat b) \<longrightarrow> c b = new b)
     \<and> (\<forall>j<i. D (unat (log_slot (klog s0) j)) = new (lh_block (klog s0) j))
     \<and> (\<forall>m. outside (klog s0) m \<longrightarrow> D m = old m))"

lemma log_slot_facts:
  assumes "log_wf l" "i < nat (lh_n l)"
  shows "log_slot l i \<notin> logged l" "lh_block l i \<in> logged l" "log_slot l i \<noteq> lh_block l i" "\<not> in_log l (unat (lh_block l i))"
    "\<not> outside l (unat (log_slot l i))" "unat (log_slot l i) < 2 ^ 31" "unat (lh_block l i) < 2 ^ 31"
    "in_log l (unat (log_slot l i))" "unat (lh_block l i) \<noteq> unat (log_slot l i)"
    "unat (lh_block l i) \<noteq> unat (log_start l)"
proof -
  have i: "i < LOGSIZE" using log_wf_n(2) [OF assms] .
  show 1: "log_slot l i \<notin> logged l" "lh_block l i \<in> logged l" "in_log l (unat (log_slot l i))"
    "unat (log_slot l i) < 2 ^ 31"
    using log_slot_not_logged [OF assms(1) log_wf_n(3) [OF assms(1,2)]] logged_nth [OF assms(2)] log_slot_in_log [OF assms(1) log_wf_n(3) [OF assms(1,2)]]
      log_slot_small [OF assms(1) i] by auto
  then show 2: "\<not> in_log l (unat (lh_block l i))" "unat (lh_block l i) < 2 ^ 31"
    using logged_small logged_not_in_log assms(1) by blast+
  show "log_slot l i \<noteq> lh_block l i" "unat (lh_block l i) \<noteq> unat (log_slot l i)" using 1 2 by auto
  show "\<not> outside l (unat (log_slot l i))"
    using 1(3) unat_log_slot [OF assms(1) i] by (simp add: outside_def)
  show "unat (lh_block l i) \<noteq> unat (log_start l)" using 2(1) by (auto simp: in_log_def)
qed

lemma log_slot_inj:
  "log_wf l \<Longrightarrow> i < LOGSIZE \<Longrightarrow> j < LOGSIZE \<Longrightarrow> unat (log_slot l i) = unat (log_slot l j) \<longleftrightarrow> i = j"
  by (simp add: unat_log_slot)

lemma write_log_step:
  assumes "log_wf (klog s0)" "i < nat (lh_n (klog s0))" "writing s0 new old i s"
  shows "wpc (write_log_block i) (\<lambda>_. writing s0 new old (Suc i))
    (\<lambda>D. dpower s0 \<noteq> None \<and> (\<forall>m. outside (klog s0) m \<longrightarrow> D m = old m)) s"
    (is "wpc _ ?Q ?C s")
proof -
  define l where "l = klog s0"
  define L where "L = log_slot l i"
  define F where "F = lh_block l i"
  obtain c D where v: "view s0 (\<lambda>_. None) s c (pins l) D" "\<And>b. \<not> in_log l (unat b) \<Longrightarrow> c b = new b"
     "\<And>j. j < i \<Longrightarrow> D (unat (log_slot l j)) = new (lh_block l j)" "\<And>m. outside l m \<Longrightarrow> D m = old m"
    using assms(3) by (auto simp: writing_def l_def)
  note LF = log_slot_facts [OF assms(1,2), folded l_def, folded L_def F_def]
  have i: "i < LOGSIZE" using log_wf_n(2) [OF assms(1,2)] .
  have slots: "unat (log_slot l j) \<noteq> unat (log_slot l i)" if "j < i" for j
    using log_slot_inj [OF assms(1), of j i] that i by (simp add: l_def)
  have "wpc (bread 1 L) (\<lambda>to. wpc (log_block i) (\<lambda>bn. wpc (bread 1 bn) (\<lambda>from. wpc (copy_buf to from) (\<lambda>_.
      wpc (bwrite to) (\<lambda>_. wpc (brelse from) (\<lambda>_. wpc (brelse to) ?Q ?C) ?C) ?C) ?C) ?C) ?C) ?C s"
  proof (rule view_bread [OF v(1)])
    fix to t assume t: "view s0 ((\<lambda>_. None)(to \<mapsto> L)) t c ((pins l)(L := Suc (pins l L))) D"
    show "wpc (log_block i) (\<lambda>bn. wpc (bread 1 bn) (\<lambda>from. wpc (copy_buf to from) (\<lambda>_.
      wpc (bwrite to) (\<lambda>_. wpc (brelse from) (\<lambda>_. wpc (brelse to) ?Q ?C) ?C) ?C) ?C) ?C) ?C t"
      unfolding wpc_log_block [OF i] view_klog [OF t] F_def [symmetric, unfolded l_def]
    proof (rule view_bread [OF t])
      fix "from" u
      assume fr: "((\<lambda>_. None)(to \<mapsto> L)) from = None" and
        u: "view s0 ((\<lambda>_. None)(to \<mapsto> L, from \<mapsto> F)) u c ((pins l)(L := Suc (pins l L), F := Suc (((pins l)(L := Suc (pins l L))) F))) D"
      have ne: "from \<noteq> to" using fr by (auto split: if_splits)
      show "wpc (copy_buf to from) (\<lambda>_. wpc (bwrite to) (\<lambda>_. wpc (brelse from) (\<lambda>_. wpc (brelse to) ?Q ?C) ?C) ?C) ?C u"
        apply (rule view_copy [OF u, of to L "from" F], use ne in simp, simp)
        apply (erule view_bwrite [of _ _ _ _ _ _ to L], use ne in simp, use v(4) in \<open>simp add: l_def\<close>)
        apply (erule view_brelse [of _ _ _ _ _ _ "from" F], simp, use LF in \<open>simp add: pins_def\<close>)
        apply (erule view_brelse [of _ _ _ _ _ _ to L], use ne in simp, use LF in simp)
        subgoal for w
          unfolding writing_def
          apply (rule exI [of _ "c(L := c F)"], rule exI [of _ "D(unat L := c F)"])
          using v LF ne slots
          by (auto simp: l_def [symmetric] L_def F_def pins_def less_Suc_eq fun_upd_idem)
        done
    qed (use LF in \<open>auto simp: pins_def\<close>)
  qed (use LF card_logged [OF assms(1)] in \<open>auto simp: pins_def l_def\<close>)
  then show ?thesis
    using view_klog [OF v(1)] assms(1)
    by (simp add: write_log_block_def wpc_bindM wpc_seqM L_def log_slot_def log_wf_def l_def)
qed

text \<open>
  Installing: the disk after the first \<open>i\<close> logged blocks have been copied to their places. \<open>replay\<close> is the
  disk on which the whole log has been installed.
\<close>

definition install_upto :: "log \<Rightarrow> nat \<Rightarrow> (nat \<Rightarrow> u8 list) \<Rightarrow> nat \<Rightarrow> u8 list" where
  "install_upto l i D m = (case find (\<lambda>j. unat (lh_block l j) = m) [0..<i] of
     Some j \<Rightarrow> D (unat (log_slot l j)) | None \<Rightarrow> D m)"

abbreviation replay :: "log \<Rightarrow> (nat \<Rightarrow> u8 list) \<Rightarrow> nat \<Rightarrow> u8 list" where
  "replay l \<equiv> install_upto l (nat (lh_n l))"

lemma install_upto_0 [simp]: "install_upto l 0 D = D"
  by (simp add: install_upto_def fun_eq_iff)

lemma lh_block_inj:
  assumes "log_wf l" "i < nat (lh_n l)" "j < nat (lh_n l)" "unat (lh_block l i) = unat (lh_block l j)"
  shows "i = j"
proof -
  have "lh_block l i = lh_block l j" using assms(4) by (simp add: unsigned_word_eqI)
  then show ?thesis using assms(1-3) by (auto simp: log_wf_def dest: inj_onD)
qed

lemma find_block:
  assumes "log_wf l" "i \<le> nat (lh_n l)" "j < i"
  shows "find (\<lambda>k. unat (lh_block l k) = unat (lh_block l j)) [0..<i] = Some j"
proof -
  have "k = j" if "k < i" "unat (lh_block l k) = unat (lh_block l j)" for k
    using lh_block_inj [OF assms(1) _ _ that(2)] that(1) assms(2,3) by simp
  then have "unat (lh_block l k) \<noteq> unat (lh_block l j)" if "k < j" for k
    using that assms(3) less_trans [OF that assms(3)] less_irrefl by metis
  then show ?thesis
    using assms(3) by (auto simp: find_Some_iff intro!: exI [of _ j])
qed

lemma install_upto_block:
  "log_wf l \<Longrightarrow> i \<le> nat (lh_n l) \<Longrightarrow> j < i \<Longrightarrow> install_upto l i D (unat (lh_block l j)) = D (unat (log_slot l j))"
  by (simp add: install_upto_def find_block)

lemma install_upto_other: "(\<And>j. j < i \<Longrightarrow> unat (lh_block l j) \<noteq> m) \<Longrightarrow> install_upto l i D m = D m"
proof -
  assume a: "\<And>j. j < i \<Longrightarrow> unat (lh_block l j) \<noteq> m"
  have "find (\<lambda>j. unat (lh_block l j) = m) [0..<i] = None" using a by (auto simp: find_None_iff)
  then show ?thesis by (simp add: install_upto_def)
qed

lemma install_upto_in_log: "log_wf l \<Longrightarrow> i \<le> nat (lh_n l) \<Longrightarrow> in_log l m \<Longrightarrow> install_upto l i D m = D m"
  by (rule install_upto_other) (use log_slot_facts(4) in fastforce)

lemma install_upto_Suc:
  assumes "log_wf l" "i < nat (lh_n l)"
  shows "install_upto l (Suc i) D = (install_upto l i D)(unat (lh_block l i) := D (unat (log_slot l i)))"
proof
  fix m
  show "install_upto l (Suc i) D m = ((install_upto l i D)(unat (lh_block l i) := D (unat (log_slot l i)))) m"
  proof (cases "\<exists>j\<le>i. unat (lh_block l j) = m")
    case True
    then obtain j where j: "j \<le> i" "m = unat (lh_block l j)" by auto
    have "unat (lh_block l j) = unat (lh_block l i) \<Longrightarrow> j = i"
      using lh_block_inj [OF assms(1), of j i] assms(2) j(1) by simp
    then show ?thesis
      using install_upto_block [OF assms(1), of "Suc i" j] install_upto_block [OF assms(1), of i j] assms(2) j
      by (cases "j = i") auto
  next
    case False
    have "install_upto l k D m = D m" if "k \<le> Suc i" for k
      by (rule install_upto_other) (use False that in auto)
    then show ?thesis using False by auto
  qed
qed

lemma replay_install_upto:
  assumes "log_wf l" "i \<le> nat (lh_n l)"
  shows "replay l (install_upto l i D) = replay l D"
proof
  fix m
  show "replay l (install_upto l i D) m = replay l D m"
  proof (cases "\<exists>j<nat (lh_n l). unat (lh_block l j) = m")
    case True
    then obtain j where j: "j < nat (lh_n l)" "m = unat (lh_block l j)" by auto
    then show ?thesis
      using install_upto_in_log [OF assms log_slot_facts(8) [OF assms(1) j(1)]]
      by (simp add: install_upto_block [OF assms(1)])
  next
    case False
    have "install_upto l k E m = E m" if "k \<le> nat (lh_n l)" for k E
      by (rule install_upto_other) (use False that in auto)
    then show ?thesis using assms(2) by simp
  qed
qed

text \<open>The references during an installation: while recovering nothing is pinned.\<close>

definition unpinned_upto :: "bool \<Rightarrow> log \<Rightarrow> nat \<Rightarrow> u32 \<Rightarrow> nat" where
  "unpinned_upto rec l i b = (if \<not> rec \<and> b \<in> lh_block l ` {i..<nat (lh_n l)} then 1 else 0)"

lemma card_unpinned: "log_wf l \<Longrightarrow> card {b. 0 < unpinned_upto rec l i b} < NBUF"
proof -
  assume a: "log_wf l"
  have "card {b. 0 < unpinned_upto rec l i b} \<le> card {b. 0 < pins l b}"
    by (rule card_mono) (auto simp: unpinned_upto_def pins_def logged_def)
  then show ?thesis using card_logged [OF a] by simp
qed

lemma unpinned_Suc:
  assumes "log_wf l" "i < nat (lh_n l)"
  shows "unpinned_upto rec l (Suc i) = (unpinned_upto rec l i)(lh_block l i := 0)"
    and "unpinned_upto rec l i (lh_block l i) = (if rec then 0 else 1)"
    and "unpinned_upto rec l i (log_slot l i) = 0"
proof -
  have "inj_on (lh_block l) {..<nat (lh_n l)}" using assms(1) by (simp add: log_wf_def)
  then have "lh_block l i \<notin> lh_block l ` {Suc i..<nat (lh_n l)}"
    using assms(2) by (auto dest: inj_onD)
  moreover have "{i..<nat (lh_n l)} = insert i {Suc i..<nat (lh_n l)}" using assms(2) by auto
  ultimately show "unpinned_upto rec l (Suc i) = (unpinned_upto rec l i)(lh_block l i := 0)"
    "unpinned_upto rec l i (lh_block l i) = (if rec then 0 else 1)"
    by (auto simp: unpinned_upto_def fun_eq_iff)
  show "unpinned_upto rec l i (log_slot l i) = 0"
    using log_slot_facts(1) [OF assms] assms(2) by (auto simp: unpinned_upto_def logged_def)
qed

lemma install_step:
  assumes "log_wf (klog s0)" "i < nat (lh_n (klog s0))" "view s0 (\<lambda>_. None) s c (unpinned_upto rec (klog s0) i) D"
    "dpower s0 \<noteq> None \<Longrightarrow> C D" "\<And>d t. view s0 (\<lambda>_. None) t d (unpinned_upto rec (klog s0) (Suc i))
       (D(unat (lh_block (klog s0) i) := D (unat (log_slot (klog s0) i)))) \<Longrightarrow> Q () t"
  shows "wpc (install_block rec i) Q C s"
proof -
  define l where "l = klog s0"
  define L where "L = log_slot l i"
  define F where "F = lh_block l i"
  define r where "r = unpinned_upto rec l i"
  note v = assms(3) [folded l_def, folded r_def]
  note LF = log_slot_facts [OF assms(1,2), folded l_def, folded L_def F_def]
  note r = unpinned_Suc [OF assms(1,2), of rec, folded l_def, folded L_def F_def r_def]
  have i: "i < LOGSIZE" using log_wf_n(2) [OF assms(1,2)] .
  have cl: "c L = D (unat L)" using view_clean [OF v r(3)] .
  have "{n. 0 < (r(L := Suc (r L))) n} = {L}" if rec using that by (auto simp: r_def unpinned_upto_def)
  then have one: "0 < r F \<or> card {n. 0 < (r(L := Suc (r L))) n} < NBUF" using r(2) by (cases rec) simp_all
  have "wpc (bread 1 L) (\<lambda>lb. wpc (log_block i) (\<lambda>bn. wpc (bread 1 bn) (\<lambda>db. wpc (copy_buf db lb) (\<lambda>_.
      wpc (bwrite db) (\<lambda>_. wpc (whenM (\<not> rec) (bunpin db)) (\<lambda>_. wpc (brelse lb) (\<lambda>_. wpc (brelse db) Q C) C) C) C) C) C) C) C s"
  proof (rule view_bread [OF v])
    fix lb t assume t: "view s0 ((\<lambda>_. None)(lb \<mapsto> L)) t c (r(L := Suc (r L))) D"
    show "wpc (log_block i) (\<lambda>bn. wpc (bread 1 bn) (\<lambda>db. wpc (copy_buf db lb) (\<lambda>_.
      wpc (bwrite db) (\<lambda>_. wpc (whenM (\<not> rec) (bunpin db)) (\<lambda>_. wpc (brelse lb) (\<lambda>_. wpc (brelse db) Q C) C) C) C) C) C) C t"
      unfolding wpc_log_block [OF i] view_klog [OF t] F_def [symmetric, unfolded l_def]
    proof (rule view_bread [OF t])
      fix db u
      assume fr: "((\<lambda>_. None)(lb \<mapsto> L)) db = None" and
        u: "view s0 ((\<lambda>_. None)(lb \<mapsto> L, db \<mapsto> F)) u c (r(L := Suc (r L), F := Suc ((r(L := Suc (r L))) F))) D"
      have ne: "db \<noteq> lb" using fr by (auto split: if_splits)
      have fin: "wpc (brelse lb) (\<lambda>_. wpc (brelse db) Q C) C w"
        if "view s0 ((\<lambda>_. None)(lb \<mapsto> L, db \<mapsto> F)) w (c(F := c L)) (r(L := Suc 0, F := Suc 0)) (D(unat F := c L))" for w
        apply (rule view_brelse [OF that, of lb L], use ne in simp, use LF cl in simp)
        apply (erule view_brelse [of _ _ _ _ _ _ db F], use ne in simp, use LF in simp)
        using assms(5) [folded l_def, folded L_def F_def] ne LF r cl by (auto simp: fun_upd_twist fun_upd_idem)
      show "wpc (copy_buf db lb) (\<lambda>_. wpc (bwrite db) (\<lambda>_. wpc (whenM (\<not> rec) (bunpin db)) (\<lambda>_.
          wpc (brelse lb) (\<lambda>_. wpc (brelse db) Q C) C) C) C) C u"
        apply (rule view_copy [OF u, of db F lb L], simp, use ne in simp)
        apply (erule view_bwrite [of _ _ _ _ _ _ db F], simp, erule assms(4))
        apply (cases rec)
        using fin LF r apply (simp add: whenM_def)
        apply (simp add: whenM_def)
        apply (erule view_bunpin [of _ _ _ _ _ _ db F], simp, use r LF in simp)
        using fin LF r by simp
    qed (use LF r one in auto)
  qed (use LF r card_unpinned [OF assms(1)] in \<open>auto simp: r_def l_def\<close>)
  then show ?thesis
    using view_klog [OF v] assms(1)
    by (simp add: install_block_def wpc_bindM wpc_seqM L_def log_slot_def log_wf_def l_def)
qed

lemma install_trans_wpc:
  assumes "log_wf (klog s0)" "view s0 (\<lambda>_. None) s c (unpinned_upto rec (klog s0) 0) D"
    "\<And>i. dpower s0 \<noteq> None \<Longrightarrow> i \<le> nat (lh_n (klog s0)) \<Longrightarrow> C (install_upto (klog s0) i D)"
    "\<And>d t. view s0 (\<lambda>_. None) t d (\<lambda>_. 0) (replay (klog s0) D) \<Longrightarrow> Q () t"
  shows "wpc (install_trans rec) Q C s"
proof -
  let ?I = "\<lambda>i t. \<exists>d. view s0 (\<lambda>_. None) t d (unpinned_upto rec (klog s0) i) (install_upto (klog s0) i D)"
  have "wpc (forM [0..<nat (lh_n (klog s0))] (install_block rec)) Q C s"
  proof (rule wpc_forM [where I = ?I])
    fix i t assume i: "i < nat (lh_n (klog s0))" and "?I i t"
    then obtain d where d: "view s0 (\<lambda>_. None) t d (unpinned_upto rec (klog s0) i) (install_upto (klog s0) i D)" by blast
    have "install_upto (klog s0) i D (unat (log_slot (klog s0) i)) = D (unat (log_slot (klog s0) i))"
      using install_upto_in_log [OF assms(1)] log_slot_facts(8) [OF assms(1) i] i by simp
    then show "wpc (install_block rec i) (\<lambda>_. ?I (Suc i)) C t"
      using install_step [OF assms(1) i d, where C = C and Q = "\<lambda>_. ?I (Suc i)"] assms(3) [of i] i
        install_upto_Suc [OF assms(1) i, of D] by auto
  next
    show "?I 0 s" using assms(2) by auto
  next
    fix t assume "?I (nat (lh_n (klog s0))) t"
    moreover have "unpinned_upto rec (klog s0) (nat (lh_n (klog s0))) = (\<lambda>_. 0)"
      by (simp add: unpinned_upto_def fun_eq_iff)
    ultimately show "Q () t" using assms(4) by auto
  qed
  then show ?thesis using view_klog [OF assms(2)] by (simp add: install_trans_def wpc_bindM)
qed

lemma write_log_wpc:
  assumes "log_wf (klog s0)" "writing s0 new old 0 s" "\<And>D. dpower s0 \<noteq> None \<Longrightarrow> \<forall>m. outside (klog s0) m \<longrightarrow> D m = old m \<Longrightarrow> C D"
    "\<And>t. writing s0 new old (nat (lh_n (klog s0))) t \<Longrightarrow> Q () t"
  shows "wpc write_log Q C s"
proof -
  have "wpc (forM [0..<nat (lh_n (klog s0))] write_log_block) Q C s"
  proof (rule wpc_forM [where I = "writing s0 new old"])
    fix i t assume i: "i < nat (lh_n (klog s0))" "writing s0 new old i t"
    show "wpc (write_log_block i) (\<lambda>_. writing s0 new old (Suc i)) C t"
      using write_log_step [OF assms(1) i] assms(3) by (auto intro: wpc_mono)
  qed (use assms(2,4) in auto)
  moreover have "klog s = klog s0" using assms(2) view_klog by (auto simp: writing_def)
  ultimately show ?thesis by (simp add: write_log_def wpc_bindM)
qed

text \<open>The header block: the number of logged blocks and their places.\<close>

definition hdr_n :: "log \<Rightarrow> (nat \<Rightarrow> u8 list) \<Rightarrow> int" where
  "hdr_n l D = sint (ld32 (D (unat (log_start l))) 0)"

definition hdr_block :: "log \<Rightarrow> (nat \<Rightarrow> u8 list) \<Rightarrow> nat \<Rightarrow> u32" where
  "hdr_block l D i = ld32 (D (unat (log_start l))) (4 + 4 * i)"

definition hdr_is :: "log \<Rightarrow> u8 list \<Rightarrow> bool" where
  "hdr_is l d \<longleftrightarrow> sint (ld32 d 0) = lh_n l \<and> (\<forall>i < nat (lh_n l). ld32 d (4 + 4 * i) = lh_block l i)"

lemma sint_of_small: "0 \<le> n \<Longrightarrow> n < 2 ^ 31 \<Longrightarrow> sint (word_of_int n :: u32) = n"
  by (simp add: sint_sbintrunc' signed_take_bit_int_eq_self)

text \<open>During \<^verbatim>\<open>write_head\<close>: the count and the first \<open>i\<close> block numbers are in the header's buffer \<open>b\<close>.\<close>

definition heading :: "kern \<Rightarrow> (u32 \<Rightarrow> u8 list) \<Rightarrow> (u32 \<Rightarrow> nat) \<Rightarrow> (nat \<Rightarrow> u8 list) \<Rightarrow> nat \<Rightarrow> nat \<Rightarrow> kern \<Rightarrow> bool" where
  "heading s0 c r D b i t \<longleftrightarrow> (\<exists>d. view s0 [b \<mapsto> log_start (klog s0)] t (c(log_start (klog s0) := d)) (r(log_start (klog s0) := 1)) D
     \<and> ld32 d 0 = word_of_int (lh_n (klog s0)) \<and> (\<forall>j<i. ld32 d (4 + 4 * j) = lh_block (klog s0) j))"

abbreviation head_entry :: "nat \<Rightarrow> nat \<Rightarrow> unit K" where
  "head_entry b i \<equiv> bindM (log_block i) (\<lambda>bn. set_buf b (\<lambda>c. c\<lparr>b_data := st32 (b_data c) (4 + 4 * i) bn\<rparr>))"

lemma head_entry_wpc:
  assumes "i < LOGSIZE" "heading s0 c r D b i t"
  shows "wpc (head_entry b i) (\<lambda>_. heading s0 c r D b (Suc i)) C t"
proof -
  define l where "l = klog s0"
  define S where "S = log_start l"
  obtain d where d: "view s0 [b \<mapsto> S] t (c(S := d)) (r(S := 1)) D"
      "ld32 d 0 = word_of_int (lh_n l)" "\<forall>j<i. ld32 d (4 + 4 * j) = lh_block l j"
    using assms(2) by (auto simp: heading_def l_def S_def)
  let ?d = "st32 d (4 + 4 * i) (lh_block l i)"
  have len: "length d = BSIZE" using view_length [OF d(1), of S] by simp
  have bd: "b_data (bufs t b) = d" using view_held(2) [OF d(1)] by simp
  have "view s0 [b \<mapsto> S] (t\<lparr>bufs := (bufs t)(b := (bufs t b)\<lparr>b_data := ?d\<rparr>)\<rparr>) (c(S := ?d)) (r(S := 1)) D"
    using view_put [OF d(1), of b S ?d] len assms(1) by simp
  moreover have "ld32 ?d 0 = word_of_int (lh_n l)"
    using d(2) len assms(1) by (subst ld32_st32_other) auto
  moreover have "\<forall>j<Suc i. ld32 ?d (4 + 4 * j) = lh_block l j"
    using d(3) len assms(1) by (auto simp: less_Suc_eq ld32_st32_other)
  ultimately show ?thesis
    using view_klog [OF d(1)] by (auto simp: wpc_bindM wpc_log_block [OF assms(1)] bd heading_def S_def l_def)
qed

lemma head_entries_wpc:
  assumes "0 \<le> lh_n (klog s0)" "lh_n (klog s0) \<le> int LOGSIZE" "heading s0 c r D b 0 u" "r (log_start (klog s0)) = 0" "dpower s0 \<noteq> None \<Longrightarrow> C D"
    and Q: "\<And>d t. view s0 (\<lambda>_. None) t (c(log_start (klog s0) := d)) r (D(unat (log_start (klog s0)) := d)) \<Longrightarrow>
       hdr_is (klog s0) d \<Longrightarrow> length d = BSIZE \<Longrightarrow> Q () t"
  shows "wpc (forM [0..<nat (lh_n (klog s0))] (head_entry b)) (\<lambda>_. wpc (bwrite b) (\<lambda>_. wpc (brelse b) Q C) C) C u"
proof (rule wpc_forM [where I = "heading s0 c r D b"])
  define S where "S = log_start (klog s0)"
  fix t assume "heading s0 c r D b (nat (lh_n (klog s0))) t"
  then obtain d where d: "view s0 [b \<mapsto> S] t (c(S := d)) (r(S := 1)) D" "ld32 d 0 = word_of_int (lh_n (klog s0))"
     "\<forall>j<nat (lh_n (klog s0)). ld32 d (4 + 4 * j) = lh_block (klog s0) j" by (auto simp: heading_def S_def)
  have "sint (ld32 d 0) = lh_n (klog s0)" using d(2) sint_of_small [of "lh_n (klog s0)"] assms(1,2) by simp
  then have h: "hdr_is (klog s0) d" "length d = BSIZE"
    using d(3) view_length [OF d(1), of S] by (simp_all add: hdr_is_def)
  show "wpc (bwrite b) (\<lambda>_. wpc (brelse b) Q C) C t"
    apply (rule view_bwrite [OF d(1), of b S], simp, erule assms(5))
    apply (erule view_brelse [of _ _ _ _ _ _ b S], simp, simp)
    using Q [OF _ h] assms(4) by (simp add: S_def fun_upd_idem)
qed (use assms(2,3) head_entry_wpc in auto)

lemma write_head_wpc:
  assumes "log_dev (klog s0) = 1" "unat (log_start (klog s0)) < 2 ^ 31" "0 \<le> lh_n (klog s0)" "lh_n (klog s0) \<le> int LOGSIZE"
    and v: "view s0 (\<lambda>_. None) s c r D"
    and r: "r (log_start (klog s0)) = 0" "card {n. 0 < r n} < NBUF" and "dpower s0 \<noteq> None \<Longrightarrow> C D"
    and Q: "\<And>d t. view s0 (\<lambda>_. None) t (c(log_start (klog s0) := d)) r (D(unat (log_start (klog s0)) := d)) \<Longrightarrow>
       hdr_is (klog s0) d \<Longrightarrow> length d = BSIZE \<Longrightarrow> Q () t"
  shows "wpc write_head Q C s"
proof -
  define n where "n = lh_n (klog s0)"
  define S where "S = log_start (klog s0)"
  have "wpc (bread 1 S) (\<lambda>b. wpc (set_buf b (\<lambda>c. c\<lparr>b_data := st32 (b_data c) 0 (word_of_int n)\<rparr>)) (\<lambda>_.
       wpc (forM [0..<nat n] (head_entry b)) (\<lambda>_. wpc (bwrite b) (\<lambda>_. wpc (brelse b) Q C) C) C) C) C s"
  proof (rule view_bread [OF v])
    fix b t assume "view s0 ((\<lambda>_. None)(b \<mapsto> S)) t c (r(S := Suc (r S))) D"
    then have t: "view s0 [b \<mapsto> S] t c (r(S := 1)) D" using r(1) by (simp add: S_def)
    let ?d = "st32 (b_data (bufs t b)) 0 (word_of_int n)"
    have len: "length (b_data (bufs t b)) = BSIZE"
      using view_held(2) [OF t, of b S] view_length [OF t, of S] by simp
    then have "heading s0 c r D b 0 (t\<lparr>bufs := (bufs t)(b := (bufs t b)\<lparr>b_data := ?d\<rparr>)\<rparr>)"
      using view_put [OF t, of b S ?d] by (auto simp: heading_def S_def n_def intro!: exI [of _ ?d])
    from head_entries_wpc [OF assms(3,4) this r(1), of C Q] assms(8) Q
    show "wpc (set_buf b (\<lambda>c. c\<lparr>b_data := st32 (b_data c) 0 (word_of_int n)\<rparr>)) (\<lambda>_.
       wpc (forM [0..<nat n] (head_entry b)) (\<lambda>_. wpc (bwrite b) (\<lambda>_. wpc (brelse b) Q C) C) C) C t"
      by (simp add: n_def)
  qed (use r assms(2) in \<open>auto simp: S_def\<close>)
  then show ?thesis
    using view_klog [OF v] assms(1) by (simp add: write_head_def wpc_bindM wpc_seqM S_def n_def)
qed

lemma view_set_log: "view s0 h s c r D \<Longrightarrow> view (s0\<lparr>klog := k\<rparr>) h (s\<lparr>klog := k\<rparr>) c r D"
proof -
  assume v: "view s0 h s c r D"
  have e: "s = s0\<lparr>bufs := bufs s, slocks := slocks s, vdisk := vdisk s, procs := procs s,
       dimage := dimage s, dpower := dpower s\<rparr>" using v by (simp add: view_def bio_frame_def)
  have "s\<lparr>klog := k\<rparr> = (s0\<lparr>klog := k\<rparr>)\<lparr>bufs := bufs s, slocks := slocks s, vdisk := vdisk s, procs := procs s,
       dimage := dimage s, dpower := dpower s\<rparr>"
    using arg_cong [OF e, of "\<lambda>x. x\<lparr>klog := k\<rparr>"] by simp
  then have "bio_frame (s0\<lparr>klog := k\<rparr>) (s\<lparr>klog := k\<rparr>)"
    using v unfolding view_def bio_frame_def by (simp add: wokep_def)
  moreover have "bio_inv (dom h) (s\<lparr>klog := k\<rparr>) = bio_inv (dom h) s" by (simp add: bio_inv_def mypid_def)
  moreover have "content (s\<lparr>klog := k\<rparr>) = content s" "refs (s\<lparr>klog := k\<rparr>) = refs s"
    by (auto simp: content_def refs_def fun_eq_iff split: option.splits)
  ultimately show ?thesis using v by (simp add: view_def)
qed

text \<open>The log that the header on the disk describes.\<close>

definition hdr_log :: "log \<Rightarrow> (nat \<Rightarrow> u8 list) \<Rightarrow> log" where
  "hdr_log l D = l\<lparr>lh_n := hdr_n l D, lh_block := (\<lambda>i. if i < nat (hdr_n l D) then hdr_block l D i else lh_block l i)\<rparr>"

lemma read_head_wpc:
  assumes "log_wf (hdr_log (klog s0) D)" and v: "view s0 (\<lambda>_. None) s c (\<lambda>_. 0) D"
    and Q: "\<And>t. view (s0\<lparr>klog := hdr_log (klog s0) D\<rparr>) (\<lambda>_. None) t c (\<lambda>_. 0) D \<Longrightarrow> Q () t"
  shows "wpc read_head Q C s"
proof -
  define l where "l = klog s0"
  define S where "S = log_start l"
  define n where "n = nat (hdr_n l D)"
  define f where "f = (\<lambda>i j. if j < i then hdr_block l D j else lh_block l j)"
  have w: "log_dev l = 1" "unat S < 2 ^ 31" "n < LOGSIZE"
    using assms(1) by (auto simp: log_wf_def hdr_log_def l_def S_def n_def)
  have "wpc (bread 1 S) (\<lambda>b. wpc (get_buf b b_data) (\<lambda>d. wpc (set_log (\<lambda>l. l\<lparr>lh_n := sint (ld32 d 0)\<rparr>)) (\<lambda>_.
     wpc (forM [0..<nat (sint (ld32 d 0))] (\<lambda>i. set_log_block i (ld32 d (4 + 4 * i)))) (\<lambda>_. wpc (brelse b) Q C) C) C) C) C s"
  proof (rule view_bread [OF v])
    fix b t assume t: "view s0 ((\<lambda>_. None)(b \<mapsto> S)) t c ((\<lambda>_. 0)(S := Suc 0)) D"
    let ?I = "\<lambda>i t. view (s0\<lparr>klog := l\<lparr>lh_n := hdr_n l D, lh_block := f i\<rparr>\<rparr>) [b \<mapsto> S] t c ((\<lambda>_. 0)(S := Suc 0)) D"
    have "c S = D (unat S)" using view_clean [OF v] by simp
    then have d: "b_data (bufs t b) = D (unat S)" using view_held(2) [OF t, of b S] by simp
    have "wpc (forM [0..<n] (\<lambda>i. set_log_block i (hdr_block l D i))) (\<lambda>_. wpc (brelse b) Q C) C (t\<lparr>klog := l\<lparr>lh_n := hdr_n l D\<rparr>\<rparr>)"
    proof (rule wpc_forM [where I = ?I])
      fix i u assume i: "i < n" and u: "?I i u"
      have "(f i)(i := hdr_block l D i) = f (Suc i)" by (auto simp: f_def fun_eq_iff)
      then show "wpc (set_log_block i (hdr_block l D i)) (\<lambda>_. ?I (Suc i)) C u"
        using view_set_log [OF u, of "l\<lparr>lh_n := hdr_n l D, lh_block := f (Suc i)\<rparr>"] view_klog [OF u] i w(3)
        by (simp add: set_log_block_def)
    next
      have "l\<lparr>lh_n := hdr_n l D, lh_block := f 0\<rparr> = l\<lparr>lh_n := hdr_n l D\<rparr>" by (simp add: f_def)
      then show "?I 0 (t\<lparr>klog := l\<lparr>lh_n := hdr_n l D\<rparr>\<rparr>)" using view_set_log [OF t] by simp
    next
      fix u assume u: "?I n u"
      have "l\<lparr>lh_n := hdr_n l D, lh_block := f n\<rparr> = hdr_log l D" by (simp add: f_def n_def hdr_log_def)
      then show "wpc (brelse b) Q C u"
        using view_brelse [OF u, of b S Q C] Q view_clean [OF v] by (simp add: l_def fun_upd_idem)
    qed
    then show "wpc (get_buf b b_data) (\<lambda>d. wpc (set_log (\<lambda>l. l\<lparr>lh_n := sint (ld32 d 0)\<rparr>)) (\<lambda>_.
       wpc (forM [0..<nat (sint (ld32 d 0))] (\<lambda>i. set_log_block i (ld32 d (4 + 4 * i)))) (\<lambda>_. wpc (brelse b) Q C) C) C) C t"
      using d view_klog [OF t] by (simp add: hdr_n_def hdr_block_def n_def S_def l_def)
  qed (use w in auto)
  then show ?thesis
    using view_klog [OF v] w(1) by (simp add: read_head_def wpc_bindM wpc_seqM S_def l_def)
qed

text \<open>
  \<open>recovers l D W\<close>: the log on the disk \<open>D\<close> is well formed, and installing it gives the blocks \<open>W\<close>
  outside the log.
\<close>

definition recovers :: "log \<Rightarrow> (nat \<Rightarrow> u8 list) \<Rightarrow> (u32 \<Rightarrow> u8 list) \<Rightarrow> bool" where
  "recovers l D W \<longleftrightarrow> log_wf (hdr_log l D)
     \<and> (\<forall>b. \<not> in_log l (unat b) \<longrightarrow> replay (hdr_log l D) D (unat b) = W b)"

lemma hdr_log_cong: "D (unat (log_start l)) = E (unat (log_start l)) \<Longrightarrow> hdr_log l D = hdr_log l E"
proof -
  assume a: "D (unat (log_start l)) = E (unat (log_start l))"
  have "hdr_n l D = hdr_n l E" "hdr_block l D = hdr_block l E"
    using a by (simp_all add: hdr_n_def hdr_block_def fun_eq_iff)
  then show ?thesis by (simp only: hdr_log_def)
qed

lemma in_log_cong [simp]: "in_log (l\<lparr>lh_n := n, lh_block := f\<rparr>) = in_log l" "in_log (l\<lparr>lh_n := n\<rparr>) = in_log l"
  by (simp_all add: in_log_def fun_eq_iff)

lemma in_log_hdr_log [simp]: "in_log (hdr_log l D) = in_log l" "log_start (hdr_log l D) = log_start l"
  by (simp_all add: hdr_log_def)

lemma in_log_start [simp]: "in_log l (unat (log_start l))"
  by (simp add: in_log_def)

lemma hdr_is_log:
  assumes "hdr_is l (D (unat (log_start l)))"
  shows "hdr_log l D = l"
proof -
  have "hdr_n l D = lh_n l" using assms by (simp add: hdr_is_def hdr_n_def)
  moreover have "(\<lambda>i. if i < nat (lh_n l) then hdr_block l D i else lh_block l i) = lh_block l"
    using assms by (auto simp: hdr_is_def hdr_block_def fun_eq_iff)
  ultimately show ?thesis by (simp add: hdr_log_def)
qed

lemma recovers_empty:
  assumes "log_wf l" "hdr_n l D = 0"
  shows "recovers l D W \<longleftrightarrow> (\<forall>b. \<not> in_log l (unat b) \<longrightarrow> D (unat b) = W b)"
  using assms by (simp add: recovers_def hdr_log_def log_wf_def logged_def)

lemma recovers_install:
  assumes "recovers l D W" "i \<le> nat (hdr_n l D)"
  shows "recovers l (install_upto (hdr_log l D) i D) W"
proof -
  have wf: "log_wf (hdr_log l D)" and i: "i \<le> nat (lh_n (hdr_log l D))" using assms by (simp_all add: recovers_def hdr_log_def)
  have "hdr_log l (install_upto (hdr_log l D) i D) = hdr_log l D"
    by (rule hdr_log_cong) (use install_upto_in_log [OF wf i] in simp)
  then show ?thesis using assms(1) replay_install_upto [OF wf i] by (simp add: recovers_def)
qed

lemma recovers_set_header:
  assumes "recovers l D W" "hdr_is (l\<lparr>lh_n := 0\<rparr>) d"
  shows "hdr_n l ((replay (hdr_log l D) D)(unat (log_start l) := d)) = 0"
    "\<not> in_log l (unat b) \<Longrightarrow> ((replay (hdr_log l D) D)(unat (log_start l) := d)) (unat b) = W b"
  using assms by (auto simp: hdr_n_def hdr_is_def recovers_def)

text \<open>What a finished commit or recovery leaves: an empty log, and the blocks \<open>W\<close> on the disk.\<close>

definition log_flushed :: "log \<Rightarrow> (u32 \<Rightarrow> u8 list) \<Rightarrow> kern \<Rightarrow> bool" where
  "log_flushed l W t \<longleftrightarrow> bio_inv {} t \<and> refs t = (\<lambda>_. 0) \<and> (\<exists>f. klog t = l\<lparr>lh_n := 0, lh_block := f\<rparr>) \<and> hdr_n l (block_at (dimage t)) = 0
     \<and> (\<forall>b. \<not> in_log l (unat b) \<longrightarrow> block_at (dimage t) (unat b) = W b)"

text \<open>Clearing the header after an installation.\<close>

lemma clear_head_wpc:
  assumes "recovers l D W" "hdr_log l D = klog s0" "view s0 (\<lambda>_. None) s c (\<lambda>_. 0) (replay (hdr_log l D) D)"
    "dpower s0 \<noteq> None \<Longrightarrow> C (replay (hdr_log l D) D)" "\<And>t. log_flushed l W t \<Longrightarrow> Q () t"
  shows "wpc (seqM (set_log (\<lambda>l. l\<lparr>lh_n := 0\<rparr>)) write_head) Q C s"
proof -
  define k where "k = (klog s0)\<lparr>lh_n := 0\<rparr>"
  have wf: "log_wf (klog s0)" using assms(1,2) by (simp add: recovers_def)
  have S: "log_start (klog s0) = log_start l" using assms(2) by (metis in_log_hdr_log(2))
  have v: "view (s0\<lparr>klog := k\<rparr>) (\<lambda>_. None) (s\<lparr>klog := k\<rparr>) c (\<lambda>_. 0) (replay (hdr_log l D) D)"
    by (rule view_set_log [OF assms(3)])
  have "wpc write_head Q C (s\<lparr>klog := k\<rparr>)"
  proof (rule write_head_wpc [OF _ _ _ _ v])
    fix d t
    assume d: "hdr_is (klog (s0\<lparr>klog := k\<rparr>)) d" and t: "view (s0\<lparr>klog := k\<rparr>) (\<lambda>_. None) t
        (c(log_start (klog (s0\<lparr>klog := k\<rparr>)) := d)) (\<lambda>_. 0) ((replay (hdr_log l D) D)(unat (log_start (klog (s0\<lparr>klog := k\<rparr>))) := d))"
    have "hdr_is (l\<lparr>lh_n := 0\<rparr>) d" using d by (simp add: k_def hdr_is_def)
    moreover have "\<exists>f. k = l\<lparr>lh_n := 0, lh_block := f\<rparr>"
      unfolding k_def assms(2) [symmetric] by (intro exI [of _ "lh_block (hdr_log l D)"]) (simp add: hdr_log_def)
    ultimately show "Q () t"
      using t view_klog [OF t] S recovers_set_header [OF assms(1)]
      by (intro assms(5)) (auto simp: log_flushed_def view_def k_def)
  qed (use wf assms(4) in \<open>auto simp: k_def log_wf_def\<close>)
  then show ?thesis using view_klog [OF assms(3)] by (simp add: wpc_seqM k_def)
qed

lemma recover_wpc:
  assumes "bio_inv {} s" "refs s = (\<lambda>_. 0)" "recovers (klog s) (block_at (dimage s)) W"
  shows "wpc recover_from_log (\<lambda>_. log_flushed (klog s) W) (\<lambda>D. dpower s \<noteq> None \<and> recovers (klog s) D W) s"
    (is "wpc _ ?Q ?C s")
proof -
  define l D where "l = klog s" and "D = block_at (dimage s)"
  have v: "view s (\<lambda>_. None) s (content s) (\<lambda>_. 0) D" using view_refl [OF assms(1)] assms(2) by (simp add: D_def)
  have wf: "log_wf (hdr_log l D)" and rec: "recovers l D W" using assms(3) by (simp_all add: recovers_def l_def D_def)
  have "wpc read_head (\<lambda>_. wpc (install_trans True) (\<lambda>_. wpc (seqM (set_log (\<lambda>l. l\<lparr>lh_n := 0\<rparr>)) write_head) ?Q ?C) ?C) ?C s"
  proof (rule read_head_wpc [OF _ v])
    fix t assume t: "view (s\<lparr>klog := hdr_log (klog s) D\<rparr>) (\<lambda>_. None) t (content s) (\<lambda>_. 0) D"
    show "wpc (install_trans True) (\<lambda>_. wpc (seqM (set_log (\<lambda>l. l\<lparr>lh_n := 0\<rparr>)) write_head) ?Q ?C) ?C t"
    proof (rule install_trans_wpc [where ?s0.0 = "s\<lparr>klog := hdr_log (klog s) D\<rparr>" and c = "content s" and D = D])
      show "view (s\<lparr>klog := hdr_log (klog s) D\<rparr>) (\<lambda>_. None) t (content s)
         (unpinned_upto True (klog (s\<lparr>klog := hdr_log (klog s) D\<rparr>)) 0) D"
        using t by (simp add: unpinned_upto_def [abs_def])
      fix d u assume u: "view (s\<lparr>klog := hdr_log (klog s) D\<rparr>) (\<lambda>_. None) u d (\<lambda>_. 0) (replay (klog (s\<lparr>klog := hdr_log (klog s) D\<rparr>)) D)"
      show "wpc (seqM (set_log (\<lambda>l. l\<lparr>lh_n := 0\<rparr>)) write_head) ?Q ?C u"
        by (rule clear_head_wpc [OF rec _ u [folded l_def, simplified]])
          (use recovers_install [OF rec order_refl] in \<open>simp_all add: l_def hdr_log_def\<close>)
    qed (use wf recovers_install [OF rec] in \<open>auto simp: l_def hdr_log_def\<close>)
  qed (use wf in \<open>simp add: l_def\<close>)
  then show ?thesis by (simp add: recover_from_log_def wpc_seqM)
qed

lemma writing_start:
  assumes "bio_inv {} s" "refs s = pins (klog s)"
  shows "writing s (content s) (block_at (dimage s)) 0 s"
  using view_refl [OF assms(1)] assms(2) by (auto simp: writing_def)

text \<open>The commit point: with the header written, the disk recovers to the new contents.\<close>

lemma committed_recovers:
  assumes "log_wf l" "hdr_is l d" "\<And>j. j < nat (lh_n l) \<Longrightarrow> D (unat (log_slot l j)) = new (lh_block l j)"
    "\<And>b. \<not> in_log l (unat b) \<Longrightarrow> b \<notin> logged l \<Longrightarrow> D (unat b) = new b"
  shows "hdr_log l (D(unat (log_start l) := d)) = l" "recovers l (D(unat (log_start l) := d)) new"
proof -
  let ?D = "D(unat (log_start l) := d)"
  show h: "hdr_log l ?D = l" using assms(2) by (simp add: hdr_is_log)
  have "replay l ?D (unat b) = new b" if b: "\<not> in_log l (unat b)" for b
  proof (cases "b \<in> logged l")
    case True
    then obtain j where j: "j < nat (lh_n l)" "b = lh_block l j" by (auto simp: logged_def)
    have "unat (log_slot l j) \<noteq> unat (log_start l)"
      using unat_log_slot [OF assms(1) log_wf_n(2) [OF assms(1) j(1)]] by simp
    then show ?thesis using install_upto_block [OF assms(1) order_refl j(1)] j assms(3) by simp
  next
    case False
    have "unat (lh_block l j) \<noteq> unat b" if "j < nat (lh_n l)" for j
      using False logged_nth [OF that] unsigned_word_eqI by metis
    moreover have "unat b \<noteq> unat (log_start l)" using b in_log_start by metis
    ultimately show ?thesis using install_upto_other [of "nat (lh_n l)" l "unat b" ?D] assms(4) [OF b False] by simp
  qed
  then show "recovers l ?D new" using assms(1) h by (simp add: recovers_def)
qed

lemma install_committed_wpc:
  assumes "log_wf (klog s0)" "recovers (klog s0) D new" "hdr_log (klog s0) D = klog s0" "view s0 (\<lambda>_. None) t c (pins (klog s0)) D"
  shows "wpc (install_trans False) (\<lambda>_. wpc (seqM (set_log (\<lambda>l. l\<lparr>lh_n := 0\<rparr>)) write_head)
    (\<lambda>_. log_flushed (klog s0) new) (\<lambda>D. dpower s0 \<noteq> None \<and> recovers (klog s0) D new))
    (\<lambda>D. dpower s0 \<noteq> None \<and> recovers (klog s0) D new) t"
proof (rule install_trans_wpc [OF assms(1)])
  have "unpinned_upto False (klog s0) 0 = pins (klog s0)"
    by (auto simp: unpinned_upto_def pins_def logged_def fun_eq_iff)
  then show "view s0 (\<lambda>_. None) t c (unpinned_upto False (klog s0) 0) D" using assms(4) by simp
  have n: "hdr_n (klog s0) D = lh_n (klog s0)" using arg_cong [OF assms(3), of lh_n] by (simp add: hdr_log_def)
  note r = recovers_install [OF assms(2)]
  fix i assume "dpower s0 \<noteq> None" "i \<le> nat (lh_n (klog s0))"
  then show "dpower s0 \<noteq> None \<and> recovers (klog s0) (install_upto (klog s0) i D) new"
    using r [of i] n assms(3) by simp
next
  fix d u assume u: "view s0 (\<lambda>_. None) u d (\<lambda>_. 0) (replay (klog s0) D)"
  have n: "hdr_n (klog s0) D = lh_n (klog s0)" using arg_cong [OF assms(3), of lh_n] by (simp add: hdr_log_def)
  show "wpc (seqM (set_log (\<lambda>l. l\<lparr>lh_n := 0\<rparr>)) write_head) (\<lambda>_. log_flushed (klog s0) new)
     (\<lambda>D. dpower s0 \<noteq> None \<and> recovers (klog s0) D new) u"
    by (rule clear_head_wpc [OF assms(2,3)])
      (use u assms(3) recovers_install [OF assms(2) order_refl] n in simp_all)
qed

lemma commit_wpc:
  assumes "bio_inv {} s" "log_wf (klog s)" "0 < lh_n (klog s)" "refs s = pins (klog s)" "hdr_n (klog s) (block_at (dimage s)) = 0"
  shows "wpc commit (\<lambda>_. log_flushed (klog s) (content s))
    (\<lambda>D. dpower s \<noteq> None \<and> (recovers (klog s) D (\<lambda>b. block_at (dimage s) (unat b)) \<or> recovers (klog s) D (content s))) s"
    (is "wpc _ ?Q ?C s")
proof -
  define l new where "l = klog s" and "new = content s"
  have early: "recovers l D (\<lambda>b. block_at (dimage s) (unat b))"
    if "\<forall>m. outside (klog s) m \<longrightarrow> D m = block_at (dimage s) m" for D
  proof -
    have "hdr_n l D = 0" using that assms(5) by (simp add: hdr_n_def outside_def l_def)
    then show ?thesis using that assms(2) by (simp add: recovers_empty outside_def l_def)
  qed
  have "wpc write_log (\<lambda>_. wpc write_head (\<lambda>_. wpc (install_trans False)
      (\<lambda>_. wpc (seqM (set_log (\<lambda>l. l\<lparr>lh_n := 0\<rparr>)) write_head) ?Q ?C) ?C) ?C) ?C s"
  proof (rule write_log_wpc [OF assms(2) writing_start [OF assms(1,4)]])
    fix t assume "writing s (content s) (block_at (dimage s)) (nat (lh_n (klog s))) t"
    then obtain c D where v: "view s (\<lambda>_. None) t c (pins l) D" "\<And>b. \<not> in_log l (unat b) \<Longrightarrow> c b = new b"
       "\<And>j. j < nat (lh_n l) \<Longrightarrow> D (unat (log_slot l j)) = new (lh_block l j)" "\<forall>m. outside l m \<longrightarrow> D m = block_at (dimage s) m"
      by (auto simp: writing_def l_def new_def)
    have S: "pins l (log_start l) = 0" using assms(2) in_log_start by (auto simp: pins_def log_wf_def l_def)
    show "wpc write_head (\<lambda>_. wpc (install_trans False)
      (\<lambda>_. wpc (seqM (set_log (\<lambda>l. l\<lparr>lh_n := 0\<rparr>)) write_head) ?Q ?C) ?C) ?C t"
    proof (rule write_head_wpc [OF _ _ _ _ v(1)])
      fix d u assume d: "hdr_is (klog s) d"
        and u: "view s (\<lambda>_. None) u (c(log_start (klog s) := d)) (pins l) (D(unat (log_start (klog s)) := d))"
      have clean: "D (unat b) = new b" if "\<not> in_log l (unat b)" "b \<notin> logged l" for b
        using view_clean [OF v(1), of b] v(2) that by (simp add: pins_def)
      note com = committed_recovers [OF assms(2) d, of D new, folded l_def, OF v(3) clean, unfolded l_def new_def]
      show "wpc (install_trans False) (\<lambda>_. wpc (seqM (set_log (\<lambda>l. l\<lparr>lh_n := 0\<rparr>)) write_head) ?Q ?C) ?C u"
        using install_committed_wpc [OF assms(2) com(2,1) u [unfolded l_def]]
        by (rule wpc_mono) (auto intro: wpc_mono)
    qed (use assms(2) S card_logged [OF assms(2)] early v(4) in \<open>auto simp: log_wf_def l_def\<close>)
  qed (use early in \<open>simp add: l_def\<close>)
  then show ?thesis using assms(3) by (simp add: commit_def wpc_bindM wpc_seqM whenM_def)
qed

subsection \<open>Adding a block to the transaction\<close>

definition log_add :: "log \<Rightarrow> u32 \<Rightarrow> log" where
  "log_add l n = (if n \<in> logged l then l else l\<lparr>lh_block := (lh_block l)(nat (lh_n l) := n), lh_n := lh_n l + 1\<rparr>)"

lemma log_add_wf:
  assumes "log_wf l" "unat n < 2 ^ 31" "\<not> in_log l (unat n)" "lh_n l < int LOGSIZE - 1"
  shows "log_wf (log_add l n)" "logged (log_add l n) = insert n (logged l)" "pins (log_add l n) = (pins l)(n := 1)"
proof -
  have "log_wf (log_add l n) \<and> logged (log_add l n) = insert n (logged l)"
  proof (cases "n \<in> logged l")
    case True
    then show ?thesis using assms(1) by (auto simp: log_add_def)
  next
    case False
    have n0: "0 \<le> lh_n l" using assms(1) by (simp add: log_wf_def)
    have up: "{..<nat (lh_n l + 1)} = insert (nat (lh_n l)) {..<nat (lh_n l)}"
      using n0 by (simp add: nat_add_distrib lessThan_Suc)
    have s: "logged (log_add l n) = insert n (logged l)"
      unfolding logged_def using False up by (auto simp: log_add_def)
    moreover have "inj_on ((lh_block l)(nat (lh_n l) := n)) {..<nat (lh_n l + 1)}"
      unfolding up using assms(1) False by (auto simp: inj_on_def log_wf_def logged_def)
    ultimately show ?thesis
      using assms False n0 by (simp add: log_wf_def log_add_def in_log_def)
  qed
  then show "log_wf (log_add l n)" "logged (log_add l n) = insert n (logged l)" by blast+
  then show "pins (log_add l n) = (pins l)(n := 1)" by (auto simp: pins_def fun_eq_iff)
qed

lemma bpin_held:
  assumes "held lk s" "lk \<noteq> BcacheLock"
  shows "bpin b s = Ret () (s\<lparr>bufs := (bufs s)(b := (bufs s b)\<lparr>b_refcnt := b_refcnt (bufs s b) + 1\<rparr>)\<rparr>)"
proof -
  have f: "lock_free BcacheLock s" "intr_wf s" "settle s = s"
    using assms settle_in_cs [of lk s] by (auto simp: held_def)
  then show ?thesis by (simp add: bpin_def acquire_free release_in_cs rel_acq)
qed

lemma log_write_run:
  assumes "calm s" "0 \<le> lh_n (klog s)" "lh_n (klog s) < int LOGSIZE" "lh_n (klog s) < log_size (klog s) - 1" "1 \<le> log_outstanding (klog s)"
  shows "log_write b s = Ret () (if b_blockno (bufs s b) \<in> logged (klog s) then s
    else s\<lparr>bufs := (bufs s)(b := (bufs s b)\<lparr>b_refcnt := b_refcnt (bufs s b) + 1\<rparr>), klog := log_add (klog s) (b_blockno (bufs s b))\<rparr>)"
proof -
  define l n where "l = klog s" and "n = b_blockno (bufs s b)"
  let ?f = "find (\<lambda>i. lh_block l i = n) [0..<nat (lh_n l)]"
  show ?thesis
  proof (cases "n \<in> logged l")
    case True
    then obtain i where i: "?f = Some i" "i < nat (lh_n l)" "lh_block l i = n"
      by (cases ?f) (auto simp: logged_def find_None_iff find_Some_iff)
    then have "(lh_block l)(i := n) = lh_block l" "i < LOGSIZE" using assms(3) by (auto simp: l_def)
    then show ?thesis
      using True i assms
      by (simp add: log_write_def acquire_calm release_held set_log_block_def whenM_def l_def n_def)
  next
    case False
    have "?f = None" "nat (lh_n l) < LOGSIZE" using False assms(3) by (auto simp: logged_def find_None_iff l_def)
    then show ?thesis
      using False assms
      by (simp add: log_write_def acquire_calm release_held set_log_block_def whenM_def l_def n_def
          bpin_held [of LogLock] log_add_def Let_def)
  qed
qed

lemma view_log_write:
  assumes v: "view s0 h s c r D" "h b = Some n" and "log_wf (klog s0)" "r n < 2 ^ 32 - 1"
    "lh_n (klog s0) < log_size (klog s0) - 1" "1 \<le> log_outstanding (klog s0)"
    "\<And>t. view (s0\<lparr>klog := log_add (klog s0) n\<rparr>) h t c (if n \<in> logged (klog s0) then r else r(n := Suc (r n))) D \<Longrightarrow> Q () t"
  shows "wpc (log_write b) Q C s"
proof -
  have k: "klog s = klog s0" and n: "b_blockno (bufs s b) = n" and cm: "calm s"
    using view_klog [OF v(1)] view_held [OF v] by (auto simp: bio_inv_def)
  note run = log_write_run [OF cm, of b, unfolded k n]
  show ?thesis
  proof (cases "n \<in> logged (klog s0)")
    case True
    then have "log_write b s = Ret () s" using run assms(3,5,6) by (simp add: log_wf_def)
    moreover have "s0\<lparr>klog := log_add (klog s0) n\<rparr> = s0" using True by (simp add: log_add_def)
    ultimately show ?thesis using assms(7) True v(1) by (auto intro: wpc_Ret)
  next
    case False
    define u where "u = s\<lparr>bufs := (bufs s)(b := (bufs s b)\<lparr>b_refcnt := b_refcnt (bufs s b) + 1\<rparr>)\<rparr>"
    have "bpin b s = Ret () u" using cm by (simp add: bpin_def acquire_calm release_held u_def)
    then have "view s0 h u c (r(n := Suc (r n))) D"
      using view_bpin [OF v assms(4), of "\<lambda>_ t. view s0 h t c (r(n := Suc (r n))) D"] by (simp add: wpc_def)
    from view_set_log [OF this] have "view (s0\<lparr>klog := log_add (klog s0) n\<rparr>) h (u\<lparr>klog := log_add (klog s0) n\<rparr>) c (r(n := Suc (r n))) D" .
    moreover have "log_write b s = Ret () (u\<lparr>klog := log_add (klog s0) n\<rparr>)"
      using run False assms(3,5,6) by (simp add: log_wf_def u_def)
    ultimately show ?thesis using assms(7) False by (auto intro: wpc_Ret)
  qed
qed

text \<open>
  \<open>in_txn s0 s c\<close>: inside a transaction, between the uses of buffers. The log pins exactly the blocks of the
  transaction, the blocks have the contents \<open>c\<close>.
\<close>

definition log_ok :: "kern \<Rightarrow> bool" where
  "log_ok s \<longleftrightarrow> bio_inv {} s \<and> log_wf (klog s) \<and> refs s = pins (klog s) \<and> hdr_n (klog s) (block_at (dimage s)) = 0"

text \<open>The idiom of the file system: read a block, modify it, log it, release it.\<close>

definition log_update :: "u32 \<Rightarrow> (u8 list \<Rightarrow> u8 list) \<Rightarrow> unit K" where
  "log_update n f = bindM (bread 1 n) (\<lambda>b.
     seqM (set_buf b (\<lambda>c. c\<lparr>b_data := f (b_data c)\<rparr>)) (seqM (log_write b) (brelse b)))"

lemma log_update_wpc:
  assumes "log_ok s" "unat n < 2 ^ 31" "\<not> in_log (klog s) (unat n)" "lh_n (klog s) < log_size (klog s) - 1" "log_size (klog s) \<le> 30"
    "1 \<le> log_outstanding (klog s)" "\<And>d. length d = BSIZE \<Longrightarrow> length (f d) = BSIZE"
  shows "wpc (log_update n f) (\<lambda>_ t. log_ok t \<and> klog t = log_add (klog s) n
    \<and> content t = (content s)(n := f (content s n)) \<and> block_at (dimage t) = block_at (dimage s) \<and> bio_frame (s\<lparr>klog := klog t\<rparr>) t) (\<lambda>_. False) s"
    (is "wpc _ ?Q ?C s")
proof -
  define l where "l = klog s"
  have ok: "bio_inv {} s" "log_wf l" "refs s = pins l" "hdr_n l (block_at (dimage s)) = 0" using assms(1) by (simp_all add: log_ok_def l_def)
  have "lh_n l < int LOGSIZE - 1" using assms(4,5) by (simp add: l_def)
  note add = log_add_wf [OF ok(2) assms(2) assms(3) [folded l_def] this]
  have v: "view s (\<lambda>_. None) s (content s) (pins l) (block_at (dimage s))" using view_refl [OF ok(1)] ok(3) by simp
  have "wpc (bread 1 n) (\<lambda>b. wpc (set_buf b (\<lambda>c. c\<lparr>b_data := f (b_data c)\<rparr>)) (\<lambda>_. wpc (log_write b) (\<lambda>_. wpc (brelse b) ?Q ?C) ?C) ?C) ?C s"
  proof (rule view_bread [OF v])
    fix b t assume t: "view s ((\<lambda>_. None)(b \<mapsto> n)) t (content s) ((pins l)(n := Suc (pins l n))) (block_at (dimage s))"
    let ?t = "t\<lparr>bufs := (bufs t)(b := (bufs t b)\<lparr>b_data := f (b_data (bufs t b))\<rparr>)\<rparr>"
    have len: "length (f (b_data (bufs t b))) = BSIZE" and d: "b_data (bufs t b) = content s n"
      using view_held(2) [OF t, of b n] view_length [OF t, of n] assms(7) by simp_all
    have put: "view s ((\<lambda>_. None)(b \<mapsto> n)) ?t ((content s)(n := f (b_data (bufs t b)))) ((pins l)(n := Suc (pins l n))) (block_at (dimage s))"
      by (rule view_put [OF t _ len]) simp
    have "wpc (log_write b) (\<lambda>_. wpc (brelse b) ?Q ?C) ?C ?t"
    proof (rule view_log_write [OF put, of b n])
      fix u assume u: "view (s\<lparr>klog := log_add (klog s) n\<rparr>) ((\<lambda>_. None)(b \<mapsto> n)) u ((content s)(n := f (b_data (bufs t b))))
         (if n \<in> logged (klog s) then (pins l)(n := Suc (pins l n))
          else ((pins l)(n := Suc (pins l n)))(n := Suc (((pins l)(n := Suc (pins l n))) n))) (block_at (dimage s))"
      have r: "(if n \<in> logged (klog s) then (pins l)(n := Suc (pins l n))
          else ((pins l)(n := Suc (pins l n)))(n := Suc (((pins l)(n := Suc (pins l n))) n))) = (pins l)(n := 2)"
        by (auto simp: pins_def l_def)
      show "wpc (brelse b) ?Q ?C u"
      proof (rule view_brelse [OF u [unfolded r], of b n])
        fix w assume w: "view (s\<lparr>klog := log_add (klog s) n\<rparr>) ((\<lambda>_. None)(b \<mapsto> n, b := None)) w
          ((content s)(n := f (b_data (bufs t b)))) ((pins l)(n := 2, n := ((pins l)(n := 2)) n - 1)) (block_at (dimage s))"
        then have "view (s\<lparr>klog := log_add l n\<rparr>) (\<lambda>_. None) w ((content s)(n := f (content s n))) (pins (log_add l n)) (block_at (dimage s))"
          using add(3) d by (simp add: l_def fun_upd_idem)
        then show "?Q () w"
          using view_klog [OF w] add(1) ok(4) by (auto simp: view_def log_ok_def l_def hdr_n_def log_add_def)
      qed simp_all
    qed (use assms(4-6) ok(2) in \<open>simp_all add: l_def pins_def\<close>)
    then show "wpc (set_buf b (\<lambda>c. c\<lparr>b_data := f (b_data c)\<rparr>)) (\<lambda>_. wpc (log_write b) (\<lambda>_. wpc (brelse b) ?Q ?C) ?C) ?C t"
      by simp
  qed (use assms(2) card_logged [OF ok(2)] in \<open>auto simp: pins_def\<close>)
  then show ?thesis by (simp add: log_update_def wpc_bindM wpc_seqM)
qed

subsection \<open>The end of a transaction\<close>

lemma log_fields_cong [simp]:
  "in_log (l\<lparr>log_outstanding := x\<rparr>) = in_log l" "in_log (l\<lparr>log_committing := y\<rparr>) = in_log l"
  "hdr_n (l\<lparr>log_outstanding := x\<rparr>) = hdr_n l" "hdr_n (l\<lparr>log_committing := y\<rparr>) = hdr_n l"
  "pins (l\<lparr>log_outstanding := x\<rparr>) = pins l" "pins (l\<lparr>log_committing := y\<rparr>) = pins l"
  "log_wf (l\<lparr>log_outstanding := x\<rparr>) = log_wf l" "log_wf (l\<lparr>log_committing := y\<rparr>) = log_wf l"
  by (simp_all add: in_log_def hdr_n_def pins_def log_wf_def logged_def fun_eq_iff)

lemma cache_klog [simp]:
  "bio_inv H (s\<lparr>klog := k\<rparr>) = bio_inv H s" "content (s\<lparr>klog := k\<rparr>) = content s" "refs (s\<lparr>klog := k\<rparr>) = refs s"
  by (auto simp: bio_inv_def mypid_def content_def refs_def fun_eq_iff split: option.splits)

lemma cache_woken:
  assumes "wokep s pr"
  shows "bio_inv H (s\<lparr>procs := pr\<rparr>) = bio_inv H s" "refs (s\<lparr>procs := pr\<rparr>) = refs s"
proof -
  have "mypid (s\<lparr>procs := pr\<rparr>) = mypid s" using wokep_me [OF assms] by (simp add: mypid_def)
  then show "bio_inv H (s\<lparr>procs := pr\<rparr>) = bio_inv H s" by (simp add: bio_inv_def)
  show "refs (s\<lparr>procs := pr\<rparr>) = refs s" by (auto simp: refs_def fun_eq_iff split: option.splits)
qed

text \<open>What is on the disk after a power failure depends on where the log is, not on the log in memory.\<close>

lemma recovers_cong:
  assumes "log_start k = log_start l" "log_dev k = log_dev l"
  shows "recovers k D W = recovers l D W"
proof -
  have h: "hdr_n k = hdr_n l" "hdr_block k = hdr_block l" "in_log k = in_log l" "log_slot k = log_slot l"
    using assms by (simp_all add: hdr_n_def hdr_block_def in_log_def log_slot_def fun_eq_iff)
  let ?n = "nat (hdr_n l D)"
  have "lh_block (hdr_log k D) ` {..<?n} = lh_block (hdr_log l D) ` {..<?n}"
    "inj_on (lh_block (hdr_log k D)) {..<?n} = inj_on (lh_block (hdr_log l D)) {..<?n}"
    using h by (auto simp: hdr_log_def inj_on_def)
  then have "log_wf (hdr_log k D) = log_wf (hdr_log l D)"
    using assms h by (simp add: log_wf_def logged_def) (simp add: hdr_log_def)
  moreover have "find (\<lambda>j. unat (lh_block (hdr_log k D) j) = m) [0..<?n] = find (\<lambda>j. unat (lh_block (hdr_log l D) j) = m) [0..<?n]" for m
    by (rule find_cong) (use h in \<open>auto simp: hdr_log_def\<close>)
  moreover have "log_slot (hdr_log k D) = log_slot (hdr_log l D)" "lh_n (hdr_log k D) = hdr_n l D" "lh_n (hdr_log l D) = hdr_n l D"
    using h assms by (simp_all add: log_slot_def fun_eq_iff) (simp_all add: hdr_log_def)
  ultimately have "log_wf (hdr_log k D) = log_wf (hdr_log l D)" "replay (hdr_log k D) D = replay (hdr_log l D) D"
    by (simp, intro ext) (simp only: install_upto_def)
  then show ?thesis using h by (simp add: recovers_def)
qed

lemma commit_ok:
  assumes "log_ok s"
  shows "wpc commit (\<lambda>_. log_flushed (klog s) (content s))
    (\<lambda>D. dpower s \<noteq> None \<and> (recovers (klog s) D (\<lambda>b. block_at (dimage s) (unat b)) \<or> recovers (klog s) D (content s))) s"
proof (cases "0 < lh_n (klog s)")
  case True
  then show ?thesis using commit_wpc assms by (simp add: log_ok_def)
next
  case False
  then have "lh_n (klog s) = 0" "refs s = (\<lambda>_. 0)"
    using assms by (auto simp: log_ok_def log_wf_def pins_def logged_def fun_eq_iff)
  moreover have "bio_inv {} s" using assms by (simp add: log_ok_def)
  then have "block_at (dimage s) (unat b) = content s b" for b
    using view_clean [OF view_refl] calculation(2) by metis
  moreover have "\<exists>f. klog s = (klog s)\<lparr>lh_n := 0, lh_block := f\<rparr>"
    using calculation(1) by (intro exI [of _ "lh_block (klog s)"]) simp
  ultimately have "log_flushed (klog s) (content s) s" using assms by (simp add: log_flushed_def log_ok_def)
  then show ?thesis using False by (simp add: commit_def wpc_bindM whenM_def)
qed

text \<open>The second half of \<^verbatim>\<open>end_op\<close>, after the commit.\<close>

lemma end_op_finish:
  assumes "log_flushed l W t"
  shows "wpc (seqM (acquire LogLock) (seqM (set_log (\<lambda>l. l\<lparr>log_committing := False\<rparr>)) (seqM (wakeup ChanLog) (release LogLock))))
    (\<lambda>_. log_flushed (l\<lparr>log_committing := False\<rparr>) W) C t"
proof -
  have c: "calm t" using assms by (simp add: log_flushed_def bio_inv_def)
  define u where "u = t\<lparr>klog := (klog t)\<lparr>log_committing := False\<rparr>\<rparr>"
  have cu: "calm u" using c by (simp add: u_def)
  obtain pr where pr: "wakeup ChanLog (acq LogLock u) = Ret () ((acq LogLock u)\<lparr>procs := pr\<rparr>)" "wokep (acq LogLock u) pr"
    using wakeup_cs [of LogLock "acq LogLock u" ChanLog] cu by auto
  have w: "wokep u pr" using pr(2) by (simp add: wokep_def)
  have "seqM (acquire LogLock) (seqM (set_log (\<lambda>l. l\<lparr>log_committing := False\<rparr>)) (seqM (wakeup ChanLog) (release LogLock))) t
      = Ret () (u\<lparr>procs := pr\<rparr>)"
    using c cu pr(1) by (simp add: acquire_calm u_def release_held)
  moreover have "log_flushed (l\<lparr>log_committing := False\<rparr>) W (u\<lparr>procs := pr\<rparr>)"
  proof -
    obtain f where "klog t = l\<lparr>lh_n := 0, lh_block := f\<rparr>" using assms by (auto simp: log_flushed_def)
    then have "\<exists>f. klog (u\<lparr>procs := pr\<rparr>) = l\<lparr>log_committing := False, lh_n := 0, lh_block := f\<rparr>"
      by (intro exI [of _ f]) (simp add: u_def)
    then show ?thesis using assms cache_woken [OF w] by (simp add: log_flushed_def) (simp add: u_def)
  qed
  ultimately show ?thesis by (auto intro: wpc_Ret)
qed

lemma end_op_wpc:
  assumes "log_ok s" "log_outstanding (klog s) = 1" "\<not> log_committing (klog s)"
  shows "wpc end_op (\<lambda>_. log_flushed ((klog s)\<lparr>log_outstanding := 0\<rparr>) (content s))
    (\<lambda>D. dpower s \<noteq> None \<and> (recovers (klog s) D (\<lambda>b. block_at (dimage s) (unat b)) \<or> recovers (klog s) D (content s))) s"
    (is "wpc _ ?Q ?C s")
proof -
  define k where "k = (klog s)\<lparr>log_outstanding := 0, log_committing := True\<rparr>"
  let ?fin = "seqM (acquire LogLock) (seqM (set_log (\<lambda>l. l\<lparr>log_committing := False\<rparr>)) (seqM (wakeup ChanLog) (release LogLock)))"
  have c: "calm s" using assms(1) by (simp add: log_ok_def bio_inv_def)
  have ok: "log_ok (s\<lparr>klog := k\<rparr>)" using assms(1) by (simp add: log_ok_def k_def)
  have r: "recovers k D W = recovers (klog s) D W" for D W by (rule recovers_cong) (simp_all add: k_def)
  have "k\<lparr>log_committing := False\<rparr> = (klog s)\<lparr>log_outstanding := 0\<rparr>" using assms(3) by (simp add: k_def)
  then have "wpc ?fin ?Q ?C t" if "log_flushed k (content s) t" for t
    using end_op_finish [OF that] by simp
  then have "wpc (seqM commit ?fin) ?Q ?C (s\<lparr>klog := k\<rparr>)"
    using commit_ok [OF ok] by (auto simp: wpc_seqM r elim!: wpc_mono)
  moreover have "end_op s = seqM commit ?fin (s\<lparr>klog := k\<rparr>)"
    using c assms(2,3) by (simp add: end_op_def acquire_calm release_held whenM_def Let_def k_def)
  ultimately show ?thesis by (simp add: wpc_def)
qed

text \<open>
  C1: a transaction is atomic with respect to power failures. Ending the last operation of a
  transaction commits it: when \<^verbatim>\<open>end_op\<close> returns, every block outside the log has on the disk the
  contents it had in the cache, and the log is empty. The power may fail before any of the disk writes
  of the commit, and then \<^verbatim>\<open>recover_from_log\<close>, run on the disk as it was left, makes either none of the
  transaction's writes or all of them; a failure during the recovery leaves a disk that recovers to the same contents.
\<close>

theorem end_op_is_atomic:
  assumes "log_ok s" "log_outstanding (klog s) = 1" "\<not> log_committing (klog s)"
  shows "case end_op s of
      Ret _ t \<Rightarrow> log_flushed ((klog s)\<lparr>log_outstanding := 0\<rparr>) (content s) t
    | Stop r t \<Rightarrow> r = Fault ''power failure'' \<and> dpower s \<noteq> None
        \<and> (\<exists>W \<in> {\<lambda>b. block_at (dimage s) (unat b), content s}.
            \<forall>u. bio_inv {} u \<and> refs u = (\<lambda>_. 0) \<and> dimage u = dimage t
              \<and> log_start (klog u) = log_start (klog s) \<and> log_dev (klog u) = log_dev (klog s) \<longrightarrow>
            (case recover_from_log u of Ret _ v \<Rightarrow> log_flushed (klog u) W v
             | Stop r' v \<Rightarrow> r' = Fault ''power failure'' \<and> dpower u \<noteq> None \<and> recovers (klog u) (block_at (dimage v)) W))"
proof (cases "end_op s")
  case (Ret x t)
  then show ?thesis using end_op_wpc [OF assms] by (simp add: wpc_def)
next
  case (Stop r t)
  then obtain W where W: "r = Fault ''power failure''" "dpower s \<noteq> None" "W \<in> {\<lambda>b. block_at (dimage s) (unat b), content s}"
      "recovers (klog s) (block_at (dimage t)) W"
    using end_op_wpc [OF assms] by (auto simp: wpc_def)
  have "case recover_from_log u of Ret _ v \<Rightarrow> log_flushed (klog u) W v
      | Stop r' v \<Rightarrow> r' = Fault ''power failure'' \<and> dpower u \<noteq> None \<and> recovers (klog u) (block_at (dimage v)) W"
    if "bio_inv {} u \<and> refs u = (\<lambda>_. 0) \<and> dimage u = dimage t
        \<and> log_start (klog u) = log_start (klog s) \<and> log_dev (klog u) = log_dev (klog s)" for u
    using that W(4) recovers_cong [of "klog u" "klog s"] recover_wpc [of u W] by (simp add: wpc_def split: outcome.splits)
  then show ?thesis using W(1-3) Stop by auto
qed

text \<open>A kernel inside a transaction that has written block 100.\<close>

lemma demo_transaction:
  "\<exists>s. log_ok s \<and> log_outstanding (klog s) = 1 \<and> \<not> log_committing (klog s) \<and> dpower s = None \<and> \<not> in_log (klog s) 100
     \<and> lh_n (klog s) = 1 \<and> content s 100 = replicate BSIZE 7 \<and> block_at (dimage s) 100 = replicate BSIZE 0
     \<and> log_size (klog s) = 30 \<and> log_start (klog s) = 2 \<and> logged (klog s) = {100}
     \<and> (\<forall>n. n \<noteq> 100 \<longrightarrow> content s n = replicate BSIZE 0)"
proof -
  define s0 where "s0 = booted\<lparr>dimage := (\<lambda>_. 0), klog := (klog booted)\<lparr>log_outstanding := 1\<rparr>\<rparr>"
  have l: "klog s0 = \<lparr>log_start = 2, log_size = 30, log_outstanding = 1, log_committing = False, log_dev = 1, lh_n = 0, lh_block = (\<lambda>_. 0)\<rparr>"
    by (simp add: s0_def booted_unfold)
  obtain s where s: "binit s0 = Ret () s" "bio_inv {} s" "refs s = (\<lambda>_. 0)" "\<forall>n. content s n = block_at (dimage s0) (unat n)"
      "dimage s = dimage s0" "dpower s = dpower s0" "klog s = klog s0"
    using binit_run [of s0] zero_bufs_booted by (auto simp: s0_def)
  have "log_ok s"
    using s(2,3,5,7) l
    by (auto simp: log_ok_def log_wf_def logged_def pins_def fun_eq_iff hdr_n_def block_at_def ld32_def s0_def)
  then have "wpc (log_update 100 (\<lambda>_. replicate BSIZE 7)) (\<lambda>_ t. log_ok t \<and> klog t = log_add (klog s) 100
    \<and> content t = (content s)(100 := replicate BSIZE 7) \<and> block_at (dimage t) = block_at (dimage s)
    \<and> bio_frame (s\<lparr>klog := klog t\<rparr>) t) (\<lambda>_. False) s"
    using log_update_wpc [of s 100 "\<lambda>_. replicate BSIZE 7"] s(7) l by (simp add: in_log_def)
  then obtain t where "log_ok t" "klog t = log_add (klog s0) 100" "content t = (content s)(100 := replicate BSIZE 7)"
     "block_at (dimage t) = block_at (\<lambda>_. 0)" "dpower t = None"
    using s(5-7) by (auto simp: wpc_def s0_def bio_frame_def split: outcome.splits)
  moreover have "block_at (\<lambda>_. 0 :: u8) n = replicate BSIZE 0" for n by (simp add: block_at_def map_replicate_const)
  moreover have "content s n = block_at (\<lambda>_. 0) (unat n)" for n using s(4) by (simp add: s0_def)
  ultimately show ?thesis using l by (intro exI [of _ t]) (simp add: log_add_def logged_def in_log_def lessThan_Suc)
qed

theorem end_op_is_atomic_witness:
  "\<exists>s t. log_ok s \<and> block_at (dimage s) 100 = replicate BSIZE 0 \<and> end_op s = Ret () t \<and> block_at (dimage t) 100 = replicate BSIZE 7"
proof -
  obtain s where s: "log_ok s" "log_outstanding (klog s) = 1" "\<not> log_committing (klog s)" "dpower s = None" "\<not> in_log (klog s) 100"
      "content s 100 = replicate BSIZE 7" "block_at (dimage s) 100 = replicate BSIZE 0"
    using demo_transaction by blast
  from end_op_is_atomic [OF s(1-3)] s(4) obtain t where "end_op s = Ret () t" "log_flushed ((klog s)\<lparr>log_outstanding := 0\<rparr>) (content s) t"
    by (cases "end_op s") auto
  moreover from this(2) have "block_at (dimage t) (unat (100 :: u32)) = content s 100"
    using s(5) unfolding log_flushed_def by (auto dest: spec [of _ "100 :: u32"])
  ultimately show ?thesis using s by auto
qed

text \<open>
  C16: \<^verbatim>\<open>log_write\<close> records a block once. The block is among the blocks of the transaction afterwards, no
  other block is added, and only a block that was not there yet is pinned in the cache (absorption); the log
  stays well formed and the contents of the blocks do not change. The call panics when the
  header holds \<open>log_size - 1\<close> blocks, even if the block is one of them, and when no operation is
  running.
\<close>

theorem log_write_absorbs:
  assumes "bio_inv H s" "b \<in> H" "log_wf (klog s)" "log_size (klog s) \<le> 30" "\<not> in_log (klog s) (unat (b_blockno (bufs s b)))"
    "refs s (b_blockno (bufs s b)) < 2 ^ 32 - 1"
  shows "if log_size (klog s) - 1 \<le> lh_n (klog s) then \<exists>t. log_write b s = Stop (Panic ''too big a transaction'') t
    else if log_outstanding (klog s) < 1 then \<exists>t. log_write b s = Stop (Panic ''log_write outside of trans'') t
    else \<exists>t. log_write b s = Ret () t \<and> bio_inv H t \<and> log_wf (klog t)
      \<and> logged (klog t) = insert (b_blockno (bufs s b)) (logged (klog s)) \<and> content t = content s
      \<and> refs t = (if b_blockno (bufs s b) \<in> logged (klog s) then refs s
          else (refs s)(b_blockno (bufs s b) := Suc (refs s (b_blockno (bufs s b)))))
      \<and> block_at (dimage t) = block_at (dimage s)"
proof -
  define n where "n = b_blockno (bufs s b)"
  define h where "h = (\<lambda>x. if x \<in> H then Some (b_blockno (bufs s x)) else None)"
  have "dom h = H" by (auto simp: h_def split: if_splits)
  then have v: "view s h s (content s) (refs s) (block_at (dimage s))" using assms(1) by (simp add: view_def) (simp add: h_def)
  have hb: "h b = Some n" using assms(2) by (simp add: h_def n_def)
  have c: "calm s" and small: "unat n < 2 ^ 31"
    using bio_invD(1) [OF assms(1)] bcache_okD [OF bio_invD(3) [OF assms(1)] bio_invD(11) [OF assms(1,2)]] by (simp_all add: n_def)
  show ?thesis
  proof (cases "log_size (klog s) - 1 \<le> lh_n (klog s) \<or> log_outstanding (klog s) < 1")
    case True
    then show ?thesis using c assms(4) by (auto simp: log_write_def acquire_calm)
  next
    case False
    then have len: "lh_n (klog s) < int LOGSIZE - 1" using assms(4) by simp
    note add = log_add_wf [OF assms(3) small assms(5) [folded n_def] len]
    have "wpc (log_write b) (\<lambda>_ t. view (s\<lparr>klog := log_add (klog s) n\<rparr>) h t (content s)
       (if n \<in> logged (klog s) then refs s else (refs s)(n := Suc (refs s n))) (block_at (dimage s))) (\<lambda>_. False) s"
      by (rule view_log_write [OF v hb assms(3)]) (use assms(6) False in \<open>simp_all add: n_def\<close>)
    then obtain t where t: "log_write b s = Ret () t" "view (s\<lparr>klog := log_add (klog s) n\<rparr>) h t (content s)
       (if n \<in> logged (klog s) then refs s else (refs s)(n := Suc (refs s n))) (block_at (dimage s))"
      by (auto simp: wpc_def split: outcome.splits)
    then show ?thesis using False add view_klog [OF t(2)] \<open>dom h = H\<close> by (auto simp: view_def n_def)
  qed
qed

theorem log_write_absorbs_witness:
  "\<exists>s b t. b_blockno (bufs s b) = 200 \<and> 200 \<notin> logged (klog s) \<and> log_write b s = Ret () t \<and> 200 \<in> logged (klog t)"
proof -
  obtain s where s: "log_ok s" "log_outstanding (klog s) = 1" "lh_n (klog s) = 1" "content s 100 = replicate BSIZE 7"
      "block_at (dimage s) 100 = replicate BSIZE 0" "log_size (klog s) = 30" "log_start (klog s) = 2" "logged (klog s) = {100}"
    using demo_transaction by blast
  have inv: "bio_inv {} s" and wf: "log_wf (klog s)" and r: "refs s = pins (klog s)" using s(1) by (simp_all add: log_ok_def)
  have "wpc (bread 1 200) (\<lambda>b t. view s [b \<mapsto> 200] t (content s) ((refs s)(200 := Suc (refs s 200))) (block_at (dimage s))) (\<lambda>_. False) s"
    by (rule view_bread [OF view_refl [OF inv]]) (use card_logged [OF wf] r in \<open>simp_all add: pins_def\<close>)
  then obtain b t where t: "view s [b \<mapsto> 200] t (content s) ((refs s)(200 := Suc (refs s 200))) (block_at (dimage s))"
    by (auto simp: wpc_def split: outcome.splits)
  have b: "bio_inv {b} t" "b_blockno (bufs t b) = 200" "klog t = klog s" "refs t 200 = 1"
    using t view_klog [OF t] r s(8) by (auto simp: view_def pins_def)
  have "\<not> in_log (klog t) (unat (200 :: u32))" using b(3) s(7) by (simp add: in_log_def)
  from log_write_absorbs [OF b(1), of b] this b wf s obtain u where "log_write b t = Ret () u" "logged (klog u) = {200, 100}"
    by auto
  then show ?thesis using b s(8) by (intro exI [of _ t] exI [of _ b] exI [of _ u]) auto
qed

text \<open>
  \<^verbatim>\<open>begin_op\<close> reserves room in the log. An operation is admitted only when the blocks logged so far and
  ten blocks for every operation, itself included, fit in the 30 blocks of the header, and no commit is running;
  otherwise the caller sleeps on the log and the log does not change.
\<close>

theorem begin_op_reserves:
  assumes "calm s" "noff (mycpu s) = 0"
  shows "if log_committing (klog s) \<or> int LOGSIZE < lh_n (klog s) + (log_outstanding (klog s) + 1) * MAXOPBLOCKS
    then \<exists>t. begin_op s = Stop (Switch (Asleep ChanLog)) t \<and> klog t = klog s \<and> p_state (procs t (cur s)) = SLEEPING
    else begin_op s = Ret () (s\<lparr>klog := (klog s)\<lparr>log_outstanding := log_outstanding (klog s) + 1\<rparr>\<rparr>)"
  using assms by (auto simp: begin_op_def begin_op_turn_def acquire_calm release_held sleep_cs noff_acq_calm)

theorem begin_op_reserves_witness:
  "begin_op booted = Ret () (booted\<lparr>klog := (klog booted)\<lparr>log_outstanding := 1\<rparr>\<rparr>)"
proof -
  have "noff (mycpu booted) = 0" "\<not> log_committing (klog booted)" "lh_n (klog booted) = 0" "log_outstanding (klog booted) = 0"
    by (simp_all add: booted_unfold spin_defs)
  then show ?thesis using begin_op_reserves [of booted] by simp
qed

end
