(* ===== verification/Fs.thy ===== *)
theory Fs
  imports Log
begin

section \<open>The file system (kernel/fs.c)\<close>

text \<open>
  Blocks, inodes, file contents, directories and path names, over the buffer cache and the log. A pointer to an
  element of the inode table is its index. Data moves to user memory, to a physical
  page, or to a variable of the kernel; in the last case it is part of the result.
\<close>

subsection \<open>Constants and the layout of the disk\<close>

abbreviation (input) ROOTDEV :: u32 where "ROOTDEV \<equiv> 1"
abbreviation (input) ROOTINO :: u32 where "ROOTINO \<equiv> 1"
abbreviation (input) FSMAGIC :: u32 where "FSMAGIC \<equiv> 0x10203040"
abbreviation (input) NINODE :: nat where "NINODE \<equiv> 50"
abbreviation (input) NDIRECT :: nat where "NDIRECT \<equiv> 12"
abbreviation (input) NINDIRECT :: nat where "NINDIRECT \<equiv> 256"
abbreviation (input) MAXFILE :: nat where "MAXFILE \<equiv> 268"
abbreviation (input) IPB :: nat where "IPB \<equiv> 16"
abbreviation (input) BPB :: nat where "BPB \<equiv> 8192"
abbreviation (input) DIRSIZ :: nat where "DIRSIZ \<equiv> 14"
abbreviation (input) T_DIR :: u16 where "T_DIR \<equiv> 1"
abbreviation (input) T_FILE :: u16 where "T_FILE \<equiv> 2"
abbreviation (input) T_DEVICE :: u16 where "T_DEVICE \<equiv> 3"

definition IBLOCK :: "u32 \<Rightarrow> superblock \<Rightarrow> u32" where
  "IBLOCK i sbl = i div 16 + sb_inodestart sbl"

definition BBLOCK :: "u32 \<Rightarrow> superblock \<Rightarrow> u32" where
  "BBLOCK b sbl = b div 8192 + sb_bmapstart sbl"

text \<open>\<^verbatim>\<open>struct dinode\<close>, 64 bytes: four shorts, the size and 13 block numbers.\<close>

definition dinode_bytes :: "inode \<Rightarrow> u8 list" where
  "dinode_bytes ip = le16 (i_type ip) @ le16 (i_major ip) @ le16 (i_minor ip) @ le16 (i_nlink ip) @ le32 (i_size ip)
     @ concat (map (\<lambda>k. le32 (i_addrs ip k)) [0..<13])"

definition dinode_load :: "u8 list \<Rightarrow> nat \<Rightarrow> inode \<Rightarrow> inode" where
  "dinode_load d off ip = ip\<lparr>i_type := ld16 d off, i_major := ld16 d (off + 2), i_minor := ld16 d (off + 4),
     i_nlink := ld16 d (off + 6), i_size := ld32 d (off + 8), i_addrs := (\<lambda>k. if k < 13 then ld32 d (off + 12 + 4 * k) else i_addrs ip k)\<rparr>"

definition dinode_off :: "u32 \<Rightarrow> nat" where
  "dinode_off inum = unat inum mod IPB * 64"

definition get_inode :: "nat \<Rightarrow> (inode \<Rightarrow> 'a) \<Rightarrow> 'a K" where
  "get_inode ip f = gets (\<lambda>s. f (itable s ip))"

definition set_inode :: "nat \<Rightarrow> (inode \<Rightarrow> inode) \<Rightarrow> unit K" where
  "set_inode ip f = modify (\<lambda>s. s\<lparr>itable := (itable s)(ip := f (itable s ip))\<rparr>)"

lemma inode_apply [simp]:
  "get_inode ip f s = Ret (f (itable s ip)) s" "bindM (get_inode ip f) k s = k (f (itable s ip)) s"
  "set_inode ip g s = Ret () (s\<lparr>itable := (itable s)(ip := g (itable s ip))\<rparr>)"
  by (simp_all add: get_inode_def set_inode_def)

subsection \<open>The super block\<close>

definition sb_load :: "u8 list \<Rightarrow> superblock" where
  "sb_load d = \<lparr>sb_magic = ld32 d 0, sb_size = ld32 d 4, sb_nblocks = ld32 d 8, sb_ninodes = ld32 d 12,
     sb_nlog = ld32 d 16, sb_logstart = ld32 d 20, sb_inodestart = ld32 d 24, sb_bmapstart = ld32 d 28\<rparr>"

definition readsb :: "u32 \<Rightarrow> superblock K" where
  "readsb dev =
     bindM (bread dev 1) (\<lambda>bp.
     bindM (get_buf bp b_data) (\<lambda>d.
     seqM (brelse bp) (returnM (sb_load d))))"

definition fsinit :: "u32 \<Rightarrow> unit K" where
  "fsinit dev =
     bindM (readsb dev) (\<lambda>x.
     seqM (modify (\<lambda>s. s\<lparr>sb := x\<rparr>)) (
     if sb_magic x \<noteq> FSMAGIC then panic ''invalid file system''
     else initlog dev x))"

subsection \<open>Blocks\<close>

definition bzero :: "u32 \<Rightarrow> u32 \<Rightarrow> unit K" where
  "bzero dev bno =
     bindM (bread dev bno) (\<lambda>bp.
     seqM (set_buf bp (\<lambda>c. c\<lparr>b_data := replicate BSIZE 0\<rparr>)) (
     seqM (log_write bp)
          (brelse bp)))"

text \<open>One bit of a bitmap block.\<close>

definition bmap_bit :: "u8 list \<Rightarrow> nat \<Rightarrow> bool" where
  "bmap_bit d bi \<longleftrightarrow> bit (d ! (bi div 8)) (bi mod 8)"

definition bmap_set :: "u8 list \<Rightarrow> nat \<Rightarrow> bool \<Rightarrow> u8 list" where
  "bmap_set d bi v = d[bi div 8 := (if v then set_bit (bi mod 8) (d ! (bi div 8)) else unset_bit (bi mod 8) (d ! (bi div 8)))]"

text \<open>The inner loop of \<^verbatim>\<open>balloc\<close>: the first free bit of a bitmap block.\<close>

definition balloc_bit :: "u8 list \<Rightarrow> nat \<Rightarrow> nat \<Rightarrow> nat option" where
  "balloc_bit d b sz = find (\<lambda>bi. b + bi < sz \<and> \<not> bmap_bit d bi) [0..<BPB]"

definition balloc_block :: "u32 \<Rightarrow> nat \<Rightarrow> u32 option K" where
  "balloc_block dev b =
     bindM (gets sb) (\<lambda>sbl.
     bindM (bread dev (BBLOCK (of_nat b) sbl)) (\<lambda>bp.
     bindM (get_buf bp b_data) (\<lambda>d.
     case balloc_bit d b (unat (sb_size sbl)) of
       Some bi \<Rightarrow>
         seqM (set_buf bp (\<lambda>c. c\<lparr>b_data := bmap_set d bi True\<rparr>)) (
         seqM (log_write bp) (
         seqM (brelse bp) (
         seqM (bzero dev (of_nat (b + bi)))
              (returnM (Some (of_nat (b + bi)))))))
     | None \<Rightarrow> seqM (brelse bp) (returnM None))))"

definition balloc :: "u32 \<Rightarrow> u32 K" where
  "balloc dev =
     bindM (gets (\<lambda>s. unat (sb_size (sb s)))) (\<lambda>size.
     bindM (searchM (map (\<lambda>k. k * BPB) [0..<(size + BPB - 1) div BPB]) (balloc_block dev)) (\<lambda>r.
     case r of Some b \<Rightarrow> returnM b | None \<Rightarrow> panic ''balloc: out of blocks''))"

definition bfree :: "u32 \<Rightarrow> u32 \<Rightarrow> unit K" where
  "bfree dev b =
     bindM (gets sb) (\<lambda>sbl.
     bindM (bread dev (BBLOCK b sbl)) (\<lambda>bp.
     bindM (get_buf bp b_data) (\<lambda>d.
     let bi = unat b mod BPB in
     if \<not> bmap_bit d bi then panic ''freeing free block'' else
     seqM (set_buf bp (\<lambda>c. c\<lparr>b_data := bmap_set d bi False\<rparr>)) (
     seqM (log_write bp)
          (brelse bp)))))"

subsection \<open>Inodes\<close>

definition iinit :: "unit K" where
  "iinit =
     seqM (initlock ItableLock ''itable'')
          (forM [0..<NINODE] (\<lambda>i. initsleeplock (InodeLock i) ''inode''))"

definition iget :: "u32 \<Rightarrow> u32 \<Rightarrow> nat K" where
  "iget dev inum =
     seqM (acquire ItableLock) (
     bindM (gets itable) (\<lambda>tab.
     case find (\<lambda>i. i_ref (tab i) > 0 \<and> i_dev (tab i) = dev \<and> i_inum (tab i) = inum) [0..<NINODE] of
       Some ip \<Rightarrow> seqM (set_inode ip (\<lambda>i. i\<lparr>i_ref := i_ref i + 1\<rparr>)) (seqM (release ItableLock) (returnM ip))
     | None \<Rightarrow>
         (case find (\<lambda>i. i_ref (tab i) = 0) [0..<NINODE] of
            None \<Rightarrow> panic ''iget: no inodes''
          | Some ip \<Rightarrow>
              seqM (set_inode ip (\<lambda>i. i\<lparr>i_dev := dev, i_inum := inum, i_ref := 1, i_valid := False\<rparr>)) (
              seqM (release ItableLock) (returnM ip)))))"

definition ialloc_at :: "u32 \<Rightarrow> u16 \<Rightarrow> nat \<Rightarrow> nat option K" where
  "ialloc_at dev type inum =
     bindM (gets sb) (\<lambda>sbl.
     bindM (bread dev (IBLOCK (of_nat inum) sbl)) (\<lambda>bp.
     bindM (get_buf bp b_data) (\<lambda>d.
     let off = dinode_off (of_nat inum) in
     if ld16 d off = 0 then
       seqM (set_buf bp (\<lambda>c. c\<lparr>b_data := splice d off (le16 type @ replicate 62 0)\<rparr>)) (
       seqM (log_write bp) (
       seqM (brelse bp) (
       bindM (iget dev (of_nat inum)) (\<lambda>ip. returnM (Some ip)))))
     else seqM (brelse bp) (returnM None))))"

definition ialloc :: "u32 \<Rightarrow> u16 \<Rightarrow> nat K" where
  "ialloc dev type =
     bindM (gets (\<lambda>s. unat (sb_ninodes (sb s)))) (\<lambda>n.
     bindM (searchM [1..<n] (ialloc_at dev type)) (\<lambda>r.
     case r of Some ip \<Rightarrow> returnM ip | None \<Rightarrow> panic ''ialloc: no inodes''))"

definition iupdate :: "nat \<Rightarrow> unit K" where
  "iupdate ip =
     bindM (gets sb) (\<lambda>sbl.
     bindM (get_inode ip id) (\<lambda>i.
     bindM (bread (i_dev i) (IBLOCK (i_inum i) sbl)) (\<lambda>bp.
     seqM (set_buf bp (\<lambda>c. c\<lparr>b_data := splice (b_data c) (dinode_off (i_inum i)) (dinode_bytes i)\<rparr>)) (
     seqM (log_write bp)
          (brelse bp)))))"

definition idup :: "nat \<Rightarrow> nat K" where
  "idup ip =
     seqM (acquire ItableLock) (
     seqM (set_inode ip (\<lambda>i. i\<lparr>i_ref := i_ref i + 1\<rparr>)) (
     seqM (release ItableLock)
          (returnM ip)))"

text \<open>The part of \<^verbatim>\<open>ilock\<close> that reads the inode from the disk.\<close>

definition ilock_load :: "nat \<Rightarrow> unit K" where
  "ilock_load ip =
     bindM (gets sb) (\<lambda>sbl.
     bindM (get_inode ip id) (\<lambda>i.
     bindM (bread (i_dev i) (IBLOCK (i_inum i) sbl)) (\<lambda>bp.
     bindM (get_buf bp b_data) (\<lambda>d.
     seqM (set_inode ip (dinode_load d (dinode_off (i_inum i)))) (
     seqM (brelse bp) (
     seqM (set_inode ip (\<lambda>i. i\<lparr>i_valid := True\<rparr>)) (
     bindM (get_inode ip i_type) (\<lambda>t.
     whenM (t = 0) (panic ''ilock: no type'')))))))))"

definition ilock :: "nat \<Rightarrow> unit K" where
  "ilock ip =
     bindM (get_inode ip i_ref) (\<lambda>r.
     if r < 1 then panic ''ilock'' else
     seqM (acquiresleep (InodeLock ip)) (
     bindM (get_inode ip i_valid) (\<lambda>v.
     whenM (\<not> v) (ilock_load ip))))"

definition iunlock :: "nat \<Rightarrow> unit K" where
  "iunlock ip =
     bindM (holdingsleep (InodeLock ip)) (\<lambda>h.
     bindM (get_inode ip i_ref) (\<lambda>r.
     if \<not> h \<or> r < 1 then panic ''iunlock''
     else releasesleep (InodeLock ip)))"

subsection \<open>The contents of an inode\<close>

text \<open>\<^verbatim>\<open>ip->addrs[k]\<close>, an array of 13 elements.\<close>

definition get_addr :: "nat \<Rightarrow> nat \<Rightarrow> u32 K" where
  "get_addr ip k = get_inode ip (\<lambda>i. i_addrs i k)"

definition set_addr :: "nat \<Rightarrow> nat \<Rightarrow> u32 \<Rightarrow> unit K" where
  "set_addr ip k a = set_inode ip (\<lambda>i. i\<lparr>i_addrs := (i_addrs i)(k := a)\<rparr>)"

definition bmap_slot :: "nat \<Rightarrow> nat \<Rightarrow> u32 K" where
  "bmap_slot ip k =
     bindM (get_addr ip k) (\<lambda>a.
     if a \<noteq> 0 then returnM a else
     bindM (get_inode ip i_dev) (\<lambda>dev.
     bindM (balloc dev) (\<lambda>a. seqM (set_addr ip k a) (returnM a))))"

definition bmap_indirect :: "nat \<Rightarrow> nat \<Rightarrow> u32 K" where
  "bmap_indirect ip bn =
     bindM (bmap_slot ip NDIRECT) (\<lambda>ia.
     bindM (get_inode ip i_dev) (\<lambda>dev.
     bindM (bread dev ia) (\<lambda>bp.
     bindM (get_buf bp (\<lambda>c. ld32 (b_data c) (4 * bn))) (\<lambda>a.
     if a \<noteq> 0 then seqM (brelse bp) (returnM a) else
     bindM (balloc dev) (\<lambda>a.
     seqM (set_buf bp (\<lambda>c. c\<lparr>b_data := st32 (b_data c) (4 * bn) a\<rparr>)) (
     seqM (log_write bp) (
     seqM (brelse bp) (returnM a))))))))"

definition bmap :: "nat \<Rightarrow> u32 \<Rightarrow> u32 K" where
  "bmap ip bn =
     (if unat bn < NDIRECT then bmap_slot ip (unat bn)
      else if unat (bn - of_nat NDIRECT) < NINDIRECT then bmap_indirect ip (unat (bn - of_nat NDIRECT))
      else panic ''bmap: out of range'')"

definition itrunc_slot :: "nat \<Rightarrow> nat \<Rightarrow> unit K" where
  "itrunc_slot ip k =
     bindM (get_inode ip id) (\<lambda>i.
     whenM (i_addrs i k \<noteq> 0) (
       seqM (bfree (i_dev i) (i_addrs i k)) (set_addr ip k 0)))"

definition itrunc_indirect :: "nat \<Rightarrow> unit K" where
  "itrunc_indirect ip =
     bindM (get_inode ip id) (\<lambda>i.
     whenM (i_addrs i NDIRECT \<noteq> 0) (
       bindM (bread (i_dev i) (i_addrs i NDIRECT)) (\<lambda>bp.
       seqM (forM [0..<NINDIRECT] (\<lambda>j.
         bindM (get_buf bp (\<lambda>c. ld32 (b_data c) (4 * j))) (\<lambda>a. whenM (a \<noteq> 0) (bfree (i_dev i) a)))) (
       seqM (brelse bp) (
       seqM (bfree (i_dev i) (i_addrs i NDIRECT))
            (set_addr ip NDIRECT 0))))))"

definition itrunc :: "nat \<Rightarrow> unit K" where
  "itrunc ip =
     seqM (forM [0..<NDIRECT] (itrunc_slot ip)) (
     seqM (itrunc_indirect ip) (
     seqM (set_inode ip (\<lambda>i. i\<lparr>i_size := 0\<rparr>))
          (iupdate ip)))"

definition iput :: "nat \<Rightarrow> unit K" where
  "iput ip =
     seqM (acquire ItableLock) (
     bindM (get_inode ip (\<lambda>i. i_ref i = 1 \<and> i_valid i \<and> i_nlink i = 0)) (\<lambda>unused.
     seqM (whenM unused (
       seqM (acquiresleep (InodeLock ip)) (
       seqM (release ItableLock) (
       seqM (itrunc ip) (
       seqM (set_inode ip (\<lambda>i. i\<lparr>i_type := 0\<rparr>)) (
       seqM (iupdate ip) (
       seqM (set_inode ip (\<lambda>i. i\<lparr>i_valid := False\<rparr>)) (
       seqM (releasesleep (InodeLock ip))
            (acquire ItableLock))))))))) (
     seqM (set_inode ip (\<lambda>i. i\<lparr>i_ref := i_ref i - 1\<rparr>))
          (release ItableLock))))"

definition iunlockput :: "nat \<Rightarrow> unit K" where
  "iunlockput ip = seqM (iunlock ip) (iput ip)"

record kstat =
  st_dev :: int
  st_ino :: u32
  st_type :: u16
  st_nlink :: u16
  st_size :: u64

definition stati :: "nat \<Rightarrow> kstat K" where
  "stati ip = get_inode ip (\<lambda>i. \<lparr>st_dev = sint (i_dev i), st_ino = i_inum i, st_type = i_type i, st_nlink = i_nlink i,
     st_size = ucast (i_size i)\<rparr>)"

text \<open>
  Where \<^verbatim>\<open>readi\<close> puts the data and where \<^verbatim>\<open>writei\<close> takes it from. For a variable of the kernel the loop of \<^verbatim>\<open>readi\<close> collects the bytes of its
  turns and returns them; the address in the other cases advances by the bytes moved so far.
\<close>

datatype destination = ToUser u64 | ToPhys u64 | ToLocal
datatype origin = FromUser u64 | FromLocal "u8 list"

definition deliver :: "destination \<Rightarrow> nat \<Rightarrow> u8 list \<Rightarrow> int K" where
  "deliver dst tot bs = (case dst of
       ToUser va \<Rightarrow> either_copyout True (va + of_nat tot) bs
     | ToPhys pa \<Rightarrow> either_copyout False (pa + of_nat tot) bs
     | ToLocal \<Rightarrow> returnM 0)"

definition collect :: "origin \<Rightarrow> nat \<Rightarrow> nat \<Rightarrow> (int \<times> u8 list) K" where
  "collect src tot m = (case src of
       FromUser va \<Rightarrow> either_copyin True (va + of_nat tot) m
     | FromLocal bs \<Rightarrow> returnM (0, take m (drop tot bs)))"

text \<open>The loops move at least one byte in every turn; the fuel is the number of bytes to move.\<close>

primrec readi_loop :: "nat \<Rightarrow> nat \<Rightarrow> destination \<Rightarrow> u32 \<Rightarrow> u32 \<Rightarrow> u32 \<Rightarrow> u8 list \<Rightarrow> (int \<times> u8 list) K" where
  "readi_loop 0 ip dst off tot n acc = returnM (sint tot, acc)"
| "readi_loop (Suc fuel) ip dst off tot n acc =
     (if tot < n then
        bindM (get_inode ip i_dev) (\<lambda>dev.
        bindM (bmap ip (off div 1024)) (\<lambda>bno.
        bindM (bread dev bno) (\<lambda>bp.
        let m = min (n - tot) (1024 - off mod 1024) in
        bindM (get_buf bp (\<lambda>c. slice (b_data c) (unat (off mod 1024)) (unat m))) (\<lambda>bs.
        bindM (deliver dst (unat tot) bs) (\<lambda>r.
        if r = - 1 then seqM (brelse bp) (returnM (- 1, acc))
        else seqM (brelse bp) (readi_loop fuel ip dst (off + m) (tot + m) n (acc @ bs)))))))
      else returnM (sint tot, acc))"

definition readi :: "nat \<Rightarrow> destination \<Rightarrow> u32 \<Rightarrow> u32 \<Rightarrow> (int \<times> u8 list) K" where
  "readi ip dst off n =
     bindM (get_inode ip i_size) (\<lambda>size.
     if off > size \<or> off + n < off then returnM (0, []) else
     let n = (if off + n > size then size - off else n) in
     readi_loop (unat n) ip dst off 0 n [])"

text \<open>A copy from user memory that fails half way has overwritten the first bytes of the buffer.\<close>

primrec writei_loop :: "nat \<Rightarrow> nat \<Rightarrow> origin \<Rightarrow> u32 \<Rightarrow> u32 \<Rightarrow> u32 \<Rightarrow> (u32 \<times> u32) K" where
  "writei_loop 0 ip src off tot n = returnM (off, tot)"
| "writei_loop (Suc fuel) ip src off tot n =
     (if tot < n then
        bindM (get_inode ip i_dev) (\<lambda>dev.
        bindM (bmap ip (off div 1024)) (\<lambda>bno.
        bindM (bread dev bno) (\<lambda>bp.
        let m = min (n - tot) (1024 - off mod 1024) in
        bindM (collect src (unat tot) (unat m)) (\<lambda>got.
        seqM (set_buf bp (\<lambda>c. c\<lparr>b_data := splice (b_data c) (unat (off mod 1024)) (snd got)\<rparr>)) (
        if fst got = - 1 then seqM (brelse bp) (returnM (off, tot))
        else seqM (log_write bp) (
             seqM (brelse bp) (writei_loop fuel ip src (off + m) (tot + m) n)))))))
      else returnM (off, tot))"

definition writei :: "nat \<Rightarrow> origin \<Rightarrow> u32 \<Rightarrow> u32 \<Rightarrow> int K" where
  "writei ip src off n =
     bindM (get_inode ip i_size) (\<lambda>size.
     if off > size \<or> off + n < off then returnM (- 1) else
     if off + n > of_nat (MAXFILE * BSIZE) then returnM (- 1) else
     bindM (writei_loop (unat n) ip src off 0 n) (\<lambda>(off, tot).
     seqM (set_inode ip (\<lambda>i. if off > i_size i then i\<lparr>i_size := off\<rparr> else i)) (
     seqM (iupdate ip)
          (returnM (sint tot)))))"

subsection \<open>Directories\<close>

text \<open>\<^verbatim>\<open>strncmp\<close> on names; a list stands for its bytes and a terminating zero.\<close>

fun name_diff :: "nat \<Rightarrow> u8 list \<Rightarrow> u8 list \<Rightarrow> int" where
  "name_diff 0 p q = 0"
| "name_diff (Suc n) p q =
     (let a = (case p of [] \<Rightarrow> 0 | x # _ \<Rightarrow> x); b = (case q of [] \<Rightarrow> 0 | y # _ \<Rightarrow> y) in
      if a \<noteq> 0 \<and> a = b then name_diff n (tl p) (tl q) else uint a - uint b)"

definition namecmp :: "u8 list \<Rightarrow> u8 list \<Rightarrow> int" where
  "namecmp p q = name_diff DIRSIZ p q"

definition dirent_bytes :: "u32 \<Rightarrow> u8 list \<Rightarrow> u8 list" where
  "dirent_bytes inum name = le16 (ucast inum) @ take DIRSIZ (name @ replicate DIRSIZ 0)"

definition dir_offsets :: "u32 \<Rightarrow> u32 list" where
  "dir_offsets sz = map (\<lambda>k. of_nat (16 * k)) [0..<(unat sz + 15) div 16]"

definition dirlookup_at :: "nat \<Rightarrow> u8 list \<Rightarrow> u32 \<Rightarrow> (nat \<times> u32) option K" where
  "dirlookup_at dp name off =
     bindM (readi dp ToLocal off 16) (\<lambda>(r, de).
     if r \<noteq> 16 then panic ''dirlookup read'' else
     if ld16 de 0 = 0 then returnM None else
     if namecmp name (drop 2 de) = 0 then
       bindM (get_inode dp i_dev) (\<lambda>dev.
       bindM (iget dev (ucast (ld16 de 0))) (\<lambda>ip. returnM (Some (ip, off))))
     else returnM None)"

definition dirlookup :: "nat \<Rightarrow> u8 list \<Rightarrow> (nat \<times> u32) option K" where
  "dirlookup dp name =
     bindM (get_inode dp id) (\<lambda>i.
     if i_type i \<noteq> T_DIR then panic ''dirlookup not DIR'' else
     searchM (dir_offsets (i_size i)) (dirlookup_at dp name))"

definition dirlink_slot :: "nat \<Rightarrow> u32 \<Rightarrow> u32 option K" where
  "dirlink_slot dp off =
     bindM (readi dp ToLocal off 16) (\<lambda>(r, de).
     if r \<noteq> 16 then panic ''dirlink read'' else
     returnM (if ld16 de 0 = 0 then Some off else None))"

definition dirlink :: "nat \<Rightarrow> u8 list \<Rightarrow> u32 \<Rightarrow> int K" where
  "dirlink dp name inum =
     bindM (dirlookup dp name) (\<lambda>found.
     case found of
       Some (ip, off) \<Rightarrow> seqM (iput ip) (returnM (- 1))
     | None \<Rightarrow>
         bindM (get_inode dp i_size) (\<lambda>size.
         bindM (searchM (dir_offsets size) (dirlink_slot dp)) (\<lambda>slot.
         let off = (case slot of Some off \<Rightarrow> off | None \<Rightarrow> of_nat (16 * ((unat size + 15) div 16))) in
         bindM (writei dp (FromLocal (dirent_bytes inum name)) off 16) (\<lambda>r.
         if r \<noteq> 16 then panic ''dirlink'' else returnM 0))))"

subsection \<open>Path names\<close>

abbreviation (input) SLASH :: u8 where "SLASH \<equiv> 47"

text \<open>
  \<^verbatim>\<open>skipelem\<close>: the rest of the path and the element, cut to 14 bytes. The two \<^verbatim>\<open>memmove\<close> calls into the 14 bytes of \<^verbatim>\<open>name\<close>, the second
  with a NUL after the bytes, both leave what \<^verbatim>\<open>strncmp\<close> with the bound 14 reads as this list.
\<close>

definition skipelem :: "u8 list \<Rightarrow> (u8 list \<times> u8 list) option" where
  "skipelem path =
     (let path = dropWhile (\<lambda>c. c = SLASH) path in
      if path = [] then None else
      let name = takeWhile (\<lambda>c. c \<noteq> SLASH) path;
          rest = dropWhile (\<lambda>c. c \<noteq> SLASH) path
      in Some (dropWhile (\<lambda>c. c = SLASH) rest, take DIRSIZ name))"

lemma skipelem_shorter: "skipelem path = Some (rest, name) \<Longrightarrow> length rest < length path"
proof -
  assume a: "skipelem path = Some (rest, name)"
  define p where "p = dropWhile (\<lambda>c. c = SLASH) path"
  have p: "p \<noteq> []" "rest = dropWhile (\<lambda>c. c = SLASH) (dropWhile (\<lambda>c. c \<noteq> SLASH) p)"
    using a by (auto simp: skipelem_def p_def Let_def split: if_splits)
  then have "hd p \<noteq> SLASH" using hd_dropWhile [of "\<lambda>c. c = SLASH" path] by (auto simp: p_def)
  then have "length (dropWhile (\<lambda>c. c \<noteq> SLASH) p) < length p" using p(1) by (cases p) (auto simp: length_dropWhile_le le_imp_less_Suc)
  moreover have "length rest \<le> length (dropWhile (\<lambda>c. c \<noteq> SLASH) p)" "length p \<le> length path"
    by (simp_all add: p(2) p_def length_dropWhile_le)
  ultimately show ?thesis by linarith
qed

text \<open>The loop of \<^verbatim>\<open>namex\<close>; every turn uses up a byte of the path. The result is the inode and the last element.\<close>

function namex_loop :: "u8 list \<Rightarrow> bool \<Rightarrow> nat \<Rightarrow> u8 list \<Rightarrow> (nat \<times> u8 list) option K" where
  "namex_loop path parent ip name =
     (case skipelem path of
        None \<Rightarrow> if parent then seqM (iput ip) (returnM None) else returnM (Some (ip, name))
      | Some (path, name) \<Rightarrow>
          seqM (ilock ip) (
          bindM (get_inode ip i_type) (\<lambda>t.
          if t \<noteq> T_DIR then seqM (iunlockput ip) (returnM None) else
          if parent \<and> path = [] then seqM (iunlock ip) (returnM (Some (ip, name))) else
          bindM (dirlookup ip name) (\<lambda>next.
          case next of
            None \<Rightarrow> seqM (iunlockput ip) (returnM None)
          | Some (nxt, off) \<Rightarrow> seqM (iunlockput ip) (namex_loop path parent nxt name)))))"
  by pat_completeness auto
termination
  by (relation "measure (\<lambda>(path, parent, ip, name). length path)") (auto dest: skipelem_shorter)

declare namex_loop.simps [simp del]

definition namex :: "u8 list \<Rightarrow> bool \<Rightarrow> (nat \<times> u8 list) option K" where
  "namex path parent =
     bindM (if path \<noteq> [] \<and> hd path = SLASH then iget ROOTDEV ROOTINO
            else bindM curproc (\<lambda>me.
                 bindM (get_proc me p_cwd) (\<lambda>cwd.
                 case cwd of None \<Rightarrow> stopM (Fault ''null inode'') | Some d \<Rightarrow> idup d))) (\<lambda>ip.
     namex_loop path parent ip [])"

definition namei :: "u8 list \<Rightarrow> nat option K" where
  "namei path = bindM (namex path False) (\<lambda>r. returnM (map_option fst r))"

definition nameiparent :: "u8 list \<Rightarrow> (nat \<times> u8 list) option K" where
  "nameiparent path = namex path True"

end
