(* ===== verification/Ring.thy ===== *)
theory Ring
  imports Machine
begin

section \<open>Ring buffers\<close>

text \<open>
  Pipes, the console's input and the serial port's output are ring buffers in the same style: an
  array and two counters that only ever grow and wrap around at the width of their type; a
  counter modulo the size of the array is an index. The locale collects what the three share: while
  the size divides the range of the counters, the bytes between the counters are a first-in first-out queue.
\<close>

definition ring_list :: "nat \<Rightarrow> (nat \<Rightarrow> u8) \<Rightarrow> 'w::len word \<Rightarrow> 'w word \<Rightarrow> u8 list" where
  "ring_list N d r w = map (\<lambda>k. d (unat (r + of_nat k) mod N)) [0..<unat (w - r)]"

lemma length_ring_list [simp]: "length (ring_list N d r w) = unat (w - r)"
  by (simp add: ring_list_def)

lemma ring_list_empty [simp]: "ring_list N d r r = []"
  by (simp add: ring_list_def)

lemma ring_list_Nil: "ring_list N d r w = [] \<longleftrightarrow> r = w"
  using length_ring_list [of N d r w] by (auto simp: unat_eq_0 simp del: length_ring_list)

locale ring =
  fixes N :: nat and width :: "'w::len itself"
  assumes size_pos: "0 < N" and size_dvd: "N dvd 2 ^ LENGTH('w)" and size_less: "N < 2 ^ LENGTH('w)"
begin

lemma index_add: "unat (r + of_nat k :: 'w word) mod N = (unat r + k) mod N"
proof -
  have "unat (r + of_nat k :: 'w word) = (unat r + k) mod 2 ^ LENGTH('w)"
    by (simp add: unat_word_ariths(1) unsigned_of_nat take_bit_eq_mod mod_simps)
  then show ?thesis using size_dvd by (simp add: mod_mod_cancel)
qed

lemma index_inj:
  assumes "j < N" "k < N" "(n + j) mod N = (n + k) mod N"
  shows "j = k"
proof -
  have "j mod N = k mod N" using assms(3) by (simp add: nat_mod_eq_iff)
  then show ?thesis using assms(1,2) by simp
qed

lemma count_Suc:
  fixes r w :: "'w word"
  assumes "unat (w - r) < N"
  shows "unat (w + 1 - r) = Suc (unat (w - r))"
proof -
  define n where "n = w - r"
  have e: "w + 1 - r = n + 1" by (simp add: n_def)
  have "unat n + unat (1 :: 'w word) < 2 ^ LENGTH('w)" using assms size_less by (simp add: n_def)
  then have "unat (n + 1) = unat n + 1" by (subst unat_word_ariths(1)) simp
  then show ?thesis unfolding e by (simp add: n_def)
qed

lemma count_pos: "n \<noteq> 0 \<Longrightarrow> unat n = Suc (unat (n - 1 :: 'w word))"
  using unat_minus_one [of n] by (simp add: unat_gt_0)

lemma put_list:
  fixes r w :: "'w word"
  assumes "unat (w - r) < N"
  shows "ring_list N (d(unat w mod N := x)) r (w + 1) = ring_list N d r w @ [x]"
proof -
  have w: "unat w mod N = (unat r + unat (w - r)) mod N"
    using index_add [of r "unat (w - r)"] by simp
  have "(unat r + k) mod N \<noteq> unat w mod N" if "k < unat (w - r)" for k
    using index_inj [of k "unat (w - r)" "unat r"] that assms w by auto
  then show ?thesis
    using w by (simp add: ring_list_def count_Suc [OF assms] index_add)
qed

lemma get_list:
  fixes r w :: "'w word"
  assumes "r \<noteq> w"
  shows "ring_list N d r w = d (unat r mod N) # ring_list N d (r + 1) w"
proof -
  have n: "unat (w - r) = Suc (unat (w - (r + 1)))"
  proof -
    have e: "w - (r + 1) = (w - r) - 1" by simp
    show ?thesis unfolding e by (rule count_pos) (use assms in simp)
  qed
  show ?thesis
    unfolding ring_list_def n by (simp add: upt_conv_Cons map_Suc_upt [symmetric] add_ac del: upt_Suc)
qed

lemma drop_list:
  fixes r w :: "'w word"
  assumes "k \<le> unat (w - r)"
  shows "ring_list N d (r + of_nat k) w = drop k (ring_list N d r w)"
  using assms
proof (induction k)
  case 0
  then show ?case by simp
next
  case (Suc k)
  then have IH: "ring_list N d (r + of_nat k) w = drop k (ring_list N d r w)" by simp
  have "r + of_nat k \<noteq> w"
  proof
    assume "r + of_nat k = w"
    then have "ring_list N d (r + of_nat k) w = []" by simp
    then show False using IH Suc.prems by simp
  qed
  from get_list [OF this, of d] have "drop 1 (ring_list N d (r + of_nat k) w) = ring_list N d (r + of_nat k + 1) w" by simp
  then show ?case using IH by (simp add: add_ac)
qed

lemma unput_list:
  fixes r w :: "'w word"
  assumes "r \<noteq> w"
  shows "ring_list N d r (w - 1) = butlast (ring_list N d r w)"
proof -
  have n: "unat (w - r) = Suc (unat (w - 1 - r))"
  proof -
    have e: "w - 1 - r = (w - r) - 1" by simp
    show ?thesis unfolding e by (rule count_pos) (use assms in simp)
  qed
  show ?thesis unfolding ring_list_def n by simp
qed

lemma put_other:
  fixes r w e :: "'w word"
  assumes "unat (w - r) \<le> unat (e - r)" "unat (e - r) < N"
  shows "ring_list N (d(unat e mod N := x)) r w = ring_list N d r w"
proof -
  have e: "unat e mod N = (unat r + unat (e - r)) mod N" using index_add [of r "unat (e - r)"] by simp
  have "(unat r + k) mod N \<noteq> unat e mod N" if "k < unat (w - r)" for k
    using index_inj [of k "unat (e - r)" "unat r"] that assms e by auto
  then show ?thesis by (simp add: ring_list_def index_add)
qed

lemma append_list:
  fixes r w e :: "'w word"
  assumes "unat (e - r) = unat (w - r) + unat (e - w)"
  shows "ring_list N d r e = ring_list N d r w @ ring_list N d w e"
proof (rule nth_equalityI)
  show "length (ring_list N d r e) = length (ring_list N d r w @ ring_list N d w e)" using assms by simp
next
  fix i assume i: "i < length (ring_list N d r e)"
  have "r + of_nat i = w + of_nat (i - unat (w - r))" if "unat (w - r) \<le> i"
  proof -
    have "(of_nat i :: 'w word) = of_nat (unat (w - r)) + of_nat (i - unat (w - r))"
      using that by (metis le_add_diff_inverse of_nat_add)
    then show ?thesis by simp
  qed
  then show "ring_list N d r e ! i = (ring_list N d r w @ ring_list N d w e) ! i"
    using i assms by (auto simp: nth_append ring_list_def add.commute)
qed

lemma full_iff:
  fixes r w :: "'w word"
  shows "w = r + of_nat N \<longleftrightarrow> unat (w - r) = N"
proof -
  have "w = r + of_nat N \<longleftrightarrow> w - r = of_nat N" by (metis add.commute add_diff_cancel_left' diff_add_cancel)
  also have "\<dots> \<longleftrightarrow> unat (w - r) = N"
    using size_less by (auto simp: unsigned_of_nat take_bit_nat_eq_self intro: unsigned_word_eqI)
  finally show ?thesis .
qed

end

interpretation pipe_ring: ring 512 "TYPE(32)"
  by unfold_locales simp_all

interpretation cons_ring: ring 128 "TYPE(32)"
  by unfold_locales simp_all

interpretation uart_ring: ring 32 "TYPE(64)"
  by unfold_locales simp_all

end
