(* ===== verification/Pipe.thy ===== *)
theory Pipe
  imports Sleeplock Ring UserCopy
begin

section \<open>Pipes (kernel/pipe.c)\<close>

text \<open>
  A pipe is a ring buffer of 512 bytes with two counters, shared by a reading and a writing end. The
  structure lives in a page of its own; the model keeps it beside the byte memory, under the
  address of that page. A loop that sleeps stops at the switch, with the bytes moved so far in the
  pipe, and goes on in the \<open>resume\<close> definition. \<^verbatim>\<open>pipealloc\<close> is in the theory of the file table.
  The lemmas show that the pipe is a first-in first-out queue of bytes.
\<close>

subsection \<open>Definitions\<close>

abbreviation (input) PIPESIZE :: nat where "PIPESIZE \<equiv> 512"

definition get_pipe :: "u64 \<Rightarrow> (pipe \<Rightarrow> 'a) \<Rightarrow> 'a K" where
  "get_pipe pi f = gets (\<lambda>s. f (pipes s pi))"

definition set_pipe :: "u64 \<Rightarrow> (pipe \<Rightarrow> pipe) \<Rightarrow> unit K" where
  "set_pipe pi f = modify (\<lambda>s. s\<lparr>pipes := (pipes s)(pi := f (pipes s pi))\<rparr>)"

lemma pipe_apply [simp]:
  "get_pipe pi f s = Ret (f (pipes s pi)) s" "bindM (get_pipe pi f) k s = k (f (pipes s pi)) s"
  "set_pipe pi g s = Ret () (s\<lparr>pipes := (pipes s)(pi := g (pipes s pi))\<rparr>)"
  by (simp_all add: get_pipe_def set_pipe_def bindM_gets)

definition pipeclose :: "u64 \<Rightarrow> bool \<Rightarrow> unit K" where
  "pipeclose pi writable =
     seqM (acquire (PipeLock pi)) (
     seqM (if writable
           then seqM (set_pipe pi (\<lambda>q. q\<lparr>pi_writeopen := False\<rparr>)) (wakeup (ChanPipeRead pi))
           else seqM (set_pipe pi (\<lambda>q. q\<lparr>pi_readopen := False\<rparr>)) (wakeup (ChanPipeWrite pi))) (
     bindM (get_pipe pi (\<lambda>q. \<not> pi_readopen q \<and> \<not> pi_writeopen q)) (\<lambda>closed.
     if closed then seqM (release (PipeLock pi)) (kfree pi)
     else release (PipeLock pi))))"

text \<open>The end of \<^verbatim>\<open>pipewrite\<close>, after the loop.\<close>

definition pipewrite_done :: "u64 \<Rightarrow> nat \<Rightarrow> int K" where
  "pipewrite_done pi i =
     seqM (wakeup (ChanPipeRead pi)) (
     seqM (release (PipeLock pi))
          (returnM (int i)))"

text \<open>The loop, with \<open>i\<close> bytes written and \<open>k\<close> to go.\<close>

primrec pipewrite_loop :: "u64 \<Rightarrow> u64 \<Rightarrow> nat \<Rightarrow> nat \<Rightarrow> nat \<Rightarrow> int K" where
  "pipewrite_loop pi addr pr i 0 = pipewrite_done pi i"
| "pipewrite_loop pi addr pr i (Suc k) =
     bindM (get_pipe pi pi_readopen) (\<lambda>ro.
     bindM (get_proc pr p_killed) (\<lambda>killed.
     if \<not> ro \<or> killed \<noteq> 0 then seqM (release (PipeLock pi)) (returnM (- 1)) else
     bindM (get_pipe pi (\<lambda>q. pi_nwrite q = pi_nread q + of_nat PIPESIZE)) (\<lambda>full.
     if full then seqM (wakeup (ChanPipeRead pi)) (sleep (ChanPipeWrite pi) (PipeLock pi)) else
     bindM (get_proc pr p_pagetable) (\<lambda>pt.
     bindM (copyin pt (addr + of_nat i) 1) (\<lambda>got.
     if fst got = - 1 then pipewrite_done pi i else
     seqM (set_pipe pi (\<lambda>q. q\<lparr>pi_data := (pi_data q)(unat (pi_nwrite q) mod PIPESIZE := hd (snd got)),
                              pi_nwrite := pi_nwrite q + 1\<rparr>))
          (pipewrite_loop pi addr pr (Suc i) k))))))"

definition pipewrite :: "u64 \<Rightarrow> u64 \<Rightarrow> int \<Rightarrow> int K" where
  "pipewrite pi addr n =
     bindM curproc (\<lambda>pr.
     seqM (acquire (PipeLock pi))
          (pipewrite_loop pi addr pr 0 (nat n)))"

definition pipewrite_resume :: "u64 \<Rightarrow> u64 \<Rightarrow> nat \<Rightarrow> bool \<Rightarrow> nat \<Rightarrow> nat \<Rightarrow> int K" where
  "pipewrite_resume pi addr pr en i k =
     seqM (sleep_resume pr (PipeLock pi) en) (pipewrite_loop pi addr pr i k)"

primrec piperead_loop :: "u64 \<Rightarrow> u64 \<Rightarrow> nat \<Rightarrow> nat \<Rightarrow> nat \<Rightarrow> int K" where
  "piperead_loop pi addr pr i 0 = returnM (int i)"
| "piperead_loop pi addr pr i (Suc k) =
     bindM (get_pipe pi (\<lambda>q. pi_nread q = pi_nwrite q)) (\<lambda>empty.
     if empty then returnM (int i) else
     bindM (get_pipe pi (\<lambda>q. pi_data q (unat (pi_nread q) mod PIPESIZE))) (\<lambda>ch.
     seqM (set_pipe pi (\<lambda>q. q\<lparr>pi_nread := pi_nread q + 1\<rparr>)) (
     bindM (get_proc pr p_pagetable) (\<lambda>pt.
     bindM (copyout pt (addr + of_nat i) [ch]) (\<lambda>r.
     if r = - 1 then returnM (int i)
     else piperead_loop pi addr pr (Suc i) k)))))"

definition piperead_turn :: "u64 \<Rightarrow> u64 \<Rightarrow> nat \<Rightarrow> int \<Rightarrow> int K" where
  "piperead_turn pi addr pr n =
     bindM (get_pipe pi (\<lambda>q. pi_nread q = pi_nwrite q \<and> pi_writeopen q)) (\<lambda>empty.
     if empty then
       bindM (get_proc pr p_killed) (\<lambda>killed.
       if killed \<noteq> 0 then seqM (release (PipeLock pi)) (returnM (- 1))
       else sleep (ChanPipeRead pi) (PipeLock pi))
     else
       bindM (piperead_loop pi addr pr 0 (nat n)) (\<lambda>i.
       seqM (wakeup (ChanPipeWrite pi)) (
       seqM (release (PipeLock pi))
            (returnM i))))"

definition piperead :: "u64 \<Rightarrow> u64 \<Rightarrow> int \<Rightarrow> int K" where
  "piperead pi addr n =
     bindM curproc (\<lambda>pr.
     seqM (acquire (PipeLock pi))
          (piperead_turn pi addr pr n))"

definition piperead_resume :: "u64 \<Rightarrow> u64 \<Rightarrow> nat \<Rightarrow> bool \<Rightarrow> int \<Rightarrow> int K" where
  "piperead_resume pi addr pr en n =
     seqM (sleep_resume pr (PipeLock pi) en) (piperead_turn pi addr pr n)"

subsection \<open>The queue of a pipe\<close>

definition pipe_list :: "pipe \<Rightarrow> u8 list" where
  "pipe_list q = ring_list PIPESIZE (pi_data q) (pi_nread q) (pi_nwrite q)"

definition pipe_ok :: "pipe \<Rightarrow> bool" where
  "pipe_ok q \<longleftrightarrow> length (pipe_list q) \<le> PIPESIZE"

definition pipe_put :: "u8 \<Rightarrow> pipe \<Rightarrow> pipe" where
  "pipe_put x q = q\<lparr>pi_data := (pi_data q)(unat (pi_nwrite q) mod PIPESIZE := x), pi_nwrite := pi_nwrite q + 1\<rparr>"

definition pipe_get :: "pipe \<Rightarrow> pipe" where
  "pipe_get q = q\<lparr>pi_nread := pi_nread q + 1\<rparr>"

lemma pipe_full_iff: "pi_nwrite q = pi_nread q + of_nat PIPESIZE \<longleftrightarrow> length (pipe_list q) = PIPESIZE"
  unfolding pipe_list_def length_ring_list by (rule pipe_ring.full_iff)

lemma pipe_list_put:
  assumes "length (pipe_list q) < PIPESIZE"
  shows "pipe_list (pipe_put x q) = pipe_list q @ [x]"
  using pipe_ring.put_list [of "pi_nwrite q" "pi_nread q" "pi_data q" x] assms by (simp add: pipe_list_def pipe_put_def)

lemma pipe_list_get:
  assumes "pi_nread q \<noteq> pi_nwrite q"
  shows "pipe_list q = pi_data q (unat (pi_nread q) mod PIPESIZE) # pipe_list (pipe_get q)"
  using pipe_ring.get_list [OF assms] by (simp add: pipe_list_def pipe_get_def)

lemma pipe_list_Nil: "pipe_list q = [] \<longleftrightarrow> pi_nread q = pi_nwrite q"
  by (simp add: pipe_list_def ring_list_Nil)

lemma pipe_list_puts:
  "length (pipe_list q) + length bs \<le> PIPESIZE \<Longrightarrow> pipe_list (fold pipe_put bs q) = pipe_list q @ bs"
proof (induction bs arbitrary: q)
  case Nil
  then show ?case by simp
next
  case (Cons b bs)
  then have "pipe_list (pipe_put b q) = pipe_list q @ [b]" by (intro pipe_list_put) simp
  then show ?case using Cons by simp
qed

lemma pipe_fields [simp]:
  "pi_readopen (pipe_put x q) = pi_readopen q" "pi_writeopen (pipe_put x q) = pi_writeopen q"
  "pi_readopen (pipe_get q) = pi_readopen q" "pi_writeopen (pipe_get q) = pi_writeopen q"
  by (simp_all add: pipe_put_def pipe_get_def)

lemma user_bytes_Suc: "user_bytes m pt va (Suc k) = user_byte m pt va # user_bytes m pt (va + 1) k"
  using user_bytes_add [of m pt va 1 k] by (simp add: user_bytes_def)

subsection \<open>Writing\<close>

definition set_pi :: "u64 \<Rightarrow> pipe \<Rightarrow> kern \<Rightarrow> kern" where
  "set_pi pi q s = s\<lparr>pipes := (pipes s)(pi := q)\<rparr>"

lemma set_pi_simps [simp]:
  "phys (set_pi pi q s) = phys s" "procs (set_pi pi q s) = procs s" "pipes (set_pi pi q s) pi = q"
  "held lk (set_pi pi q s) = held lk s" "set_pi pi q (set_pi pi q' s) = set_pi pi q s" "cur (set_pi pi q s) = cur s"
  "set_pi pi (pipes s pi) s = s" "calm (set_pi pi q s) = calm s" "mycpu (set_pi pi q s) = mycpu s"
  by (simp_all add: set_pi_def)

lemma set_pi_acq: "set_pi pi q (acq lk s) = acq lk (set_pi pi q s)"
  by (simp add: set_pi_def)

text \<open>The loop writes what there is room for and then returns, or wakes the readers and sleeps.\<close>

lemma pipewrite_loop_run:
  assumes "pi_readopen (pipes u pi)" "p_killed (procs u pr) = 0" "pipe_ok (pipes u pi)"
    "tree_ok 2 (phys u) (p_pagetable (procs u pr))"
    "user_range (phys u) (p_pagetable (procs u pr)) (addr + of_nat i) k"
  defines "q \<equiv> pipes u pi" and "bs \<equiv> user_bytes (phys u) (p_pagetable (procs u pr)) (addr + of_nat i) k"
  shows "pipewrite_loop pi addr pr i k u =
    (if length (pipe_list q) + k \<le> PIPESIZE then pipewrite_done pi (i + k) (set_pi pi (fold pipe_put bs q) u)
     else seqM (wakeup (ChanPipeRead pi)) (sleep (ChanPipeWrite pi) (PipeLock pi))
       (set_pi pi (fold pipe_put (take (PIPESIZE - length (pipe_list q)) bs) q) u))"
  using assms(1-5) unfolding q_def bs_def
proof (induction k arbitrary: i u)
  case 0
  then show ?case by (simp add: pipe_ok_def user_bytes_def)
next
  case (Suc k)
  define q where "q = pipes u pi"
  define m pt where "m = phys u" and "pt = p_pagetable (procs u pr)"
  show ?case
  proof (cases "length (pipe_list q) = PIPESIZE")
    case True
    then show ?thesis
      using Suc.prems(1,2) pipe_full_iff [of q] by (simp add: q_def bindM_get_proc)
  next
    case False
    then have room: "length (pipe_list q) < PIPESIZE" using Suc.prems(3) by (simp add: pipe_ok_def q_def)
    define x where "x = user_byte m pt (addr + of_nat i)"
    define v where "v = set_pi pi (pipe_put x q) u"
    have one: "user_range m pt (addr + of_nat i) 1"
      using Suc.prems(5) unfolding user_range_def m_def pt_def by (auto dest: spec [of _ 0])
    have rest: "user_range m pt (addr + of_nat (Suc i)) k"
      using Suc.prems(5) unfolding user_range_def m_def [symmetric] pt_def [symmetric]
      by (auto simp: add_ac dest: spec [of _ "Suc _"])
    have "copyin pt (addr + of_nat i) 1 u = Ret (0, [x]) u"
      using copyin_reads [of u pt "addr + of_nat i" 1] one Suc.prems(4) by (simp add: m_def pt_def x_def user_bytes_def)
    then have step: "pipewrite_loop pi addr pr i (Suc k) u = pipewrite_loop pi addr pr (Suc i) k v"
      using Suc.prems(1,2) False pipe_full_iff [of q]
      by (simp add: q_def bindM_get_proc pt_def v_def set_pi_def pipe_put_def)
    have pl: "pipe_list (pipe_put x q) = pipe_list q @ [x]" by (rule pipe_list_put [OF room])
    have IH: "pipewrite_loop pi addr pr (Suc i) k v =
      (if length (pipe_list (pipes v pi)) + k \<le> PIPESIZE
       then pipewrite_done pi (Suc i + k) (set_pi pi (fold pipe_put (user_bytes m pt (addr + of_nat (Suc i)) k) (pipes v pi)) v)
       else seqM (wakeup (ChanPipeRead pi)) (sleep (ChanPipeWrite pi) (PipeLock pi))
         (set_pi pi (fold pipe_put (take (PIPESIZE - length (pipe_list (pipes v pi))) (user_bytes m pt (addr + of_nat (Suc i)) k)) (pipes v pi)) v))"
      using Suc.IH [of v "Suc i"] Suc.prems rest pl room
      by (simp add: v_def m_def pt_def pipe_ok_def q_def del: of_nat_Suc)
    have bs: "user_bytes m pt (addr + of_nat i) (Suc k) = x # user_bytes m pt (addr + of_nat (Suc i)) k"
      by (simp add: user_bytes_Suc x_def add_ac)
    have t: "take (PIPESIZE - length (pipe_list q)) (x # user_bytes m pt (addr + of_nat (Suc i)) k)
       = x # take (PIPESIZE - Suc (length (pipe_list q))) (user_bytes m pt (addr + of_nat (Suc i)) k)"
      unfolding Suc_diff_Suc [OF room, symmetric] by simp
    show ?thesis
      unfolding step IH bs [unfolded m_def pt_def] using pl t [unfolded m_def pt_def q_def]
      by (simp add: v_def q_def m_def pt_def)
  qed
qed

lemma pipewrite_done_run:
  assumes "calm u"
  shows "\<exists>pr. pipewrite_done pi i (acq (PipeLock pi) u) = Ret (int i) (u\<lparr>procs := pr\<rparr>) \<and> wokep u pr"
proof -
  obtain pr where pr: "wakeup (ChanPipeRead pi) (acq (PipeLock pi) u) = Ret () ((acq (PipeLock pi) u)\<lparr>procs := pr\<rparr>)"
     "wokep (acq (PipeLock pi) u) pr"
    using wakeup_cs [of "PipeLock pi" "acq (PipeLock pi) u"] assms by auto
  moreover have "wokep u pr" using pr(2) by (simp add: wokep_def)
  ultimately show ?thesis using assms by (auto simp: pipewrite_done_def release_held)
qed

lemma curproc_calm: "calm s \<Longrightarrow> curproc s = Ret (cur s) s"
  using calmD [of s] by (simp add: curproc_case)

text \<open>
  C23: \<^verbatim>\<open>pipewrite\<close> appends the bytes of the user's buffer to the queue of the pipe, in order. If they fit
  it returns their number; otherwise it fills the pipe, wakes the readers and sleeps until there is
  room. The counters may wrap around.
\<close>

theorem pipewrite_enqueues:
  assumes "calm s" "noff (mycpu s) = 0" "pipe_ok (pipes s pi)" "pi_readopen (pipes s pi)" "p_killed (procs s (cur s)) = 0"
    and "tree_ok 2 (phys s) (p_pagetable (procs s (cur s)))" "user_range (phys s) (p_pagetable (procs s (cur s))) addr (nat n)"
  shows "let old = pipe_list (pipes s pi); bs = user_bytes (phys s) (p_pagetable (procs s (cur s))) addr (nat n) in
    if length old + nat n \<le> PIPESIZE
    then \<exists>t. pipewrite pi addr n s = Ret (int (nat n)) t \<and> calm t \<and> pipe_ok (pipes t pi) \<and> pipe_list (pipes t pi) = old @ bs
    else \<exists>t. pipewrite pi addr n s = Stop (Switch (Asleep (ChanPipeWrite pi))) t
       \<and> pipe_list (pipes t pi) = old @ take (PIPESIZE - length old) bs"
proof -
  define q m pt where "q = pipes s pi" and "m = phys s" and "pt = p_pagetable (procs s (cur s))"
  define bs where "bs = user_bytes m pt addr (nat n)"
  have len: "length bs = nat n" by (simp add: bs_def user_bytes_def)
  let ?a = "acq (PipeLock pi)"
  have run: "pipewrite pi addr n s = (if length (pipe_list q) + nat n \<le> PIPESIZE
     then pipewrite_done pi (nat n) (?a (set_pi pi (fold pipe_put bs q) s))
     else seqM (wakeup (ChanPipeRead pi)) (sleep (ChanPipeWrite pi) (PipeLock pi))
       (?a (set_pi pi (fold pipe_put (take (PIPESIZE - length (pipe_list q)) bs) q) s)))"
  proof -
    have "pipewrite pi addr n s = pipewrite_loop pi addr (cur s) 0 (nat n) (?a s)"
      by (simp add: pipewrite_def bindM_def seqM_def curproc_calm [OF assms(1)] acquire_calm [OF assms(1)])
    also have "\<dots> = (if length (pipe_list q) + nat n \<le> PIPESIZE then pipewrite_done pi (nat n) (set_pi pi (fold pipe_put bs q) (?a s))
     else seqM (wakeup (ChanPipeRead pi)) (sleep (ChanPipeWrite pi) (PipeLock pi))
       (set_pi pi (fold pipe_put (take (PIPESIZE - length (pipe_list q)) bs) q) (?a s)))"
      by (subst pipewrite_loop_run) (use assms in \<open>simp_all add: q_def bs_def m_def pt_def\<close>)
    finally show ?thesis unfolding set_pi_acq .
  qed
  show ?thesis
  proof (cases "length (pipe_list q) + nat n \<le> PIPESIZE")
    case True
    let ?t = "set_pi pi (fold pipe_put bs q) s"
    obtain pr where "pipewrite_done pi (nat n) (?a ?t) = Ret (int (nat n)) (?t\<lparr>procs := pr\<rparr>)"
      using pipewrite_done_run [of ?t pi "nat n"] assms(1) by auto
    then show ?thesis
      using run True assms(1) pipe_list_puts [of q bs] len
      by (simp add: Let_def q_def [symmetric] m_def [symmetric] pt_def [symmetric] bs_def [symmetric] pipe_ok_def)
  next
    case False
    let ?r = "PIPESIZE - length (pipe_list q)"
    let ?t = "set_pi pi (fold pipe_put (take ?r bs) q) s"
    obtain pr where w: "wakeup (ChanPipeRead pi) (?a ?t) = Ret () ((?a ?t)\<lparr>procs := pr\<rparr>)"
      using wakeup_cs [of "PipeLock pi" "?a ?t" "ChanPipeRead pi"] assms(1) by auto
    have "noff (mycpu ((?a ?t)\<lparr>procs := pr\<rparr>)) = 1" using assms(2) by (simp add: noff_acq_calm)
    then have "sleep (ChanPipeWrite pi) (PipeLock pi) ((?a ?t)\<lparr>procs := pr\<rparr>) =
        (Stop (Switch (Asleep (ChanPipeWrite pi))) (asleep (ChanPipeWrite pi) (PipeLock pi) ((?a ?t)\<lparr>procs := pr\<rparr>)) :: (int, kern) outcome)"
      using assms(1) by (subst sleep_cs) auto
    moreover have "length (pipe_list q) + length (take ?r bs) \<le> PIPESIZE" using assms(3) by (simp add: pipe_ok_def q_def)
    ultimately show ?thesis
      using run False w pipe_list_puts [of q "take ?r bs"]
      by (simp add: Let_def q_def [symmetric] m_def [symmetric] pt_def [symmetric] bs_def [symmetric])
  qed
qed

text \<open>A kernel whose process 0 has user memory, with a pipe at address 0x87001000 whose counters are about to wrap.\<close>

definition demo_pipe :: "mem \<Rightarrow> u8 list \<Rightarrow> kern" where
  "demo_pipe m bs = booted\<lparr>phys := m, procs := (procs booted)(0 := (procs booted 0)\<lparr>p_pagetable := 0x87FFD000\<rparr>),
     pipes := (\<lambda>_. fold pipe_put bs \<lparr>pi_data = (\<lambda>_. 0), pi_nread = - 2, pi_nwrite = - 2, pi_readopen = True, pi_writeopen = True\<rparr>)\<rparr>"

lemma demo_pipe_simps:
  assumes "length bs \<le> PIPESIZE"
  shows "calm (demo_pipe m bs)" "noff (mycpu (demo_pipe m bs)) = 0" "pipe_list (pipes (demo_pipe m bs) pi) = bs"
    "pi_readopen (pipes (demo_pipe m bs) pi)" "p_killed (procs (demo_pipe m bs) (cur (demo_pipe m bs))) = 0"
    "p_pagetable (procs (demo_pipe m bs) (cur (demo_pipe m bs))) = 0x87FFD000" "phys (demo_pipe m bs) = m"
proof -
  let ?q = "\<lparr>pi_data = (\<lambda>_. 0), pi_nread = - 2, pi_nwrite = - 2, pi_readopen = True, pi_writeopen = True\<rparr> :: pipe"
  have "pipe_list ?q = []" by (simp add: pipe_list_def)
  then show "pipe_list (pipes (demo_pipe m bs) pi) = bs" using pipe_list_puts [of ?q bs] assms by (simp add: demo_pipe_def)
  have "pi_readopen (fold pipe_put bs q) = pi_readopen q" for q by (induction bs arbitrary: q) simp_all
  then show "pi_readopen (pipes (demo_pipe m bs) pi)" by (simp add: demo_pipe_def)
  show "calm (demo_pipe m bs)" "noff (mycpu (demo_pipe m bs)) = 0" "phys (demo_pipe m bs) = m"
    by (simp_all add: demo_pipe_def) (simp add: booted_unfold spin_defs)
  show "p_killed (procs (demo_pipe m bs) (cur (demo_pipe m bs))) = 0"
    "p_pagetable (procs (demo_pipe m bs) (cur (demo_pipe m bs))) = 0x87FFD000"
    by (simp_all add: demo_pipe_def demo_procs_def blank_proc_def)
qed

theorem pipewrite_enqueues_witness:
  "\<exists>m t. pipewrite 0x87001000 0x5FFD 3 (demo_pipe m [9]) = Ret 3 t
    \<and> pipe_list (pipes t 0x87001000) = 9 # user_bytes m 0x87FFD000 0x5FFD 3"
proof -
  obtain s :: kmem where s: "user_ok (phys s) 0x87FFD000" "user_range (phys s) 0x87FFD000 0x5FFD 3"
    using user_memory by blast
  note d = demo_pipe_simps [of "[9]" "phys s"]
  have "tree_ok 2 (phys s) 0x87FFD000" using s(1) by (simp add: user_ok_def)
  then show ?thesis
    using pipewrite_enqueues [of "demo_pipe (phys s) [9]" "0x87001000" "0x5FFD" 3] s(2) d
    by (auto simp: pipe_ok_def Let_def)
qed

subsection \<open>Reading\<close>

lemma piperead_loop_run:
  assumes "user_ok (phys u) (p_pagetable (procs u pr))"
    "user_range (phys u) (p_pagetable (procs u pr)) (addr + of_nat i) k" "k < 2 ^ 63"
  shows "\<exists>q m. piperead_loop pi addr pr i k u = Ret (int (i + min k (length (pipe_list (pipes u pi)))))
       ((set_pi pi q u)\<lparr>phys := m\<rparr>)
     \<and> pipe_list q = drop k (pipe_list (pipes u pi)) \<and> pi_readopen q = pi_readopen (pipes u pi) \<and> pi_writeopen q = pi_writeopen (pipes u pi)
     \<and> wrote_user (p_pagetable (procs u pr)) (addr + of_nat i) (take k (pipe_list (pipes u pi))) (phys u) m"
  using assms
proof (induction k arbitrary: i u)
  case 0
  have "wrote_user (p_pagetable (procs u pr)) (addr + of_nat i) [] (phys u) (phys u)" using 0(1) by (simp add: wrote_user_def)
  then show ?case by (auto intro!: exI [of _ "pipes u pi"] exI [of _ "phys u"])
next
  case (Suc k)
  define q pt where "q = pipes u pi" and "pt = p_pagetable (procs u pr)"
  show ?case
  proof (cases "pi_nread q = pi_nwrite q")
    case True
    then have "pipe_list q = []" by (simp add: pipe_list_Nil)
    moreover have "wrote_user pt (addr + of_nat i) [] (phys u) (phys u)" using Suc.prems(1) by (simp add: wrote_user_def pt_def)
    ultimately show ?thesis using True
      by (auto simp: q_def pt_def intro!: exI [of _ "pipes u pi"] exI [of _ "phys u"])
  next
    case False
    define x where "x = pi_data q (unat (pi_nread q) mod PIPESIZE)"
    have pl: "pipe_list q = x # pipe_list (pipe_get q)" using pipe_list_get [OF False] by (simp add: x_def)
    have one: "user_range (phys u) pt (addr + of_nat i) (length [x])"
      using Suc.prems(2) unfolding user_range_def pt_def by (auto dest: spec [of _ 0])
    obtain m where m: "copyout pt (addr + of_nat i) [x] (set_pi pi (pipe_get q) u) = Ret 0 ((set_pi pi (pipe_get q) u)\<lparr>phys := m\<rparr>)"
       "wrote_user pt (addr + of_nat i) [x] (phys u) m"
      using copyout_writes [of "set_pi pi (pipe_get q) u" pt "addr + of_nat i" "[x]"] one Suc.prems(1) by (auto simp: pt_def)
    define v where "v = (set_pi pi (pipe_get q) u)\<lparr>phys := m\<rparr>"
    have v: "user_ok (phys v) (p_pagetable (procs v pr))" "user_range (phys v) (p_pagetable (procs v pr)) (addr + of_nat (Suc i)) k"
      using m(2) Suc.prems(2) unfolding v_def wrote_user_def user_range_def pt_def
      by (auto simp: add_ac set_pi_def dest: spec [of _ "Suc _"])
    have step: "piperead_loop pi addr pr i (Suc k) u = piperead_loop pi addr pr (Suc i) k v"
      using False m(1) by (simp add: q_def x_def v_def pt_def bindM_get_proc set_pi_def pipe_get_def)
    have vq: "pipes v pi = pipe_get q" "p_pagetable (procs v pr) = pt" "phys v = m" by (simp_all add: v_def set_pi_def pt_def)
    obtain q' m' where r: "piperead_loop pi addr pr (Suc i) k v = Ret (int (Suc i + min k (length (pipe_list (pipe_get q))))) ((set_pi pi q' v)\<lparr>phys := m'\<rparr>)"
       "pipe_list q' = drop k (pipe_list (pipe_get q))" "pi_readopen q' = pi_readopen q" "pi_writeopen q' = pi_writeopen q"
       "wrote_user pt (addr + of_nat (Suc i)) (take k (pipe_list (pipe_get q))) m m'"
      using Suc.IH [OF v] Suc.prems(3) vq by auto
    have "wrote_user pt (addr + of_nat i) ([x] @ take k (pipe_list (pipe_get q))) (phys u) m'"
      by (rule wrote_user_trans [OF m(2)]) (use r(5) Suc.prems(3) in \<open>simp_all add: add_ac\<close>)
    then show ?thesis
      using step r pl by (intro exI [of _ q'] exI [of _ m']) (simp add: v_def set_pi_def q_def [symmetric] pt_def [symmetric])
  qed
qed

text \<open>
  C24: \<^verbatim>\<open>piperead\<close> takes bytes from the front of the queue of the pipe, as many as there are and were asked
  for, and puts them into the user's buffer in order; the other bytes stay in the pipe. On an empty
  pipe whose writing end is open it sleeps, or fails if the process has been killed, and it returns 0 once the writing end
  is closed.
\<close>

theorem piperead_dequeues:
  assumes "calm s" "noff (mycpu s) = 0" "nat n < 2 ^ 63"
    and "user_ok (phys s) (p_pagetable (procs s (cur s)))" "user_range (phys s) (p_pagetable (procs s (cur s))) addr (nat n)"
  shows "let old = pipe_list (pipes s pi) in
    if old = [] \<and> pi_writeopen (pipes s pi)
    then if p_killed (procs s (cur s)) \<noteq> 0 then piperead pi addr n s = Ret (- 1) s
      else \<exists>t. piperead pi addr n s = Stop (Switch (Asleep (ChanPipeRead pi))) t \<and> pipes t = pipes s
    else \<exists>t. piperead pi addr n s = Ret (int (min (nat n) (length old))) t \<and> calm t \<and> pipe_list (pipes t pi) = drop (nat n) old
      \<and> wrote_user (p_pagetable (procs s (cur s))) addr (take (nat n) old) (phys s) (phys t)"
proof -
  let ?a = "acq (PipeLock pi)"
  define q where "q = pipes s pi"
  have run: "piperead pi addr n s = piperead_turn pi addr (cur s) n (?a s)"
    using assms(1) by (simp add: piperead_def curproc_calm acquire_calm)
  show ?thesis
  proof (cases "pipe_list q = [] \<and> pi_writeopen q")
    case True
    then show ?thesis
      using run assms(1,2) by (simp add: piperead_turn_def bindM_get_proc pipe_list_Nil q_def release_held sleep_cs noff_acq_calm)
  next
    case False
    obtain q' m where r: "piperead_loop pi addr (cur s) 0 (nat n) (?a s) =
        Ret (int (min (nat n) (length (pipe_list q)))) ((set_pi pi q' (?a s))\<lparr>phys := m\<rparr>)"
      "pipe_list q' = drop (nat n) (pipe_list q)"
      "wrote_user (p_pagetable (procs s (cur s))) addr (take (nat n) (pipe_list q)) (phys s) m"
      using piperead_loop_run [of "?a s" "cur s" addr 0 "nat n" pi] assms(3-5) by (auto simp: q_def)
    define u where "u = (set_pi pi q' s)\<lparr>phys := m\<rparr>"
    have u: "calm u" "(set_pi pi q' (?a s))\<lparr>phys := m\<rparr> = ?a u" using assms(1) by (simp_all add: u_def set_pi_def)
    obtain pr where w: "wakeup (ChanPipeWrite pi) (?a u) = Ret () ((?a u)\<lparr>procs := pr\<rparr>)"
      using wakeup_cs [of "PipeLock pi" "?a u" "ChanPipeWrite pi"] u(1) by auto
    have "piperead pi addr n s = Ret (int (min (nat n) (length (pipe_list q)))) (u\<lparr>procs := pr\<rparr>)"
      using run False r(1) w u by (auto simp: piperead_turn_def pipe_list_Nil q_def release_held)
    then show ?thesis
      using False r(2,3) u(1) by (simp add: Let_def q_def [symmetric]) (simp add: u_def set_pi_def)
  qed
qed

theorem piperead_dequeues_witness:
  "\<exists>m t. piperead 0x87001000 0x5FFD 3 (demo_pipe m [4, 5, 6, 7]) = Ret 3 t \<and> pipe_list (pipes t 0x87001000) = [7]
    \<and> wrote_user 0x87FFD000 0x5FFD [4, 5, 6] m (phys t)"
proof -
  obtain s :: kmem where s: "user_ok (phys s) 0x87FFD000" "user_range (phys s) 0x87FFD000 0x5FFD 3"
    using user_memory by blast
  note d = demo_pipe_simps [of "[4, 5, 6, 7]" "phys s"]
  then show ?thesis
    using piperead_dequeues [of "demo_pipe (phys s) [4, 5, 6, 7]" 3 "0x5FFD" "0x87001000"] s
    by (auto simp: Let_def)
qed

end
