(* ===== verification/Uart.thy ===== *)
theory Uart
  imports Sleeplock Ring
begin

section \<open>The serial port (kernel/uart.c)\<close>

text \<open>
  The driver of the 16550 UART: a ring buffer of 32 bytes in front of the transmitter. The device
  is part of the machine: its transmitter takes \<open>u_room\<close> more bytes before it is busy, \<open>u_sent\<close> is everything it has been given,
  and \<open>u_input\<close> is the input it has received. A busy transmitter that is polled drains.
  The lemmas show that bytes leave in the order in which they were written.
\<close>

subsection \<open>Registers\<close>

abbreviation (input) THR :: nat where "THR \<equiv> 0"
abbreviation (input) RHR :: nat where "RHR \<equiv> 0"
abbreviation (input) IER :: nat where "IER \<equiv> 1"
abbreviation (input) FCR :: nat where "FCR \<equiv> 2"
abbreviation (input) LCR :: nat where "LCR \<equiv> 3"
abbreviation (input) LSR :: nat where "LSR \<equiv> 5"
abbreviation (input) LSR_RX_READY :: u8 where "LSR_RX_READY \<equiv> 1"
abbreviation (input) LSR_TX_IDLE :: u8 where "LSR_TX_IDLE \<equiv> 32"
abbreviation (input) UART_TX_BUF_SIZE :: nat where "UART_TX_BUF_SIZE \<equiv> 32"

definition get_uart :: "(uart \<Rightarrow> 'a) \<Rightarrow> 'a K" where
  "get_uart f = gets (\<lambda>s. f (uart s))"

definition set_uart :: "(uart \<Rightarrow> uart) \<Rightarrow> unit K" where
  "set_uart f = modify (\<lambda>s. s\<lparr>uart := f (uart s)\<rparr>)"

lemma uart_apply [simp]:
  "get_uart f s = Ret (f (uart s)) s" "bindM (get_uart f) k s = k (f (uart s)) s"
  "set_uart g s = Ret () (s\<lparr>uart := g (uart s)\<rparr>)"
  by (simp_all add: get_uart_def set_uart_def bindM_gets)

text \<open>The line status register, and the two sides of register 0.\<close>

definition lsr :: "uart \<Rightarrow> u8" where
  "lsr u = (if u_input u = [] then 0 else LSR_RX_READY) OR (if u_room u = 0 then 0 else LSR_TX_IDLE)"

definition ReadReg :: "nat \<Rightarrow> u8 K" where
  "ReadReg reg =
     (if reg = LSR then get_uart lsr
      else if reg = RHR then
        bindM (get_uart u_input) (\<lambda>inp. case inp of [] \<Rightarrow> returnM 0
          | c # rest \<Rightarrow> seqM (set_uart (\<lambda>u. u\<lparr>u_input := rest\<rparr>)) (returnM c))
      else get_uart (\<lambda>u. u_reg u reg))"

definition WriteReg :: "nat \<Rightarrow> u8 \<Rightarrow> unit K" where
  "WriteReg reg v =
     set_uart (\<lambda>u. if reg = THR \<and> \<not> bit (u_reg u LCR) 7 then u\<lparr>u_room := u_room u - 1, u_sent := u_sent u @ [v]\<rparr>
                   else u\<lparr>u_reg := (u_reg u)(reg := v)\<rparr>)"

subsection \<open>The driver\<close>

definition uartinit :: "unit K" where
  "uartinit =
     seqM (WriteReg IER 0) (
     seqM (WriteReg LCR 0x80) (
     seqM (WriteReg 0 3) (
     seqM (WriteReg 1 0) (
     seqM (WriteReg LCR 3) (
     seqM (WriteReg FCR (1 OR 6)) (
     seqM (WriteReg IER (2 OR 1))
          (initlock UartTxLock ''uart'')))))))"

text \<open>The loop of \<^verbatim>\<open>uartstart\<close> takes one byte in every turn; the buffered bytes bound the number of turns.\<close>

primrec uartstart_loop :: "nat \<Rightarrow> unit K" where
  "uartstart_loop 0 = returnM ()"
| "uartstart_loop (Suc n) =
     bindM (get_uart (\<lambda>u. u_tx_w u = u_tx_r u)) (\<lambda>empty.
     if empty then returnM () else
     bindM (ReadReg LSR) (\<lambda>st.
     if st AND LSR_TX_IDLE = 0 then returnM () else
     bindM (get_uart (\<lambda>u. u_tx_buf u (unat (u_tx_r u) mod UART_TX_BUF_SIZE))) (\<lambda>c.
     seqM (set_uart (\<lambda>u. u\<lparr>u_tx_r := u_tx_r u + 1\<rparr>)) (
     seqM (wakeup ChanUartR) (
     seqM (WriteReg THR c)
          (uartstart_loop n))))))"

definition uartstart :: "unit K" where
  "uartstart = bindM (get_uart (\<lambda>u. unat (u_tx_w u - u_tx_r u))) uartstart_loop"

definition uartputc_turn :: "int \<Rightarrow> unit K" where
  "uartputc_turn c =
     bindM (get_uart (\<lambda>u. u_tx_w u = u_tx_r u + of_nat UART_TX_BUF_SIZE)) (\<lambda>full.
     if full then sleep ChanUartR UartTxLock else
     seqM (set_uart (\<lambda>u. u\<lparr>u_tx_buf := (u_tx_buf u)(unat (u_tx_w u) mod UART_TX_BUF_SIZE := word_of_int c)\<rparr>)) (
     seqM (set_uart (\<lambda>u. u\<lparr>u_tx_w := u_tx_w u + 1\<rparr>)) (
     seqM uartstart
          (release UartTxLock))))"

definition uartputc :: "int \<Rightarrow> unit K" where
  "uartputc c =
     seqM (acquire UartTxLock) (
     bindM (gets panicked) (\<lambda>frozen.
     if frozen then stopM (Fault ''frozen after a panic'') else uartputc_turn c))"

definition uartputc_resume :: "nat \<Rightarrow> bool \<Rightarrow> int \<Rightarrow> unit K" where
  "uartputc_resume me en c = seqM (sleep_resume me UartTxLock en) (uartputc_turn c)"

text \<open>The busy wait of \<^verbatim>\<open>uartputc_sync\<close> is its effect: it ends when the transmitter, which drains while it is polled, has room.\<close>

definition uart_wait_idle :: "unit K" where
  "uart_wait_idle = set_uart (\<lambda>u. if u_room u = 0 then u\<lparr>u_room := 1\<rparr> else u)"

definition uartputc_sync :: "int \<Rightarrow> unit K" where
  "uartputc_sync c =
     seqM push_off (
     bindM (gets panicked) (\<lambda>frozen.
     if frozen then stopM (Fault ''frozen after a panic'') else
     seqM uart_wait_idle (
     seqM (WriteReg THR (word_of_int c))
          pop_off)))"

definition uartgetc :: "int K" where
  "uartgetc =
     bindM (ReadReg LSR) (\<lambda>st.
     if st AND 1 \<noteq> 0 then bindM (ReadReg RHR) (\<lambda>c. returnM (uint c)) else returnM (- 1))"

subsection \<open>Order of the output\<close>

definition tx_list :: "uart \<Rightarrow> u8 list" where
  "tx_list u = ring_list UART_TX_BUF_SIZE (u_tx_buf u) (u_tx_r u) (u_tx_w u)"

text \<open>Everything handed to the driver so far: what has been sent and what waits in the buffer.\<close>

definition tx_output :: "uart \<Rightarrow> u8 list" where
  "tx_output u = u_sent u @ tx_list u"

lemma lsr_idle: "lsr u AND LSR_TX_IDLE = 0 \<longleftrightarrow> u_room u = 0"
  by (simp add: lsr_def)

lemma lsr_ready: "lsr u AND 1 = 0 \<longleftrightarrow> u_input u = []"
  by (simp add: lsr_def)

definition tx_step :: "uart \<Rightarrow> uart" where
  "tx_step u = u\<lparr>u_tx_r := u_tx_r u + 1, u_room := u_room u - 1,
     u_sent := u_sent u @ [u_tx_buf u (unat (u_tx_r u) mod UART_TX_BUF_SIZE)]\<rparr>"

lemma tx_step_output: "u_tx_r u \<noteq> u_tx_w u \<Longrightarrow> tx_output (tx_step u) = tx_output u"
  using uart_ring.get_list [of "u_tx_r u" "u_tx_w u" "u_tx_buf u"] by (simp add: tx_output_def tx_list_def tx_step_def)

lemma uartstart_loop_run:
  assumes "held UartTxLock s" "\<not> bit (u_reg (uart s) LCR) 7" "n = length (tx_list (uart s))"
  shows "\<exists>pr. uartstart_loop n s = Ret () (s\<lparr>procs := pr, uart := (tx_step ^^ min n (u_room (uart s))) (uart s)\<rparr>) \<and> wokep s pr"
  using assms
proof (induction n arbitrary: s)
  case 0
  have "uartstart_loop 0 s = Ret () (s\<lparr>procs := procs s, uart := uart s\<rparr>)" by simp
  then show ?case using wokep_refl [of s] by (intro exI [of _ "procs s"]) simp
next
  case (Suc n)
  define u where "u = uart s"
  have ne: "u_tx_r u \<noteq> u_tx_w u" using Suc.prems(3) by (auto simp: u_def tx_list_def)
  show ?case
  proof (cases "u_room u = 0")
    case True
    then have "uartstart_loop (Suc n) s = Ret () (s\<lparr>procs := procs s, uart := uart s\<rparr>)"
      using ne lsr_idle [of u] by (auto simp: ReadReg_def u_def)
    then show ?thesis using True wokep_refl [of s] by (intro exI [of _ "procs s"]) (simp add: u_def)
  next
    case False
    let ?v = "s\<lparr>uart := u\<lparr>u_tx_r := u_tx_r u + 1\<rparr>\<rparr>"
    obtain pr where pr: "wakeup ChanUartR ?v = Ret () (?v\<lparr>procs := pr\<rparr>)" "wokep ?v pr"
      using wakeup_cs [of UartTxLock ?v ChanUartR] Suc.prems(1) by auto
    define t where "t = s\<lparr>procs := pr, uart := tx_step u\<rparr>"
    have step: "uartstart_loop (Suc n) s = uartstart_loop n t"
      using ne False lsr_idle [of u] pr(1) Suc.prems(2)
      by (auto simp: ReadReg_def WriteReg_def u_def t_def tx_step_def)
    have "length (tx_list (tx_step u)) = n"
      using tx_step_output [OF ne] arg_cong [OF uart_ring.get_list [OF ne, of "u_tx_buf u"], of length] Suc.prems(3)
      by (simp add: u_def tx_list_def tx_step_def)
    moreover have "held UartTxLock t" "\<not> bit (u_reg (uart t) LCR) 7"
      using Suc.prems(1,2) by (simp_all add: t_def) (simp add: tx_step_def u_def)
    ultimately obtain pr' where r: "uartstart_loop n t = Ret () (t\<lparr>procs := pr', uart := (tx_step ^^ min n (u_room (uart t))) (uart t)\<rparr>)"
        "wokep t pr'"
      using Suc.IH [of t] by (auto simp: t_def)
    have w: "wokep s pr'"
      by (rule wokep_trans [of s pr]) (use pr(2) r(2) in \<open>simp_all add: t_def wokep_def\<close>)
    have "min (Suc n) (u_room u) = Suc (min n (u_room u - 1))" using False by simp
    then have "(tx_step ^^ min n (u_room (tx_step u))) (tx_step u) = (tx_step ^^ min (Suc n) (u_room u)) u"
      by (simp add: funpow_swap1 tx_step_def)
    then show ?thesis using step r(1) w by (intro exI [of _ pr']) (simp add: t_def u_def)
  qed
qed

lemma tx_steps_output:
  "k \<le> length (tx_list u) \<Longrightarrow> tx_output ((tx_step ^^ k) u) = tx_output u \<and> length (tx_list ((tx_step ^^ k) u)) = length (tx_list u) - k
     \<and> u_reg ((tx_step ^^ k) u) = u_reg u"
proof (induction k)
  case 0
  then show ?case by simp
next
  case (Suc k)
  define v where "v = (tx_step ^^ k) u"
  have v: "tx_output v = tx_output u" "length (tx_list v) = length (tx_list u) - k" "u_reg v = u_reg u"
    using Suc by (simp_all add: v_def)
  have ne: "u_tx_r v \<noteq> u_tx_w v" using v(2) Suc.prems by (auto simp: tx_list_def)
  have "length (tx_list (tx_step v)) = length (tx_list v) - 1"
    using arg_cong [OF uart_ring.get_list [OF ne, of "u_tx_buf v"], of length] by (simp add: tx_list_def tx_step_def)
  then show ?case using v tx_step_output [OF ne] by (simp add: v_def [symmetric]) (simp add: tx_step_def)
qed

definition uart_ok :: "uart \<Rightarrow> bool" where
  "uart_ok u \<longleftrightarrow> length (tx_list u) \<le> UART_TX_BUF_SIZE \<and> \<not> bit (u_reg u LCR) 7"

lemma uartstart_run:
  assumes "held UartTxLock s" "uart_ok (uart s)"
  shows "\<exists>pr u. uartstart s = Ret () (s\<lparr>procs := pr, uart := u\<rparr>) \<and> wokep s pr \<and> uart_ok u
    \<and> tx_output u = tx_output (uart s) \<and> length (tx_list u) = length (tx_list (uart s)) - u_room (uart s)"
proof -
  let ?n = "length (tx_list (uart s))"
  let ?u = "(tx_step ^^ min ?n (u_room (uart s))) (uart s)"
  have "tx_output ?u = tx_output (uart s) \<and> length (tx_list ?u) = ?n - min ?n (u_room (uart s)) \<and> u_reg ?u = u_reg (uart s)"
    by (rule tx_steps_output) simp
  then have "uart_ok ?u" "tx_output ?u = tx_output (uart s)" "length (tx_list ?u) = ?n - u_room (uart s)"
    using assms(2) by (auto simp: uart_ok_def)
  moreover obtain pr where "uartstart_loop ?n s = Ret () (s\<lparr>procs := pr, uart := ?u\<rparr>)" "wokep s pr"
    using uartstart_loop_run [OF assms(1), of ?n] assms(2) by (auto simp: uart_ok_def)
  moreover have "unat (u_tx_w (uart s) - u_tx_r (uart s)) = ?n" by (simp add: tx_list_def)
  ultimately show ?thesis by (auto simp: uartstart_def)
qed

text \<open>
  C25: the serial port keeps the order of its output. \<^verbatim>\<open>uartputc\<close> adds one byte at the end of what was handed
  to the driver before, the bytes sent and the bytes buffered together, and sends as many of the buffered bytes as the
  transmitter takes; only if the buffer of 32 bytes is full it sleeps, and then nothing changes.
\<close>

theorem uart_output_in_order:
  assumes "calm s" "noff (mycpu s) = 0" "\<not> panicked s" "uart_ok (uart s)"
  shows "if length (tx_list (uart s)) = UART_TX_BUF_SIZE
    then \<exists>t. uartputc c s = Stop (Switch (Asleep ChanUartR)) t \<and> uart t = uart s
    else \<exists>t. uartputc c s = Ret () t \<and> calm t \<and> uart_ok (uart t) \<and> tx_output (uart t) = tx_output (uart s) @ [word_of_int c]
       \<and> length (tx_list (uart t)) = Suc (length (tx_list (uart s))) - u_room (uart s)"
proof -
  let ?a = "acq UartTxLock"
  define u where "u = uart s"
  have full: "u_tx_w u = u_tx_r u + of_nat UART_TX_BUF_SIZE \<longleftrightarrow> length (tx_list u) = UART_TX_BUF_SIZE"
    unfolding tx_list_def length_ring_list by (rule uart_ring.full_iff)
  have run: "uartputc c s = uartputc_turn c (?a s)" using assms(1,3) by (simp add: uartputc_def acquire_calm)
  show ?thesis
  proof (cases "length (tx_list u) = UART_TX_BUF_SIZE")
    case True
    then show ?thesis
      using run full assms(1,2) by (simp add: uartputc_turn_def u_def sleep_cs noff_acq_calm)
  next
    case False
    then have room: "length (tx_list u) < UART_TX_BUF_SIZE" using assms(4) by (simp add: uart_ok_def u_def)
    define v where "v = u\<lparr>u_tx_buf := (u_tx_buf u)(unat (u_tx_w u) mod UART_TX_BUF_SIZE := word_of_int c), u_tx_w := u_tx_w u + 1\<rparr>"
    have v: "tx_list v = tx_list u @ [word_of_int c]"
      using uart_ring.put_list [of "u_tx_w u" "u_tx_r u" "u_tx_buf u" "word_of_int c"] room by (simp add: tx_list_def v_def)
    then have ok: "uart_ok v" "tx_output v = tx_output u @ [word_of_int c]" "u_room v = u_room u"
      using room assms(4) by (simp_all add: uart_ok_def tx_output_def u_def) (simp_all add: v_def u_def)
    obtain pr w where w: "uartstart (?a (s\<lparr>uart := v\<rparr>)) = Ret () ((?a (s\<lparr>uart := v\<rparr>))\<lparr>procs := pr, uart := w\<rparr>)"
        "uart_ok w" "tx_output w = tx_output v" "length (tx_list w) = length (tx_list v) - u_room v"
      using uartstart_run [of "?a (s\<lparr>uart := v\<rparr>)"] assms(1) ok(1) by auto
    have "uartputc c s = Ret () (s\<lparr>procs := pr, uart := w\<rparr>)"
      using run False full w(1) assms(1) by (simp add: uartputc_turn_def u_def v_def release_held)
    then show ?thesis using False w(2-4) ok(2,3) v assms(1) by (simp add: u_def)
  qed
qed

theorem uart_output_in_order_witness:
  "\<exists>t. uartputc 65 booted = Ret () t \<and> tx_output (uart t) = [65] \<and> tx_list (uart t) = []"
proof -
  have u: "uart booted = \<lparr>u_tx_buf = (\<lambda>_. 0), u_tx_w = 0, u_tx_r = 0, u_reg = (\<lambda>_. 0), u_room = 1, u_sent = [], u_input = []\<rparr>"
    "noff (mycpu booted) = 0" "\<not> panicked booted"
    by (simp_all add: booted_unfold spin_defs)
  then show ?thesis
    using uart_output_in_order [of booted 65] by (auto simp: uart_ok_def tx_list_def tx_output_def ring_list_def)
qed

end
