(* ===== verification/Printf.thy ===== *)
theory Printf
  imports Uart
begin

section \<open>Formatted output (kernel/printf.c)\<close>

text \<open>
  \<^verbatim>\<open>consputc\<close> of kernel/console.c, on which the kernel's messages go out byte by byte, and \<^verbatim>\<open>printf\<close> over it. The
  variable arguments are a list; taking an argument that is not there, or of another type, is a fault.
  The lemmas show that \<^verbatim>\<open>printint\<close> stays within its buffer and prints a numeral that reads back as the number.
\<close>

subsection \<open>Definitions\<close>

abbreviation (input) BACKSPACE :: int where "BACKSPACE \<equiv> 0x100"

definition consputc :: "int \<Rightarrow> unit K" where
  "consputc c =
     (if c = BACKSPACE then seqM (uartputc_sync 8) (seqM (uartputc_sync 32) (uartputc_sync 8))
      else uartputc_sync c)"

definition putchr :: "char \<Rightarrow> unit K" where
  "putchr c = consputc (of_char c)"

abbreviation digits :: string where "digits \<equiv> ''0123456789abcdef''"

text \<open>The digits of \<^verbatim>\<open>x\<close> in \<^verbatim>\<open>buf\<close>, least significant first.\<close>

function int_digits :: "nat \<Rightarrow> nat \<Rightarrow> string" where
  "int_digits base x =
     digits ! (x mod base) # (if x div base = 0 \<or> base \<le> 1 then [] else int_digits base (x div base))"
  by pat_completeness auto
termination
  by (relation "measure snd") (auto intro!: div_less_dividend intro: gr0I)

declare int_digits.simps [simp del]

definition printint :: "int \<Rightarrow> nat \<Rightarrow> bool \<Rightarrow> unit K" where
  "printint xx base sign =
     (let neg = (sign \<and> xx < 0);
          x = (word_of_int (if neg then - xx else xx) :: u32);
          buf = int_digits base (unat x) @ (if neg then ''-'' else [])
      in if 16 < length buf then stopM (Fault ''printint: buf'') else forM (rev buf) putchr)"

primrec ptr_digits :: "nat \<Rightarrow> u64 \<Rightarrow> string" where
  "ptr_digits 0 x = []"
| "ptr_digits (Suc n) x = digits ! unat (drop_bit 60 x) # ptr_digits n (push_bit 4 x)"

definition printptr :: "u64 \<Rightarrow> unit K" where
  "printptr x =
     seqM (putchr (CHR ''0'')) (
     seqM (putchr (CHR ''x''))
          (forM (ptr_digits 16 x) putchr))"

datatype va = VInt int | VPtr u64 | VStr "string option"

definition va_int :: "va list \<Rightarrow> (int \<times> va list) K" where
  "va_int ap = (case ap of VInt i # rest \<Rightarrow> returnM (i, rest) | _ \<Rightarrow> stopM (Fault ''va_arg''))"

definition va_ptr :: "va list \<Rightarrow> (u64 \<times> va list) K" where
  "va_ptr ap = (case ap of VPtr p # rest \<Rightarrow> returnM (p, rest) | _ \<Rightarrow> stopM (Fault ''va_arg''))"

definition va_str :: "va list \<Rightarrow> (string option \<times> va list) K" where
  "va_str ap = (case ap of VStr x # rest \<Rightarrow> returnM (x, rest) | _ \<Rightarrow> stopM (Fault ''va_arg''))"

text \<open>One conversion, with the arguments that are left.\<close>

definition print_conv :: "char \<Rightarrow> va list \<Rightarrow> va list K" where
  "print_conv c ap =
     (if c = CHR ''d'' then bindM (va_int ap) (\<lambda>(i, ap). seqM (printint i 10 True) (returnM ap))
      else if c = CHR ''x'' then bindM (va_int ap) (\<lambda>(i, ap). seqM (printint i 16 True) (returnM ap))
      else if c = CHR ''p'' then bindM (va_ptr ap) (\<lambda>(p, ap). seqM (printptr p) (returnM ap))
      else if c = CHR ''s'' then bindM (va_str ap) (\<lambda>(x, ap).
        seqM (forM (case x of None \<Rightarrow> ''(null)'' | Some s \<Rightarrow> s) putchr) (returnM ap))
      else if c = CHR ''%'' then seqM (putchr (CHR ''%'')) (returnM ap)
      else seqM (putchr (CHR ''%'')) (seqM (putchr c) (returnM ap)))"

fun print_loop :: "string \<Rightarrow> va list \<Rightarrow> unit K" where
  "print_loop [] ap = returnM ()"
| "print_loop [c] ap = (if c = CHR ''%'' then returnM () else putchr c)"
| "print_loop (c # d # fmt) ap =
     (if c \<noteq> CHR ''%'' then seqM (putchr c) (print_loop (d # fmt) ap)
      else bindM (print_conv d ap) (print_loop fmt))"

definition kprintf :: "string option \<Rightarrow> va list \<Rightarrow> unit K" where
  "kprintf fmt ap =
     bindM (gets pr_locking) (\<lambda>locking.
     seqM (whenM locking (acquire PrLock)) (
     case fmt of None \<Rightarrow> panic ''null fmt''
     | Some f \<Rightarrow> seqM (print_loop f ap) (whenM locking (release PrLock))))"

text \<open>\<^verbatim>\<open>panic\<close> itself: the message goes out without the lock, then the console is frozen. The routines of the model stop with the message.\<close>

definition panic_message :: "string \<Rightarrow> unit K" where
  "panic_message s =
     seqM (modify (\<lambda>k. k\<lparr>pr_locking := False\<rparr>)) (
     seqM (kprintf (Some ''panic: '') []) (
     seqM (kprintf (Some s) []) (
     seqM (kprintf (Some [CHR 0x0A]) []) (
     seqM (modify (\<lambda>k. k\<lparr>panicked := True\<rparr>))
          (stopM (Panic s))))))"

definition printfinit :: "unit K" where
  "printfinit = seqM (initlock PrLock ''pr'') (modify (\<lambda>k. k\<lparr>pr_locking := True\<rparr>))"

subsection \<open>Output in a quiet state\<close>

text \<open>\<open>can_print s\<close>: the interrupt nesting is consistent, the console is not frozen and the port is out of its baud-rate mode.\<close>

definition can_print :: "kern \<Rightarrow> bool" where
  "can_print s \<longleftrightarrow> intr_wf s \<and> (noff (mycpu s) = 0 \<longrightarrow> intena (mycpu s) = sie s) \<and> \<not> panicked s \<and> \<not> bit (u_reg (uart s) LCR) 7"

definition send :: "u8 list \<Rightarrow> uart \<Rightarrow> uart" where
  "send bs u = u\<lparr>u_room := u_room u - length bs, u_sent := u_sent u @ bs\<rparr>"

lemma send_simps [simp]:
  "send [] u = u" "send bs (send cs u) = send (cs @ bs) u" "u_reg (send bs u) = u_reg u"
  "u_sent (send bs u) = u_sent u @ bs" "tx_list (send bs u) = tx_list u"
  by (simp_all add: send_def tx_list_def)

lemma can_print_send [simp]: "can_print (s\<lparr>uart := send bs u\<rparr>) = can_print (s\<lparr>uart := u\<rparr>)"
  by (simp add: can_print_def)

lemma uartputc_sync_run:
  assumes "can_print s"
  shows "uartputc_sync c s = Ret () (s\<lparr>uart := send [word_of_int c] (uart s)\<rparr>)"
  using assms
  by (cases "noff (mycpu s) = 0"; cases "sie s")
    (auto simp: uartputc_sync_def push_off_def pop_off_def uart_wait_idle_def WriteReg_def can_print_def send_def
      spin_defs intr_wf_def monad_simps fun_eq_iff intro!: kern.equality cpu.equality)

abbreviation chr8 :: "char \<Rightarrow> u8" where "chr8 c \<equiv> word_of_int (of_char c)"

lemma of_char_BACKSPACE: "of_char c \<noteq> BACKSPACE"
proof -
  have "(of_char c :: int) = int (of_char c)" by (simp add: of_nat_of_char)
  then show ?thesis using nat_of_char_less_256 [of c] by linarith
qed

lemma putchr_run: "can_print s \<Longrightarrow> putchr c s = Ret () (s\<lparr>uart := send [chr8 c] (uart s)\<rparr>)"
  by (simp add: putchr_def consputc_def of_char_BACKSPACE uartputc_sync_run)

lemma putchrs_run: "can_print s \<Longrightarrow> forM cs putchr s = Ret () (s\<lparr>uart := send (map chr8 cs) (uart s)\<rparr>)"
proof (induction cs arbitrary: s)
  case Nil
  then show ?case by simp
next
  case (Cons c cs)
  let ?t = "s\<lparr>uart := send [chr8 c] (uart s)\<rparr>"
  have "can_print ?t" using Cons.prems by simp
  from Cons.IH [OF this] have "forM cs putchr ?t = Ret () (s\<lparr>uart := send (map chr8 (c # cs)) (uart s)\<rparr>)" by simp
  then show ?case using putchr_run [OF Cons.prems, of c] by (simp add: seqM_apply)
qed

subsection \<open>Numerals\<close>

definition digit_val :: "char \<Rightarrow> nat" where
  "digit_val c = (case find (\<lambda>i. digits ! i = c) [0..<16] of Some i \<Rightarrow> i | None \<Rightarrow> 0)"

primrec read_digits :: "nat \<Rightarrow> string \<Rightarrow> nat" where
  "read_digits base [] = 0"
| "read_digits base (c # cs) = digit_val c + base * read_digits base cs"

text \<open>The number that a numeral denotes, most significant digit first.\<close>

definition read_int :: "nat \<Rightarrow> string \<Rightarrow> int" where
  "read_int base cs = (case cs of c # rest \<Rightarrow> if c = CHR ''-'' then - int (read_digits base (rev rest)) else int (read_digits base (rev cs)) | [] \<Rightarrow> 0)"

lemma digit_val_nth: "i < 16 \<Longrightarrow> digit_val (digits ! i) = i"
proof -
  assume "i < 16"
  then have "i \<in> set [0..<16]" by simp
  moreover have "\<forall>i \<in> set [0..<16]. digit_val (digits ! i) = i" by code_simp
  ultimately show ?thesis by blast
qed

lemma digit_not_minus: "i < 16 \<Longrightarrow> digits ! i \<noteq> CHR ''-''"
proof -
  assume "i < 16"
  then have "i \<in> set [0..<16]" by simp
  moreover have "\<forall>i \<in> set [0..<16]. digits ! i \<noteq> CHR ''-''" by code_simp
  ultimately show ?thesis by blast
qed

lemma int_digits_spec:
  assumes "2 \<le> base" "base \<le> 16"
  shows "read_digits base (int_digits base x) = x \<and> CHR ''-'' \<notin> set (int_digits base x) \<and> int_digits base x \<noteq> []"
proof (induction x rule: less_induct)
  case (less x)
  have d: "digit_val (digits ! (x mod base)) = x mod base" "digits ! (x mod base) \<noteq> CHR ''-''"
    using assms by (auto intro!: digit_val_nth digit_not_minus intro: less_le_trans [OF mod_less_divisor])
  show ?case
  proof (cases "x div base = 0")
    case True
    then have "x mod base = x" using assms by (simp add: div_eq_0_iff)
    then show ?thesis using d True by (subst (1 2 3) int_digits.simps) auto
  next
    case False
    then have "x div base < x" using assms by (intro div_less_dividend) (auto intro: gr0I)
    note IH = less.IH [OF this]
    show ?thesis using d False IH assms by (subst (1 2 3) int_digits.simps) (auto simp: mult_div_mod_eq add.commute)
  qed
qed

lemma length_int_digits: "10 \<le> base \<Longrightarrow> x < base ^ Suc n \<Longrightarrow> length (int_digits base x) \<le> Suc n"
proof (induction n arbitrary: x)
  case 0
  then show ?case by (subst int_digits.simps) simp
next
  case (Suc n)
  have "x div base < base ^ Suc n" using Suc.prems by (simp add: div_less_iff_less_mult mult.commute)
  then show ?case using Suc by (subst int_digits.simps) simp
qed

text \<open>The characters that \<^verbatim>\<open>printint\<close> prints.\<close>

definition int_chars :: "int \<Rightarrow> nat \<Rightarrow> bool \<Rightarrow> string" where
  "int_chars xx base sign = (let neg = (sign \<and> xx < 0) in
     rev (int_digits base (unat (word_of_int (if neg then - xx else xx) :: u32)) @ (if neg then ''-'' else [])))"

lemma printint_run:
  assumes "can_print s" "base = 10 \<or> base = 16"
  shows "printint xx base sign s = Ret () (s\<lparr>uart := send (map chr8 (int_chars xx base sign)) (uart s)\<rparr>)"
    "length (int_chars xx base sign) \<le> 16"
proof -
  let ?x = "unat (word_of_int (if sign \<and> xx < 0 then - xx else xx) :: u32)"
  have "?x < 2 ^ 32" by (rule less_le_trans [OF unsigned_less]) simp
  moreover have "(2 :: nat) ^ 32 \<le> base ^ Suc 9" using assms(2) by auto
  ultimately have len: "length (int_digits base ?x) \<le> 10"
    using length_int_digits [of base ?x 9] assms(2) by auto
  then show "length (int_chars xx base sign) \<le> 16" by (auto simp: int_chars_def Let_def)
  have "printint xx base sign s = forM (int_chars xx base sign) putchr s"
    using len by (auto simp: printint_def int_chars_def Let_def)
  then show "printint xx base sign s = Ret () (s\<lparr>uart := send (map chr8 (int_chars xx base sign)) (uart s)\<rparr>)"
    using putchrs_run [OF assms(1)] by simp
qed

lemma read_int_chars:
  assumes "- (2 ^ 31) \<le> xx" "xx < 2 ^ 31" "base = 10 \<or> base = 16"
  shows "read_int base (int_chars xx base sign) = (if sign then xx else xx mod 2 ^ 32)"
proof -
  define neg where "neg = (sign \<and> xx < 0)"
  define x :: nat where "x = unat (word_of_int (if neg then - xx else xx) :: u32)"
  define ds where "ds = int_digits base x"
  have x: "int x = (if neg then - xx else xx) mod 2 ^ 32"
    by (simp add: x_def unsigned_of_int take_bit_eq_mod)
  have ds: "read_digits base ds = x" "CHR ''-'' \<notin> set ds" "ds \<noteq> []"
    using int_digits_spec [of base x] assms(3) by (auto simp: ds_def)
  have cs: "int_chars xx base sign = rev (ds @ (if neg then ''-'' else []))"
    by (simp add: int_chars_def Let_def ds_def x_def neg_def)
  show ?thesis
  proof (cases neg)
    case True
    then have "int x = - xx" using x assms(1) by (simp add: neg_def)
    then show ?thesis using True ds(1) cs by (simp add: read_int_def neg_def)
  next
    case False
    have "rev ds \<noteq> []" "hd (rev ds) \<in> set ds" using ds(3) by (auto simp: hd_rev)
    then have "hd (rev ds) \<noteq> CHR ''-''" using ds(2) by metis
    then have "read_int base (rev ds) = int x" using ds(1,3) by (cases "rev ds") (auto simp: read_int_def)
    moreover have "int x = (if sign then xx else xx mod 2 ^ 32)"
      using x False assms(2) by (auto simp: neg_def)
    ultimately show ?thesis using False cs by simp
  qed
qed

text \<open>
  C26: \<^verbatim>\<open>printint\<close> never overruns its buffer of 16 bytes, and prints a numeral that reads back as the number, for
  every 32-bit integer, the least one included, whose negation overflows.
\<close>

theorem printint_reads_back:
  assumes "can_print s" "- (2 ^ 31) \<le> xx" "xx < 2 ^ 31" "base = 10 \<or> base = 16"
  shows "\<exists>cs. printint xx base sign s = Ret () (s\<lparr>uart := send (map chr8 cs) (uart s)\<rparr>) \<and> length cs \<le> 16
    \<and> read_int base cs = (if sign then xx else xx mod 2 ^ 32)"
  using printint_run [OF assms(1,4)] read_int_chars [OF assms(2-4)] by blast

theorem printint_reads_back_witness:
  "\<exists>cs. printint (- (2 ^ 31)) 10 True booted = Ret () (booted\<lparr>uart := send (map chr8 cs) (uart booted)\<rparr>)
    \<and> read_int 10 cs = - (2 ^ 31)"
proof -
  have "can_print booted" by (simp add: can_print_def booted_unfold intr_wf_def spin_defs)
  from printint_reads_back [OF this, of "- (2 ^ 31)" 10 True] show ?thesis by auto
qed

subsection \<open>A call of printf\<close>

text \<open>The arguments fit the conversions of the format.\<close>

fun fmt_ok :: "string \<Rightarrow> va list \<Rightarrow> bool" where
  "fmt_ok [] ap = True"
| "fmt_ok [c] ap = True"
| "fmt_ok (c # d # fmt) ap =
     (if c \<noteq> CHR ''%'' then fmt_ok (d # fmt) ap
      else if d = CHR ''d'' \<or> d = CHR ''x'' then (case ap of VInt i # rest \<Rightarrow> fmt_ok fmt rest | _ \<Rightarrow> False)
      else if d = CHR ''p'' then (case ap of VPtr p # rest \<Rightarrow> fmt_ok fmt rest | _ \<Rightarrow> False)
      else if d = CHR ''s'' then (case ap of VStr x # rest \<Rightarrow> fmt_ok fmt rest | _ \<Rightarrow> False)
      else fmt_ok fmt ap)"

text \<open>\<open>prints m s x\<close>: the routine returns \<open>x\<close> and does nothing but send bytes.\<close>

definition prints :: "'a K \<Rightarrow> kern \<Rightarrow> 'a \<Rightarrow> bool" where
  "prints m s x \<longleftrightarrow> (\<exists>bs. m s = Ret x (s\<lparr>uart := send bs (uart s)\<rparr>))"

lemma prints_bind:
  assumes "prints m s x" "\<And>bs. prints (f x) (s\<lparr>uart := send bs (uart s)\<rparr>) y"
  shows "prints (bindM m f) s y"
proof -
  obtain bs where "m s = Ret x (s\<lparr>uart := send bs (uart s)\<rparr>)" using assms(1) by (auto simp: prints_def)
  moreover obtain cs where "f x (s\<lparr>uart := send bs (uart s)\<rparr>) = Ret y (s\<lparr>uart := send (bs @ cs) (uart s)\<rparr>)"
    using assms(2) [of bs] by (auto simp: prints_def)
  ultimately show ?thesis by (auto simp: prints_def)
qed

lemma prints_seq: "prints m s x \<Longrightarrow> (\<And>bs. prints n (s\<lparr>uart := send bs (uart s)\<rparr>) y) \<Longrightarrow> prints (seqM m n) s y"
  unfolding seqM_def by (rule prints_bind)

lemma prints_return [simp]: "prints (returnM x) s x" "prints (Ret x) s x"
  by (auto simp: prints_def intro!: exI [of _ "[]"])

lemma prints_chars: "can_print s \<Longrightarrow> prints (putchr c) s ()" "can_print s \<Longrightarrow> prints (forM cs putchr) s ()"
  using putchr_run putchrs_run by (auto simp: prints_def)

lemma prints_int: "can_print s \<Longrightarrow> base = 10 \<or> base = 16 \<Longrightarrow> prints (printint i base sign) s ()"
  using printint_run(1) by (auto simp: prints_def)

lemma prints_conv:
  assumes "can_print s" "fmt_ok (CHR ''%'' # d # fmt) ap"
  shows "\<exists>rest. prints (print_conv d ap) s rest \<and> fmt_ok fmt rest"
proof -
  have int: "prints (bindM (va_int ap) (\<lambda>(i, ap). seqM (printint i base True) (returnM ap))) s rest"
    if "ap = VInt i # rest" "base = 10 \<or> base = 16" for i base rest
    using that assms(1) by (auto simp: va_int_def prints_int intro!: prints_seq)
  have ptr: "prints (bindM (va_ptr ap) (\<lambda>(p, ap). seqM (printptr p) (returnM ap))) s rest" if "ap = VPtr p # rest" for p rest
    using that assms(1) by (auto simp: va_ptr_def printptr_def prints_chars intro!: prints_seq)
  have str: "prints (bindM (va_str ap) (\<lambda>(x, ap). seqM (forM (case x of None \<Rightarrow> ''(null)'' | Some s \<Rightarrow> s) putchr) (returnM ap))) s rest"
    if "ap = VStr x # rest" for x rest
    using that assms(1) by (auto simp: va_str_def prints_chars intro!: prints_seq)
  have rest: "prints (seqM (putchr (CHR ''%'')) (returnM ap)) s ap" "prints (seqM (putchr (CHR ''%'')) (seqM (putchr d) (returnM ap))) s ap"
    using assms(1) by (auto simp: prints_chars intro!: prints_seq)
  show ?thesis
    using assms(2) int ptr str rest unfolding print_conv_def
    by (auto split: if_splits list.splits va.splits)
qed

lemma prints_loop:
  assumes "can_print s" "fmt_ok fmt ap"
  shows "prints (print_loop fmt ap) s ()"
  using assms
proof (induction fmt ap arbitrary: s rule: print_loop.induct)
  case (1 ap)
  then show ?case by simp
next
  case (2 c ap)
  then show ?case by (simp add: prints_chars)
next
  case (3 c d fmt ap)
  show ?case
  proof (cases "c = CHR ''%''")
    case False
    then show ?thesis using 3 by (auto simp: prints_chars intro!: prints_seq)
  next
    case True
    then obtain rest where "prints (print_conv d ap) s rest" "fmt_ok fmt rest"
      using prints_conv [OF "3.prems"(1), of d fmt ap] "3.prems"(2) by blast
    then show ?thesis using True 3 by (auto intro!: prints_bind)
  qed
qed

lemma prints_printf:
  assumes "can_print s" "lock_free PrLock s" "fmt_ok fmt ap"
  shows "prints (kprintf (Some fmt) ap) s ()"
proof (cases "pr_locking s")
  case False
  then show ?thesis using prints_loop [OF assms(1,3)] by (auto simp: prints_def kprintf_def whenM_def bindM_gets)
next
  case True
  have wf: "intr_wf s" "settle s = s" using assms(1) by (auto simp: can_print_def settle_same)
  have "can_print (acq PrLock s)" using assms(1) by (simp add: can_print_def noff_acq_calm) (simp add: intr_wf_def)
  from prints_loop [OF this assms(3)] obtain bs where
    "print_loop fmt ap (acq PrLock s) = Ret () ((acq PrLock s)\<lparr>uart := send bs (uart s)\<rparr>)" by (auto simp: prints_def)
  then have "kprintf (Some fmt) ap s = Ret () (s\<lparr>uart := send bs (uart s)\<rparr>)"
    using True wf assms(2) by (simp add: kprintf_def whenM_def bindM_gets acquire_free release_in_cs rel_acq)
  then show ?thesis by (auto simp: prints_def)
qed

end
