(* ===== verification/Console.thy ===== *)
theory Console
  imports Printf
begin

section \<open>The console (kernel/console.c) and the serial interrupt\<close>

text \<open>
  The console's input buffer has three counters: bytes between \<^verbatim>\<open>r\<close> and \<^verbatim>\<open>w\<close> are complete input, bytes between
  \<^verbatim>\<open>w\<close> and \<^verbatim>\<open>e\<close> are the line that is being edited. The lemmas show that the interrupt handler
  implements a line editor on two lists, and that it never loses or overwrites complete input.
\<close>

subsection \<open>Definitions\<close>

abbreviation (input) INPUT_BUF :: nat where "INPUT_BUF \<equiv> 128"
abbreviation (input) CTRL_D :: int where "CTRL_D \<equiv> 4"
abbreviation (input) CTRL_H :: int where "CTRL_H \<equiv> 8"
abbreviation (input) CTRL_P :: int where "CTRL_P \<equiv> 16"
abbreviation (input) CTRL_U :: int where "CTRL_U \<equiv> 21"
abbreviation (input) CONSOLE :: nat where "CONSOLE \<equiv> 1"

definition get_cons :: "(cons \<Rightarrow> 'a) \<Rightarrow> 'a K" where
  "get_cons f = gets (\<lambda>s. f (cons s))"

definition set_cons :: "(cons \<Rightarrow> cons) \<Rightarrow> unit K" where
  "set_cons f = modify (\<lambda>s. s\<lparr>cons := f (cons s)\<rparr>)"

lemma cons_apply [simp]:
  "get_cons f s = Ret (f (cons s)) s" "bindM (get_cons f) k s = k (f (cons s)) s"
  "set_cons g s = Ret () (s\<lparr>cons := g (cons s)\<rparr>)"
  by (simp_all add: get_cons_def set_cons_def bindM_gets)

primrec consolewrite_loop :: "bool \<Rightarrow> u64 \<Rightarrow> nat \<Rightarrow> nat \<Rightarrow> int K" where
  "consolewrite_loop user_src src i 0 = returnM (int i)"
| "consolewrite_loop user_src src i (Suc k) =
     bindM (either_copyin user_src (src + of_nat i) 1) (\<lambda>got.
     if fst got = - 1 then returnM (int i) else
     seqM (uartputc (uint (hd (snd got))))
          (consolewrite_loop user_src src (Suc i) k))"

definition consolewrite :: "bool \<Rightarrow> u64 \<Rightarrow> int \<Rightarrow> int K" where
  "consolewrite user_src src n = consolewrite_loop user_src src 0 (nat n)"

definition consolewrite_resume :: "bool \<Rightarrow> u64 \<Rightarrow> nat \<Rightarrow> bool \<Rightarrow> int \<Rightarrow> nat \<Rightarrow> nat \<Rightarrow> int K" where
  "consolewrite_resume user_src src me en c i k =
     seqM (uartputc_resume me en c) (consolewrite_loop user_src src (Suc i) k)"

definition consoleread_done :: "nat \<Rightarrow> nat \<Rightarrow> int K" where
  "consoleread_done target n = seqM (release ConsLock) (returnM (int target - int n))"

primrec consoleread_loop :: "bool \<Rightarrow> u64 \<Rightarrow> nat \<Rightarrow> nat \<Rightarrow> int K" where
  "consoleread_loop user_dst dst target 0 = consoleread_done target 0"
| "consoleread_loop user_dst dst target (Suc n) =
     bindM (get_cons (\<lambda>c. cs_r c = cs_w c)) (\<lambda>empty.
     if empty then
       bindM curproc (\<lambda>me.
       bindM (get_proc me p_killed) (\<lambda>killed.
       if killed \<noteq> 0 then seqM (release ConsLock) (returnM (- 1))
       else sleep ChanConsR ConsLock))
     else
       bindM (get_cons (\<lambda>c. cs_buf c (unat (cs_r c) mod INPUT_BUF))) (\<lambda>c.
       seqM (set_cons (\<lambda>k. k\<lparr>cs_r := cs_r k + 1\<rparr>)) (
       if uint c = CTRL_D then
         seqM (whenM (Suc n < target) (set_cons (\<lambda>k. k\<lparr>cs_r := cs_r k - 1\<rparr>)))
              (consoleread_done target (Suc n))
       else
         bindM (either_copyout user_dst dst [c]) (\<lambda>r.
         if r = - 1 then consoleread_done target (Suc n)
         else if uint c = 10 then consoleread_done target n
         else consoleread_loop user_dst (dst + 1) target n))))"

definition consoleread :: "bool \<Rightarrow> u64 \<Rightarrow> int \<Rightarrow> int K" where
  "consoleread user_dst dst n =
     seqM (acquire ConsLock) (consoleread_loop user_dst dst (nat n) (nat n))"

definition consoleread_resume :: "bool \<Rightarrow> u64 \<Rightarrow> nat \<Rightarrow> nat \<Rightarrow> nat \<Rightarrow> bool \<Rightarrow> int K" where
  "consoleread_resume user_dst dst target n me en =
     seqM (sleep_resume me ConsLock en) (consoleread_loop user_dst dst target n)"

text \<open>What \<^verbatim>\<open>procdump\<close> prints: a header and two lines for every process.\<close>

definition dump_header :: "policy \<Rightarrow> string" where
  "dump_header pol = (let tab = [CHR 0x09] in case pol of
       DEFAULT \<Rightarrow> ''PID'' @ tab @ ''State'' @ tab @ ''rtime'' @ tab @ ''wtime'' @ tab @ ''nrun'' @ [CHR 0x0A]
     | FCFS \<Rightarrow> ''PID'' @ tab @ ''State'' @ tab @ ''rtime'' @ tab @ ''wtime'' @ tab @ ''nrun'' @ [CHR 0x0A]
     | PBS \<Rightarrow> ''PID'' @ tab @ ''Priority'' @ tab @ ''State'' @ tab @ ''rtime'' @ tab @ ''wtime'' @ tab @ ''nrun'' @ [CHR 0x0A]
     | MLFQ \<Rightarrow> ''PID'' @ tab @ ''Priority'' @ tab @ ''State'' @ tab @ ''rtime'' @ tab @ ''wtime'' @ tab @ ''nrun'' @ tab
         @ ''q0'' @ tab @ ''q1'' @ tab @ ''q2'' @ tab @ ''q3'' @ tab @ ''q4'' @ [CHR 0x0A])"

definition dump_format :: "policy \<Rightarrow> string" where
  "dump_format pol = (let tab = [CHR 0x09]; nl = [CHR 0x0A] in case pol of
       DEFAULT \<Rightarrow> ''%d'' @ tab @ ''%s'' @ tab @ ''%d'' @ tab @ ''%d'' @ tab @ ''%d'' @ nl
     | FCFS \<Rightarrow> ''%d'' @ tab @ ''%s'' @ tab @ ''%d'' @ tab @ ''%d'' @ tab @ ''%d'' @ nl
     | PBS \<Rightarrow> ''%d'' @ tab @ ''%d'' @ tab @ tab @ ''%s'' @ tab @ ''%d'' @ tab @ ''%d'' @ tab @ ''%d'' @ nl
     | MLFQ \<Rightarrow> ''%d'' @ tab @ ''%d'' @ tab @ tab @ ''%s'' @ tab @ ''%d'' @ tab @ ''%d'' @ tab @ ''%d'' @ tab
         @ ''%d'' @ tab @ ''%d'' @ tab @ ''%d'' @ tab @ ''%d'' @ tab @ ''%d'' @ nl)"

definition column_arg :: "column \<Rightarrow> va" where
  "column_arg c = (case c of CInt i \<Rightarrow> VInt i | CStr x \<Rightarrow> VStr (Some x))"

definition procdump_print :: "unit K" where
  "procdump_print =
     bindM (gets policy) (\<lambda>pol.
     bindM (gets procdump) (\<lambda>rows.
     seqM (kprintf (Some [CHR 0x0A]) []) (
     seqM (kprintf (Some (dump_header pol)) [])
          (forM rows (\<lambda>row.
             seqM (kprintf (Some (dump_format pol)) (map column_arg row))
                  (kprintf (Some [CHR 0x0A]) []))))))"

text \<open>The loop that kills a line; the length of the line bounds the number of turns.\<close>

primrec kill_line :: "nat \<Rightarrow> unit K" where
  "kill_line 0 = returnM ()"
| "kill_line (Suc n) =
     bindM (get_cons (\<lambda>c. cs_e c \<noteq> cs_w c \<and> uint (cs_buf c (unat (cs_e c - 1) mod INPUT_BUF)) \<noteq> 10)) (\<lambda>more.
     if \<not> more then returnM () else
     seqM (set_cons (\<lambda>c. c\<lparr>cs_e := cs_e c - 1\<rparr>)) (
     seqM (consputc BACKSPACE)
          (kill_line n)))"

definition console_char :: "int \<Rightarrow> unit K" where
  "console_char c =
       (if c = CTRL_P then procdump_print
       else if c = CTRL_U then bindM (get_cons (\<lambda>k. unat (cs_e k - cs_w k))) kill_line
       else if c = CTRL_H \<or> c = 0x7f then
         bindM (get_cons (\<lambda>k. cs_e k \<noteq> cs_w k)) (\<lambda>ne.
         whenM ne (seqM (set_cons (\<lambda>k. k\<lparr>cs_e := cs_e k - 1\<rparr>)) (consputc BACKSPACE)))
       else
         bindM (get_cons (\<lambda>k. unat (cs_e k - cs_r k) < INPUT_BUF)) (\<lambda>room.
         whenM (c \<noteq> 0 \<and> room) (
           let c = (if c = 13 then 10 else c) in
           seqM (consputc c) (
           seqM (set_cons (\<lambda>k. k\<lparr>cs_buf := (cs_buf k)(unat (cs_e k) mod INPUT_BUF := word_of_int c), cs_e := cs_e k + 1\<rparr>)) (
           bindM (get_cons (\<lambda>k. cs_e k = cs_r k + of_nat INPUT_BUF)) (\<lambda>full.
           whenM (c = 10 \<or> c = CTRL_D \<or> full)
             (seqM (set_cons (\<lambda>k. k\<lparr>cs_w := cs_e k\<rparr>)) (wakeup ChanConsR))))))))"

definition consoleintr :: "int \<Rightarrow> unit K" where
  "consoleintr c =
     seqM (acquire ConsLock) (
     seqM (console_char c)
          (release ConsLock))"

definition consoleinit :: "unit K" where
  "consoleinit =
     seqM (initlock ConsLock ''cons'') (
     seqM uartinit (
     seqM (modify (\<lambda>s. s\<lparr>devsw := (devsw s)(CONSOLE := (devsw s CONSOLE)\<lparr>dv_read := Some ConsoleRead\<rparr>)\<rparr>))
          (modify (\<lambda>s. s\<lparr>devsw := (devsw s)(CONSOLE := (devsw s CONSOLE)\<lparr>dv_write := Some ConsoleWrite\<rparr>)\<rparr>))))"

text \<open>The serial interrupt (kernel/uart.c): every received byte goes to the console, then the transmitter is restarted.\<close>

primrec uartintr_loop :: "nat \<Rightarrow> unit K" where
  "uartintr_loop 0 = returnM ()"
| "uartintr_loop (Suc n) =
     bindM uartgetc (\<lambda>c.
     if c = - 1 then returnM () else
     seqM (consoleintr c) (uartintr_loop n))"

definition uartintr :: "unit K" where
  "uartintr =
     seqM (bindM (get_uart (\<lambda>u. Suc (length (u_input u)))) uartintr_loop) (
     seqM (acquire UartTxLock) (
     seqM uartstart
          (release UartTxLock)))"

subsection \<open>The line editor\<close>

text \<open>The abstract console: complete input, and the line being edited.\<close>

type_synonym editor = "u8 list \<times> u8 list"

definition edit_step :: "int \<Rightarrow> editor \<Rightarrow> editor" where
  "edit_step c ed = (case ed of (done, line) \<Rightarrow>
     if c = CTRL_P then (done, line)
     else if c = CTRL_U then (done, [])
     else if c = CTRL_H \<or> c = 0x7f then (done, butlast line)
     else if c = 0 \<or> INPUT_BUF \<le> length done + length line then (done, line)
     else let c = (if c = 13 then 10 else c); line = line @ [word_of_int c] in
       if c = 10 \<or> c = CTRL_D \<or> length done + length line = INPUT_BUF then (done @ line, []) else (done, line))"

definition editor_of :: "cons \<Rightarrow> editor" where
  "editor_of k = (ring_list INPUT_BUF (cs_buf k) (cs_r k) (cs_w k), ring_list INPUT_BUF (cs_buf k) (cs_w k) (cs_e k))"

definition cons_ok :: "cons \<Rightarrow> bool" where
  "cons_ok k \<longleftrightarrow> unat (cs_e k - cs_r k) = unat (cs_w k - cs_r k) + unat (cs_e k - cs_w k)
     \<and> unat (cs_e k - cs_r k) \<le> INPUT_BUF \<and> 10 \<notin> set (snd (editor_of k))"

lemma length_editor:
  "length (fst (editor_of k)) = unat (cs_w k - cs_r k)" "length (snd (editor_of k)) = unat (cs_e k - cs_w k)"
  by (simp_all add: editor_of_def)

text \<open>Erasing, storing and completing, on the counters.\<close>

lemma editor_erase:
  assumes "cons_ok k" "cs_e k \<noteq> cs_w k"
  shows "editor_of (k\<lparr>cs_e := cs_e k - 1\<rparr>) = (fst (editor_of k), butlast (snd (editor_of k)))" "cons_ok (k\<lparr>cs_e := cs_e k - 1\<rparr>)"
proof -
  show e: "editor_of (k\<lparr>cs_e := cs_e k - 1\<rparr>) = (fst (editor_of k), butlast (snd (editor_of k)))"
    using cons_ring.unput_list [of "cs_w k" "cs_e k" "cs_buf k"] assms(2) by (simp add: editor_of_def)
  have "unat (cs_e k - cs_w k) \<noteq> 0" using assms(2) by (simp add: unat_eq_0)
  moreover have "cs_e k \<noteq> cs_r k" using assms(1) calculation by (auto simp: cons_ok_def)
  moreover have "unat (cs_e k - 1 - y) = unat (cs_e k - y) - 1" if "cs_e k \<noteq> y" for y
  proof -
    have e: "cs_e k - 1 - y = cs_e k - y - 1" by simp
    show ?thesis unfolding e using cons_ring.count_pos [of "cs_e k - y"] that by simp
  qed
  ultimately show "cons_ok (k\<lparr>cs_e := cs_e k - 1\<rparr>)"
    using assms e by (auto simp: cons_ok_def dest: in_set_butlastD)
qed

definition cons_store :: "u8 \<Rightarrow> cons \<Rightarrow> cons" where
  "cons_store x k = k\<lparr>cs_buf := (cs_buf k)(unat (cs_e k) mod INPUT_BUF := x), cs_e := cs_e k + 1\<rparr>"

lemma editor_store:
  assumes "cons_ok k" "unat (cs_e k - cs_r k) < INPUT_BUF"
  shows "editor_of (cons_store x k) = (fst (editor_of k), snd (editor_of k) @ [x])"
    "unat (cs_e (cons_store x k) - cs_r (cons_store x k)) = Suc (unat (cs_e k - cs_r k))"
    "unat (cs_e (cons_store x k) - cs_w (cons_store x k)) = Suc (unat (cs_e k - cs_w k))"
    "cs_r (cons_store x k) = cs_r k" "cs_w (cons_store x k) = cs_w k"
proof -
  have a: "unat (cs_w k - cs_r k) \<le> unat (cs_e k - cs_r k)" "unat (cs_e k - cs_w k) < INPUT_BUF"
    using assms by (auto simp: cons_ok_def)
  then show "editor_of (cons_store x k) = (fst (editor_of k), snd (editor_of k) @ [x])"
    using cons_ring.put_list [of "cs_e k" "cs_w k" "cs_buf k" x] cons_ring.put_other [of "cs_w k" "cs_r k" "cs_e k" "cs_buf k" x] assms(2)
    by (simp add: editor_of_def cons_store_def)
  show "unat (cs_e (cons_store x k) - cs_r (cons_store x k)) = Suc (unat (cs_e k - cs_r k))"
    "unat (cs_e (cons_store x k) - cs_w (cons_store x k)) = Suc (unat (cs_e k - cs_w k))"
    using cons_ring.count_Suc [of "cs_e k" "cs_r k"] cons_ring.count_Suc [of "cs_e k" "cs_w k"] assms(2) a(2)
    by (simp_all add: cons_store_def)
qed (simp_all add: cons_store_def)

lemma editor_complete:
  assumes "unat (cs_e k - cs_r k) = unat (cs_w k - cs_r k) + unat (cs_e k - cs_w k)" "unat (cs_e k - cs_r k) \<le> INPUT_BUF"
  shows "editor_of (k\<lparr>cs_w := cs_e k\<rparr>) = (fst (editor_of k) @ snd (editor_of k), [])" "cons_ok (k\<lparr>cs_w := cs_e k\<rparr>)"
  using cons_ring.append_list [OF assms(1), of "cs_buf k"] assms(2) by (simp_all add: editor_of_def cons_ok_def)

subsection \<open>The branches of the handler\<close>

lemma can_print_cons [simp]: "can_print (s\<lparr>cons := k\<rparr>) = can_print s" "can_print (s\<lparr>cons := k, uart := send bs u\<rparr>) = can_print (s\<lparr>uart := u\<rparr>)"
  by (simp_all add: can_print_def)

lemma can_print_acq: "can_print s \<Longrightarrow> can_print (acq lk s)"
  by (simp add: can_print_def noff_acq_calm) (simp add: intr_wf_def)

lemma consputc_run: "can_print s \<Longrightarrow> \<exists>bs. consputc c s = Ret () (s\<lparr>uart := send bs (uart s)\<rparr>)"
proof -
  assume a: "can_print s"
  have "prints (consputc c) s ()"
    unfolding consputc_def using a uartputc_sync_run
    by (auto simp: prints_def intro!: prints_seq [unfolded prints_def])
  then show ?thesis by (simp add: prints_def)
qed

lemma kill_line_run:
  assumes "can_print s" "cons_ok (cons s)" "n = unat (cs_e (cons s) - cs_w (cons s))"
  shows "\<exists>bs. kill_line n s = Ret () (s\<lparr>cons := (cons s)\<lparr>cs_e := cs_w (cons s)\<rparr>, uart := send bs (uart s)\<rparr>)"
  using assms
proof (induction n arbitrary: s)
  case 0
  then have "cs_e (cons s) = cs_w (cons s)" by (simp add: unat_eq_0)
  then have "s\<lparr>cons := (cons s)\<lparr>cs_e := cs_w (cons s)\<rparr>, uart := send [] (uart s)\<rparr> = s" by (cases "cons s") simp
  then show ?case by (intro exI [of _ "[]"]) simp
next
  case (Suc n)
  define k where "k = cons s"
  have ne: "cs_e k \<noteq> cs_w k" using Suc.prems(3) by (auto simp: k_def)
  let ?l = "snd (editor_of k)"
  have l: "?l \<noteq> []" using Suc.prems(3) length_editor(2) [of k] by (auto simp: k_def)
  have idx: "cs_e k - 1 = cs_w k + of_nat n"
  proof -
    have "cs_e k - cs_w k = of_nat (Suc n)" using Suc.prems(3) by (simp add: k_def)
    then show ?thesis by (simp add: algebra_simps)
  qed
  have "?l ! n = cs_buf k (unat (cs_e k - 1) mod INPUT_BUF)"
    using Suc.prems(3) idx by (simp add: editor_of_def ring_list_def k_def)
  moreover have "?l ! n \<in> set ?l" using length_editor(2) [of k] Suc.prems(3) by (intro nth_mem) (simp add: k_def)
  ultimately have nl: "cs_buf k (unat (cs_e k - 1) mod INPUT_BUF) \<noteq> 10" using Suc.prems(2) by (auto simp: cons_ok_def k_def)
  then have nl': "uint (cs_buf k (unat (cs_e k - 1) mod INPUT_BUF)) \<noteq> 10" by (metis word_of_int_uint of_int_numeral)
  define k' where "k' = k\<lparr>cs_e := cs_e k - 1\<rparr>"
  have ok: "cons_ok k'" using editor_erase(2) [of k] Suc.prems(2) ne by (simp add: k_def k'_def)
  have n: "n = unat (cs_e k' - cs_w k')" using idx Suc.prems(3) length_butlast
    editor_erase(1) [of k] Suc.prems(2) ne length_editor(2) [of k] length_editor(2) [of k'] by (simp add: k_def k'_def)
  obtain bs where bs: "consputc BACKSPACE (s\<lparr>cons := k'\<rparr>) = Ret () (s\<lparr>cons := k', uart := send bs (uart s)\<rparr>)"
    using consputc_run [of "s\<lparr>cons := k'\<rparr>" BACKSPACE] Suc.prems(1) by auto
  obtain cs where cs: "kill_line n (s\<lparr>cons := k', uart := send bs (uart s)\<rparr>) =
      Ret () (s\<lparr>cons := k'\<lparr>cs_e := cs_w k'\<rparr>, uart := send (bs @ cs) (uart s)\<rparr>)"
    using Suc.IH [of "s\<lparr>cons := k', uart := send bs (uart s)\<rparr>"] Suc.prems(1) ok n by auto
  have step: "kill_line (Suc n) s = kill_line n (s\<lparr>cons := k', uart := send bs (uart s)\<rparr>)"
    using ne nl' bs by (simp add: k_def k'_def)
  have e: "k'\<lparr>cs_e := cs_w k'\<rparr> = k\<lparr>cs_e := cs_w k\<rparr>" by (simp add: k'_def)
  show ?case
    by (rule exI [of _ "bs @ cs"]) (simp only: step cs e k_def)
qed

lemma dump_ok: "fmt_ok (dump_header pol) []" "fmt_ok (dump_format pol) (map column_arg (procdump_line pol c))"
  by (cases pol; simp add: dump_header_def dump_format_def procdump_line_def column_arg_def Let_def upt_rec)+

lemma prints_forM:
  assumes "\<And>x bs. x \<in> set xs \<Longrightarrow> prints (f x) (s\<lparr>uart := send bs (uart s)\<rparr>) ()"
  shows "prints (forM xs f) s ()"
  using assms
proof (induction xs arbitrary: s)
  case Nil
  then show ?case by simp
next
  case (Cons x xs)
  have "prints (f x) s ()" using Cons.prems [of x "[]"] by simp
  moreover have "prints (forM xs f) (s\<lparr>uart := send bs (uart s)\<rparr>) ()" for bs
    by (rule Cons.IH) (use Cons.prems in simp)
  ultimately show ?case by (simp add: prints_seq)
qed

lemma prints_procdump:
  assumes "can_print s" "lock_free PrLock s"
  shows "prints procdump_print s ()"
proof -
  have pr: "prints (kprintf (Some f) ap) (s\<lparr>uart := send bs (uart s)\<rparr>) ()" if "fmt_ok f ap" for f ap bs
    using that assms by (intro prints_printf) simp_all
  have rows: "prints (seqM (kprintf (Some (dump_format (policy s))) (map column_arg row)) (kprintf (Some [CHR 0x0A]) []))
      (s\<lparr>uart := send bs (uart s)\<rparr>) ()" if "row \<in> set (procdump s)" for row bs
    using that dump_ok(2) by (intro prints_seq) (auto simp: procdump_def intro: pr)
  let ?row = "\<lambda>row. seqM (kprintf (Some (dump_format (policy s))) (map column_arg row)) (kprintf (Some [CHR 0x0A]) [])"
  have body: "prints (forM (procdump s) ?row) (s\<lparr>uart := send bs (uart s)\<rparr>) ()" for bs
    by (rule prints_forM) (use rows in simp)
  have "prints (seqM (kprintf (Some (dump_header (policy s))) []) (forM (procdump s) ?row)) (s\<lparr>uart := send bs (uart s)\<rparr>) ()" for bs
    by (rule prints_seq [OF pr [OF dump_ok(1)]]) (use body in simp)
  then have "prints (seqM (kprintf (Some [CHR 0x0A]) []) (seqM (kprintf (Some (dump_header (policy s))) []) (forM (procdump s) ?row))) s ()"
    by (rule prints_seq [rotated]) (use pr [of "[CHR 0x0A]" "[]" "[]"] in simp)
  then show ?thesis by (simp add: prints_def procdump_print_def bindM_gets)
qed

text \<open>Storing a character.\<close>

lemma console_store_run:
  assumes "held ConsLock u" "can_print u" "cons_ok (cons u)" "c \<notin> {CTRL_P, CTRL_U, CTRL_H, 0x7f}" "c \<noteq> 0" "0 \<le> c" "c < 256"
    "unat (cs_e (cons u) - cs_r (cons u)) < INPUT_BUF"
  shows "\<exists>k bs pr. console_char c u = Ret () (u\<lparr>cons := k, uart := send bs (uart u), procs := pr\<rparr>)
    \<and> cons_ok k \<and> editor_of k = edit_step c (editor_of (cons u)) \<and> wokep u pr"
proof -
  define k d where "k = cons u" and "d = (if c = 13 then 10 else c)"
  define k' where "k' = cons_store (word_of_int d) k"
  note st = editor_store [OF assms(3,8), of "word_of_int d", folded k_def, folded k'_def]
  have len: "unat (cs_e k' - cs_r k') = unat (cs_w k' - cs_r k') + unat (cs_e k' - cs_w k')" "unat (cs_e k' - cs_r k') \<le> INPUT_BUF"
    using st assms(3,8) by (simp_all add: cons_ok_def k_def)
  have full: "cs_e k' = cs_r k' + of_nat INPUT_BUF \<longleftrightarrow> unat (cs_e k' - cs_r k') = INPUT_BUF" by (rule cons_ring.full_iff)
  obtain bs where bs: "consputc d u = Ret () (u\<lparr>uart := send bs (uart u)\<rparr>)" using consputc_run [OF assms(2)] by blast
  let ?commit = "d = 10 \<or> d = CTRL_D \<or> cs_e k' = cs_r k' + of_nat INPUT_BUF"
  let ?u = "u\<lparr>cons := k', uart := send bs (uart u)\<rparr>"
  have "console_char c u = seqM (consputc d) (
           seqM (set_cons (\<lambda>k. k\<lparr>cs_buf := (cs_buf k)(unat (cs_e k) mod INPUT_BUF := word_of_int d), cs_e := cs_e k + 1\<rparr>)) (
           bindM (get_cons (\<lambda>k. cs_e k = cs_r k + of_nat INPUT_BUF)) (\<lambda>full.
           whenM (d = 10 \<or> d = CTRL_D \<or> full)
             (seqM (set_cons (\<lambda>k. k\<lparr>cs_w := cs_e k\<rparr>)) (wakeup ChanConsR))))) u"
    using assms(4,5,8) unfolding console_char_def d_def Let_def by simp
  also have "\<dots> = whenM ?commit (seqM (set_cons (\<lambda>k. k\<lparr>cs_w := cs_e k\<rparr>)) (wakeup ChanConsR)) (u\<lparr>uart := send bs (uart u), cons := k'\<rparr>)"
    using bs by (simp add: k'_def cons_store_def k_def)
  also have "u\<lparr>uart := send bs (uart u), cons := k'\<rparr> = ?u" by simp
  finally have run: "console_char c u = whenM ?commit (seqM (set_cons (\<lambda>k. k\<lparr>cs_w := cs_e k\<rparr>)) (wakeup ChanConsR)) ?u" .
  have step: "edit_step c (editor_of k) = (if ?commit then (fst (editor_of k) @ snd (editor_of k'), []) else editor_of k')"
    unfolding full
    using assms(3,4,5,8) st(1,2) length_editor [of k]
    by (auto simp: edit_step_def d_def Let_def k_def cons_ok_def split: prod.splits)
  show ?thesis
  proof (cases ?commit)
    case True
    let ?v = "u\<lparr>cons := k'\<lparr>cs_w := cs_e k'\<rparr>, uart := send bs (uart u)\<rparr>"
    obtain pr where pr: "wakeup ChanConsR ?v = Ret () (?v\<lparr>procs := pr\<rparr>)" "wokep ?v pr"
      using wakeup_cs [of ConsLock ?v ChanConsR] assms(1) by auto
    have v: "u\<lparr>uart := send bs (uart u), cons := k'\<lparr>cs_w := cs_e k'\<rparr>\<rparr> = ?v" by simp
    have "console_char c u = wakeup ChanConsR (u\<lparr>uart := send bs (uart u), cons := k'\<lparr>cs_w := cs_e k'\<rparr>\<rparr>)"
      using run True by (simp add: whenM_def)
    then have "console_char c u = Ret () (?v\<lparr>procs := pr\<rparr>)" using pr(1) by (simp only: v)
    moreover have "wokep u pr" using pr(2) by (simp add: wokep_def)
    ultimately show ?thesis
      using editor_complete [OF len] step True st(1)
      by (intro exI [of _ "k'\<lparr>cs_w := cs_e k'\<rparr>"] exI [of _ bs] exI [of _ pr]) (simp add: k_def)
  next
    case False
    moreover have "uint (word_of_int d :: u8) = d" using assms(6,7) by (auto simp: d_def unsigned_of_int take_bit_eq_mod)
    ultimately have "(word_of_int d :: u8) \<noteq> 10" by auto
    then have "cons_ok k'" using len st(1) assms(3) by (simp add: cons_ok_def k_def)
    then show ?thesis
      using run False step by (intro exI [of _ k'] exI [of _ bs] exI [of _ "procs u"]) (simp add: whenM_def k_def)
  qed
qed

text \<open>One character, in the critical section: the result on the abstract editor.\<close>

lemma console_char_run:
  assumes "held ConsLock u" "can_print u" "cons_ok (cons u)" "0 \<le> c" "c < 256"
  shows "\<exists>k bs pr. console_char c u = Ret () (u\<lparr>cons := k, uart := send bs (uart u), procs := pr\<rparr>)
    \<and> cons_ok k \<and> editor_of k = edit_step c (editor_of (cons u)) \<and> wokep u pr"
proof -
  define k where "k = cons u"
  have same: "u\<lparr>cons := k, uart := send bs (uart u), procs := procs u\<rparr> = u\<lparr>uart := send bs (uart u)\<rparr>" for bs
    by (simp add: k_def)
  consider "c = CTRL_P" | "c = CTRL_U" | "c = CTRL_H \<or> c = 0x7f"
    | "c \<notin> {CTRL_P, CTRL_U, CTRL_H, 0x7f}" "c = 0 \<or> INPUT_BUF \<le> unat (cs_e k - cs_r k)"
    | "c \<notin> {CTRL_P, CTRL_U, CTRL_H, 0x7f}" "c \<noteq> 0" "unat (cs_e k - cs_r k) < INPUT_BUF"
    by fastforce
  then show ?thesis
  proof cases
    case 1
    have "lock_free PrLock u" using assms(1) by (simp add: held_def)
    then obtain bs where "procdump_print u = Ret () (u\<lparr>uart := send bs (uart u)\<rparr>)"
      using prints_procdump [OF assms(2)] by (auto simp: prints_def)
    then show ?thesis
      using 1 assms(3) same [of bs]
      by (intro exI [of _ k] exI [of _ bs] exI [of _ "procs u"]) (simp add: console_char_def edit_step_def k_def split: prod.splits)
  next
    case 2
    obtain bs where r: "kill_line (unat (cs_e k - cs_w k)) u = Ret () (u\<lparr>cons := k\<lparr>cs_e := cs_w k\<rparr>, uart := send bs (uart u)\<rparr>)"
      using kill_line_run [OF assms(2,3)] by (auto simp: k_def)
    have "cons_ok (k\<lparr>cs_e := cs_w k\<rparr>)" "editor_of (k\<lparr>cs_e := cs_w k\<rparr>) = (fst (editor_of k), [])"
      using assms(3) by (auto simp: cons_ok_def editor_of_def k_def)
    then show ?thesis
      using 2 r by (intro exI [of _ "k\<lparr>cs_e := cs_w k\<rparr>"] exI [of _ bs] exI [of _ "procs u"])
        (simp add: console_char_def edit_step_def k_def split: prod.splits)
  next
    case 3
    show ?thesis
    proof (cases "cs_e k = cs_w k")
      case True
      then have "snd (editor_of k) = []" by (simp add: editor_of_def)
      then show ?thesis using 3 True assms(3) same [of "[]"]
        by (intro exI [of _ k] exI [of _ "[]"] exI [of _ "procs u"])
          (auto simp: console_char_def edit_step_def k_def whenM_def split: prod.splits)
    next
      case False
      define k' where "k' = k\<lparr>cs_e := cs_e k - 1\<rparr>"
      obtain bs where bs: "consputc BACKSPACE (u\<lparr>cons := k'\<rparr>) = Ret () (u\<lparr>cons := k', uart := send bs (uart u)\<rparr>)"
        using consputc_run [of "u\<lparr>cons := k'\<rparr>" BACKSPACE] assms(2) by auto
      have r: "console_char c u = consputc BACKSPACE (u\<lparr>cons := k'\<rparr>)"
        using 3 False by (auto simp: console_char_def whenM_def k_def k'_def)
      show ?thesis
        using 3 r bs editor_erase [of k] False assms(3) k_def
        by (intro exI [of _ k'] exI [of _ bs] exI [of _ "procs u"]) (auto simp: edit_step_def k'_def split: prod.splits)
    qed
  next
    case 4
    have "edit_step c (editor_of k) = editor_of k"
      using 4 assms(3) length_editor [of k] by (auto simp: edit_step_def cons_ok_def k_def split: prod.splits)
    moreover have "console_char c u = Ret () u" using 4 by (auto simp: console_char_def whenM_def k_def)
    ultimately show ?thesis using assms(3) same [of "[]"]
      by (intro exI [of _ k] exI [of _ "[]"] exI [of _ "procs u"]) (simp add: k_def)
  next
    case 5
    then show ?thesis using assms by (intro console_store_run) (simp_all add: k_def)
  qed
qed

text \<open>
  C22: the console is a line editor. The interrupt handler refines \<open>edit_step\<close> on the complete input and the line being
  edited: a character is appended to the line, backspace removes the last one, control-U
  removes the line, and a newline, control-D or a full buffer completes it. Complete input is only ever
  extended, and what does not fit into the buffer is dropped.
\<close>

theorem consoleintr_refines_editor:
  assumes "calm s" "\<not> panicked s" "\<not> bit (u_reg (uart s) LCR) 7" "cons_ok (cons s)" "0 \<le> c" "c < 256"
  shows "\<exists>t. consoleintr c s = Ret () t \<and> calm t \<and> \<not> panicked t \<and> u_reg (uart t) = u_reg (uart s)
    \<and> cons_ok (cons t) \<and> editor_of (cons t) = edit_step c (editor_of (cons s))"
proof -
  let ?u = "acq ConsLock s"
  have "can_print s" using assms(1-3) by (simp add: can_print_def calm_def)
  then have "can_print ?u" by (rule can_print_acq)
  then obtain k bs pr where r: "console_char c ?u = Ret () (?u\<lparr>cons := k, uart := send bs (uart s), procs := pr\<rparr>)"
      "cons_ok k" "editor_of k = edit_step c (editor_of (cons s))"
    using console_char_run [of ?u c] assms by auto
  have "consoleintr c s = Ret () (s\<lparr>cons := k, uart := send bs (uart s), procs := pr\<rparr>)"
    using r(1) assms(1) by (simp add: consoleintr_def acquire_calm release_held)
  then show ?thesis using r(2,3) assms(1,2) by simp
qed

theorem consoleintr_refines_editor_witness:
  "\<exists>t u. consoleintr 97 booted = Ret () t \<and> editor_of (cons t) = ([], [97])
    \<and> consoleintr 13 t = Ret () u \<and> editor_of (cons u) = ([97, 10], [])"
proof -
  have b: "\<not> panicked booted" "\<not> bit (u_reg (uart booted) LCR) 7" "cons_ok (cons booted)" "editor_of (cons booted) = ([], [])"
    by (simp_all add: booted_unfold cons_ok_def editor_of_def)
  then obtain t where t: "consoleintr 97 booted = Ret () t" "calm t" "\<not> panicked t" "u_reg (uart t) = u_reg (uart booted)"
      "cons_ok (cons t)" "editor_of (cons t) = ([], [97])"
    using consoleintr_refines_editor [of booted 97] by (auto simp: edit_step_def)
  then show ?thesis
    using consoleintr_refines_editor [of t 13] b(2) by (auto simp: edit_step_def)
qed

end
