(* ===== verification/File.thy ===== *)
theory File
  imports Fs Pipe Console
begin

section \<open>Open files (kernel/file.c, and \<^verbatim>\<open>pipealloc\<close> of kernel/pipe.c)\<close>

text \<open>
  The table of open files and the operations of a file descriptor, which go to a pipe, a device or an inode.
\<close>

abbreviation (input) NFILE :: nat where "NFILE \<equiv> 100"
abbreviation (input) NDEV :: int where "NDEV \<equiv> 10"

definition get_file :: "nat \<Rightarrow> (kfile \<Rightarrow> 'a) \<Rightarrow> 'a K" where
  "get_file f g = gets (\<lambda>s. g (ftable s f))"

definition set_file :: "nat \<Rightarrow> (kfile \<Rightarrow> kfile) \<Rightarrow> unit K" where
  "set_file f g = modify (\<lambda>s. s\<lparr>ftable := (ftable s)(f := g (ftable s f))\<rparr>)"

lemma file_apply [simp]:
  "get_file f g s = Ret (g (ftable s f)) s" "bindM (get_file f g) k s = k (g (ftable s f)) s"
  "set_file f h s = Ret () (s\<lparr>ftable := (ftable s)(f := h (ftable s f))\<rparr>)"
  by (simp_all add: get_file_def set_file_def)

definition fileinit :: "unit K" where
  "fileinit = initlock FtableLock ''ftable''"

definition filealloc :: "nat option K" where
  "filealloc =
     seqM (acquire FtableLock) (
     bindM (gets ftable) (\<lambda>tab.
     case find (\<lambda>f. f_ref (tab f) = 0) [0..<NFILE] of
       Some f \<Rightarrow> seqM (set_file f (\<lambda>x. x\<lparr>f_ref := 1\<rparr>)) (seqM (release FtableLock) (returnM (Some f)))
     | None \<Rightarrow> seqM (release FtableLock) (returnM None)))"

definition filedup :: "nat \<Rightarrow> nat K" where
  "filedup f =
     seqM (acquire FtableLock) (
     bindM (get_file f f_ref) (\<lambda>r.
     if r < 1 then panic ''filedup'' else
     seqM (set_file f (\<lambda>x. x\<lparr>f_ref := f_ref x + 1\<rparr>)) (
     seqM (release FtableLock)
          (returnM f))))"

definition fileclose :: "nat \<Rightarrow> unit K" where
  "fileclose f =
     seqM (acquire FtableLock) (
     bindM (get_file f f_ref) (\<lambda>r.
     if r < 1 then panic ''fileclose'' else
     seqM (set_file f (\<lambda>x. x\<lparr>f_ref := f_ref x - 1\<rparr>)) (
     if r - 1 > 0 then release FtableLock else
     bindM (get_file f id) (\<lambda>ff.
     seqM (set_file f (\<lambda>x. x\<lparr>f_ref := 0, f_type := FD_NONE\<rparr>)) (
     seqM (release FtableLock) (
     case f_type ff of
       FD_PIPE \<Rightarrow> pipeclose (f_pipe ff) (f_writable ff)
     | FD_NONE \<Rightarrow> returnM ()
     | _ \<Rightarrow> seqM begin_op (seqM (iput (f_ip ff)) end_op)))))))"

text \<open>\<^verbatim>\<open>struct stat\<close> in memory, 24 bytes; the four bytes \<open>pad\<close> before the size are not initialised by the code.\<close>

definition stat_bytes :: "u8 list \<Rightarrow> kstat \<Rightarrow> u8 list" where
  "stat_bytes pad st = le32 (word_of_int (st_dev st)) @ le32 (st_ino st) @ le16 (st_type st) @ le16 (st_nlink st) @ pad @ le64 (st_size st)"

definition filestat :: "u8 list \<Rightarrow> nat \<Rightarrow> u64 \<Rightarrow> int K" where
  "filestat pad f addr =
     bindM curproc (\<lambda>p.
     bindM (get_file f id) (\<lambda>x.
     if f_type x = FD_INODE \<or> f_type x = FD_DEVICE then
       seqM (ilock (f_ip x)) (
       bindM (stati (f_ip x)) (\<lambda>st.
       seqM (iunlock (f_ip x)) (
       bindM (get_proc p p_pagetable) (\<lambda>pt.
       bindM (copyout pt addr (stat_bytes pad st)) (\<lambda>r.
       returnM (if r < 0 then - 1 else 0))))))
     else returnM (- 1)))"

definition dev_call :: "devfn \<Rightarrow> u64 \<Rightarrow> int \<Rightarrow> int K" where
  "dev_call d addr n = (case d of ConsoleRead \<Rightarrow> consoleread True addr n | ConsoleWrite \<Rightarrow> consolewrite True addr n)"

definition fileread :: "nat \<Rightarrow> u64 \<Rightarrow> int \<Rightarrow> int K" where
  "fileread f addr n =
     bindM (get_file f id) (\<lambda>x.
     if \<not> f_readable x then returnM (- 1) else
     case f_type x of
       FD_PIPE \<Rightarrow> piperead (f_pipe x) addr n
     | FD_DEVICE \<Rightarrow>
         bindM (gets devsw) (\<lambda>sw.
         if sint (f_major x) < 0 \<or> sint (f_major x) \<ge> NDEV then returnM (- 1) else
         case dv_read (sw (nat (sint (f_major x)))) of
           None \<Rightarrow> returnM (- 1)
         | Some d \<Rightarrow> dev_call d addr n)
     | FD_INODE \<Rightarrow>
         seqM (ilock (f_ip x)) (
         bindM (readi (f_ip x) (ToUser addr) (f_off x) (word_of_int n)) (\<lambda>(r, bs).
         seqM (whenM (r > 0) (set_file f (\<lambda>y. y\<lparr>f_off := f_off y + word_of_int r\<rparr>))) (
         seqM (iunlock (f_ip x))
              (returnM r))))
     | FD_NONE \<Rightarrow> panic ''fileread'')"

text \<open>At most 3072 bytes in one transaction; the loop ends early when a write is short.\<close>

abbreviation (input) write_max :: int where "write_max \<equiv> 3072"

primrec filewrite_loop :: "nat \<Rightarrow> nat \<Rightarrow> u64 \<Rightarrow> int \<Rightarrow> int \<Rightarrow> int K" where
  "filewrite_loop 0 f addr i n = returnM i"
| "filewrite_loop (Suc fuel) f addr i n =
     (if i < n then
        let n1 = (if n - i > write_max then write_max else n - i) in
        bindM (get_file f f_ip) (\<lambda>ip.
        seqM begin_op (
        seqM (ilock ip) (
        bindM (get_file f f_off) (\<lambda>off.
        bindM (writei ip (FromUser (addr + word_of_int i)) off (word_of_int n1)) (\<lambda>r.
        seqM (whenM (r > 0) (set_file f (\<lambda>y. y\<lparr>f_off := f_off y + word_of_int r\<rparr>))) (
        seqM (iunlock ip) (
        seqM end_op (
        if r \<noteq> n1 then returnM i
        else filewrite_loop fuel f addr (i + r) n))))))))
      else returnM i)"

definition filewrite :: "nat \<Rightarrow> u64 \<Rightarrow> int \<Rightarrow> int K" where
  "filewrite f addr n =
     bindM (get_file f id) (\<lambda>x.
     if \<not> f_writable x then returnM (- 1) else
     case f_type x of
       FD_PIPE \<Rightarrow> pipewrite (f_pipe x) addr n
     | FD_DEVICE \<Rightarrow>
         bindM (gets devsw) (\<lambda>sw.
         if sint (f_major x) < 0 \<or> sint (f_major x) \<ge> NDEV then returnM (- 1) else
         case dv_write (sw (nat (sint (f_major x)))) of
           None \<Rightarrow> returnM (- 1)
         | Some d \<Rightarrow> dev_call d addr n)
     | FD_INODE \<Rightarrow>
         bindM (filewrite_loop (nat n) f addr 0 n) (\<lambda>i. returnM (if i = n then n else - 1))
     | FD_NONE \<Rightarrow> panic ''filewrite'')"

definition pipealloc_bad :: "u64 \<Rightarrow> nat option \<Rightarrow> nat option \<Rightarrow> (nat \<times> nat) option K" where
  "pipealloc_bad pi f0 f1 =
     seqM (whenM (pi \<noteq> 0) (kfree pi)) (
     seqM (case f0 of None \<Rightarrow> returnM () | Some f \<Rightarrow> fileclose f) (
     seqM (case f1 of None \<Rightarrow> returnM () | Some f \<Rightarrow> fileclose f)
          (returnM None)))"

text \<open>\<^verbatim>\<open>pipealloc\<close> returns the two files, or \<^term>\<open>None\<close> for the result -1.\<close>

definition pipealloc :: "(nat \<times> nat) option K" where
  "pipealloc =
     bindM filealloc (\<lambda>f0.
     case f0 of None \<Rightarrow> pipealloc_bad 0 None None
     | Some g0 \<Rightarrow>
         bindM filealloc (\<lambda>f1.
         case f1 of None \<Rightarrow> pipealloc_bad 0 f0 None
         | Some g1 \<Rightarrow>
             bindM kalloc (\<lambda>pi.
             if pi = 0 then pipealloc_bad pi f0 f1 else
             seqM (set_pipe pi (\<lambda>q. q\<lparr>pi_readopen := True, pi_writeopen := True, pi_nwrite := 0, pi_nread := 0\<rparr>)) (
             seqM (initlock (PipeLock pi) ''pipe'') (
             seqM (set_file g0 (\<lambda>x. x\<lparr>f_type := FD_PIPE, f_readable := True, f_writable := False, f_pipe := pi\<rparr>)) (
             seqM (set_file g1 (\<lambda>x. x\<lparr>f_type := FD_PIPE, f_readable := False, f_writable := True, f_pipe := pi\<rparr>))
                  (returnM (Some (g0, g1)))))))))"

end
