(* ===== verification/ProcLife.thy ===== *)
theory ProcLife
  imports File
begin

section \<open>The life of a process (kernel/proc.c)\<close>

text \<open>
  The routines of \<^verbatim>\<open>proc.c\<close> that need files and inodes: the first process, \<^verbatim>\<open>fork\<close> and \<^verbatim>\<open>exit\<close>. A process's saved
  user registers are in the page \<^verbatim>\<open>p->trapframe\<close> of the byte memory.
\<close>

abbreviation (input) NOFILE :: nat where "NOFILE \<equiv> 16"

abbreviation (input) TF_kernel_satp :: u64 where "TF_kernel_satp \<equiv> 0"
abbreviation (input) TF_kernel_sp :: u64 where "TF_kernel_sp \<equiv> 8"
abbreviation (input) TF_kernel_trap :: u64 where "TF_kernel_trap \<equiv> 16"
abbreviation (input) TF_epc :: u64 where "TF_epc \<equiv> 24"
abbreviation (input) TF_kernel_hartid :: u64 where "TF_kernel_hartid \<equiv> 32"
abbreviation (input) TF_sp :: u64 where "TF_sp \<equiv> 48"
abbreviation (input) TF_a0 :: u64 where "TF_a0 \<equiv> 112"
abbreviation (input) TF_a1 :: u64 where "TF_a1 \<equiv> 120"
abbreviation (input) TF_a7 :: u64 where "TF_a7 \<equiv> 168"

text \<open>A field of \<^verbatim>\<open>p->trapframe\<close>, by its offset; the structure has 36 fields of 8 bytes.\<close>

definition get_tf :: "nat \<Rightarrow> u64 \<Rightarrow> u64 K" where
  "get_tf p off =
     bindM (get_proc p p_trapframe) (\<lambda>tf.
     if tf = 0 then stopM (Fault ''null trapframe'') else get64 (tf + off))"

definition put_tf :: "nat \<Rightarrow> u64 \<Rightarrow> u64 \<Rightarrow> unit K" where
  "put_tf p off v =
     bindM (get_proc p p_trapframe) (\<lambda>tf.
     if tf = 0 then stopM (Fault ''null trapframe'') else put64 (tf + off) v)"

abbreviation (input) sizeof_trapframe :: nat where "sizeof_trapframe \<equiv> 288"

text \<open>\<^verbatim>\<open>safestrcpy\<close> into \<^verbatim>\<open>p->name\<close>, which has 16 bytes.\<close>

definition name_copy :: "u8 list \<Rightarrow> u8 list \<Rightarrow> u8 list" where
  "name_copy dst src = splice dst 0 (take 15 (takeWhile (\<lambda>c. c \<noteq> 0) src) @ [0])"

definition initcode :: "u8 list" where
  "initcode =
    [0x17, 0x05, 0x00, 0x00, 0x13, 0x05, 0x45, 0x02,
     0x97, 0x05, 0x00, 0x00, 0x93, 0x85, 0x35, 0x02,
     0x93, 0x08, 0x70, 0x00, 0x73, 0x00, 0x00, 0x00,
     0x93, 0x08, 0x20, 0x00, 0x73, 0x00, 0x00, 0x00,
     0xef, 0xf0, 0x9f, 0xff, 0x2f, 0x69, 0x6e, 0x69,
     0x74, 0x00, 0x00, 0x24, 0x00, 0x00, 0x00, 0x00,
     0x00, 0x00, 0x00, 0x00]"

definition initcode_name :: "u8 list" where
  "initcode_name = map of_char ''initcode''"

definition userinit :: "unit K" where
  "userinit =
     seqM init_queues (
     bindM allocproc (\<lambda>ap.
     seqM (modify (\<lambda>s. s\<lparr>initproc := ap\<rparr>)) (
     case ap of None \<Rightarrow> stopM (Fault ''null process'') | Some p \<Rightarrow>
     bindM (get_proc p p_pagetable) (\<lambda>pt.
     seqM (uvminit pt initcode) (
     seqM (set_proc p (\<lambda>c. c\<lparr>p_sz := PGSIZE\<rparr>)) (
     seqM (put_tf p TF_epc 0) (
     seqM (put_tf p TF_sp PGSIZE) (
     seqM (set_proc p (\<lambda>c. c\<lparr>p_name := name_copy (p_name c) initcode_name\<rparr>)) (
     bindM (namei [SLASH]) (\<lambda>d.
     seqM (set_proc p (\<lambda>c. c\<lparr>p_cwd := d\<rparr>)) (
     seqM (set_proc p (\<lambda>c. c\<lparr>p_state := RUNNABLE\<rparr>)) (
     bindM (gets policy) (\<lambda>pol.
     seqM (whenM (pol = MLFQ) (push p 0))
          (release (ProcLock p)))))))))))))))"

text \<open>The copy of the open files: every file gets one reference more.\<close>

definition fork_file :: "nat \<Rightarrow> nat \<Rightarrow> nat \<Rightarrow> unit K" where
  "fork_file p np i =
     bindM (get_proc p (\<lambda>c. p_ofile c i)) (\<lambda>fo.
     case fo of None \<Rightarrow> returnM ()
     | Some f \<Rightarrow>
         bindM (filedup f) (\<lambda>g. set_proc np (\<lambda>c. c\<lparr>p_ofile := (p_ofile c)(i := Some g)\<rparr>)))"

definition fork_copy_trapframe :: "nat \<Rightarrow> nat \<Rightarrow> unit K" where
  "fork_copy_trapframe p np =
     bindM (get_proc p p_trapframe) (\<lambda>tf.
     bindM (get_proc np p_trapframe) (\<lambda>ntf.
     if tf = 0 \<or> ntf = 0 then stopM (Fault ''null trapframe'') else
     set_phys (\<lambda>m. write_bytes ntf (read_bytes m tf sizeof_trapframe) m)))"

text \<open>What \<^verbatim>\<open>fork\<close> does once the child's memory is copied.\<close>

definition fork_child :: "nat \<Rightarrow> nat \<Rightarrow> int K" where
  "fork_child p np =
     seqM (bindM (get_proc p p_sz) (\<lambda>sz. set_proc np (\<lambda>c. c\<lparr>p_sz := sz\<rparr>))) (
     seqM (bindM (get_proc p p_mask) (\<lambda>m. set_proc np (\<lambda>c. c\<lparr>p_mask := m\<rparr>))) (
     seqM (fork_copy_trapframe p np) (
     seqM (put_tf np TF_a0 0) (
     seqM (forM [0..<NOFILE] (fork_file p np)) (
     bindM (get_proc p p_cwd) (\<lambda>cwd.
     case cwd of None \<Rightarrow> stopM (Fault ''null inode'') | Some d \<Rightarrow>
     bindM (idup d) (\<lambda>d.
     seqM (set_proc np (\<lambda>c. c\<lparr>p_cwd := Some d\<rparr>)) (
     seqM (bindM (get_proc p p_name) (\<lambda>nm. set_proc np (\<lambda>c. c\<lparr>p_name := name_copy (p_name c) nm\<rparr>))) (
     bindM (get_proc np p_pid) (\<lambda>pid.
     seqM (release (ProcLock np)) (
     seqM (acquire WaitLock) (
     seqM (set_proc np (\<lambda>c. c\<lparr>p_parent := Some p\<rparr>)) (
     seqM (release WaitLock) (
     seqM (acquire (ProcLock np)) (
     seqM (set_proc np (\<lambda>c. c\<lparr>p_state := RUNNABLE\<rparr>)) (
     bindM (gets policy) (\<lambda>pol.
     seqM (whenM (pol = MLFQ) (push np 0)) (
     seqM (release (ProcLock np))
          (returnM pid)))))))))))))))))))"

definition fork :: "int K" where
  "fork =
     bindM curproc (\<lambda>p.
     bindM allocproc (\<lambda>ap.
     case ap of None \<Rightarrow> returnM (- 1) | Some np \<Rightarrow>
     bindM (gets procs) (\<lambda>pr.
     bindM (uvmcopy (p_pagetable (pr p)) (p_pagetable (pr np)) (p_sz (pr p))) (\<lambda>r.
     if r < 0 then seqM (freeproc np) (seqM (release (ProcLock np)) (returnM (- 1)))
     else fork_child p np))))"

definition exit_file :: "nat \<Rightarrow> nat \<Rightarrow> unit K" where
  "exit_file p fd =
     bindM (get_proc p (\<lambda>c. p_ofile c fd)) (\<lambda>fo.
     case fo of None \<Rightarrow> returnM ()
     | Some f \<Rightarrow> seqM (fileclose f) (set_proc p (\<lambda>c. c\<lparr>p_ofile := (p_ofile c)(fd := None)\<rparr>)))"

text \<open>From the point where \<^verbatim>\<open>exit\<close> holds \<^verbatim>\<open>wait_lock\<close>. No process sleeps on a null channel, so nothing is woken for a null parent.\<close>

definition exit_zombie :: "nat \<Rightarrow> int \<Rightarrow> unit K" where
  "exit_zombie p status =
     seqM (reparent p) (
     bindM (get_proc p p_parent) (\<lambda>par.
     seqM (case par of None \<Rightarrow> returnM () | Some q \<Rightarrow> wakeup (ChanProc q)) (
     seqM (acquire (ProcLock p)) (
     bindM (gets ticks) (\<lambda>now.
     seqM (set_proc p (\<lambda>c. c\<lparr>p_xstate := status, p_state := ZOMBIE, p_etime := ucast now\<rparr>)) (
     seqM (release WaitLock) (
     seqM (sched Exited :: unit K)
          (panic ''zombie exit''))))))))"

definition exit :: "int \<Rightarrow> unit K" where
  "exit status =
     bindM curproc (\<lambda>p.
     bindM (gets initproc) (\<lambda>ini.
     if ini = Some p then panic ''init exiting'' else
     seqM (forM [0..<NOFILE] (exit_file p)) (
     seqM begin_op (
     bindM (get_proc p p_cwd) (\<lambda>cwd.
     case cwd of None \<Rightarrow> stopM (Fault ''null inode'') | Some d \<Rightarrow>
     seqM (iput d) (
     seqM end_op (
     seqM (set_proc p (\<lambda>c. c\<lparr>p_cwd := None\<rparr>)) (
     seqM (acquire WaitLock)
          (exit_zombie p status)))))))))"

end
