(* ===== verification/Args.thy ===== *)
theory Args
  imports ProcLife
begin

section \<open>Arguments of system calls (kernel/syscall.c)\<close>

text \<open>
  How the kernel fetches the arguments of a system call from the saved registers and the memory of the process. The results
  the code stores through a pointer are part of the result.
\<close>

definition ldl64 :: "u8 list \<Rightarrow> nat \<Rightarrow> u64" where
  "ldl64 d i = ucast (ld32 d i) OR push_bit 32 (ucast (ld32 d (i + 4)))"

definition fetchaddr :: "u64 \<Rightarrow> (int \<times> u64) K" where
  "fetchaddr addr =
     bindM curproc (\<lambda>p.
     bindM (get_proc p p_sz) (\<lambda>sz.
     if addr \<ge> sz \<or> addr + 8 > sz then returnM (- 1, 0) else
     bindM (get_proc p p_pagetable) (\<lambda>pt.
     bindM (copyin pt addr 8) (\<lambda>(r, bs).
     if r \<noteq> 0 then returnM (- 1, 0) else returnM (0, ldl64 bs 0)))))"

text \<open>The string without its terminating zero.\<close>

definition fetchstr :: "u64 \<Rightarrow> nat \<Rightarrow> (int \<times> u8 list) K" where
  "fetchstr addr mx =
     bindM curproc (\<lambda>p.
     bindM (get_proc p p_pagetable) (\<lambda>pt.
     bindM (copyinstr pt addr mx) (\<lambda>(err, bs).
     if err < 0 then returnM (err, [])
     else let str = takeWhile (\<lambda>c. c \<noteq> 0) bs in returnM (int (length str), str))))"

definition argraw :: "nat \<Rightarrow> u64 K" where
  "argraw n =
     bindM curproc (\<lambda>p.
     if n = 0 then get_tf p 112
     else if n = 1 then get_tf p 120
     else if n = 2 then get_tf p 128
     else if n = 3 then get_tf p 136
     else if n = 4 then get_tf p 144
     else if n = 5 then get_tf p 152
     else panic ''argraw'')"

text \<open>\<^verbatim>\<open>argint\<close> and \<^verbatim>\<open>argaddr\<close> always succeed.\<close>

definition argint :: "nat \<Rightarrow> int K" where
  "argint n = bindM (argraw n) (\<lambda>w. returnM (sint (ucast w :: u32)))"

definition argaddr :: "nat \<Rightarrow> u64 K" where
  "argaddr n = argraw n"

definition argstr :: "nat \<Rightarrow> nat \<Rightarrow> (int \<times> u8 list) K" where
  "argstr n mx = bindM (argaddr n) (\<lambda>addr. fetchstr addr mx)"

end
