(* ===== verification/Sysproc.thy ===== *)
theory Sysproc
  imports Args
begin

section \<open>System calls on processes (kernel/sysproc.c)\<close>

text \<open>
  The system calls that create, end, wait for, trace and schedule processes. The value a call returns goes to the user's register \<^verbatim>\<open>a0\<close>
  as 64 bits.
\<close>

definition sys_exit :: "u64 K" where
  "sys_exit = bindM (argint 0) (\<lambda>n. seqM (exit n) (returnM 0))"

definition sys_getpid :: "u64 K" where
  "sys_getpid = bindM curproc (\<lambda>p. bindM (get_proc p p_pid) (\<lambda>pid. returnM (word_of_int pid)))"

definition sys_fork :: "u64 K" where
  "sys_fork = bindM fork (\<lambda>r. returnM (word_of_int r))"

definition sys_wait :: "u64 K" where
  "sys_wait = bindM (argaddr 0) (\<lambda>p. bindM (wait p) (\<lambda>r. returnM (word_of_int r)))"

definition sys_sbrk :: "u64 K" where
  "sys_sbrk =
     bindM (argint 0) (\<lambda>n.
     bindM curproc (\<lambda>p.
     bindM (get_proc p (\<lambda>c. sint (ucast (p_sz c) :: u32))) (\<lambda>addr.
     bindM (growproc n) (\<lambda>r.
     if r < 0 then returnM (- 1) else returnM (word_of_int addr)))))"

text \<open>The comparison of the elapsed ticks with \<open>n\<close> is unsigned.\<close>

definition sys_sleep_turn :: "u32 \<Rightarrow> int \<Rightarrow> u64 K" where
  "sys_sleep_turn ticks0 n =
     bindM (gets ticks) (\<lambda>now.
     if now - ticks0 < word_of_int n then
       bindM curproc (\<lambda>p.
       bindM (get_proc p p_killed) (\<lambda>k.
       if k \<noteq> 0 then seqM (release TicksLock) (returnM (- 1))
       else sleep ChanTicks TicksLock))
     else seqM (release TicksLock) (returnM 0))"

definition sys_sleep :: "u64 K" where
  "sys_sleep =
     bindM (argint 0) (\<lambda>n.
     seqM (acquire TicksLock) (
     bindM (gets ticks) (\<lambda>ticks0. sys_sleep_turn ticks0 n)))"

definition sys_sleep_resume :: "nat \<Rightarrow> bool \<Rightarrow> u32 \<Rightarrow> int \<Rightarrow> u64 K" where
  "sys_sleep_resume p en ticks0 n = seqM (sleep_resume p TicksLock en) (sys_sleep_turn ticks0 n)"

definition sys_kill :: "u64 K" where
  "sys_kill = bindM (argint 0) (\<lambda>pid. bindM (kill pid) (\<lambda>r. returnM (word_of_int r)))"

definition sys_uptime :: "u64 K" where
  "sys_uptime =
     seqM (acquire TicksLock) (
     bindM (gets ticks) (\<lambda>xticks.
     seqM (release TicksLock)
          (returnM (ucast xticks))))"

definition sys_strace :: "u64 K" where
  "sys_strace =
     bindM (argint 0) (\<lambda>mask.
     bindM curproc (\<lambda>p.
     bindM (get_proc p p_mask) (\<lambda>old.
     if old > 0 then returnM (- 1) else
     seqM (set_proc p (\<lambda>c. c\<lparr>p_mask := mask\<rparr>)) (returnM 0))))"

text \<open>Both values are read from the first argument.\<close>

definition sys_set_priority :: "u64 K" where
  "sys_set_priority =
     bindM (argint 0) (\<lambda>new_priority.
     bindM (argint 0) (\<lambda>pid.
     bindM (priority_updater new_priority pid) (\<lambda>temp.
     returnM (word_of_int temp))))"

definition sys_set_priority_resume :: "nat \<Rightarrow> bool \<Rightarrow> int \<Rightarrow> u64 K" where
  "sys_set_priority_resume p en temp = seqM (yield_resume p en) (returnM (word_of_int temp))"

text \<open>
  \<^verbatim>\<open>waitx\<close> stores the run time through its second and the wait time through its third argument. When it stores
  nothing, the two variables keep the contents \<open>stack\<close> their stack slots happen to have.
\<close>

definition sys_waitx_done :: "u32 \<times> u32 \<Rightarrow> u64 \<Rightarrow> u64 \<Rightarrow> int \<times> (u32 \<times> u32) option \<Rightarrow> u64 K" where
  "sys_waitx_done stack addr1 addr2 res =
     (let (wtime, rtime) = (case snd res of None \<Rightarrow> stack | Some t \<Rightarrow> t) in
      bindM curproc (\<lambda>p.
      bindM (get_proc p p_pagetable) (\<lambda>pt.
      bindM (copyout pt addr1 (le32 wtime)) (\<lambda>r.
      if r < 0 then returnM (- 1) else
      bindM (copyout pt addr2 (le32 rtime)) (\<lambda>r.
      if r < 0 then returnM (- 1) else returnM (word_of_int (fst res)))))))"

definition sys_waitx :: "u32 \<times> u32 \<Rightarrow> u64 K" where
  "sys_waitx stack =
     bindM (argaddr 0) (\<lambda>addr.
     bindM (argaddr 1) (\<lambda>addr1.
     bindM (argaddr 2) (\<lambda>addr2.
     bindM (waitx addr) (sys_waitx_done stack addr1 addr2))))"

end
