(* ===== verification/Exec.thy ===== *)
theory Exec
  imports Args
begin

section \<open>Loading a program (kernel/exec.c)\<close>

text \<open>
  \<^verbatim>\<open>exec\<close> builds a new address space from an ELF file and the argument strings, and only then replaces the old one. The argument vector is the list
  of its non-null pointers, each the address of a page that holds a string.
\<close>

abbreviation (input) MAXARG :: nat where "MAXARG \<equiv> 32"
abbreviation (input) ELF_MAGIC :: u32 where "ELF_MAGIC \<equiv> 0x464C457F"
abbreviation (input) ELF_PROG_LOAD :: u32 where "ELF_PROG_LOAD \<equiv> 1"

text \<open>The fields of the headers the code reads; an \<^verbatim>\<open>elfhdr\<close> has 64 bytes, a \<^verbatim>\<open>proghdr\<close> 56.\<close>

record elfhdr =
  eh_magic :: u32
  eh_entry :: u64
  eh_phoff :: u64
  eh_phnum :: u16

record proghdr =
  ph_type :: u32
  ph_off :: u64
  ph_vaddr :: u64
  ph_filesz :: u64
  ph_memsz :: u64

definition elf_load :: "u8 list \<Rightarrow> elfhdr" where
  "elf_load d = \<lparr>eh_magic = ld32 d 0, eh_entry = ldl64 d 24, eh_phoff = ldl64 d 32, eh_phnum = ld16 d 56\<rparr>"

definition ph_load :: "u8 list \<Rightarrow> proghdr" where
  "ph_load d = \<lparr>ph_type = ld32 d 0, ph_off = ldl64 d 8, ph_vaddr = ldl64 d 16, ph_filesz = ldl64 d 32, ph_memsz = ldl64 d 40\<rparr>"

text \<open>The loop of \<^verbatim>\<open>loadseg\<close> over the page offsets below \<open>sz\<close>.\<close>

primrec loadseg_from :: "u32 list \<Rightarrow> u64 \<Rightarrow> u64 \<Rightarrow> nat \<Rightarrow> u32 \<Rightarrow> u32 \<Rightarrow> int K" where
  "loadseg_from [] pagetable va ip offset sz = returnM 0"
| "loadseg_from (i # is) pagetable va ip offset sz =
     bindM (walkaddr pagetable (va + ucast i)) (\<lambda>pa.
     if pa = 0 then panic ''loadseg: address should exist'' else
     let n = (if sz - i < 4096 then sz - i else 4096) in
     bindM (readi ip (ToPhys pa) (offset + i) n) (\<lambda>(r, bs).
     if r \<noteq> sint n then returnM (- 1)
     else loadseg_from is pagetable va ip offset sz))"

definition loadseg :: "u64 \<Rightarrow> u64 \<Rightarrow> nat \<Rightarrow> u32 \<Rightarrow> u32 \<Rightarrow> int K" where
  "loadseg pagetable va ip offset sz =
     loadseg_from (map (\<lambda>k. of_nat (4096 * k)) [0..<(unat sz + 4095) div 4096]) pagetable va ip offset sz"

text \<open>
  One program header, at offset \<open>off\<close> of the file, into an image of size \<open>sz\<close>: whether it was loaded, and the size
  the image has then.
\<close>

definition exec_segment :: "nat \<Rightarrow> u64 \<Rightarrow> u32 \<Rightarrow> u64 \<Rightarrow> (bool \<times> u64) K" where
  "exec_segment ip pagetable off sz =
     bindM (readi ip ToLocal off 56) (\<lambda>(r, d).
     if r \<noteq> 56 then returnM (False, sz) else
     let ph = ph_load d in
     if ph_type ph \<noteq> ELF_PROG_LOAD then returnM (True, sz) else
     if ph_memsz ph < ph_filesz ph then returnM (False, sz) else
     if ph_vaddr ph + ph_memsz ph < ph_vaddr ph then returnM (False, sz) else
     bindM (uvmalloc pagetable sz (ph_vaddr ph + ph_memsz ph)) (\<lambda>sz1.
     if sz1 = 0 then returnM (False, sz) else
     if ph_vaddr ph mod PGSIZE \<noteq> 0 then returnM (False, sz1) else
     bindM (loadseg pagetable (ph_vaddr ph) ip (ucast (ph_off ph)) (ucast (ph_filesz ph))) (\<lambda>r.
     returnM (r \<ge> 0, sz1))))"

primrec exec_segments :: "nat \<Rightarrow> nat \<Rightarrow> u64 \<Rightarrow> u32 \<Rightarrow> u64 \<Rightarrow> (bool \<times> u64) K" where
  "exec_segments 0 ip pagetable off sz = returnM (True, sz)"
| "exec_segments (Suc n) ip pagetable off sz =
     bindM (exec_segment ip pagetable off sz) (\<lambda>(ok, sz1).
     if ok then exec_segments n ip pagetable (off + 56) sz1 else returnM (False, sz1))"

text \<open>The label \<^verbatim>\<open>bad\<close>.\<close>

definition exec_bad :: "u64 \<Rightarrow> u64 \<Rightarrow> nat option \<Rightarrow> int K" where
  "exec_bad pagetable sz ip =
     seqM (whenM (pagetable \<noteq> 0) (proc_freepagetable pagetable sz)) (
     seqM (case ip of None \<Rightarrow> returnM () | Some i \<Rightarrow> seqM (iunlockput i) end_op)
          (returnM (- 1)))"

text \<open>
  The argument strings go on the stack below \<open>sp\<close>, each aligned to 16 bytes. The result is the new stack pointer
  and the addresses of the strings, or \<^term>\<open>None\<close> when the stack page is full.
\<close>

primrec exec_args :: "u64 list \<Rightarrow> u64 \<Rightarrow> u64 \<Rightarrow> u64 \<Rightarrow> u64 list \<Rightarrow> (u64 \<times> u64 list) option K" where
  "exec_args [] pagetable stackbase sp ustack = returnM (Some (sp, ustack))"
| "exec_args (a # argv) pagetable stackbase sp ustack =
     (if length ustack \<ge> MAXARG then returnM None else
      bindM (gets phys) (\<lambda>m.
      case strlen a m of None \<Rightarrow> stopM (Fault ''strlen'') | Some len \<Rightarrow>
      let sp = sp - (of_nat len + 1);
          sp = sp - sp mod 16
      in
      if sp < stackbase then returnM None else
      bindM (copyout pagetable sp (read_bytes m a (len + 1))) (\<lambda>r.
      if r < 0 then returnM None
      else exec_args argv pagetable stackbase sp (ustack @ [sp]))))"

text \<open>The part of the path after its last slash.\<close>

definition exec_name :: "u8 list \<Rightarrow> u8 list" where
  "exec_name path = rev (takeWhile (\<lambda>c. c \<noteq> SLASH) (rev path))"

text \<open>The new image takes the place of the old one.\<close>

definition exec_commit :: "nat \<Rightarrow> u8 list \<Rightarrow> u64 \<Rightarrow> u64 \<Rightarrow> u64 \<Rightarrow> u64 \<Rightarrow> u64 \<Rightarrow> unit K" where
  "exec_commit p path pagetable sz sp epc oldsz =
     seqM (put_tf p TF_a1 sp) (
     seqM (set_proc p (\<lambda>c. c\<lparr>p_name := name_copy (p_name c) (exec_name path)\<rparr>)) (
     bindM (get_proc p p_pagetable) (\<lambda>oldpagetable.
     seqM (set_proc p (\<lambda>c. c\<lparr>p_pagetable := pagetable\<rparr>)) (
     seqM (set_proc p (\<lambda>c. c\<lparr>p_sz := sz\<rparr>)) (
     seqM (put_tf p TF_epc epc) (
     seqM (put_tf p TF_sp sp)
          (proc_freepagetable oldpagetable oldsz)))))))"

text \<open>The user stack, the arguments on it and the switch to the new image.\<close>

definition exec_stack :: "nat \<Rightarrow> u8 list \<Rightarrow> u64 list \<Rightarrow> u64 \<Rightarrow> u64 \<Rightarrow> u64 \<Rightarrow> int K" where
  "exec_stack p path argv pagetable sz epc =
     bindM (get_proc p p_sz) (\<lambda>oldsz.
     let sz = PGROUNDUP sz in
     bindM (uvmalloc pagetable sz (sz + 2 * PGSIZE)) (\<lambda>sz1.
     if sz1 = 0 then exec_bad pagetable sz None else
     seqM (uvmclear pagetable (sz1 - 2 * PGSIZE)) (
     bindM (exec_args argv pagetable (sz1 - PGSIZE) sz1 []) (\<lambda>res.
     case res of None \<Rightarrow> exec_bad pagetable sz1 None
     | Some (sp, ustack) \<Rightarrow>
         let argc = length argv;
             sp = sp - (of_nat argc + 1) * 8;
             sp = sp - sp mod 16
         in
         if sp < sz1 - PGSIZE then exec_bad pagetable sz1 None else
         bindM (copyout pagetable sp (concat (map le64 (ustack @ [0])))) (\<lambda>r.
         if r < 0 then exec_bad pagetable sz1 None else
         seqM (exec_commit p path pagetable sz1 sp epc oldsz)
              (returnM (int argc)))))))"

definition exec :: "u8 list \<Rightarrow> u64 list \<Rightarrow> int K" where
  "exec path argv =
     bindM curproc (\<lambda>p.
     seqM begin_op (
     bindM (namei path) (\<lambda>found.
     case found of None \<Rightarrow> seqM end_op (returnM (- 1))
     | Some ip \<Rightarrow>
         seqM (ilock ip) (
         bindM (readi ip ToLocal 0 64) (\<lambda>(r, d).
         if r \<noteq> 64 then exec_bad 0 0 (Some ip) else
         let elf = elf_load d in
         if eh_magic elf \<noteq> ELF_MAGIC then exec_bad 0 0 (Some ip) else
         bindM (proc_pagetable p) (\<lambda>pagetable.
         if pagetable = 0 then exec_bad 0 0 (Some ip) else
         bindM (exec_segments (unat (eh_phnum elf)) ip pagetable (ucast (eh_phoff elf)) 0) (\<lambda>(ok, sz).
         if \<not> ok then exec_bad pagetable sz (Some ip) else
         seqM (iunlockput ip) (
         seqM end_op (
         bindM curproc (\<lambda>p. exec_stack p path argv pagetable sz (eh_entry elf))))))))))) "

end
