(* ===== verification/Sysfile.thy ===== *)
theory Sysfile
  imports Exec
begin

section \<open>System calls on files (kernel/sysfile.c)\<close>

text \<open>
  The system calls on file descriptors and path names. They check the arguments of the user and call the file and
  file-system layers inside transactions.
\<close>

abbreviation (input) MAXPATH :: nat where "MAXPATH \<equiv> 128"
abbreviation (input) O_RDONLY :: int where "O_RDONLY \<equiv> 0x000"
abbreviation (input) O_WRONLY :: int where "O_WRONLY \<equiv> 0x001"
abbreviation (input) O_RDWR :: int where "O_RDWR \<equiv> 0x002"
abbreviation (input) O_CREATE :: int where "O_CREATE \<equiv> 0x200"
abbreviation (input) O_TRUNC :: int where "O_TRUNC \<equiv> 0x400"

text \<open>The descriptor and the file, or \<^term>\<open>None\<close> for the result -1.\<close>

definition argfd :: "nat \<Rightarrow> (nat \<times> nat) option K" where
  "argfd n =
     bindM (argint n) (\<lambda>fd.
     if fd < 0 \<or> fd \<ge> int NOFILE then returnM None else
     bindM curproc (\<lambda>p.
     bindM (get_proc p (\<lambda>c. p_ofile c (nat fd))) (\<lambda>fo.
     returnM (map_option (\<lambda>f. (nat fd, f)) fo))))"

definition set_ofile :: "nat \<Rightarrow> nat \<Rightarrow> nat option \<Rightarrow> unit K" where
  "set_ofile p fd fo = set_proc p (\<lambda>c. c\<lparr>p_ofile := (p_ofile c)(fd := fo)\<rparr>)"

definition fdalloc :: "nat \<Rightarrow> int K" where
  "fdalloc f =
     bindM curproc (\<lambda>p.
     bindM (get_proc p p_ofile) (\<lambda>fds.
     case find (\<lambda>fd. fds fd = None) [0..<NOFILE] of
       Some fd \<Rightarrow> seqM (set_ofile p fd (Some f)) (returnM (int fd))
     | None \<Rightarrow> returnM (- 1)))"

definition sys_dup :: "u64 K" where
  "sys_dup =
     bindM (argfd 0) (\<lambda>a.
     case a of None \<Rightarrow> returnM (- 1) | Some (_, f) \<Rightarrow>
     bindM (fdalloc f) (\<lambda>fd.
     if fd < 0 then returnM (- 1) else
     bindM (filedup f) (\<lambda>_. returnM (word_of_int fd))))"

definition sys_read :: "u64 K" where
  "sys_read =
     bindM (argfd 0) (\<lambda>a.
     case a of None \<Rightarrow> returnM (- 1) | Some (_, f) \<Rightarrow>
     bindM (argint 2) (\<lambda>n.
     bindM (argaddr 1) (\<lambda>p.
     bindM (fileread f p n) (\<lambda>r. returnM (word_of_int r)))))"

definition sys_write :: "u64 K" where
  "sys_write =
     bindM (argfd 0) (\<lambda>a.
     case a of None \<Rightarrow> returnM (- 1) | Some (_, f) \<Rightarrow>
     bindM (argint 2) (\<lambda>n.
     bindM (argaddr 1) (\<lambda>p.
     bindM (filewrite f p n) (\<lambda>r. returnM (word_of_int r)))))"

definition sys_close :: "u64 K" where
  "sys_close =
     bindM (argfd 0) (\<lambda>a.
     case a of None \<Rightarrow> returnM (- 1) | Some (fd, f) \<Rightarrow>
     bindM curproc (\<lambda>p.
     seqM (set_ofile p fd None) (
     seqM (fileclose f)
          (returnM 0))))"

text \<open>\<open>pad\<close>: the padding bytes of the structure on the kernel stack.\<close>

definition sys_fstat :: "u8 list \<Rightarrow> u64 K" where
  "sys_fstat pad =
     bindM (argfd 0) (\<lambda>a.
     case a of None \<Rightarrow> returnM (- 1) | Some (_, f) \<Rightarrow>
     bindM (argaddr 1) (\<lambda>st.
     bindM (filestat pad f st) (\<lambda>r. returnM (word_of_int r))))"

text \<open>The end of a system call inside a transaction.\<close>

definition end_with :: "u64 \<Rightarrow> u64 K" where
  "end_with r = seqM end_op (returnM r)"

definition link_bad :: "nat \<Rightarrow> u64 K" where
  "link_bad ip =
     seqM (ilock ip) (
     seqM (set_inode ip (\<lambda>i. i\<lparr>i_nlink := i_nlink i - 1\<rparr>)) (
     seqM (iupdate ip) (
     seqM (iunlockput ip)
          (end_with (- 1)))))"

definition sys_link :: "u64 K" where
  "sys_link =
     bindM (argstr 0 MAXPATH) (\<lambda>(r, old).
     if r < 0 then returnM (- 1) else
     bindM (argstr 1 MAXPATH) (\<lambda>(r, new).
     if r < 0 then returnM (- 1) else
     seqM begin_op (
     bindM (namei old) (\<lambda>found.
     case found of None \<Rightarrow> end_with (- 1)
     | Some ip \<Rightarrow>
         seqM (ilock ip) (
         bindM (get_inode ip i_type) (\<lambda>t.
         if t = T_DIR then seqM (iunlockput ip) (end_with (- 1)) else
         seqM (set_inode ip (\<lambda>i. i\<lparr>i_nlink := i_nlink i + 1\<rparr>)) (
         seqM (iupdate ip) (
         seqM (iunlock ip) (
         bindM (nameiparent new) (\<lambda>par.
         case par of None \<Rightarrow> link_bad ip
         | Some (dp, name) \<Rightarrow>
             seqM (ilock dp) (
             bindM (gets itable) (\<lambda>tab.
             bindM (if i_dev (tab dp) \<noteq> i_dev (tab ip) then returnM (- 1)
                    else dirlink dp name (i_inum (tab ip))) (\<lambda>r.
             if r < 0 then seqM (iunlockput dp) (link_bad ip) else
             seqM (iunlockput dp) (
             seqM (iput ip)
                  (end_with 0)))))))))))))))"

definition isdirempty_at :: "nat \<Rightarrow> u32 \<Rightarrow> unit option K" where
  "isdirempty_at dp off =
     bindM (readi dp ToLocal off 16) (\<lambda>(r, de).
     if r \<noteq> 16 then panic ''isdirempty: readi'' else
     returnM (if ld16 de 0 \<noteq> 0 then Some () else None))"

definition isdirempty :: "nat \<Rightarrow> bool K" where
  "isdirempty dp =
     bindM (get_inode dp i_size) (\<lambda>size.
     bindM (searchM (drop 2 (dir_offsets size)) (isdirempty_at dp)) (\<lambda>found.
     returnM (found = None)))"

definition unlink_bad :: "nat \<Rightarrow> u64 K" where
  "unlink_bad dp = seqM (iunlockput dp) (end_with (- 1))"

abbreviation (input) DOT :: "u8 list" where "DOT \<equiv> [46]"
abbreviation (input) DOTDOT :: "u8 list" where "DOTDOT \<equiv> [46, 46]"

text \<open>The entry at \<open>off\<close> of \<open>dp\<close>, which names \<open>ip\<close>, is erased; both inodes are locked.\<close>

definition unlink_entry :: "nat \<Rightarrow> nat \<Rightarrow> u32 \<Rightarrow> u64 K" where
  "unlink_entry dp ip off =
     bindM (writei dp (FromLocal (replicate 16 0)) off 16) (\<lambda>r.
     if r \<noteq> 16 then panic ''unlink: writei'' else
     bindM (get_inode ip i_type) (\<lambda>t.
     seqM (whenM (t = T_DIR)
       (seqM (set_inode dp (\<lambda>i. i\<lparr>i_nlink := i_nlink i - 1\<rparr>)) (iupdate dp))) (
     seqM (iunlockput dp) (
     seqM (set_inode ip (\<lambda>i. i\<lparr>i_nlink := i_nlink i - 1\<rparr>)) (
     seqM (iupdate ip) (
     seqM (iunlockput ip)
          (end_with 0)))))))"

definition sys_unlink :: "u64 K" where
  "sys_unlink =
     bindM (argstr 0 MAXPATH) (\<lambda>(r, path).
     if r < 0 then returnM (- 1) else
     seqM begin_op (
     bindM (nameiparent path) (\<lambda>par.
     case par of None \<Rightarrow> end_with (- 1)
     | Some (dp, name) \<Rightarrow>
         seqM (ilock dp) (
         if namecmp name DOT = 0 \<or> namecmp name DOTDOT = 0 then unlink_bad dp else
         bindM (dirlookup dp name) (\<lambda>found.
         case found of None \<Rightarrow> unlink_bad dp
         | Some (ip, off) \<Rightarrow>
             seqM (ilock ip) (
             bindM (get_inode ip id) (\<lambda>i.
             if sint (i_nlink i) < 1 then panic ''unlink: nlink < 1'' else
             bindM (if i_type i = T_DIR then isdirempty ip else returnM True) (\<lambda>e.
             if \<not> e then seqM (iunlockput ip) (unlink_bad dp)
             else unlink_entry dp ip off))))))))"

text \<open>
  \<^verbatim>\<open>create\<close> returns the inode locked, or \<^term>\<open>None\<close> for a null pointer. \<open>create_new\<close> is the case in which the name does not
  exist; \<^verbatim>\<open>ialloc\<close> does not return a null pointer.
\<close>

definition create_new :: "nat \<Rightarrow> u8 list \<Rightarrow> u16 \<Rightarrow> u16 \<Rightarrow> u16 \<Rightarrow> nat option K" where
  "create_new dp name type major minor =
     bindM (get_inode dp i_dev) (\<lambda>dev.
     bindM (ialloc dev type) (\<lambda>ip.
     seqM (ilock ip) (
     seqM (set_inode ip (\<lambda>i. i\<lparr>i_major := major, i_minor := minor, i_nlink := 1\<rparr>)) (
     seqM (iupdate ip) (
     seqM (whenM (type = T_DIR) (
       seqM (set_inode dp (\<lambda>i. i\<lparr>i_nlink := i_nlink i + 1\<rparr>)) (
       seqM (iupdate dp) (
       bindM (gets itable) (\<lambda>tab.
       bindM (dirlink ip DOT (i_inum (tab ip))) (\<lambda>r.
       if r < 0 then panic ''create dots'' else
       bindM (dirlink ip DOTDOT (i_inum (tab dp))) (\<lambda>r.
       whenM (r < 0) (panic ''create dots'')))))))) (
     bindM (get_inode ip i_inum) (\<lambda>inum.
     bindM (dirlink dp name inum) (\<lambda>r.
     if r < 0 then panic ''create: dirlink'' else
     seqM (iunlockput dp)
          (returnM (Some ip))))))))))"

definition create :: "u8 list \<Rightarrow> u16 \<Rightarrow> u16 \<Rightarrow> u16 \<Rightarrow> nat option K" where
  "create path type major minor =
     bindM (nameiparent path) (\<lambda>par.
     case par of None \<Rightarrow> returnM None
     | Some (dp, name) \<Rightarrow>
         seqM (ilock dp) (
         bindM (dirlookup dp name) (\<lambda>found.
         case found of
           Some (ip, _) \<Rightarrow>
             seqM (iunlockput dp) (
             seqM (ilock ip) (
             bindM (get_inode ip i_type) (\<lambda>t.
             if type = T_FILE \<and> (t = T_FILE \<or> t = T_DEVICE) then returnM (Some ip)
             else seqM (iunlockput ip) (returnM None))))
         | None \<Rightarrow> create_new dp name type major minor)))"

text \<open>The inode \<^verbatim>\<open>sys_open\<close> opens, locked.\<close>

definition open_inode :: "u8 list \<Rightarrow> int \<Rightarrow> nat option K" where
  "open_inode path omode =
     (if omode AND O_CREATE \<noteq> 0 then create path T_FILE 0 0
      else
        bindM (namei path) (\<lambda>found.
        case found of None \<Rightarrow> returnM None
        | Some ip \<Rightarrow>
            seqM (ilock ip) (
            bindM (get_inode ip i_type) (\<lambda>t.
            if t = T_DIR \<and> omode \<noteq> O_RDONLY then seqM (iunlockput ip) (returnM None)
            else returnM (Some ip)))))"

definition open_bad :: "nat \<Rightarrow> u64 K" where
  "open_bad ip = seqM (iunlockput ip) (end_with (- 1))"

definition open_file :: "nat \<Rightarrow> nat \<Rightarrow> int \<Rightarrow> int \<Rightarrow> u64 K" where
  "open_file ip f fd omode =
     bindM (get_inode ip id) (\<lambda>i.
     seqM (if i_type i = T_DEVICE
           then set_file f (\<lambda>x. x\<lparr>f_type := FD_DEVICE, f_major := i_major i\<rparr>)
           else set_file f (\<lambda>x. x\<lparr>f_type := FD_INODE, f_off := 0\<rparr>)) (
     seqM (set_file f (\<lambda>x. x\<lparr>f_ip := ip,
       f_readable := (omode AND O_WRONLY = 0),
       f_writable := (omode AND O_WRONLY \<noteq> 0 \<or> omode AND O_RDWR \<noteq> 0)\<rparr>)) (
     seqM (whenM (omode AND O_TRUNC \<noteq> 0 \<and> i_type i = T_FILE) (itrunc ip)) (
     seqM (iunlock ip)
          (end_with (word_of_int fd))))))"

definition sys_open :: "u64 K" where
  "sys_open =
     bindM (argstr 0 MAXPATH) (\<lambda>(n, path).
     if n < 0 then returnM (- 1) else
     bindM (argint 1) (\<lambda>omode.
     seqM begin_op (
     bindM (open_inode path omode) (\<lambda>found.
     case found of None \<Rightarrow> end_with (- 1)
     | Some ip \<Rightarrow>
         bindM (get_inode ip id) (\<lambda>i.
         if i_type i = T_DEVICE \<and> (sint (i_major i) < 0 \<or> sint (i_major i) \<ge> NDEV) then open_bad ip else
         bindM filealloc (\<lambda>fo.
         case fo of None \<Rightarrow> open_bad ip
         | Some f \<Rightarrow>
             bindM (fdalloc f) (\<lambda>fd.
             if fd < 0 then seqM (fileclose f) (open_bad ip)
             else open_file ip f fd omode)))))))"

definition finish_create :: "nat option \<Rightarrow> u64 K" where
  "finish_create io =
     (case io of None \<Rightarrow> end_with (- 1) | Some ip \<Rightarrow> seqM (iunlockput ip) (end_with 0))"

definition sys_mkdir :: "u64 K" where
  "sys_mkdir =
     seqM begin_op (
     bindM (argstr 0 MAXPATH) (\<lambda>(r, path).
     if r < 0 then end_with (- 1)
     else bindM (create path T_DIR 0 0) finish_create))"

definition sys_mknod :: "u64 K" where
  "sys_mknod =
     seqM begin_op (
     bindM (argstr 0 MAXPATH) (\<lambda>(r, path).
     if r < 0 then end_with (- 1) else
     bindM (argint 1) (\<lambda>major.
     bindM (argint 2) (\<lambda>minor.
     bindM (create path T_DEVICE (word_of_int major) (word_of_int minor)) finish_create))))"

definition sys_chdir :: "u64 K" where
  "sys_chdir =
     bindM curproc (\<lambda>p.
     seqM begin_op (
     bindM (argstr 0 MAXPATH) (\<lambda>(r, path).
     if r < 0 then end_with (- 1) else
     bindM (namei path) (\<lambda>found.
     case found of None \<Rightarrow> end_with (- 1)
     | Some ip \<Rightarrow>
         seqM (ilock ip) (
         bindM (get_inode ip i_type) (\<lambda>t.
         if t \<noteq> T_DIR then seqM (iunlockput ip) (end_with (- 1)) else
         seqM (iunlock ip) (
         bindM (get_proc p p_cwd) (\<lambda>cwd.
         case cwd of None \<Rightarrow> stopM (Fault ''null inode'')
         | Some d \<Rightarrow>
             seqM (iput d) (
             seqM end_op (
             seqM (set_proc p (\<lambda>c. c\<lparr>p_cwd := Some ip\<rparr>))
                  (returnM 0)))))))))))"

text \<open>
  The argument vector of \<^verbatim>\<open>sys_exec\<close>: the pages that hold the strings, and whether all of it was fetched. The first argument is the number
  of elements of \<^verbatim>\<open>argv\<close> that are left. What a failed \<^verbatim>\<open>fetchstr\<close> has already copied is not kept: its page is freed at once.
\<close>

primrec exec_argv :: "nat \<Rightarrow> u64 \<Rightarrow> u64 list \<Rightarrow> (bool \<times> u64 list) K" where
  "exec_argv 0 uargv pages = returnM (False, pages)"
| "exec_argv (Suc k) uargv pages =
     bindM (fetchaddr (uargv + 8 * of_nat (length pages))) (\<lambda>(r, uarg).
     if r < 0 then returnM (False, pages) else
     if uarg = 0 then returnM (True, pages) else
     bindM kalloc (\<lambda>pg.
     if pg = 0 then returnM (False, pages) else
     bindM (fetchstr uarg 4096) (\<lambda>(r, str).
     seqM (set_phys (write_bytes pg (if r < 0 then [] else str @ [0]))) (
     if r < 0 then returnM (False, pages @ [pg])
     else exec_argv k uargv (pages @ [pg])))))"

definition sys_exec :: "u64 K" where
  "sys_exec =
     bindM (argstr 0 MAXPATH) (\<lambda>(r, path).
     if r < 0 then returnM (- 1) else
     bindM (argaddr 1) (\<lambda>uargv.
     bindM (exec_argv MAXARG uargv []) (\<lambda>(ok, pages).
     bindM (if ok then exec path pages else returnM (- 1)) (\<lambda>ret.
     seqM (forM pages kfree)
          (returnM (word_of_int ret))))))"

definition pipe_bad :: "nat \<Rightarrow> nat \<Rightarrow> u64 K" where
  "pipe_bad rfile wfile = seqM (fileclose rfile) (seqM (fileclose wfile) (returnM (- 1)))"

definition sys_pipe :: "u64 K" where
  "sys_pipe =
     bindM curproc (\<lambda>p.
     bindM (argaddr 0) (\<lambda>fdarray.
     bindM pipealloc (\<lambda>pp.
     case pp of None \<Rightarrow> returnM (- 1)
     | Some (rfile, wfile) \<Rightarrow>
         bindM (fdalloc rfile) (\<lambda>fd0.
         if fd0 < 0 then pipe_bad rfile wfile else
         bindM (fdalloc wfile) (\<lambda>fd1.
         if fd1 < 0 then seqM (set_ofile p (nat fd0) None) (pipe_bad rfile wfile) else
         bindM (get_proc p p_pagetable) (\<lambda>pt.
         bindM (copyout pt fdarray (le32 (word_of_int fd0))) (\<lambda>r.
         bindM (if r < 0 then returnM r else copyout pt (fdarray + 4) (le32 (word_of_int fd1))) (\<lambda>r.
         if r < 0 then
           seqM (set_ofile p (nat fd0) None) (
           seqM (set_ofile p (nat fd1) None)
                (pipe_bad rfile wfile))
         else returnM 0))))))))"

end
