(* ===== verification/Syscall.thy ===== *)
theory Syscall
  imports Sysproc Sysfile
begin

section \<open>System call dispatch (kernel/syscall.c)\<close>

text \<open>
  The table of system calls and the dispatcher, which prints a line for each traced call. Two calls have a further argument for
  bytes of the kernel stack they do not initialise.
\<close>

record stack_bytes =
  sk_pad :: "u8 list"
  sk_times :: "u32 \<times> u32"

definition syscalls :: "stack_bytes \<Rightarrow> nat \<Rightarrow> u64 K option" where
  "syscalls sk num =
     (if num = 1 then Some sys_fork
      else if num = 2 then Some sys_exit
      else if num = 3 then Some sys_wait
      else if num = 4 then Some sys_pipe
      else if num = 5 then Some sys_read
      else if num = 6 then Some sys_kill
      else if num = 7 then Some sys_exec
      else if num = 8 then Some (sys_fstat (sk_pad sk))
      else if num = 9 then Some sys_chdir
      else if num = 10 then Some sys_dup
      else if num = 11 then Some sys_getpid
      else if num = 12 then Some sys_sbrk
      else if num = 13 then Some sys_sleep
      else if num = 14 then Some sys_uptime
      else if num = 15 then Some sys_open
      else if num = 16 then Some sys_write
      else if num = 17 then Some sys_mknod
      else if num = 18 then Some sys_unlink
      else if num = 19 then Some sys_link
      else if num = 20 then Some sys_mkdir
      else if num = 21 then Some sys_close
      else if num = 22 then Some sys_strace
      else if num = 23 then Some sys_set_priority
      else if num = 24 then Some (sys_waitx (sk_times sk))
      else None)"

text \<open>The table has 25 rows and 24 names; the last row is empty.\<close>

definition syscall_name :: "string list" where
  "syscall_name =
     [''NULL'', ''fork'', ''exit'', ''wait'', ''pipe'', ''read'', ''kill'', ''exec'', ''fstat'', ''chdir'', ''dup'', ''getpid'',
      ''sbrk'', ''sleep'', ''uptime'', ''open'', ''write'', ''mknod'', ''unlink'', ''link'', ''mkdir'', ''close'', ''strace'',
      ''set_priority'', '''']"

definition syscall_argc :: "nat list" where
  "syscall_argc = [0, 1, 1, 1, 3, 1, 2, 2, 1, 1, 0, 1, 1, 0, 2, 3, 3, 1, 2, 1, 1, 1, 2, 3]"

text \<open>A 64-bit register printed with \<^verbatim>\<open>%d\<close>, and the bytes of a C string.\<close>

definition print_int :: "u64 \<Rightarrow> va" where
  "print_int w = VInt (sint (ucast w :: u32))"

definition c_string :: "u8 list \<Rightarrow> string" where
  "c_string bs = map (\<lambda>c. char_of (unat c)) (takeWhile (\<lambda>c. c \<noteq> 0) bs)"

text \<open>The line \<^verbatim>\<open>strace\<close> asks for.\<close>

definition strace_line :: "nat \<Rightarrow> nat \<Rightarrow> int \<Rightarrow> unit K" where
  "strace_line p num temp_trap =
     bindM (get_proc p p_pid) (\<lambda>pid.
     seqM (kprintf (Some ''%d: syscall %s ( %d '') [VInt pid, VStr (Some (syscall_name ! num)), VInt temp_trap]) (
     seqM (forM [1..<syscall_argc ! (num - 1)] (\<lambda>i.
             bindM (argint i) (\<lambda>temp. kprintf (Some ''%d '') [VInt temp]))) (
     bindM (get_tf p TF_a0) (\<lambda>a0.
     kprintf (Some ('') -> %d'' @ [CHR 0x0A])) [print_int a0]))))"

text \<open>What the dispatcher does after the call has returned \<open>r\<close>.\<close>

definition syscall_return :: "nat \<Rightarrow> nat \<Rightarrow> int \<Rightarrow> u64 \<Rightarrow> unit K" where
  "syscall_return p num temp_trap r =
     seqM (put_tf p TF_a0 r) (
     bindM (get_proc p p_mask) (\<lambda>mask.
     whenM (mask AND push_bit num 1 \<noteq> 0) (strace_line p num temp_trap)))"

definition syscall :: "stack_bytes \<Rightarrow> unit K" where
  "syscall sk =
     bindM curproc (\<lambda>p.
     bindM (get_tf p TF_a7) (\<lambda>a7.
     let num = sint (ucast a7 :: u32) in
     if num > 0 \<and> num < 25 then
       (case syscalls sk (nat num) of
          Some call \<Rightarrow>
            bindM (get_tf p TF_a0) (\<lambda>a0.
            bindM call (syscall_return p (nat num) (sint (ucast a0 :: u32))))
        | None \<Rightarrow> stopM (Fault ''syscall table''))
     else
       bindM (get_proc p id) (\<lambda>c.
       seqM (kprintf (Some (''%d %s: unknown sys call %d'' @ [CHR 0x0A]))
               [VInt (p_pid c), VStr (Some (c_string (p_name c))), VInt num])
            (put_tf p TF_a0 (- 1)))))"

end
