(* ===== verification/Trap.thy ===== *)
theory Trap
  imports Syscall
begin

section \<open>Traps and interrupts (kernel/trap.c, kernel/plic.c)\<close>

text \<open>
  The interrupt controller, the handlers of traps from user space and from the kernel, the clock interrupt, and the return to user space. A handler
  that yields stops at the switch; the definition that follows it says what it does when it is resumed.
\<close>

definition set_trap :: "(trapst \<Rightarrow> trapst) \<Rightarrow> unit K" where
  "set_trap f = modify (\<lambda>s. s\<lparr>trap := f (trap s)\<rparr>)"

definition get_trap :: "(trapst \<Rightarrow> 'a) \<Rightarrow> 'a K" where
  "get_trap f = gets (\<lambda>s. f (trap s))"

lemma trap_apply [simp]:
  "get_trap f s = Ret (f (trap s)) s" "bindM (get_trap f) k s = k (f (trap s)) s"
  "set_trap g s = Ret () (s\<lparr>trap := g (trap s)\<rparr>)"
  by (simp_all add: get_trap_def set_trap_def)

subsection \<open>The interrupt controller\<close>

abbreviation (input) UART0_IRQ :: nat where "UART0_IRQ \<equiv> 10"
abbreviation (input) VIRTIO0_IRQ :: nat where "VIRTIO0_IRQ \<equiv> 1"

definition PLIC_SENABLE :: "nat \<Rightarrow> u64" where
  "PLIC_SENABLE h = PLIC + 0x2080 + of_nat h * 0x100"

definition PLIC_SPRIORITY :: "nat \<Rightarrow> u64" where
  "PLIC_SPRIORITY h = PLIC + 0x201000 + of_nat h * 0x2000"

definition PLIC_SCLAIM :: "nat \<Rightarrow> u64" where
  "PLIC_SCLAIM h = PLIC + 0x201004 + of_nat h * 0x2000"

definition plic_store :: "u64 \<Rightarrow> u32 \<Rightarrow> unit K" where
  "plic_store a v = set_trap (\<lambda>t. t\<lparr>plic := (plic t)(a := v)\<rparr>)"

definition plicinit :: "unit K" where
  "plicinit =
     seqM (plic_store (PLIC + of_nat UART0_IRQ * 4) 1)
          (plic_store (PLIC + of_nat VIRTIO0_IRQ * 4) 1)"

definition plicinithart :: "unit K" where
  "plicinithart =
     bindM (gets cpuid) (\<lambda>h.
     seqM (plic_store (PLIC_SENABLE h) (push_bit UART0_IRQ 1 OR push_bit VIRTIO0_IRQ 1))
          (plic_store (PLIC_SPRIORITY h) 0))"

text \<open>A load from the claim register takes the next interrupt from the controller; without one it is 0.\<close>

definition plic_claim :: "int K" where
  "plic_claim =
     bindM (get_trap plic_claims) (\<lambda>cs.
     case cs of [] \<Rightarrow> returnM 0
     | irq # rest \<Rightarrow> seqM (set_trap (\<lambda>t. t\<lparr>plic_claims := rest\<rparr>)) (returnM (sint irq)))"

definition plic_complete :: "int \<Rightarrow> unit K" where
  "plic_complete irq = bindM (gets cpuid) (\<lambda>h. plic_store (PLIC_SCLAIM h) (word_of_int irq))"

subsection \<open>Control registers\<close>

definition SSTATUS_SPP :: u64 where "SSTATUS_SPP = push_bit 8 1"
definition SSTATUS_SPIE :: u64 where "SSTATUS_SPIE = push_bit 5 1"
definition SSTATUS_SIE :: u64 where "SSTATUS_SIE = push_bit 1 1"

definition r_sstatus :: "u64 K" where
  "r_sstatus = gets (\<lambda>s. (csr_sstatus (trap s) AND NOT SSTATUS_SIE) OR (if sie s then SSTATUS_SIE else 0))"

definition w_sstatus :: "u64 \<Rightarrow> unit K" where
  "w_sstatus x = modify (\<lambda>s. s\<lparr>sie := (x AND SSTATUS_SIE \<noteq> 0), trap := (trap s)\<lparr>csr_sstatus := x\<rparr>\<rparr>)"

subsection \<open>Interrupts\<close>

definition trapinit :: "unit K" where
  "trapinit = initlock TicksLock ''time''"

definition trapinithart :: "unit K" where
  "trapinithart = set_trap (\<lambda>t. t\<lparr>csr_stvec := symbol t ''kernelvec''\<rparr>)"

definition clockintr :: "unit K" where
  "clockintr =
     seqM (acquire TicksLock) (
     seqM (modify (\<lambda>s. s\<lparr>ticks := ticks s + 1\<rparr>)) (
     seqM update_vals (
     seqM (wakeup ChanTicks)
          (release TicksLock))))"

definition devintr :: "int K" where
  "devintr =
     bindM (get_trap csr_scause) (\<lambda>scause.
     if scause AND 0x8000000000000000 \<noteq> 0 \<and> scause AND 0xff = 9 then
       bindM plic_claim (\<lambda>irq.
       seqM (if irq = int UART0_IRQ then uartintr
             else if irq = int VIRTIO0_IRQ then virtio_disk_intr
             else whenM (irq \<noteq> 0) (kprintf (Some (''unexpected interrupt irq=%d'' @ [CHR 0x0A])) [VInt irq])) (
       seqM (whenM (irq \<noteq> 0) (plic_complete irq))
            (returnM 1)))
     else if scause = 0x8000000000000001 then
       bindM (gets cpuid) (\<lambda>h.
       seqM (whenM (h = 0) clockintr) (
       seqM (set_trap (\<lambda>t. t\<lparr>csr_sip := csr_sip t AND NOT 2\<rparr>))
            (returnM 2)))
     else returnM 0)"

subsection \<open>The return to user space\<close>

text \<open>The result is the pair of arguments of the jump to \<^verbatim>\<open>userret\<close>: the address of the trap frame and the user's page table.\<close>

definition usertrapret :: "(u64 \<times> u64) K" where
  "usertrapret =
     bindM curproc (\<lambda>p.
     seqM intr_off (
     seqM (set_trap (\<lambda>t. t\<lparr>csr_stvec := TRAMPOLINE + (symbol t ''uservec'' - symbol t ''trampoline'')\<rparr>)) (
     seqM (bindM (gets satp) (put_tf p TF_kernel_satp)) (
     seqM (bindM (get_proc p p_kstack) (\<lambda>k. put_tf p TF_kernel_sp (k + PGSIZE))) (
     seqM (bindM (get_trap (\<lambda>t. symbol t ''usertrap'')) (put_tf p TF_kernel_trap)) (
     seqM (bindM (gets cpuid) (\<lambda>h. put_tf p TF_kernel_hartid (of_nat h))) (
     bindM r_sstatus (\<lambda>x.
     seqM (w_sstatus ((x AND NOT SSTATUS_SPP) OR SSTATUS_SPIE)) (
     seqM (bindM (get_tf p TF_epc) (\<lambda>pc. set_trap (\<lambda>t. t\<lparr>csr_sepc := pc\<rparr>))) (
     bindM (get_proc p p_pagetable) (\<lambda>pt.
     returnM (TRAPFRAME, MAKE_SATP pt))))))))))))"

definition forkret :: "(u64 \<times> u64) K" where
  "forkret =
     seqM (bindM curproc (\<lambda>p. release (ProcLock p))) (
     bindM (gets fork_first) (\<lambda>first.
     seqM (whenM first (
             seqM (modify (\<lambda>s. s\<lparr>fork_first := False\<rparr>))
                  (fsinit ROOTDEV)))
          usertrapret))"

subsection \<open>Traps from user space\<close>

text \<open>The quantum of a queue is not consulted here: a clock tick in user space moves the process one queue down.\<close>

definition demote :: "nat \<Rightarrow> unit K" where
  "demote p = seqM (pop p) (bindM (get_proc p p_curr_q) (\<lambda>q. push p (q + 1)))"

definition usertrap_yield :: "nat \<Rightarrow> int \<Rightarrow> (u64 \<times> u64) K" where
  "usertrap_yield p which_dev =
     bindM (gets policy) (\<lambda>pol.
     if pol = DEFAULT \<and> which_dev = 2 then yield
     else if pol = MLFQ \<and> which_dev = 2 then seqM (demote p) yield
     else usertrapret)"

definition usertrap_resume :: "nat \<Rightarrow> bool \<Rightarrow> (u64 \<times> u64) K" where
  "usertrap_resume p en = seqM (yield_resume p en) usertrapret"

text \<open>The cause of the trap is served; the result is the kind of device interrupt, 0 for a system call or a fault.\<close>

definition usertrap_serve :: "stack_bytes \<Rightarrow> nat \<Rightarrow> int K" where
  "usertrap_serve sk p =
     bindM (get_trap csr_scause) (\<lambda>scause.
     if scause = 8 then
       seqM (bindM (get_proc p p_killed) (\<lambda>k. whenM (k \<noteq> 0) (exit (- 1)))) (
       seqM (bindM (get_tf p TF_epc) (\<lambda>pc. put_tf p TF_epc (pc + 4))) (
       seqM intr_on (
       seqM (syscall sk)
            (returnM 0))))
     else
       bindM devintr (\<lambda>which_dev.
       if which_dev \<noteq> 0 then returnM which_dev else
       bindM (get_trap id) (\<lambda>t.
       bindM (get_proc p p_pid) (\<lambda>pid.
       seqM (kprintf (Some (''usertrap(): unexpected scause %p pid=%d'' @ [CHR 0x0A])) [VPtr (csr_scause t), VInt pid]) (
       seqM (kprintf (Some (''            sepc=%p stval=%p'' @ [CHR 0x0A])) [VPtr (csr_sepc t), VPtr (csr_stval t)]) (
       seqM (set_proc p (\<lambda>c. c\<lparr>p_killed := 1\<rparr>))
            (returnM 0)))))))"

definition usertrap :: "stack_bytes \<Rightarrow> (u64 \<times> u64) K" where
  "usertrap sk =
     bindM r_sstatus (\<lambda>st.
     if st AND SSTATUS_SPP \<noteq> 0 then panic ''usertrap: not from user mode'' else
     seqM (set_trap (\<lambda>t. t\<lparr>csr_stvec := symbol t ''kernelvec''\<rparr>)) (
     bindM curproc (\<lambda>p.
     seqM (bindM (get_trap csr_sepc) (put_tf p TF_epc)) (
     bindM (usertrap_serve sk p) (\<lambda>which_dev.
     seqM (bindM (get_proc p p_killed) (\<lambda>k. whenM (k \<noteq> 0) (exit (- 1))))
          (usertrap_yield p which_dev))))))"

subsection \<open>Traps from the kernel\<close>

definition q_tick :: "u64 list" where
  "q_tick = [1, 2, 4, 8, 16]"

definition kerneltrap_done :: "u64 \<Rightarrow> u64 \<Rightarrow> unit K" where
  "kerneltrap_done sepc sstatus =
     seqM (set_trap (\<lambda>t. t\<lparr>csr_sepc := sepc\<rparr>))
          (w_sstatus sstatus)"

text \<open>Whether a process is running on this CPU.\<close>

definition running_here :: "nat option K" where
  "running_here =
     bindM myproc (\<lambda>me.
     case me of None \<Rightarrow> returnM None
     | Some p \<Rightarrow> bindM (get_proc p p_state) (\<lambda>st. returnM (if st = RUNNING then Some p else None)))"

definition kerneltrap_yield :: "int \<Rightarrow> unit K" where
  "kerneltrap_yield which_dev =
     bindM (gets policy) (\<lambda>pol.
     whenM (which_dev = 2 \<and> (pol = DEFAULT \<or> pol = MLFQ)) (
       bindM running_here (\<lambda>me.
       case me of None \<Rightarrow> returnM ()
       | Some p \<Rightarrow>
           if pol = DEFAULT then yield
           else
             bindM (get_proc p id) (\<lambda>c.
             if p_curr_q c < 0 \<or> p_curr_q c \<ge> 5 then stopM (Fault ''q_tick'')
             else whenM (p_rtime c > q_tick ! nat (p_curr_q c)) (seqM (demote p) yield)))))"

definition kerneltrap :: "unit K" where
  "kerneltrap =
     bindM (get_trap id) (\<lambda>t.
     bindM r_sstatus (\<lambda>sstatus.
     if sstatus AND SSTATUS_SPP = 0 then panic ''kerneltrap: not from supervisor mode'' else
     bindM intr_get (\<lambda>on.
     if on then panic ''kerneltrap: interrupts enabled'' else
     bindM devintr (\<lambda>which_dev.
     if which_dev = 0 then
       seqM (kprintf (Some (''scause %p'' @ [CHR 0x0A])) [VPtr (csr_scause t)]) (
       seqM (kprintf (Some (''sepc=%p stval=%p'' @ [CHR 0x0A])) [VPtr (csr_sepc t), VPtr (csr_stval t)])
            (panic ''kerneltrap''))
     else
       seqM (kerneltrap_yield which_dev)
            (kerneltrap_done (csr_sepc t) sstatus)))))"

definition kerneltrap_resume :: "nat \<Rightarrow> bool \<Rightarrow> u64 \<Rightarrow> u64 \<Rightarrow> unit K" where
  "kerneltrap_resume p en sepc sstatus = seqM (yield_resume p en) (kerneltrap_done sepc sstatus)"

end
