(* ===== verification/Boot.thy ===== *)
theory Boot
  imports Trap
begin

section \<open>Starting the machine (kernel/start.c, kernel/main.c)\<close>

text \<open>
  The machine-mode start code of a CPU and the two branches of \<^verbatim>\<open>main\<close>, up to the scheduler's loop.
\<close>

definition MSTATUS_MPP_MASK :: u64 where "MSTATUS_MPP_MASK = push_bit 11 3"
definition MSTATUS_MPP_S :: u64 where "MSTATUS_MPP_S = push_bit 11 1"
definition MSTATUS_MIE :: u64 where "MSTATUS_MIE = push_bit 3 1"
definition SIE_SEIE :: u64 where "SIE_SEIE = push_bit 9 1"
definition SIE_STIE :: u64 where "SIE_STIE = push_bit 5 1"
definition SIE_SSIE :: u64 where "SIE_SSIE = push_bit 1 1"
definition MIE_MTIE :: u64 where "MIE_MTIE = push_bit 7 1"

definition CLINT :: u64 where "CLINT = 0x2000000"
definition CLINT_MTIMECMP :: "nat \<Rightarrow> u64" where "CLINT_MTIMECMP h = CLINT + 0x4000 + 8 * of_nat h"
definition CLINT_MTIME :: u64 where "CLINT_MTIME = CLINT + 0xBFF8"

text \<open>The rows of \<^verbatim>\<open>timer_scratch\<close> have five elements of eight bytes.\<close>

definition timerinit :: "unit K" where
  "timerinit =
     bindM (get_trap (\<lambda>t. unat (csr_mhartid t))) (\<lambda>h.
     if h \<ge> 8 then stopM (Fault ''timer_scratch'') else
     seqM (set_trap (\<lambda>t. t\<lparr>clint := (clint t)(CLINT_MTIMECMP h := clint t CLINT_MTIME + 1000000)\<rparr>)) (
     seqM (set_trap (\<lambda>t. t\<lparr>timer_scratch := (timer_scratch t)(h := (timer_scratch t h)(3 := CLINT_MTIMECMP h))\<rparr>)) (
     seqM (set_trap (\<lambda>t. t\<lparr>timer_scratch := (timer_scratch t)(h := (timer_scratch t h)(4 := 1000000))\<rparr>)) (
     seqM (set_trap (\<lambda>t. t\<lparr>csr_mscratch := symbol t ''timer_scratch'' + 40 * of_nat h\<rparr>)) (
     seqM (set_trap (\<lambda>t. t\<lparr>csr_mtvec := symbol t ''timervec''\<rparr>)) (
     seqM (set_trap (\<lambda>t. t\<lparr>csr_mstatus := csr_mstatus t OR MSTATUS_MIE\<rparr>))
          (set_trap (\<lambda>t. t\<lparr>csr_mie := csr_mie t OR MIE_MTIE\<rparr>))))))))"

definition start :: "unit K" where
  "start =
     seqM (set_trap (\<lambda>t. t\<lparr>csr_mstatus := (csr_mstatus t AND NOT MSTATUS_MPP_MASK) OR MSTATUS_MPP_S\<rparr>)) (
     seqM (set_trap (\<lambda>t. t\<lparr>csr_mepc := symbol t ''main''\<rparr>)) (
     seqM (modify (\<lambda>s. s\<lparr>satp := 0\<rparr>)) (
     seqM (set_trap (\<lambda>t. t\<lparr>csr_medeleg := 0xffff\<rparr>)) (
     seqM (set_trap (\<lambda>t. t\<lparr>csr_mideleg := 0xffff\<rparr>)) (
     seqM (set_trap (\<lambda>t. t\<lparr>csr_sie := csr_sie t OR SIE_SEIE OR SIE_STIE OR SIE_SSIE\<rparr>)) (
     seqM (set_trap (\<lambda>t. t\<lparr>csr_pmpaddr0 := 0x3fffffffffffff\<rparr>)) (
     seqM (set_trap (\<lambda>t. t\<lparr>csr_pmpcfg0 := 0xf\<rparr>)) (
     seqM timerinit (
     bindM (get_trap (\<lambda>t. unat (csr_mhartid t))) (\<lambda>h.
     modify (\<lambda>s. s\<lparr>hart := h\<rparr>)))))))))))"

definition newline :: string where
  "newline = [CHR 0x0A]"

text \<open>
  \<open>mmio\<close> is what the registers of the disk device hold when the driver probes them. Other CPUs wait for
  the flag \<open>started\<close>; \<open>main_other\<close> is what they do once it is set, and a CPU that finds it clear spins.
\<close>

definition main_io :: "(u64 \<Rightarrow> u32) \<Rightarrow> unit K" where
  "main_io mmio =
     seqM binit (
     seqM iinit (
     seqM fileinit
          (virtio_disk_init mmio)))"

definition main_first :: "(u64 \<Rightarrow> u32) \<Rightarrow> unit K" where
  "main_first mmio =
     seqM consoleinit (
     seqM printfinit (
     seqM (kprintf (Some newline) []) (
     seqM (kprintf (Some (''xv6 kernel is booting'' @ newline)) []) (
     seqM (kprintf (Some newline) []) (
     seqM kinit (
     seqM kvminit (
     seqM kvminithart (
     seqM procinit (
     seqM trapinit (
     seqM trapinithart (
     seqM plicinit (
     seqM plicinithart (
     seqM (main_io mmio) (
     seqM userinit
          (set_trap (\<lambda>t. t\<lparr>started := True\<rparr>))))))))))))))))"

definition main_other :: "unit K" where
  "main_other =
     bindM (get_trap started) (\<lambda>go.
     if \<not> go then stopM (Fault ''waiting for the first hart'') else
     bindM (gets cpuid) (\<lambda>h.
     seqM (kprintf (Some (''hart %d starting'' @ newline)) [VInt (int h)]) (
     seqM kvminithart (
     seqM trapinithart
          plicinithart))))"

definition main :: "(u64 \<Rightarrow> u32) \<Rightarrow> unit K" where
  "main mmio =
     seqM (bindM (gets cpuid) (\<lambda>h. if h = 0 then main_first mmio else main_other)) (
     seqM scheduler_start
          scheduler_turn)"

subsection \<open>The block layer after boot\<close>

lemma iinit_run: "\<exists>L S. iinit s = Ret () (s\<lparr>locks := L, slocks := S\<rparr>) \<and> (\<forall>b. S (BufLock b) = slocks s (BufLock b))"
proof -
  have "\<exists>L S. forM is (\<lambda>i. initsleeplock (InodeLock i) ''inode'') u = Ret () (u\<lparr>locks := L, slocks := S\<rparr>)
      \<and> (\<forall>b. S (BufLock b) = slocks u (BufLock b))" for "is" and u :: kern
  proof (induction "is" arbitrary: u)
    case Nil
    show ?case by (intro exI [of _ "locks u"] exI [of _ "slocks u"]) simp
  next
    case (Cons i "is")
    let ?L = "(locks u)(SleepLk (InodeLock i) := (locks u (SleepLk (InodeLock i)))\<lparr>lk_name := ''sleep lock'', locked := 0, lk_cpu := None\<rparr>)"
    let ?S = "(slocks u)(InodeLock i := (slocks u (InodeLock i))\<lparr>sl_name := ''inode'', sl_locked := 0, sl_pid := 0\<rparr>)"
    have "initsleeplock (InodeLock i) ''inode'' u = Ret () (u\<lparr>locks := ?L, slocks := ?S\<rparr>)"
      by (simp add: initsleeplock_def initlock_def set_lock_def set_slock_def)
    moreover obtain L S where "forM is (\<lambda>i. initsleeplock (InodeLock i) ''inode'') (u\<lparr>locks := ?L, slocks := ?S\<rparr>)
        = Ret () (u\<lparr>locks := ?L, slocks := ?S\<rparr>\<lparr>locks := L, slocks := S\<rparr>)" "\<forall>b. S (BufLock b) = slocks u (BufLock b)"
      using Cons [of "u\<lparr>locks := ?L, slocks := ?S\<rparr>"] by auto
    ultimately show ?case by (intro exI [of _ L] exI [of _ S]) simp
  qed
  from this [of "[0..<NINODE]" "s\<lparr>locks := (locks s)(ItableLock := (locks s ItableLock)\<lparr>lk_name := ''itable'', locked := 0, lk_cpu := None\<rparr>)\<rparr>"]
  show ?thesis by (simp add: iinit_def initlock_def set_lock_def del: upt_Suc)
qed

text \<open>What the driver requires of the device that it probes.\<close>

definition virtio_present :: "(u64 \<Rightarrow> u32) \<Rightarrow> bool" where
  "virtio_present mmio \<longleftrightarrow> mmio 0x000 = 0x74726976 \<and> mmio 0x004 = 1 \<and> mmio 0x008 = 2 \<and> mmio 0x00c = 0x554d4551 \<and> 8 \<le> mmio 0x034"

lemma virtio_disk_init_run:
  assumes "dk_used_idx (vdisk s) = 0"
  shows "if virtio_present mmio then \<exists>L d. virtio_disk_init mmio s = Ret () (s\<lparr>locks := L, vdisk := d\<rparr>) \<and> vd_ready d
    else \<exists>m t. virtio_disk_init mmio s = Stop (Panic m) t"
proof (cases "virtio_present mmio")
  case True
  have "mmio 0x034 \<noteq> 0" using True by (auto simp: virtio_present_def)
  let ?L = "(locks s)(VdiskLock := (locks s VdiskLock)\<lparr>lk_name := ''virtio_disk'', locked := 0, lk_cpu := None\<rparr>)"
  let ?d = "(vdisk s)\<lparr>dk_desc := (\<lambda>_. zero_desc), dk_avail_idx := 0, dk_avail_ring := (\<lambda>_. 0), dk_dev_used_idx := 0, dk_used_ring := (\<lambda>_. 0),
    dk_seen := 0, dk_free := (dk_free (vdisk s))(0 := True, 1 := True, 2 := True, 3 := True, 4 := True, 5 := True, 6 := True, 7 := True)\<rparr>"
  have "[0..<NUM] = [0, 1, 2, 3, 4, 5, 6, 7]" by (simp add: upt_rec)
  then have "virtio_disk_init mmio s = Ret () (s\<lparr>locks := ?L, vdisk := ?d\<rparr>)" using True \<open>mmio 0x034 \<noteq> 0\<close>
    by (simp add: virtio_disk_init_def virtio_present_def initlock_def set_lock_def set_disk_def not_less)
  moreover have "i \<in> {0, 1, 2, 3, 4, 5, 6, 7}" if "i < NUM" for i using that by auto
  then have "vd_ready ?d" using assms by (fastforce simp: vd_ready_def)
  ultimately show ?thesis using True by (simp only: if_True) blast
next
  case False
  then show ?thesis by (auto simp: virtio_disk_init_def virtio_present_def initlock_def set_lock_def not_less)
qed

text \<open>
  C19: the part of \<^verbatim>\<open>main\<close> that sets up the disk, run before there is any process, establishes the invariant of the buffer cache. The buffers are
  zero as the linker leaves them. When the device answers as \<^verbatim>\<open>virtio_disk_init\<close> demands, \<^verbatim>\<open>binit\<close>, \<^verbatim>\<open>iinit\<close>, \<^verbatim>\<open>fileinit\<close> and \<^verbatim>\<open>virtio_disk_init\<close>
  return with all 30 buffers on the list in the order 29, ..., 0; in any later state with these buffers, sleep locks and rings in which a process runs, the
  invariant holds, no buffer is locked or referenced, and every block has the contents the disk has. Otherwise the kernel panics.
\<close>

theorem boot_establishes_cache:
  assumes "zero_bufs (bufs s)" "dk_used_idx (vdisk s) = 0"
  shows "if virtio_present mmio
    then \<exists>t. main_io mmio s = Ret () t \<and> lru (bufs t) (rev [0..<NBUF]) \<and> dimage t = dimage s
      \<and> (\<forall>u. calm u \<and> bufs u = bufs t \<and> slocks u = slocks t \<and> vdisk u = vdisk t
           \<longrightarrow> bio_inv {} u \<and> refs u = (\<lambda>_. 0) \<and> (\<forall>n. content u n = block_at (dimage u) (unat n)))
    else \<exists>m t. main_io mmio s = Stop (Panic m) t"
proof -
  obtain s1 where s1: "binit s = Ret () s1" "fresh_cache s1" "binit_frame s s1" using binit_fresh [OF assms(1)] by blast
  obtain L S where s2: "iinit s1 = Ret () (s1\<lparr>locks := L, slocks := S\<rparr>)" "\<forall>b. S (BufLock b) = slocks s1 (BufLock b)" using iinit_run by blast
  let ?L = "L(FtableLock := (L FtableLock)\<lparr>lk_name := ''ftable'', locked := 0, lk_cpu := None\<rparr>)"
  define s3 where "s3 = s1\<lparr>locks := ?L, slocks := S\<rparr>"
  have s3: "fileinit (s1\<lparr>locks := L, slocks := S\<rparr>) = Ret () s3" by (simp add: fileinit_def initlock_def set_lock_def s3_def)
  have e: "main_io mmio s = virtio_disk_init mmio s3" using s1(1) s2(1) s3 by (simp add: main_io_def)
  have u: "dk_used_idx (vdisk s3) = 0" using assms(2) binit_frameD [OF s1(3)] by (simp add: s3_def)
  show ?thesis
  proof (cases "virtio_present mmio")
    case True
    then obtain M d where d: "virtio_disk_init mmio s3 = Ret () (s3\<lparr>locks := M, vdisk := d\<rparr>)" "vd_ready d"
      using virtio_disk_init_run [OF u, of mmio] by auto
    let ?t = "s3\<lparr>locks := M, vdisk := d\<rparr>"
    have "fresh_cache v" if "bufs v = bufs ?t" "slocks v = slocks ?t" for v
      using s1(2) s2(2) that by (simp add: fresh_cache_def s3_def)
    then have inv: "bio_inv {} v \<and> refs v = (\<lambda>_. 0) \<and> (\<forall>n. content v n = block_at (dimage v) (unat n))"
      if "calm v \<and> bufs v = bufs ?t \<and> slocks v = slocks ?t \<and> vdisk v = vdisk ?t" for v
      using fresh_cache_inv [of v] that d(2) by simp
    have "lru (bufs s1) (rev [0..<NBUF])" using s1(2) by (simp only: fresh_cache_def)
    then have "lru (bufs ?t) (rev [0..<NBUF])" "dimage ?t = dimage s" using binit_frameD [OF s1(3)] by (simp_all add: s3_def)
    then show ?thesis unfolding e using True d(1) inv by (intro if_P [THEN iffD2] exI [of _ ?t]) blast+
  next
    case False
    then show ?thesis unfolding e using virtio_disk_init_run [OF u, of mmio] by simp
  qed
qed

text \<open>The state before boot: no process, no descriptor free.\<close>

definition power_on :: kern where
  "power_on = booted\<lparr>cpus := (cpus booted)(hart booted := (mycpu booted)\<lparr>c_proc := None\<rparr>), vdisk := blank_disk\<lparr>dk_free := (\<lambda>i. False)\<rparr>\<rparr>"

theorem boot_establishes_cache_witness:
  "\<exists>mmio t u. c_proc (mycpu power_on) = None \<and> \<not> vd_ready (vdisk power_on) \<and> main_io mmio power_on = Ret () t
     \<and> bufs u = bufs t \<and> vdisk u = vdisk t \<and> bio_inv {} u"
proof -
  let ?m = "\<lambda>a :: u64. if a = 0 then 0x74726976 else if a = 4 then 1 else if a = 8 then 2 else if a = 0xc then 0x554d4551 else (8 :: u32)"
  have m: "virtio_present ?m" by (simp add: virtio_present_def)
  have p: "zero_bufs (bufs power_on)" "dk_used_idx (vdisk power_on) = 0" "c_proc (mycpu power_on) = None" "\<not> vd_ready (vdisk power_on)"
    using zero_bufs_booted by (simp_all add: power_on_def blank_disk_def vd_ready_def spin_defs) (intro exI [of _ 0], simp)
  from boot_establishes_cache [OF p(1,2), of ?m] m obtain t where t: "main_io ?m power_on = Ret () t"
    "\<forall>u. calm u \<and> bufs u = bufs t \<and> slocks u = slocks t \<and> vdisk u = vdisk t \<longrightarrow> bio_inv {} u" by (simp only: if_True) blast
  let ?u = "booted\<lparr>slocks := slocks t, bufs := bufs t, vdisk := vdisk t\<rparr>"
  have "bio_inv {} ?u" using t(2) by simp
  then show ?thesis using t(1) p by (intro exI [of _ ?m] exI [of _ t] exI [of _ ?u]) simp
qed

end
