(* ===== verification/IoFrames.thy ===== *)
theory IoFrames
  imports Fs Pipe Console
begin

section \<open>What the file system leaves alone\<close>

text \<open>
  The routines of the buffer cache, the log, the file system and the pipes change the tables of those components, the memory and who is
  asleep, and nothing else. The locale proves once, for every part of the kernel state that depends on none of these,
  that the routines keep it. The table of open files interprets it.
\<close>

lemma keeps_prod [keeps_rules]: "(\<And>x y. keeps f (m x y)) \<Longrightarrow> keeps f (case p of (x, y) \<Rightarrow> m x y)"
  by (cases p) simp

locale io_blind = mem_blind f for f :: "kern \<Rightarrow> 'b" +
  assumes blind_state: "f (s\<lparr>procs := (procs s)(p := (procs s p)\<lparr>p_state := x\<rparr>)\<rparr>) = f s"
    and blind_chan: "f (s\<lparr>procs := (procs s)(p := (procs s p)\<lparr>p_chan := y\<rparr>)\<rparr>) = f s"
    and blind_slocks: "f (s\<lparr>slocks := sl\<rparr>) = f s"
    and blind_bufs: "f (s\<lparr>bufs := bu\<rparr>) = f s"
    and blind_vdisk: "f (s\<lparr>vdisk := vd\<rparr>) = f s"
    and blind_dimage: "f (s\<lparr>dimage := di\<rparr>) = f s"
    and blind_dpower: "f (s\<lparr>dpower := po\<rparr>) = f s"
    and blind_klog: "f (s\<lparr>klog := lg\<rparr>) = f s"
    and blind_itable: "f (s\<lparr>itable := it\<rparr>) = f s"
    and blind_pipes: "f (s\<lparr>pipes := pp\<rparr>) = f s"
    and blind_cons: "f (s\<lparr>cons := co\<rparr>) = f s"
    and blind_uart: "f (s\<lparr>uart := ua\<rparr>) = f s"
begin

lemmas io_blind_simps = blind blind_state blind_chan blind_slocks blind_bufs blind_vdisk blind_dimage blind_dpower blind_klog blind_itable blind_pipes blind_cons blind_uart

lemmas keeps_base = keeps_rules keeps_acquire keeps_release keeps_mem

lemma keeps_get_proc: "keeps f (get_proc i g)"
  by (simp add: get_proc_def keeps_rules)

lemma keeps_myproc: "keeps f myproc" and keeps_curproc: "keeps f curproc"
  by (auto simp: myproc_def curproc_def intro!: keeps_rules keeps_push_off keeps_pop_off)

lemma keeps_set_state: "keeps f (set_proc p (\<lambda>c. c\<lparr>p_state := x\<rparr>))" "keeps f (set_proc p (\<lambda>c. c\<lparr>p_chan := y\<rparr>))"
  by (simp_all add: set_proc_def keeps_modify io_blind_simps)

lemma keeps_wakeup: "keeps f (wakeup ch)"
  unfolding wakeup_def by (intro keeps_base keeps_myproc keeps_get_proc keeps_set_state)

lemma keeps_sched: "keeps f (sched w)"
  unfolding sched_def intr_get_def by (intro keeps_base keeps_curproc keeps_get_proc)

lemma keeps_sleep: "keeps f (sleep ch lk)"
  unfolding sleep_def by (intro keeps_base keeps_curproc keeps_set_state keeps_sched)

lemmas keeps_sync = keeps_base keeps_myproc keeps_curproc keeps_get_proc keeps_wakeup keeps_sleep keeps_copyout

lemma keeps_copyin: "keeps f (copyin pt va n)"
proof -
  have "copyin pt va n s = Ret r t \<Longrightarrow> f t = f s" for s r t
  proof (induction pt va n s arbitrary: r t rule: copyin.induct)
    case (1 pt va n s)
    show ?case
    proof (cases "n = 0")
      case False
      obtain x u where w: "walkaddr pt (PGROUNDDOWN va) s = Ret x u" using 1(2) False by (cases "walkaddr pt (PGROUNDDOWN va) s") (auto simp: copyin.simps bindM_def)
      have "f u = f s" using keepsD [OF keeps_walkaddr w] .
      then show ?thesis using 1(2) w False 1(1) [OF False w]
        by (auto simp: copyin.simps [of pt va n] bindM_eq_Ret split: if_splits)
    qed (use 1(2) in \<open>simp add: copyin.simps\<close>)
  qed
  then show ?thesis by (simp add: keeps_def)
qed

lemma keeps_copyinstr: "keeps f (copyinstr pt va n)"
proof -
  have "copyinstr pt va n s = Ret r t \<Longrightarrow> f t = f s" for s r t
  proof (induction pt va n s arbitrary: r t rule: copyinstr.induct)
    case (1 pt va n s)
    show ?case
    proof (cases "n = 0")
      case False
      obtain x u where w: "walkaddr pt (PGROUNDDOWN va) s = Ret x u" using 1(2) False by (cases "walkaddr pt (PGROUNDDOWN va) s") (auto simp: copyinstr.simps bindM_def)
      have "f u = f s" using keepsD [OF keeps_walkaddr w] .
      then show ?thesis using 1(2) w False 1(1) [OF False w]
        by (fastforce simp: copyinstr.simps [of pt va n] bindM_eq_Ret prod_eq_iff split: if_splits)
    qed (use 1(2) in \<open>simp add: copyinstr.simps\<close>)
  qed
  then show ?thesis by (simp add: keeps_def)
qed

lemma keeps_get: "keeps f (get_slock l g1)" "keeps f (get_buf b g2)" "keeps f (get_disk g3)" "keeps f (get_log g4)" "keeps f (get_inode i g5)"
    "keeps f (get_addr i k)" "keeps f (get_pipe q g6)" "keeps f intr_get" "keeps f (get_cons g7)" "keeps f (get_uart g8)"
  by (simp_all add: get_slock_def get_buf_def get_disk_def get_log_def get_inode_def get_addr_def get_pipe_def intr_get_def get_cons_def get_uart_def keeps_gets)

lemma keeps_set: "keeps f (set_slock l g1)" "keeps f (set_buf b g2)" "keeps f (set_disk g3)" "keeps f (set_log g4)" "keeps f (set_inode i g5)"
    "keeps f (set_addr i k a)" "keeps f (set_pipe q g6)" "keeps f (set_desc d g7)" "keeps f (set_cons g8)" "keeps f (set_uart g9)"
  by (simp_all add: set_slock_def set_buf_def set_disk_def set_log_def set_inode_def set_addr_def set_pipe_def set_desc_def set_cons_def set_uart_def keeps_modify io_blind_simps)

lemmas keeps_io = keeps_sync keeps_copyin keeps_copyinstr keeps_get keeps_set

lemma keeps_sleeplock: "keeps f (acquiresleep l)" "keeps f (releasesleep l)" "keeps f (holdingsleep l)"
  unfolding acquiresleep_def acquiresleep_turn_def releasesleep_def holdingsleep_def by (intro keeps_io)+

lemma keeps_desc: "keeps f alloc_desc" "keeps f (free_desc i)"
  unfolding alloc_desc_def free_desc_def by (intro keeps_io)+

lemma keeps_free_chain: "keeps f (free_chain i)"
proof -
  have "keeps f (free_chain_from k i)" for k
    by (induction k arbitrary: i) (auto intro!: keeps_io keeps_desc)
  then show ?thesis by (simp add: free_chain_def)
qed

lemma keeps_alloc3: "keeps f alloc3_desc"
  unfolding alloc3_desc_def by (intro keeps_io keeps_desc)

lemma keeps_device: "keeps f device_serve"
proof -
  have "keeps f (device_transfer rq e)" "keeps f (device_status e)" for rq e
    unfolding device_transfer_def device_status_def
    by (auto split: dma_addr.splits intro!: keeps_io keeps_modify simp: io_blind_simps)
  then show ?thesis unfolding device_serve_def Let_def by (auto split: dma_addr.splits intro!: keeps_io)
qed

lemma keeps_virtio: "keeps f (virtio_disk_rw b w)"
proof -
  have "keeps f virtio_disk_intr" unfolding virtio_disk_intr_def virtio_intr_step_def Let_def by (intro keeps_io)
  then have "keeps f (virtio_wait b)" unfolding virtio_wait_def by (intro keeps_io keeps_device)
  moreover have "keeps f (virtio_format b w idx)" for idx unfolding virtio_format_def by (intro keeps_io)
  ultimately show ?thesis unfolding virtio_disk_rw_def by (intro keeps_io keeps_free_chain keeps_alloc3)
qed

lemma keeps_bget: "keeps f (bget dev n)"
proof -
  have "keeps f (bget_find k b dev n)" "keeps f (bget_victim k b)" for k b
    by (induction k arbitrary: b) (auto intro!: keeps_io)
  then show ?thesis unfolding bget_def by (intro keeps_io keeps_sleeplock)
qed

lemma keeps_bio: "keeps f (bread dev n)" "keeps f (bwrite b)" "keeps f (brelse b)" "keeps f (bpin b)" "keeps f (bunpin b)"
  unfolding bread_def bwrite_def brelse_def bpin_def bunpin_def bmove_front_def
  by (intro keeps_io keeps_bget keeps_virtio keeps_sleeplock)+

lemmas keeps_block = keeps_io keeps_sleeplock keeps_bio

lemma keeps_log_block: "keeps f (log_block i)" "keeps f (set_log_block i b)" "keeps f (copy_buf d e)"
  unfolding log_block_def set_log_block_def copy_buf_def by (intro keeps_block)+

lemma keeps_begin_op: "keeps f begin_op"
  unfolding begin_op_def begin_op_turn_def by (intro keeps_block)

lemma keeps_log_write: "keeps f (log_write b)"
  unfolding log_write_def by (auto simp: Let_def intro!: keeps_block keeps_log_block)

lemma keeps_end_op: "keeps f end_op"
proof -
  have "keeps f write_log" "keeps f write_head" "keeps f (install_trans r)" for r
    unfolding write_log_def write_log_block_def write_head_def install_trans_def install_block_def
    by (intro keeps_block keeps_log_block)+
  then have "keeps f commit" unfolding commit_def by (intro keeps_block)
  then show ?thesis unfolding end_op_def Let_def by (intro keeps_block)
qed

lemmas keeps_log = keeps_block keeps_begin_op keeps_end_op keeps_log_write

lemma keeps_balloc: "keeps f (balloc dev)" and keeps_bfree: "keeps f (bfree dev b)"
  unfolding balloc_def balloc_block_def bzero_def bfree_def Let_def by (intro keeps_log)+

lemma keeps_iupdate: "keeps f (iupdate ip)" and keeps_iget: "keeps f (iget dev n)" and keeps_idup: "keeps f (idup ip)"
  unfolding iupdate_def iget_def idup_def by (intro keeps_log)+

lemma keeps_ialloc: "keeps f (ialloc dev t)"
  unfolding ialloc_def ialloc_at_def Let_def by (intro keeps_log keeps_iget)

lemma keeps_ilock: "keeps f (ilock ip)" and keeps_iunlock: "keeps f (iunlock ip)"
  unfolding ilock_def ilock_load_def iunlock_def by (intro keeps_log)+

lemma keeps_bmap: "keeps f (bmap ip bn)"
  unfolding bmap_def bmap_slot_def bmap_indirect_def by (intro keeps_log keeps_balloc)

lemma keeps_itrunc: "keeps f (itrunc ip)"
  unfolding itrunc_def itrunc_slot_def itrunc_indirect_def by (intro keeps_log keeps_bfree keeps_iupdate)

lemma keeps_iput: "keeps f (iput ip)" and keeps_iunlockput: "keeps f (iunlockput ip)"
  unfolding iput_def iunlockput_def by (intro keeps_log keeps_itrunc keeps_iupdate keeps_iunlock)+

lemma keeps_deliver: "keeps f (deliver d tot bs)"
  unfolding deliver_def either_copyout_def by (auto split: destination.splits intro!: keeps_log)

lemma keeps_collect: "keeps f (collect src tot m)"
  unfolding collect_def either_copyin_def by (auto split: origin.splits intro!: keeps_log)

lemma keeps_readi: "keeps f (readi ip dst off n)"
proof -
  have "keeps f (readi_loop k ip dst off tot n acc)" for k off tot n acc
    by (induction k arbitrary: off tot acc) (auto simp: Let_def intro!: keeps_log keeps_bmap keeps_deliver)
  then show ?thesis unfolding readi_def Let_def by (intro keeps_log)
qed

lemma keeps_writei: "keeps f (writei ip src off n)"
proof -
  have "keeps f (writei_loop k ip src off tot n)" for k off tot n
    by (induction k arbitrary: off tot) (auto simp: Let_def intro!: keeps_log keeps_bmap keeps_collect)
  then show ?thesis unfolding writei_def by (intro keeps_log keeps_iupdate)
qed

lemma keeps_dirlookup: "keeps f (dirlookup dp nm)"
  unfolding dirlookup_def dirlookup_at_def by (intro keeps_log keeps_readi keeps_iget)

lemma keeps_dirlink: "keeps f (dirlink dp nm n)"
  unfolding dirlink_def dirlink_slot_def Let_def by (intro keeps_log keeps_readi keeps_writei keeps_dirlookup keeps_iput)

lemma keeps_namex_loop: "keeps f (namex_loop path parent ip nm)"
proof (induction path parent ip nm rule: namex_loop.induct)
  case (1 path parent ip nm)
  then show ?case
    by (subst namex_loop.simps) (auto split: option.splits intro!: keeps_log keeps_ilock keeps_iunlock keeps_iput keeps_iunlockput keeps_dirlookup)
qed

lemma keeps_namei: "keeps f (namei path)" and keeps_nameiparent: "keeps f (nameiparent path)"
  unfolding namei_def nameiparent_def namex_def by (intro keeps_log keeps_namex_loop keeps_iget keeps_idup)+

lemmas keeps_fs = keeps_log keeps_iupdate keeps_iget keeps_idup keeps_ialloc keeps_ilock keeps_iunlock keeps_itrunc keeps_iput keeps_iunlockput
  keeps_readi keeps_writei keeps_dirlookup keeps_dirlink keeps_namei keeps_nameiparent

lemma keeps_pipeclose: "keeps f (pipeclose pi w)"
  unfolding pipeclose_def by (intro keeps_log)

lemma keeps_pipewrite: "keeps f (pipewrite pi addr n)"
proof -
  have "keeps f (pipewrite_loop pi addr pr i k)" for pr i k
    by (induction k arbitrary: i) (auto simp: pipewrite_done_def intro!: keeps_log)
  then show ?thesis unfolding pipewrite_def by (intro keeps_log)
qed

lemma keeps_piperead: "keeps f (piperead pi addr n)"
proof -
  have "keeps f (piperead_loop pi addr pr i k)" for pr i k
    by (induction k arbitrary: i) (auto intro!: keeps_log)
  then show ?thesis unfolding piperead_def piperead_turn_def by (intro keeps_log)
qed

lemma keeps_uartputc: "keeps f (uartputc c)"
proof -
  have reg: "keeps f (ReadReg r)" "keeps f (WriteReg r v)" for r v
    by (auto simp: ReadReg_def WriteReg_def intro!: keeps_set keeps_get keeps_rules split: list.splits)
  have "keeps f (uartstart_loop k)" for k
  proof (induction k)
    case (Suc k)
    show ?case unfolding uartstart_loop.simps by (intro keeps_log reg Suc)
  qed (simp add: keeps_rules)
  then show ?thesis unfolding uartputc_def uartputc_turn_def uartstart_def by (intro keeps_log)
qed

lemma keeps_consolewrite: "keeps f (consolewrite u src n)"
proof -
  have "keeps f (consolewrite_loop u src i k)" for i k
    by (induction k arbitrary: i) (auto simp: either_copyin_def intro!: keeps_log keeps_uartputc)
  then show ?thesis unfolding consolewrite_def by simp
qed

lemma keeps_consoleread: "keeps f (consoleread u dst n)"
proof -
  have "keeps f (consoleread_loop u d k m)" for d k m
    by (induction m arbitrary: d) (auto simp: consoleread_done_def either_copyout_def intro!: keeps_log)
  then show ?thesis unfolding consoleread_def by (intro keeps_log)
qed

end

end
