(* ===== verification/Blocks.thy ===== *)
theory Blocks
  imports Fs
begin

section \<open>Blocks and inodes on the disk\<close>

text \<open>
  Lemmas on the lower half of \<^verbatim>\<open>kernel/fs.c\<close>: reading and updating blocks inside a transaction, the bitmap of free blocks,
  and the inodes as they are stored on the disk.
\<close>

subsection \<open>Running inside a transaction\<close>

text \<open>\<open>txn k s\<close>: an operation is running and the log has room for \<open>k\<close> blocks more.\<close>

definition txn :: "nat \<Rightarrow> kern \<Rightarrow> bool" where
  "txn k s \<longleftrightarrow> log_ok s \<and> 1 \<le> log_outstanding (klog s) \<and> log_size (klog s) \<le> 30 \<and> lh_n (klog s) + int k < log_size (klog s)"

text \<open>A block outside the log.\<close>

definition data_block :: "kern \<Rightarrow> u32 \<Rightarrow> bool" where
  "data_block s n \<longleftrightarrow> unat n < 2 ^ 31 \<and> \<not> in_log (klog s) (unat n)"

text \<open>What the block and inode operations leave alone: all but the cache, the disk and the log.\<close>

definition fs_frame :: "kern \<Rightarrow> kern \<Rightarrow> bool" where
  "fs_frame s t \<longleftrightarrow> bio_frame (s\<lparr>klog := klog t\<rparr>) t \<and> log_start (klog t) = log_start (klog s)"

lemma bio_frame_set_log:
  assumes "bio_frame s t"
  shows "bio_frame (s\<lparr>klog := k\<rparr>) (t\<lparr>klog := k\<rparr>)"
proof -
  have e: "t = s\<lparr>bufs := bufs t, slocks := slocks t, vdisk := vdisk t, procs := procs t,
       dimage := dimage t, dpower := dpower t\<rparr>" using assms by (simp add: bio_frame_def)
  have "t\<lparr>klog := k\<rparr> = (s\<lparr>klog := k\<rparr>)\<lparr>bufs := bufs t, slocks := slocks t, vdisk := vdisk t, procs := procs t,
       dimage := dimage t, dpower := dpower t\<rparr>"
    using arg_cong [OF e, of "\<lambda>x. x\<lparr>klog := k\<rparr>"] by simp
  then show ?thesis using assms unfolding bio_frame_def by (simp add: wokep_def)
qed

lemma fs_frame_refl [simp]: "fs_frame s s"
  by (simp add: fs_frame_def)

lemma fs_frame_bio: "bio_frame s t \<Longrightarrow> fs_frame s t"
  using bio_frameD(2) [of s t] by (auto simp: fs_frame_def)

lemma fs_frame_trans: "fs_frame s t \<Longrightarrow> fs_frame t u \<Longrightarrow> fs_frame s u"
  using bio_frame_trans bio_frame_set_log [of "s\<lparr>klog := klog t\<rparr>" t "klog u"] by (fastforce simp: fs_frame_def)

lemma fs_frameD:
  assumes "fs_frame s t"
  shows "phys t = phys s" "sb t = sb s" "itable t = itable s" "ftable t = ftable s" "cur t = cur s"
    "procs t (cur s) = procs s (cur s)" "mypid t = mypid s" "slocks t (InodeLock i) = slocks s (InodeLock i)"
    "data_block t = data_block s"
proof -
  have b: "bio_frame (s\<lparr>klog := klog t\<rparr>) t" using assms by (simp add: fs_frame_def)
  show "phys t = phys s" "sb t = sb s" "itable t = itable s" "ftable t = ftable s"
    "slocks t (InodeLock i) = slocks s (InodeLock i)" "cur t = cur s"
    using bio_frameD [OF b] bio_frame_cur [OF b] by simp_all
  show "procs t (cur s) = procs s (cur s)" "mypid t = mypid s"
    using bio_frameD(8,9) [OF b] by (simp_all add: mypid_def)
  show "data_block t = data_block s" using assms by (simp add: data_block_def fun_eq_iff in_log_def fs_frame_def)
qed

text \<open>The memory and the inode table may be written while a buffer is held.\<close>

lemma fs_tables_simps [simp]:
  "content (s\<lparr>phys := m\<rparr>) = content s" "content (s\<lparr>itable := x\<rparr>) = content s"
  "refs (s\<lparr>phys := m\<rparr>) = refs s" "refs (s\<lparr>itable := x\<rparr>) = refs s"
  "bio_inv H (s\<lparr>phys := m\<rparr>) = bio_inv H s" "bio_inv H (s\<lparr>itable := x\<rparr>) = bio_inv H s"
  "log_ok (s\<lparr>phys := m\<rparr>) = log_ok s" "log_ok (s\<lparr>itable := x\<rparr>) = log_ok s"
  "content (s\<lparr>sb := y\<rparr>) = content s" "log_ok (s\<lparr>sb := y\<rparr>) = log_ok s"
proof -
  show c: "content (s\<lparr>phys := m\<rparr>) = content s" "content (s\<lparr>itable := x\<rparr>) = content s"
    "refs (s\<lparr>phys := m\<rparr>) = refs s" "refs (s\<lparr>itable := x\<rparr>) = refs s"
    by (auto simp: content_def refs_def fun_eq_iff split: option.splits)
  show b: "bio_inv H (s\<lparr>phys := m\<rparr>) = bio_inv H s" "bio_inv H (s\<lparr>itable := x\<rparr>) = bio_inv H s" for H
    by (simp_all add: bio_inv_def mypid_def)
  show "log_ok (s\<lparr>phys := m\<rparr>) = log_ok s" "log_ok (s\<lparr>itable := x\<rparr>) = log_ok s"
    by (simp_all add: log_ok_def b c)
  show "content (s\<lparr>sb := y\<rparr>) = content s" "log_ok (s\<lparr>sb := y\<rparr>) = log_ok s"
    by (auto simp: content_def log_ok_def bio_inv_def mypid_def refs_def fun_eq_iff split: option.splits)
qed

lemma bio_frame_set_tables:
  assumes "bio_frame s t"
  shows "bio_frame (s\<lparr>phys := m, itable := x\<rparr>) (t\<lparr>phys := m, itable := x\<rparr>)"
proof -
  have e: "t = s\<lparr>bufs := bufs t, slocks := slocks t, vdisk := vdisk t, procs := procs t,
       dimage := dimage t, dpower := dpower t\<rparr>" using assms by (simp add: bio_frame_def)
  have "t\<lparr>phys := m, itable := x\<rparr> = (s\<lparr>phys := m, itable := x\<rparr>)\<lparr>bufs := bufs t, slocks := slocks t, vdisk := vdisk t,
       procs := procs t, dimage := dimage t, dpower := dpower t\<rparr>"
    using arg_cong [OF e, of "\<lambda>y. y\<lparr>phys := m, itable := x\<rparr>"] by simp
  then show ?thesis using assms unfolding bio_frame_def by (simp add: wokep_def)
qed

lemma bio_frame_set_itable:
  assumes "bio_frame s t"
  shows "bio_frame (s\<lparr>itable := x\<rparr>) (t\<lparr>itable := x\<rparr>)"
proof -
  have "t\<lparr>phys := phys s, itable := x\<rparr> = t\<lparr>itable := x\<rparr>"
    unfolding bio_frameD(1) [OF assms, symmetric] by simp
  then show ?thesis using bio_frame_set_tables [OF assms, where m = "phys s" and x = x] by simp
qed

lemma view_set_tables: "view s0 h s c r D \<Longrightarrow> view (s0\<lparr>phys := m, itable := x\<rparr>) h (s\<lparr>phys := m, itable := x\<rparr>) c r D"
  using bio_frame_set_tables by (auto simp: view_def)

lemma log_bread_tables:
  assumes "log_ok s" "unat n < 2 ^ 31"
  shows "\<exists>b t. bread 1 n s = Ret b t \<and> b_data (bufs t b) = content s n \<and> bio_frame s t
    \<and> (\<forall>m x. \<exists>u. brelse b (t\<lparr>phys := m, itable := x\<rparr>) = Ret () u \<and> log_ok u \<and> content u = content s
         \<and> bio_frame (s\<lparr>phys := m, itable := x\<rparr>) u)"
proof -
  let ?l = "klog s" and ?D = "block_at (dimage s)" and ?c = "content s"
  have ok: "bio_inv {} s" "log_wf ?l" "refs s = pins ?l" using assms(1) by (simp_all add: log_ok_def)
  have v: "view s (\<lambda>_. None) s ?c (pins ?l) ?D" using view_refl [OF ok(1)] ok(3) by simp
  define R where "R m x u \<longleftrightarrow> log_ok u \<and> content u = content s \<and> bio_frame (s\<lparr>phys := m, itable := x\<rparr>) u" for m x u
  have "wpc (bread 1 n) (\<lambda>b t. b_data (bufs t b) = ?c n \<and> bio_frame s t
    \<and> (\<forall>m x. wpc (brelse b) (\<lambda>_. R m x) (\<lambda>_. False) (t\<lparr>phys := m, itable := x\<rparr>))) (\<lambda>_. False) s"
  proof (rule view_bread [OF v])
    fix b t assume t: "view s ((\<lambda>_. None)(b \<mapsto> n)) t ?c ((pins ?l)(n := Suc (pins ?l n))) ?D"
    have "wpc (brelse b) (\<lambda>_. R m x) (\<lambda>_. False) (t\<lparr>phys := m, itable := x\<rparr>)" for m x
    proof (rule view_brelse [OF view_set_tables [OF t], of b n])
      show "1 < ((pins ?l)(n := Suc (pins ?l n))) n \<or> ?c n = ?D (unat n)"
        using view_clean [OF v, of n] by (auto simp: pins_def)
    next
      fix u assume u: "view (s\<lparr>phys := m, itable := x\<rparr>) ((\<lambda>_. None)(b \<mapsto> n, b := None)) u ?c
        ((pins ?l)(n := Suc (pins ?l n), n := ((pins ?l)(n := Suc (pins ?l n))) n - 1)) ?D"
      then show "R m x u" using view_klog [OF u] assms(1) by (auto simp: R_def view_def log_ok_def)
    qed simp
    then show "b_data (bufs t b) = ?c n \<and> bio_frame s t \<and> (\<forall>m x. wpc (brelse b) (\<lambda>_. R m x) (\<lambda>_. False) (t\<lparr>phys := m, itable := x\<rparr>))"
      using view_held(2) [OF t, of b n] t by (simp add: view_def)
  qed (use assms(2) card_logged [OF ok(2)] in \<open>auto simp: pins_def\<close>)
  then obtain b t where t: "bread 1 n s = Ret b t" "b_data (bufs t b) = ?c n" "bio_frame s t"
    "\<And>m x. wpc (brelse b) (\<lambda>_. R m x) (\<lambda>_. False) (t\<lparr>phys := m, itable := x\<rparr>)"
    by (auto simp: wpc_def [of "bread 1 n"] split: outcome.splits)
  moreover have "\<exists>u. brelse b (t\<lparr>phys := m, itable := x\<rparr>) = Ret () u \<and> R m x u" for m x
    using t(4) [of m x] by (auto simp: wpc_def split: outcome.splits)
  ultimately show ?thesis by (auto simp: R_def)
qed

lemma log_bread:
  assumes "log_ok s" "unat n < 2 ^ 31"
  shows "\<exists>b t u. bread 1 n s = Ret b t \<and> b_data (bufs t b) = content s n \<and> bio_frame s t
    \<and> brelse b t = Ret () u \<and> log_ok u \<and> content u = content s \<and> bio_frame s u"
proof -
  from log_bread_tables [OF assms] obtain b t where t: "bread 1 n s = Ret b t" "b_data (bufs t b) = content s n" "bio_frame s t"
    "\<And>m x. \<exists>u. brelse b (t\<lparr>phys := m, itable := x\<rparr>) = Ret () u \<and> log_ok u \<and> content u = content s \<and> bio_frame (s\<lparr>phys := m, itable := x\<rparr>) u"
    by blast
  have "t\<lparr>phys := phys s, itable := itable s\<rparr> = t" using bio_frameD(1,4) [OF t(3)] by simp
  then show ?thesis using t(1-3) t(4) [where m = "phys s" and x = "itable s"] by auto
qed

lemma txn_same: "txn k s \<Longrightarrow> log_ok t \<Longrightarrow> klog t = klog s \<Longrightarrow> txn k t"
  by (simp add: txn_def)

lemma txn_mono: "txn k s \<Longrightarrow> j \<le> k \<Longrightarrow> txn j s"
  by (simp add: txn_def)

lemma log_update_run:
  assumes "txn (Suc k) s" "data_block s n" "\<And>d. length d = BSIZE \<Longrightarrow> length (f d) = BSIZE"
  shows "\<exists>t. log_update n f s = Ret () t \<and> txn k t \<and> content t = (content s)(n := f (content s n)) \<and> fs_frame s t"
proof -
  have "wpc (log_update n f) (\<lambda>_ t. log_ok t \<and> klog t = log_add (klog s) n
    \<and> content t = (content s)(n := f (content s n)) \<and> block_at (dimage t) = block_at (dimage s) \<and> bio_frame (s\<lparr>klog := klog t\<rparr>) t) (\<lambda>_. False) s"
    using assms by (intro log_update_wpc) (auto simp: txn_def data_block_def)
  then obtain t where "log_update n f s = Ret () t" "log_ok t" "klog t = log_add (klog s) n"
     "content t = (content s)(n := f (content s n))" "bio_frame (s\<lparr>klog := klog t\<rparr>) t"
    by (auto simp: wpc_def split: outcome.splits)
  then show ?thesis using assms(1) by (auto simp: txn_def fs_frame_def log_add_def)
qed

subsection \<open>Inodes on the disk\<close>

lemma length_dinode_bytes [simp]: "length (dinode_bytes i) = 64"
  by (simp add: dinode_bytes_def length_concat upt_rec)

lemma dinode_bytes_nth:
  "j < 2 \<Longrightarrow> dinode_bytes i ! (0 + j) = le16 (i_type i) ! j" "j < 2 \<Longrightarrow> dinode_bytes i ! (2 + j) = le16 (i_major i) ! j"
  "j < 2 \<Longrightarrow> dinode_bytes i ! (4 + j) = le16 (i_minor i) ! j" "j < 2 \<Longrightarrow> dinode_bytes i ! (6 + j) = le16 (i_nlink i) ! j"
  "j < 4 \<Longrightarrow> dinode_bytes i ! (8 + j) = le32 (i_size i) ! j"
  by (auto simp: dinode_bytes_def le16_def nth_append nth_Cons' upt_rec)

lemma nth_concat_le32: "k < n \<Longrightarrow> j < 4 \<Longrightarrow> concat (map (\<lambda>k. le32 (f k)) [0..<n]) ! (4 * k + j) = le32 (f k) ! j"
proof (induction n)
  case (Suc n)
  have len: "length (concat (map (\<lambda>k. le32 (f k)) [0..<n])) = 4 * n" for n
    by (induction n) auto
  show ?case
  proof (cases "k < n")
    case True
    then have "4 * k + j < 4 * n" using Suc.prems by simp
    then show ?thesis using Suc True by (simp add: nth_append len)
  next
    case False
    then have "k = n" using Suc.prems by simp
    then show ?thesis using Suc.prems by (simp add: nth_append len)
  qed
qed simp

lemma dinode_bytes_addr: "k < 13 \<Longrightarrow> j < 4 \<Longrightarrow> dinode_bytes i ! (12 + 4 * k + j) = le32 (i_addrs i k) ! j"
  using nth_concat_le32 [of k 13 j "i_addrs i"]
  by (simp add: dinode_bytes_def nth_append add.assoc)

lemma ld32_bytes:
  assumes "i + 4 \<le> length d" "\<And>j. j < 4 \<Longrightarrow> d ! (i + j) = le32 v ! j"
  shows "ld32 d i = v"
  using assms(2) [of 0] assms(2) [of 1] assms(2) [of 2] assms(2) [of 3] ld32_le32 [of v]
  by (simp add: ld32_def le32_def)

lemma ld16_bytes:
  assumes "\<And>j. j < 2 \<Longrightarrow> d ! (i + j) = le16 v ! j"
  shows "ld16 d i = v"
  using assms [of 0] assms [of 1] ld16_le16 [of v] by (simp add: ld16_def le16_def)

text \<open>The fields of an inode that are stored on the disk, put into the table entry \<open>j\<close>.\<close>

definition stored_in :: "inode \<Rightarrow> inode \<Rightarrow> inode" where
  "stored_in i j = j\<lparr>i_type := i_type i, i_major := i_major i, i_minor := i_minor i, i_nlink := i_nlink i, i_size := i_size i,
     i_addrs := (\<lambda>k. if k < 13 then i_addrs i k else i_addrs j k)\<rparr>"

lemma dinode_load_same:
  assumes "off + 64 \<le> length d"
  shows "dinode_load (splice d off (dinode_bytes i)) off j = stored_in i j"
proof -
  let ?d = "splice d off (dinode_bytes i)"
  have n: "?d ! (off + k) = dinode_bytes i ! k" if "k < 64" for k using assms that by (simp add: nth_splice)
  have "ld16 ?d off = i_type i" "ld16 ?d (off + 2) = i_major i" "ld16 ?d (off + 4) = i_minor i" "ld16 ?d (off + 6) = i_nlink i"
    using n [of "0 + j" for j] n [of "2 + j" for j] n [of "4 + j" for j] n [of "6 + j" for j]
    by (intro ld16_bytes, simp add: dinode_bytes_nth [simplified] add.assoc)+
  moreover have "ld32 ?d (off + 8) = i_size i"
    using assms n [of "8 + j" for j] by (intro ld32_bytes) (auto simp: dinode_bytes_nth add.assoc)
  moreover have "ld32 ?d (off + 12 + 4 * k) = i_addrs i k" if "k < 13" for k
  proof (rule ld32_bytes)
    fix q :: nat assume "q < 4"
    then show "?d ! (off + 12 + 4 * k + q) = le32 (i_addrs i k) ! q"
      using n [of "12 + 4 * k + q"] dinode_bytes_addr [of k q i] that by (simp add: add.assoc)
  qed (use assms that in simp)
  ultimately show ?thesis by (simp add: dinode_load_def stored_in_def fun_eq_iff)
qed

lemma ld16_splice_other:
  assumes "i + length bs \<le> length d" "j + 2 \<le> length d" "j + 2 \<le> i \<or> i + length bs \<le> j"
  shows "ld16 (splice d i bs) j = ld16 d j"
  using assms by (auto simp: ld16_def nth_splice)

lemma dinode_load_other:
  assumes "off + 64 \<le> length d" "off' + 64 \<le> length d" "off' + 64 \<le> off \<or> off + 64 \<le> off'"
  shows "dinode_load (splice d off (dinode_bytes i)) off' j = dinode_load d off' j"
proof -
  let ?d = "splice d off (dinode_bytes i)"
  have "ld16 ?d (off' + k) = ld16 d (off' + k)" if "k + 2 \<le> 64" for k
    using assms that by (intro ld16_splice_other) auto
  moreover have "ld32 ?d (off' + k) = ld32 d (off' + k)" if "k + 4 \<le> 64" for k
    using assms that by (intro ld32_splice_other) auto
  note n = calculation this
  show ?thesis
    using n(1) [of 0] n(1) [of 2] n(1) [of 4] n(1) [of 6] n(2) [of 8] n(2) [of "12 + 4 * k" for k]
    by (simp add: dinode_load_def fun_eq_iff add.assoc)
qed

text \<open>The inode number \<open>m\<close> as the blocks of the disk have it, put into the table entry \<open>j\<close>.\<close>

definition disk_inode :: "kern \<Rightarrow> u32 \<Rightarrow> inode \<Rightarrow> inode" where
  "disk_inode s m j = dinode_load (content s (IBLOCK m (sb s))) (dinode_off m) j"

lemma dinode_off_le [simp]: "dinode_off m + 64 \<le> BSIZE"
  using mod_less_divisor [of 16 "unat m"] by (simp add: dinode_off_def)

lemma dinode_off_other:
  assumes "IBLOCK m sbl = IBLOCK n sbl" "m \<noteq> n"
  shows "dinode_off m + 64 \<le> dinode_off n \<or> dinode_off n + 64 \<le> dinode_off m"
proof -
  have "m div 16 = n div 16" using assms(1) by (simp add: IBLOCK_def)
  then have d: "unat m div 16 = unat n div 16" using unat_div_distrib [of m 16] unat_div_distrib [of n 16] by simp
  have "unat m mod 16 \<noteq> unat n mod 16"
  proof
    assume e: "unat m mod 16 = unat n mod 16"
    have "unat m = unat n" using div_mult_mod_eq [of "unat m" 16] div_mult_mod_eq [of "unat n" 16] unfolding d e by simp
    then show False using assms(2) by (simp add: unsigned_word_eqI)
  qed
  then show ?thesis by (auto simp: dinode_off_def)
qed

lemma length_content_ok: "log_ok s \<Longrightarrow> length (content s n) = BSIZE"
  using length_content bio_invD(3) by (auto simp: log_ok_def)

lemma iupdate_log: "i_dev (itable s ip) = 1 \<Longrightarrow> iupdate ip s =
    log_update (IBLOCK (i_inum (itable s ip)) (sb s)) (\<lambda>d. splice d (dinode_off (i_inum (itable s ip))) (dinode_bytes (itable s ip))) s"
  by (simp add: iupdate_def log_update_def)

lemma iupdate_run:
  assumes "txn (Suc k) s" "i_dev (itable s ip) = 1" "data_block s (IBLOCK (i_inum (itable s ip)) (sb s))"
  shows "\<exists>t. iupdate ip s = Ret () t \<and> txn k t \<and> fs_frame s t \<and> (\<forall>n. n \<noteq> IBLOCK (i_inum (itable s ip)) (sb s) \<longrightarrow> content t n = content s n)
    \<and> (\<forall>m j. disk_inode t m j = (if m = i_inum (itable s ip) then stored_in (itable s ip) j else disk_inode s m j))"
proof -
  let ?i = "itable s ip"
  let ?f = "\<lambda>d. splice d (dinode_off (i_inum ?i)) (dinode_bytes ?i)"
  have "length (?f d) = BSIZE" if "length d = BSIZE" for d using that dinode_off_le [of "i_inum ?i"] by simp
  from log_update_run [OF assms(1,3), of ?f, OF this] obtain t where t: "iupdate ip s = Ret () t" "txn k t"
     "content t = (content s)(IBLOCK (i_inum ?i) (sb s) := ?f (content s (IBLOCK (i_inum ?i) (sb s))))" "fs_frame s t"
    unfolding iupdate_log [OF assms(2)] by blast
  have len: "length (content s n) = BSIZE" for n using assms(1) length_content_ok by (simp add: txn_def)
  have "disk_inode t m j = (if m = i_inum ?i then stored_in ?i j else disk_inode s m j)" for m j
  proof (cases "m = i_inum ?i")
    case True
    then show ?thesis
      using t(3) fs_frameD(2) [OF t(4)] dinode_load_same [of "dinode_off m" "content s (IBLOCK m (sb s))" ?i j] len dinode_off_le [of m]
      by (simp add: disk_inode_def)
  next
    case False
    then show ?thesis
      using t(3) fs_frameD(2) [OF t(4)] dinode_off_other [of m "sb s" "i_inum ?i"] len dinode_off_le [of m] dinode_off_le [of "i_inum ?i"]
        dinode_load_other [of "dinode_off (i_inum ?i)" "content s (IBLOCK m (sb s))" "dinode_off m" ?i j]
      by (auto simp: disk_inode_def)
  qed
  then show ?thesis using t by auto
qed

lemma ilock_load_run:
  assumes "log_ok s" "i_dev (itable s ip) = 1" "i_inum (itable s ip) = m" "unat (IBLOCK m (sb s)) < 2 ^ 31"
    "i_type (disk_inode s m (itable s ip)) \<noteq> 0"
  shows "\<exists>t. ilock_load ip s = Ret () t \<and> log_ok t \<and> content t = content s
    \<and> bio_frame (s\<lparr>itable := (itable s)(ip := (disk_inode s m (itable s ip))\<lparr>i_valid := True\<rparr>)\<rparr>) t"
proof -
  let ?n = "IBLOCK m (sb s)" and ?j = "disk_inode s m (itable s ip)"
  from log_bread_tables [OF assms(1,4)] obtain b t where t: "bread 1 ?n s = Ret b t" "b_data (bufs t b) = content s ?n" "bio_frame s t"
    "\<And>m x. \<exists>u. brelse b (t\<lparr>phys := m, itable := x\<rparr>) = Ret () u \<and> log_ok u \<and> content u = content s \<and> bio_frame (s\<lparr>phys := m, itable := x\<rparr>) u"
    by blast
  have it: "itable t = itable s" "phys t = phys s" using bio_frameD(1,4) [OF t(3)] by simp_all
  let ?x = "(itable s)(ip := ?j)"
  obtain u where u: "brelse b (t\<lparr>phys := phys s, itable := ?x\<rparr>) = Ret () u" "log_ok u" "content u = content s" "bio_frame (s\<lparr>phys := phys s, itable := ?x\<rparr>) u"
    using t(4) by blast
  have "t\<lparr>phys := phys s, itable := ?x\<rparr> = t\<lparr>itable := ?x\<rparr>" using it by simp
  with u(1) have br: "brelse b (t\<lparr>itable := ?x\<rparr>) = Ret () u" by simp
  have iu: "itable u = ?x" using bio_frameD(4) [OF u(4)] by simp
  let ?u = "u\<lparr>itable := (itable s)(ip := ?j\<lparr>i_valid := True\<rparr>)\<rparr>"
  have "ilock_load ip s = Ret () ?u"
    using assms(2,3,5) t(1,2) br iu it by (simp add: ilock_load_def disk_inode_def whenM_def)
  moreover have "bio_frame (s\<lparr>itable := (itable s)(ip := ?j\<lparr>i_valid := True\<rparr>)\<rparr>) ?u"
    using bio_frame_set_itable [OF u(4), of "(itable s)(ip := ?j\<lparr>i_valid := True\<rparr>)"] by simp
  moreover have "log_ok ?u" "content ?u = content s" using u(2,3) by simp_all
  ultimately show ?thesis by blast
qed

text \<open>
  C27: an inode written to the disk is the inode read back. \<^verbatim>\<open>iupdate\<close> inside a transaction writes the fields of a table entry to the block of its
  inode number; loading that number into any entry of the table then gives its type, device numbers, link
  count, size and 13 block addresses back, marked valid. No other inode number reads differently afterwards, although 16
  of them share a block.
\<close>

theorem iupdate_ilock_roundtrip:
  assumes "txn (Suc k) s" "i_dev (itable s ip) = 1" "data_block s (IBLOCK (i_inum (itable s ip)) (sb s))" "i_type (itable s ip) \<noteq> 0"
    "i_dev (itable s jp) = 1" "i_inum (itable s jp) = i_inum (itable s ip)"
  shows "\<exists>t u. iupdate ip s = Ret () t \<and> txn k t \<and> (\<forall>m j. m \<noteq> i_inum (itable s ip) \<longrightarrow> disk_inode t m j = disk_inode s m j)
    \<and> ilock_load jp t = Ret () u \<and> itable u = (itable s)(jp := (stored_in (itable s ip) (itable s jp))\<lparr>i_valid := True\<rparr>)"
proof -
  from iupdate_run [OF assms(1-3)] obtain t where t: "iupdate ip s = Ret () t" "txn k t" "fs_frame s t"
    "\<And>m j. disk_inode t m j = (if m = i_inum (itable s ip) then stored_in (itable s ip) j else disk_inode s m j)" by blast
  note f = fs_frameD [OF t(3)]
  let ?j = "stored_in (itable s ip) (itable s jp)"
  have "log_ok t" "unat (IBLOCK (i_inum (itable s ip)) (sb t)) < 2 ^ 31" "i_type ?j \<noteq> 0"
    using t(2) assms(3,4) f(2) by (simp_all add: txn_def data_block_def stored_in_def)
  then obtain u where "ilock_load jp t = Ret () u"
      "bio_frame (t\<lparr>itable := (itable t)(jp := ?j\<lparr>i_valid := True\<rparr>)\<rparr>) u"
    using ilock_load_run [of t jp "i_inum (itable s ip)"] assms(5,6) t(4) f(3) by auto
  then show ?thesis using t bio_frameD(4) f(3) by (intro exI [of _ t] exI [of _ u]) auto
qed

theorem iupdate_ilock_roundtrip_witness:
  "\<exists>s t u. i_size (itable s 0) = 1024 \<and> i_size (itable s 1) = 0 \<and> iupdate 0 s = Ret () t \<and> ilock_load 1 t = Ret () u \<and> i_size (itable u 1) = 1024"
proof -
  obtain s where s: "log_ok s" "log_outstanding (klog s) = 1" "lh_n (klog s) = 1" "log_size (klog s) = 30" "log_start (klog s) = 2"
    using demo_transaction by blast
  let ?z = "\<lparr>i_dev = 1, i_inum = 7, i_ref = 1, i_valid = False, i_type = 2, i_major = 0, i_minor = 0, i_nlink = 1, i_size = 0, i_addrs = (\<lambda>_. 0)\<rparr>"
  let ?s = "s\<lparr>itable := (\<lambda>_. ?z)(0 := ?z\<lparr>i_size := 1024\<rparr>), sb := (sb s)\<lparr>sb_inodestart := 32\<rparr>\<rparr>"
  have "txn (Suc 3) ?s" using s by (simp add: txn_def)
  moreover have "data_block ?s (IBLOCK (i_inum (itable ?s 0)) (sb ?s))" using s(5) by (simp add: data_block_def IBLOCK_def in_log_def)
  ultimately obtain t u where tu: "iupdate 0 ?s = Ret () t" "ilock_load 1 t = Ret () u"
      "itable u = (itable ?s)(1 := (stored_in (itable ?s 0) (itable ?s 1))\<lparr>i_valid := True\<rparr>)"
    using iupdate_ilock_roundtrip [of 3 ?s 0 1] by force
  have "i_size (itable u 1) = 1024" using tu(3) by (simp add: stored_in_def)
  then show ?thesis using tu(1,2) by (intro exI [of _ ?s] exI [of _ t] exI [of _ u]) simp
qed

subsection \<open>The bitmap of free blocks\<close>

lemma bmap_bit_set:
  assumes "bi div 8 < length d"
  shows "bmap_bit (bmap_set d bi v) bj = (if bj = bi then v else bmap_bit d bj)"
proof (cases "bj div 8 = bi div 8")
  case True
  have "bj mod 8 = bi mod 8 \<longleftrightarrow> bj = bi"
    using True div_mult_mod_eq [of bi 8] div_mult_mod_eq [of bj 8] by metis
  then show ?thesis
    using True assms by (auto simp: bmap_bit_def bmap_set_def bit_simps)
next
  case False
  then show ?thesis by (auto simp: bmap_bit_def bmap_set_def)
qed

lemma length_bmap_set [simp]: "length (bmap_set d bi v) = length d"
  by (simp add: bmap_set_def)

text \<open>Whether the bitmap has the block \<open>b\<close> in use.\<close>

definition block_used :: "kern \<Rightarrow> nat \<Rightarrow> bool" where
  "block_used s b \<longleftrightarrow> bmap_bit (content s (BBLOCK (of_nat b) (sb s))) (b mod BPB)"

definition fs_size :: "kern \<Rightarrow> nat" where
  "fs_size s = unat (sb_size (sb s))"

text \<open>
  The layout of the disk: the bitmap is outside the log, and neither the blocks of the log nor those of the bitmap
  are free.
\<close>

definition bitmap_ok :: "kern \<Rightarrow> bool" where
  "bitmap_ok s \<longleftrightarrow> fs_size s < 2 ^ 31
     \<and> (\<forall>b < fs_size s. data_block s (BBLOCK (of_nat b) (sb s))
        \<and> (\<not> block_used s b \<longrightarrow> data_block s (of_nat b) \<and> (\<forall>c < fs_size s. of_nat b \<noteq> BBLOCK (of_nat c) (sb s))))"

lemma BBLOCK_eq:
  assumes "b < 2 ^ 31" "c < 2 ^ 31"
  shows "BBLOCK (of_nat b) sbl = BBLOCK (of_nat c) sbl \<longleftrightarrow> b div BPB = c div BPB"
proof -
  have d: "unat ((of_nat b :: u32) div 8192) = b div 8192" if "b < 2 ^ 31" for b
    using that by (simp add: unat_div_distrib unat_of_nat)
  have "(of_nat b :: u32) div 8192 = of_nat c div 8192 \<longleftrightarrow> b div 8192 = c div 8192"
    using d [OF assms(1)] d [OF assms(2)] by (metis unsigned_word_eqI)
  then show ?thesis by (simp add: BBLOCK_def)
qed

text \<open>An update inside a transaction, one step at a time.\<close>

lemma log_update_steps:
  assumes "txn (Suc k) s" "data_block s n" "\<And>d. length d = BSIZE \<Longrightarrow> length (f d) = BSIZE"
  shows "\<exists>b t1 t2 t. bread 1 n s = Ret b t1 \<and> b_data (bufs t1 b) = content s n
    \<and> log_write b (t1\<lparr>bufs := (bufs t1)(b := (bufs t1 b)\<lparr>b_data := f (content s n)\<rparr>)\<rparr>) = Ret () t2 \<and> brelse b t2 = Ret () t
    \<and> txn k t \<and> content t = (content s)(n := f (content s n)) \<and> fs_frame s t"
proof -
  from log_update_run [OF assms(1,2), of f, OF assms(3)] obtain t where t: "log_update n f s = Ret () t" "txn k t"
      "content t = (content s)(n := f (content s n))" "fs_frame s t" by auto
  have "log_ok s" "unat n < 2 ^ 31" using assms(1,2) by (simp_all add: txn_def data_block_def)
  from log_bread [OF this] obtain b t1 where b: "bread 1 n s = Ret b t1" "b_data (bufs t1 b) = content s n" by blast
  from t(1) b obtain t2 where "log_write b (t1\<lparr>bufs := (bufs t1)(b := (bufs t1 b)\<lparr>b_data := f (content s n)\<rparr>)\<rparr>) = Ret () t2" "brelse b t2 = Ret () t"
    by (auto simp: log_update_def seqM_eq_Ret)
  then show ?thesis using b t by blast
qed

lemma bzero_log: "bzero 1 n = log_update n (\<lambda>_. replicate BSIZE 0)"
  by (simp add: bzero_def log_update_def)

lemma balloc_block_full:
  assumes "log_ok s" "data_block s (BBLOCK (of_nat b) (sb s))" "balloc_bit (content s (BBLOCK (of_nat b) (sb s))) b (fs_size s) = None"
  shows "\<exists>t. balloc_block 1 b s = Ret None t \<and> log_ok t \<and> content t = content s \<and> bio_frame s t"
proof -
  have "unat (BBLOCK (of_nat b) (sb s)) < 2 ^ 31" using assms(2) by (simp add: data_block_def)
  from log_bread [OF assms(1) this] show ?thesis using assms(3) by (auto simp: balloc_block_def fs_size_def)
qed

lemma balloc_block_found:
  assumes "txn (Suc (Suc k)) s" "data_block s n" "n = BBLOCK (of_nat b) (sb s)" "balloc_bit (content s n) b (fs_size s) = Some bi"
    "data_block s (of_nat (b + bi))"
  shows "\<exists>t. balloc_block 1 b s = Ret (Some (of_nat (b + bi))) t \<and> txn k t \<and> fs_frame s t
    \<and> content t = (content s)(n := bmap_set (content s n) bi True, of_nat (b + bi) := replicate BSIZE 0)"
proof -
  from log_update_steps [OF assms(1,2), of "\<lambda>d. bmap_set d bi True"] obtain p t1 t2 t where
    t: "bread 1 n s = Ret p t1" "b_data (bufs t1 p) = content s n"
      "log_write p (t1\<lparr>bufs := (bufs t1)(p := (bufs t1 p)\<lparr>b_data := bmap_set (content s n) bi True\<rparr>)\<rparr>) = Ret () t2" "brelse p t2 = Ret () t"
      "txn (Suc k) t" "content t = (content s)(n := bmap_set (content s n) bi True)" "fs_frame s t" by auto
  have "data_block t (of_nat (b + bi))" using assms(5) fs_frameD(9) [OF t(7)] by simp
  from log_update_run [OF t(5) this, of "\<lambda>_. replicate BSIZE 0"] obtain u where
    u: "bzero 1 (of_nat (b + bi)) t = Ret () u" "txn k u" "content u = (content t)(of_nat (b + bi) := replicate BSIZE 0)" "fs_frame t u"
    by (auto simp: bzero_log)
  have "balloc_block 1 b s = Ret (Some (of_nat (b + bi))) u"
    using t(1-4) u(1) assms(3,4) by (simp add: balloc_block_def fs_size_def)
  then show ?thesis using u t(6) fs_frame_trans [OF t(7) u(4)] by auto
qed

lemma searchM_skip_inv:
  assumes "\<And>i t. i \<in> set xs \<Longrightarrow> I t \<Longrightarrow> \<exists>u. body i t = Ret None u \<and> I u" "I s"
  shows "\<exists>u. searchM (xs @ ys) body s = searchM ys body u \<and> I u"
  using assms
proof (induction xs arbitrary: s)
  case (Cons x xs)
  then obtain u where "body x s = Ret None u" "I u" by (meson list.set_intros(1))
  then show ?case using Cons.IH [of u] Cons.prems(1) by simp
qed auto

lemma find_upt_Some: "i < n \<Longrightarrow> P i \<Longrightarrow> (\<And>j. j < i \<Longrightarrow> \<not> P j) \<Longrightarrow> find P [0..<n] = Some i"
  unfolding find_Some_iff by (intro exI [of _ i]) auto

lemma block_used_in:
  assumes "b < 2 ^ 31" "b = k * BPB + bi" "bi < BPB"
  shows "block_used s b = bmap_bit (content s (BBLOCK (of_nat (k * BPB)) (sb s))) bi"
proof -
  have "b div BPB = k * BPB div BPB" "b mod BPB = bi" "k * BPB < 2 ^ 31" using assms by simp_all
  then show ?thesis using BBLOCK_eq [of b "k * BPB"] assms(1) by (simp add: block_used_def)
qed

lemma balloc_bit_full:
  assumes "fs_size s < 2 ^ 31" "\<And>b. b < fs_size s \<Longrightarrow> b div BPB = k \<Longrightarrow> block_used s b"
  shows "balloc_bit (content s (BBLOCK (of_nat (k * BPB)) (sb s))) (k * BPB) (fs_size s) = None"
proof -
  have "bmap_bit (content s (BBLOCK (of_nat (k * BPB)) (sb s))) bi" if "bi < BPB" "k * BPB + bi < fs_size s" for bi
  proof -
    have "(k * BPB + bi) div BPB = k" using that(1) by simp
    then show ?thesis using assms that block_used_in [of "k * BPB + bi" k bi s] by simp
  qed
  then show ?thesis by (auto simp: balloc_bit_def find_None_iff)
qed

lemma balloc_search_full:
  assumes "txn k s" "bitmap_ok s" "\<And>b. b < fs_size s \<Longrightarrow> b div BPB < q \<Longrightarrow> block_used s b" "q * BPB < fs_size s + BPB"
  shows "\<exists>t. searchM (map (\<lambda>k. k * BPB) [0..<q] @ ys) (balloc_block 1) s = searchM ys (balloc_block 1) t
    \<and> log_ok t \<and> content t = content s \<and> bio_frame s t"
proof (rule searchM_skip_inv)
  fix x t assume x: "x \<in> set (map (\<lambda>k. k * BPB) [0..<q])" and t: "log_ok t \<and> content t = content s \<and> bio_frame s t"
  then obtain k where k: "x = k * BPB" "k < q" by auto
  note f = fs_frameD [OF fs_frame_bio, of s t]
  have e: "fs_size t = fs_size s" "block_used t = block_used s" "data_block t = data_block s" "sb t = sb s"
    using t f(2,9) by (simp_all add: fs_size_def block_used_def fun_eq_iff)
  have "k * BPB < fs_size s" using assms(4) k(2) mult_le_mono1 [of "Suc k" q BPB] by simp
  then have "data_block t (BBLOCK (of_nat x) (sb t))" using assms(2) k(1) e by (auto simp: bitmap_ok_def)
  moreover have "balloc_bit (content t (BBLOCK (of_nat x) (sb t))) x (fs_size t) = None"
    using balloc_bit_full [of s k] assms(2,3) k e t by (auto simp: bitmap_ok_def)
  ultimately obtain u where "balloc_block 1 x t = Ret None u" "log_ok u" "content u = content t" "bio_frame t u"
    using balloc_block_full t by blast
  then show "\<exists>u. balloc_block 1 x t = Ret None u \<and> log_ok u \<and> content u = content s \<and> bio_frame s u"
    using t bio_frame_trans by auto
qed (use assms(1) in \<open>simp add: txn_def\<close>)

lemma balloc_full:
  assumes "txn k s" "bitmap_ok s" "\<forall>b < fs_size s. block_used s b"
  shows "\<exists>t. balloc 1 s = Stop (Panic ''balloc: out of blocks'') t \<and> content t = content s"
proof -
  let ?q = "(fs_size s + BPB - 1) div BPB"
  have "?q * BPB < fs_size s + BPB" using div_times_less_eq_dividend [of "fs_size s + BPB - 1" BPB] by linarith
  then obtain t where "searchM (map (\<lambda>k. k * BPB) [0..<?q] @ []) (balloc_block 1) s = Ret None t" "content t = content s"
    using balloc_search_full [OF assms(1,2), of ?q "[]"] assms(3) by auto
  then show ?thesis by (simp add: balloc_def fs_size_def panic_def)
qed

lemma balloc_first:
  assumes "txn (Suc (Suc k)) s" "bitmap_ok s" "b < fs_size s" "\<not> block_used s b" "\<forall>c < b. block_used s c"
  shows "\<exists>t. balloc 1 s = Ret (of_nat b) t \<and> txn k t \<and> fs_frame s t
    \<and> content t = (content s)(BBLOCK (of_nat b) (sb s) := bmap_set (content s (BBLOCK (of_nat b) (sb s))) (b mod BPB) True,
         of_nat b := replicate BSIZE 0)"
proof -
  define q where "q = b div BPB"
  define m where "m = (fs_size s + BPB - 1) div BPB"
  have b: "b = q * BPB + b mod BPB" "b mod BPB < BPB" by (simp_all add: q_def)
  have sz: "fs_size s < 2 ^ 31" using assms(2) by (simp add: bitmap_ok_def)
  have "q < m" unfolding m_def q_def using assms(3) by (simp add: less_eq_div_iff_mult_less_eq Suc_le_eq [symmetric])
  then have l: "map (\<lambda>k. k * BPB) [0..<m] = map (\<lambda>k. k * BPB) [0..<q] @ (q * BPB) # map (\<lambda>k. k * BPB) [Suc q..<m]"
    by (metis list.simps(9) map_append le_add_diff_inverse less_imp_le_nat upt_add_eq_append upt_conv_Cons zero_le)
  have "block_used s c" if "c < fs_size s" "c div BPB < q" for c
    using assms(5) that div_le_mono [of b c BPB] unfolding q_def by (meson leI le_antisym less_irrefl_nat not_less)
  moreover have "q * BPB < fs_size s + BPB" using b(1) assms(3) by linarith
  ultimately obtain t where t: "searchM (map (\<lambda>k. k * BPB) [0..<m]) (balloc_block 1) s
        = searchM ((q * BPB) # map (\<lambda>k. k * BPB) [Suc q..<m]) (balloc_block 1) t" "log_ok t" "content t = content s" "bio_frame s t"
    using balloc_search_full [OF assms(1,2), of q "(q * BPB) # map (\<lambda>k. k * BPB) [Suc q..<m]"] unfolding l by blast
  note f = fs_frameD [OF fs_frame_bio [OF t(4)]]
  have e: "fs_size t = fs_size s" "block_used t = block_used s" using f(2) t(3) by (simp_all add: fs_size_def block_used_def fun_eq_iff)
  let ?n = "BBLOCK (of_nat (q * BPB)) (sb t)"
  have n: "BBLOCK (of_nat b) (sb s) = ?n" using BBLOCK_eq [of b "q * BPB" "sb s"] b sz assms(3) f(2) by (simp add: q_def)
  have "balloc_bit (content t ?n) (q * BPB) (fs_size t) = Some (b mod BPB)"
    unfolding balloc_bit_def
  proof (rule find_upt_Some)
    show "q * BPB + b mod BPB < fs_size t \<and> \<not> bmap_bit (content t ?n) (b mod BPB)"
      using block_used_in [of b q "b mod BPB" t] b sz assms(3,4) e by simp
    show "\<not> (q * BPB + j < fs_size t \<and> \<not> bmap_bit (content t ?n) j)" if "j < b mod BPB" for j
      using block_used_in [of "q * BPB + j" q j t] that b sz assms(3,5) e by simp
  qed (use b in simp)
  moreover have "txn (Suc (Suc k)) t" using txn_same [OF assms(1) t(2)] bio_frameD(2) [OF t(4)] by simp
  moreover have "data_block t ?n" "data_block t (of_nat (q * BPB + b mod BPB))"
    using assms(2-4) n f(9) b(1) by (auto simp: bitmap_ok_def)
  ultimately obtain u where u: "balloc_block 1 (q * BPB) t = Ret (Some (of_nat (q * BPB + b mod BPB))) u" "txn k u" "fs_frame t u"
      "content u = (content t)(?n := bmap_set (content t ?n) (b mod BPB) True, of_nat (q * BPB + b mod BPB) := replicate BSIZE 0)"
    using balloc_block_found by blast
  have "q * BPB + b mod BPB = b" using b(1) by simp
  then have "balloc 1 s = Ret (of_nat b) u" using t(1) u(1) by (simp add: balloc_def m_def fs_size_def)
  then show ?thesis using u(2-4) t(3) n f(2) fs_frame_trans [OF fs_frame_bio [OF t(4)] u(3)] \<open>q * BPB + b mod BPB = b\<close> by auto
qed

text \<open>Setting one bit of the bitmap changes what is used by that block; a further block outside the bitmap may change too.\<close>

lemma block_used_update:
  assumes "log_ok s" "fs_size s < 2 ^ 31" "b < fs_size s" "c < fs_size s" "sb t = sb s" "n = BBLOCK (of_nat b) (sb s)"
    "content t n = bmap_set (content s n) (b mod BPB) v" "\<And>m. m \<noteq> n \<Longrightarrow> m = BBLOCK (of_nat c) (sb s) \<Longrightarrow> content t m = content s m"
  shows "block_used t c = (if c = b then v else block_used s c)"
proof (cases "BBLOCK (of_nat c) (sb s) = n")
  case True
  then have d: "c div BPB = b div BPB" using BBLOCK_eq [of c b] assms(2-4,6) by simp
  have "b mod BPB div 8 < length (content s n)" using length_content_ok [OF assms(1)] by (simp add: less_mult_imp_div_less)
  then have "block_used t c = (if c mod BPB = b mod BPB then v else bmap_bit (content s n) (c mod BPB))"
    using True assms(5,7) bmap_bit_set by (simp add: block_used_def)
  moreover have "c mod BPB = b mod BPB \<longleftrightarrow> c = b"
    using d div_mult_mod_eq [of b BPB] div_mult_mod_eq [of c BPB] by metis
  ultimately show ?thesis using True by (simp add: block_used_def)
next
  case False
  then have "c \<noteq> b" using assms(6) by auto
  then show ?thesis using False assms(5,8) by (simp add: block_used_def)
qed

text \<open>
  C28: \<^verbatim>\<open>balloc\<close> hands out the first free block. When the bitmap has a free block, the call returns the first one,
  which is marked in use and filled with zeros; the other blocks keep their marks, and every block that is neither that block nor part of
  the bitmap keeps its contents. When all blocks are in use it panics and changes nothing.
\<close>

theorem balloc_takes_first_free_block:
  assumes "txn (Suc (Suc k)) s" "bitmap_ok s"
  shows "(\<exists>b t. balloc 1 s = Ret (of_nat b) t \<and> b < fs_size s \<and> \<not> block_used s b \<and> (\<forall>c < b. block_used s c) \<and> txn k t \<and> bitmap_ok t
        \<and> (\<forall>c < fs_size s. block_used t c = (c = b \<or> block_used s c)) \<and> content t (of_nat b) = replicate BSIZE 0
        \<and> (\<forall>n. n \<noteq> of_nat b \<and> (\<forall>c < fs_size s. n \<noteq> BBLOCK (of_nat c) (sb s)) \<longrightarrow> content t n = content s n))
    \<or> (\<forall>b < fs_size s. block_used s b) \<and> (\<exists>t. balloc 1 s = Stop (Panic ''balloc: out of blocks'') t \<and> content t = content s)"
proof (cases "\<forall>b < fs_size s. block_used s b")
  case True
  then show ?thesis using balloc_full [OF assms] by blast
next
  case False
  define b where "b = (LEAST b. b < fs_size s \<and> \<not> block_used s b)"
  have b: "b < fs_size s" "\<not> block_used s b" using LeastI_ex [of "\<lambda>b. b < fs_size s \<and> \<not> block_used s b"] False by (auto simp: b_def)
  have "block_used s c" if "c < b" for c
    using not_less_Least [of c "\<lambda>b. b < fs_size s \<and> \<not> block_used s b"] that b(1) by (auto simp: b_def)
  then have first: "\<forall>c < b. block_used s c" by simp
  from balloc_first [OF assms b first] obtain t where t: "balloc 1 s = Ret (of_nat b) t" "txn k t" "fs_frame s t"
    "content t = (content s)(BBLOCK (of_nat b) (sb s) := bmap_set (content s (BBLOCK (of_nat b) (sb s))) (b mod BPB) True,
       of_nat b := replicate BSIZE 0)" by blast
  note f = fs_frameD [OF t(3)]
  have ne: "of_nat b \<noteq> BBLOCK (of_nat c) (sb s)" if "c < fs_size s" for c using assms(2) b that by (auto simp: bitmap_ok_def)
  have ok: "log_ok s" "fs_size s < 2 ^ 31" using assms by (simp_all add: txn_def bitmap_ok_def)
  have used: "block_used t c = (c = b \<or> block_used s c)" if "c < fs_size s" for c
    using block_used_update [OF ok b(1) that f(2) refl, of True] ne [OF b(1)] ne [OF that] t(4) by auto
  have "fs_size t = fs_size s" using f(2) by (simp add: fs_size_def)
  then have "bitmap_ok t" using assms(2) used f(2,9) unfolding bitmap_ok_def by auto
  then show ?thesis using t b first used by (intro disjI1 exI [of _ b] exI [of _ t]) auto
qed

text \<open>A transaction on a disk of 1000 blocks with the bitmap in block 45, in which the first 46 blocks are in use.\<close>

definition demo_map :: "u8 list" where
  "demo_map = replicate 5 255 @ 63 # replicate 1018 0"

lemma bit_demo_map: "b < 1000 \<Longrightarrow> bmap_bit demo_map b \<longleftrightarrow> b < 46"
proof -
  assume b: "b < 1000"
  have m: "b mod 8 < 8" by simp
  consider "b div 8 < 5" | "b div 8 = 5" | "5 < b div 8" by linarith
  then show ?thesis
  proof cases
    case 1
    then have "demo_map ! (b div 8) = mask 8" by (simp add: demo_map_def nth_append mask_eq_exp_minus_1)
    then show ?thesis using 1 m by (auto simp: bmap_bit_def bit_mask_iff)
  next
    case 2
    then have "demo_map ! (b div 8) = mask 6" by (simp add: demo_map_def nth_append mask_eq_exp_minus_1)
    moreover have "b = 40 + b mod 8" using 2 div_mult_mod_eq [of b 8] by simp
    ultimately show ?thesis using 2 m by (auto simp: bmap_bit_def bit_mask_iff)
  next
    case 3
    then have "demo_map ! (b div 8) = 0" using b by (auto simp: demo_map_def nth_append nth_Cons')
    then show ?thesis using 3 by (auto simp: bmap_bit_def)
  qed
qed

lemma demo_bitmap: "\<exists>s. txn 4 s \<and> bitmap_ok s \<and> fs_size s = 1000 \<and> (\<forall>b<1000. block_used s b \<longleftrightarrow> b < 46)"
proof -
  obtain s0 where s0: "log_ok s0" "log_outstanding (klog s0) = 1" "lh_n (klog s0) = 1" "log_size (klog s0) = 30" "log_start (klog s0) = 2"
    using demo_transaction by blast
  define s where "s = s0\<lparr>sb := (sb s0)\<lparr>sb_size := 1000, sb_bmapstart := 45\<rparr>\<rparr>"
  have "txn (Suc 4) s" "data_block s 45" using s0 by (simp_all add: txn_def s_def data_block_def in_log_def)
  from log_update_run [OF this, of "\<lambda>_. demo_map"] obtain t where t: "txn 4 t" "content t = (content s)(45 := demo_map)" "fs_frame s t"
    by (auto simp: demo_map_def)
  note f = fs_frameD [OF t(3)]
  have sz: "fs_size t = 1000" using f(2) by (simp add: fs_size_def s_def)
  have BB: "BBLOCK (of_nat b) (sb t) = 45" if "b < 1000" for b
    using that BBLOCK_eq [of b 0 "sb t"] f(2) by (simp add: BBLOCK_def s_def)
  have used: "block_used t b \<longleftrightarrow> b < 46" if "b < 1000" for b
    using bit_demo_map [OF that] that BB [OF that] t(2) by (simp add: block_used_def)
  have "data_block t (of_nat b) \<and> of_nat b \<noteq> (45 :: u32)" if "46 \<le> b" "b < 1000" for b
  proof -
    have "unat (of_nat b :: u32) = b" using that by (simp add: unat_of_nat)
    moreover from this have "of_nat b \<noteq> (45 :: u32)" using that by auto
    ultimately show ?thesis using that f(9) s0(5) by (simp add: data_block_def in_log_def s_def)
  qed
  then have "bitmap_ok t" using \<open>data_block s 45\<close> f(9) sz BB used by (auto simp: bitmap_ok_def)
  then show ?thesis using t(1) sz used by blast
qed

theorem balloc_takes_first_free_block_witness:
  "\<exists>s t. txn 4 s \<and> bitmap_ok s \<and> balloc 1 s = Ret 46 t \<and> block_used t 46 \<and> content t 46 = replicate BSIZE 0"
proof -
  obtain s where s: "txn 4 s" "bitmap_ok s" "fs_size s = 1000" "\<forall>b<1000. block_used s b \<longleftrightarrow> b < 46" using demo_bitmap by blast
  have "\<not> block_used s 46" using s(4) by simp
  then have some: "\<not> (\<forall>b<1000. block_used s b)" by (auto intro!: exI [of _ 46])
  have four: "4 = Suc (Suc 2)" by simp
  obtain b t where t: "balloc 1 s = Ret (of_nat b) t" "b < 1000" "\<not> block_used s b" "\<forall>c < b. block_used s c"
      "\<forall>c < 1000. block_used t c = (c = b \<or> block_used s c)" "content t (of_nat b) = replicate BSIZE 0"
    using balloc_takes_first_free_block [OF s(1) [unfolded four] s(2), unfolded s(3)] some by (elim disjE) blast+
  have "\<not> b < 46" using t(2,3) s(4) by blast
  moreover have "\<not> 46 < b" using t(4) s(4) by force
  ultimately have "b = 46" by simp
  then show ?thesis using s(1,2) t by auto
qed

text \<open>
  C29: \<^verbatim>\<open>bfree\<close> gives back a block that is in use: its mark is cleared, the other blocks keep their marks and every block outside the
  bitmap keeps its contents. Freeing a free block panics.
\<close>

theorem bfree_releases_used_block:
  assumes "txn (Suc k) s" "bitmap_ok s" "b < fs_size s"
  shows "(block_used s b \<longrightarrow> (\<exists>t. bfree 1 (of_nat b) s = Ret () t \<and> txn k t
        \<and> (\<forall>c < fs_size s. block_used t c = (c \<noteq> b \<and> block_used s c))
        \<and> (\<forall>n. (\<forall>c < fs_size s. n \<noteq> BBLOCK (of_nat c) (sb s)) \<longrightarrow> content t n = content s n)))
    \<and> (\<not> block_used s b \<longrightarrow> (\<exists>t. bfree 1 (of_nat b) s = Stop (Panic ''freeing free block'') t))"
proof -
  let ?n = "BBLOCK (of_nat b) (sb s)"
  have sz: "log_ok s" "fs_size s < 2 ^ 31" using assms by (simp_all add: bitmap_ok_def txn_def)
  have u: "unat (of_nat b :: u32) = b" using assms(3) sz(2) by (simp add: unat_of_nat)
  have d: "data_block s ?n" using assms(2,3) by (simp add: bitmap_ok_def)
  from log_update_steps [OF assms(1) d, of "\<lambda>d. bmap_set d (b mod BPB) False"] obtain p t1 t2 t where
    t: "bread 1 ?n s = Ret p t1" "b_data (bufs t1 p) = content s ?n"
      "log_write p (t1\<lparr>bufs := (bufs t1)(p := (bufs t1 p)\<lparr>b_data := bmap_set (content s ?n) (b mod BPB) False\<rparr>)\<rparr>) = Ret () t2" "brelse p t2 = Ret () t"
      "txn k t" "content t = (content s)(?n := bmap_set (content s ?n) (b mod BPB) False)" "fs_frame s t" by auto
  note run = t(1-4) u
  have "bfree 1 (of_nat b) s = Ret () t" if "block_used s b"
    using that run by (simp add: bfree_def block_used_def)
  moreover have "block_used t c = (c \<noteq> b \<and> block_used s c)" if "c < fs_size s" for c
    using block_used_update [OF sz assms(3) that fs_frameD(2) [OF t(7)] refl, of False] t(6) by auto
  moreover have "bfree 1 (of_nat b) s = Stop (Panic ''freeing free block'') t1" if "\<not> block_used s b"
    using that run by (simp add: bfree_def block_used_def panic_def)
  ultimately show ?thesis using t(5,6) assms(3) by auto
qed

theorem bfree_releases_used_block_witness:
  "\<exists>s t u. txn 4 s \<and> bfree 1 40 s = Ret () t \<and> \<not> block_used t 40 \<and> block_used t 41 \<and> bfree 1 50 s = Stop (Panic ''freeing free block'') u"
proof -
  obtain s where s: "txn 4 s" "bitmap_ok s" "fs_size s = 1000" "\<forall>b<1000. block_used s b \<longleftrightarrow> b < 46" using demo_bitmap by blast
  have four: "4 = Suc 3" by simp
  note f = bfree_releases_used_block [OF s(1) [unfolded four] s(2), unfolded s(3)]
  obtain t where "bfree 1 40 s = Ret () t" "\<not> block_used t 40" "block_used t 41" using f [of 40] s(4) by auto
  moreover obtain u where "bfree 1 50 s = Stop (Panic ''freeing free block'') u" using f [of 50] s(4) by auto
  ultimately show ?thesis using s(1) by blast
qed

end
