(* ===== verification/Contents.thy ===== *)
theory Contents
  imports Blocks
begin

section \<open>The contents of files and directories\<close>

text \<open>
  Lemmas on the upper half of \<^verbatim>\<open>kernel/fs.c\<close>: a file as the list of its bytes, which \<^verbatim>\<open>readi\<close> reads; the table of inodes; and a directory as a list
  of names and inode numbers, which \<^verbatim>\<open>dirlookup\<close> searches.
\<close>

subsection \<open>The bytes of a file\<close>

definition file_block :: "(u32 \<Rightarrow> u8 list) \<Rightarrow> inode \<Rightarrow> nat \<Rightarrow> u32" where
  "file_block c i k = (if k < NDIRECT then i_addrs i k else ld32 (c (i_addrs i NDIRECT)) (4 * (k - NDIRECT)))"

definition file_byte :: "(u32 \<Rightarrow> u8 list) \<Rightarrow> inode \<Rightarrow> nat \<Rightarrow> u8" where
  "file_byte c i p = c (file_block c i (p div BSIZE)) ! (p mod BSIZE)"

definition file_bytes :: "(u32 \<Rightarrow> u8 list) \<Rightarrow> inode \<Rightarrow> u8 list" where
  "file_bytes c i = map (file_byte c i) [0..<unat (i_size i)]"

text \<open>An inode whose blocks up to its size are all there.\<close>

definition file_ok :: "(u32 \<Rightarrow> u8 list) \<Rightarrow> inode \<Rightarrow> bool" where
  "file_ok c i \<longleftrightarrow> i_dev i = 1 \<and> unat (i_size i) \<le> MAXFILE * BSIZE
     \<and> (\<forall>k. k * BSIZE < unat (i_size i) \<longrightarrow> file_block c i k \<noteq> 0 \<and> unat (file_block c i k) < 2 ^ 31
          \<and> (NDIRECT \<le> k \<longrightarrow> i_addrs i NDIRECT \<noteq> 0 \<and> unat (i_addrs i NDIRECT) < 2 ^ 31))"

text \<open>The state after an operation that only reads.\<close>

definition same_fs :: "kern \<Rightarrow> kern \<Rightarrow> bool" where
  "same_fs s t \<longleftrightarrow> log_ok t \<and> content t = content s \<and> bio_frame s t"

lemma same_fs_refl: "log_ok s \<Longrightarrow> same_fs s s"
  by (simp add: same_fs_def)

lemma same_fs_trans: "same_fs s t \<Longrightarrow> same_fs t u \<Longrightarrow> same_fs s u"
  using bio_frame_trans by (auto simp: same_fs_def)

lemma same_fsD: "same_fs s t \<Longrightarrow> log_ok t" "same_fs s t \<Longrightarrow> content t = content s" "same_fs s t \<Longrightarrow> itable t = itable s"
    "same_fs s t \<Longrightarrow> sb t = sb s"
  using bio_frameD(3,4) by (auto simp: same_fs_def)

lemma log_bread_same:
  assumes "log_ok s" "unat n < 2 ^ 31"
  shows "\<exists>b t u. bread 1 n s = Ret b t \<and> b_data (bufs t b) = content s n \<and> itable t = itable s \<and> brelse b t = Ret () u \<and> same_fs s u"
  using log_bread [OF assms] bio_frameD(4) by (fastforce simp: same_fs_def)

lemma bmap_run:
  assumes "log_ok s" "file_ok (content s) (itable s ip)" "k * BSIZE < unat (i_size (itable s ip))" "unat bn = k"
  shows "\<exists>t. bmap ip bn s = Ret (file_block (content s) (itable s ip) k) t \<and> same_fs s t"
proof (cases "k < NDIRECT")
  case True
  then show ?thesis
    using assms same_fs_refl [OF assms(1)] by (auto simp: bmap_def bmap_slot_def get_addr_def file_ok_def file_block_def)
next
  case False
  let ?i = "itable s ip"
  have a: "i_addrs ?i NDIRECT \<noteq> 0" "unat (i_addrs ?i NDIRECT) < 2 ^ 31" "i_dev ?i = 1" "file_block (content s) ?i k \<noteq> 0"
    using assms(2,3) False by (auto simp: file_ok_def)
  have "k * BSIZE < MAXFILE * BSIZE" using assms(2,3) by (auto simp: file_ok_def)
  moreover have m: "unat (bn - of_nat NDIRECT) = k - NDIRECT"
    using False assms(4) unat_sub [of "of_nat NDIRECT" bn] by (simp add: word_le_nat_alt)
  ultimately have r: "unat (bn - of_nat NDIRECT) < NINDIRECT" "4 * (k - NDIRECT) = 4 * unat (bn - of_nat NDIRECT)" by simp_all
  from log_bread_same [OF assms(1) a(2)] obtain b t u where
    t: "bread 1 (i_addrs ?i NDIRECT) s = Ret b t" "b_data (bufs t b) = content s (i_addrs ?i NDIRECT)" "brelse b t = Ret () u" "same_fs s u"
    by blast
  have "bmap_slot ip NDIRECT s = Ret (i_addrs ?i NDIRECT) s" using a(1) by (simp add: bmap_slot_def get_addr_def)
  then have "bmap ip bn s = Ret (file_block (content s) ?i k) u"
    using False assms(4) r(1) m t a(3,4) by (simp add: bmap_def bmap_indirect_def file_block_def)
  then show ?thesis using t(4) by blast
qed

lemma div_mod_offset:
  assumes "p mod n + j < (n :: nat)"
  shows "(p + j) div n = p div n" "(p + j) mod n = p mod n + j"
proof -
  have e: "p + j = p div n * n + (p mod n + j)" using div_mult_mod_eq [of p n] by linarith
  show "(p + j) div n = p div n" unfolding e using assms by (subst div_mult_self3) auto
  show "(p + j) mod n = p mod n + j" unfolding e using assms by (subst mod_mult_self3) auto
qed

lemma file_slice:
  assumes "log_ok s" "p mod BSIZE + m \<le> BSIZE"
  shows "slice (content s (file_block (content s) i (p div BSIZE))) (p mod BSIZE) m = map (file_byte (content s) i) [p..<p + m]"
proof (rule nth_equalityI)
  show len: "length (slice (content s (file_block (content s) i (p div BSIZE))) (p mod BSIZE) m) = length (map (file_byte (content s) i) [p..<p + m])"
    using assms length_content_ok by (simp add: slice_def)
  fix j assume j: "j < length (slice (content s (file_block (content s) i (p div BSIZE))) (p mod BSIZE) m)"
  then have "j < m" using len by simp
  then have "(p + j) div BSIZE = p div BSIZE" "(p + j) mod BSIZE = p mod BSIZE + j"
    using div_mod_offset [of p BSIZE j] assms(2) by simp_all
  then show "slice (content s (file_block (content s) i (p div BSIZE))) (p mod BSIZE) m ! j = map (file_byte (content s) i) [p..<p + m] ! j"
    using \<open>j < m\<close> assms length_content_ok by (simp add: slice_def file_byte_def)
qed

lemma chunk_size:
  fixes off tot n :: u32
  assumes "tot < n"
  defines "m \<equiv> min (n - tot) (1024 - off mod 1024)"
  shows "unat m = min (unat n - unat tot) (BSIZE - unat off mod BSIZE)" "0 < unat m" "unat off mod BSIZE + unat m \<le> BSIZE"
    "unat tot + unat m \<le> unat n" "unat (tot + m) = unat tot + unat m"
    "unat off + unat m < 2 ^ 32 \<Longrightarrow> unat (off + m) = unat off + unat m"
proof -
  have "unat (n - tot) = unat n - unat tot" using assms(1) by (simp add: unat_sub)
  moreover have "unat (off mod 1024) = unat off mod BSIZE" by (simp add: unat_mod_distrib)
  moreover from this have "unat (1024 - off mod 1024) = BSIZE - unat off mod BSIZE"
    by (subst unat_sub) (simp_all add: word_le_nat_alt)
  ultimately show m: "unat m = min (unat n - unat tot) (BSIZE - unat off mod BSIZE)"
    by (auto simp: m_def min_def word_le_nat_alt)
  moreover have "unat off mod BSIZE < BSIZE" by simp
  moreover have "unat tot < unat n" using assms(1) by (simp add: word_less_nat_alt)
  ultimately show "0 < unat m" "unat off mod BSIZE + unat m \<le> BSIZE" and t: "unat tot + unat m \<le> unat n" by simp_all
  show "unat (tot + m) = unat tot + unat m"
    using t unsigned_less [of n, where 'a = nat] by (subst unat_word_ariths(1)) simp
  show "unat (off + m) = unat off + unat m" if "unat off + unat m < 2 ^ 32"
    using that by (subst unat_word_ariths(1)) simp
qed

lemma readi_loop_run:
  assumes "log_ok s" "file_ok (content s) i" "itable s ip = i" "unat tot \<le> unat n"
    "unat off + (unat n - unat tot) \<le> unat (i_size i)" "unat n - unat tot \<le> fuel"
  shows "\<exists>t. readi_loop fuel ip ToLocal off tot n acc s
     = Ret (sint n, acc @ map (file_byte (content s) i) [unat off..<unat off + (unat n - unat tot)]) t \<and> same_fs s t"
  using assms
proof (induction fuel arbitrary: off tot acc s)
  case 0
  then have "unat tot = unat n" by simp
  then have "tot = n" by (rule unsigned_word_eqI)
  then show ?case using 0 same_fs_refl by auto
next
  case (Suc fuel)
  show ?case
  proof (cases "tot < n")
    case False
    then have "unat tot = unat n" using Suc.prems(4) by (simp add: word_less_nat_alt)
    then have "tot = n" by (rule unsigned_word_eqI)
    then show ?thesis using False Suc.prems(1) same_fs_refl by auto
  next
    case True
    define m where "m = min (n - tot) (1024 - off mod 1024)"
    note m = chunk_size [OF True, of off, folded m_def]
    have sz: "unat (i_size i) < 2 ^ 32" using unsigned_less [of "i_size i", where 'a = nat] by simp
    have off: "unat off < unat (i_size i)" "unat (off + m) = unat off + unat m"
      using m(2,4,6) Suc.prems(5) sz by simp_all
    let ?k = "unat off div BSIZE"
    have "?k * BSIZE < unat (i_size i)" using off(1) div_times_less_eq_dividend [of "unat off" BSIZE] by linarith
    moreover have "unat (off div 1024) = ?k" by (simp add: unat_div_distrib)
    ultimately obtain t where t: "bmap ip (off div 1024) s = Ret (file_block (content s) i ?k) t" "same_fs s t"
      using bmap_run [OF Suc.prems(1), of ip ?k "off div 1024"] Suc.prems(2,3) by auto
    have blk: "unat (file_block (content s) i ?k) < 2 ^ 31" "i_dev i = 1"
      using Suc.prems(2) \<open>?k * BSIZE < unat (i_size i)\<close> by (auto simp: file_ok_def)
    from log_bread_same [OF same_fsD(1) [OF t(2)] blk(1)] same_fsD(2) [OF t(2)] obtain b u v where
      u: "bread 1 (file_block (content s) i ?k) t = Ret b u" "b_data (bufs u b) = content s (file_block (content s) i ?k)"
        "brelse b u = Ret () v" "same_fs t v" by auto
    have sv: "same_fs s v" using same_fs_trans t(2) u(4) by blast
    have bs: "slice (b_data (bufs u b)) (unat (off mod 1024)) (unat m) = map (file_byte (content s) i) [unat off..<unat off + unat m]"
      using file_slice [OF Suc.prems(1) m(3), of i] u(2) by (simp add: unat_mod_distrib)
    let ?acc = "acc @ map (file_byte (content s) i) [unat off..<unat off + unat m]"
    have "log_ok v" "file_ok (content v) i" "itable v ip = i" using same_fsD [OF sv] Suc.prems(2,3) by simp_all
    moreover have "unat (tot + m) \<le> unat n" "unat (off + m) + (unat n - unat (tot + m)) \<le> unat (i_size i)" "unat n - unat (tot + m) \<le> fuel"
      using m(2,4,5) off(2) Suc.prems(5,6) by linarith+
    ultimately obtain w where w: "readi_loop fuel ip ToLocal (off + m) (tot + m) n ?acc v
      = Ret (sint n, ?acc @ map (file_byte (content v) i) [unat (off + m)..<unat (off + m) + (unat n - unat (tot + m))]) w" "same_fs v w"
      using Suc.IH by blast
    have "[unat off..<unat off + unat m] @ [unat (off + m)..<unat (off + m) + (unat n - unat (tot + m))] = [unat off..<unat off + (unat n - unat tot)]"
      using upt_add_eq_append [of "unat off" "unat off + unat m" "unat n - unat tot - unat m"] off(2) m(4,5) by simp
    then have rest: "?acc @ map (file_byte (content v) i) [unat (off + m)..<unat (off + m) + (unat n - unat (tot + m))]
        = acc @ map (file_byte (content s) i) [unat off..<unat off + (unat n - unat tot)]"
      unfolding same_fsD(2) [OF sv] append_assoc map_append [symmetric] by simp
    have "readi_loop (Suc fuel) ip ToLocal off tot n acc s
       = Ret (sint n, acc @ map (file_byte (content s) i) [unat off..<unat off + (unat n - unat tot)]) w"
      using True Suc.prems(3) blk(2) t(1) u(1,3) bs w(1) [unfolded rest] by (simp add: m_def [symmetric] deliver_def)
    then show ?thesis using same_fs_trans [OF sv w(2)] by blast
  qed
qed

lemma length_file_bytes [simp]: "length (file_bytes c i) = unat (i_size i)"
  by (simp add: file_bytes_def)

lemma take_drop_file: "p + m \<le> unat (i_size i) \<Longrightarrow> map (file_byte c i) [p..<p + m] = take m (drop p (file_bytes c i))"
  by (simp add: file_bytes_def take_map drop_map take_upt)

lemma sint_unat:
  assumes "unat (x :: u32) < 2 ^ 31"
  shows "sint x = int (unat x)"
proof -
  have "int (unat x) < int (2 ^ 31)" using assms by (simp only: of_nat_less_iff)
  then show ?thesis using sint_of_small [of "int (unat x)"] by simp
qed

lemma readi_run:
  assumes "log_ok s" "file_ok (content s) (itable s ip)"
    and that: "bs = (if unat off + unat n < 2 ^ 32 then take (unat n) (drop (unat off) (file_bytes (content s) (itable s ip))) else [])"
  shows "\<exists>t. readi ip ToLocal off n s = Ret (int (length bs), bs) t \<and> same_fs s t"
proof -
  let ?i = "itable s ip"
  have sz: "unat (i_size ?i) < 2 ^ 31" using assms(2) by (simp add: file_ok_def)
  consider "i_size ?i < off" | "\<not> unat off + unat n < 2 ^ 32" | "off \<le> i_size ?i" "unat off + unat n < 2 ^ 32" by fastforce
  then show ?thesis
  proof cases
    case 1
    then have "bs = []" using that by (simp add: word_less_nat_alt)
    then show ?thesis using 1 same_fs_refl [OF assms(1)] by (auto simp: readi_def)
  next
    case 2
    have "unat (off + n) < unat off"
      using 2 unsigned_less [of n, where 'a = nat] unsigned_less [of off, where 'a = nat] by (simp add: unat_word_ariths(1) mod_if) arith
    then have "off + n < off" by (simp add: word_less_nat_alt)
    then show ?thesis using 2 that same_fs_refl [OF assms(1)] by (auto simp: readi_def)
  next
    case 3
    define n' where "n' = (if off + n > i_size ?i then i_size ?i - off else n)"
    have o: "unat (off + n) = unat off + unat n" using 3(2) by (simp add: unat_word_ariths(1))
    have n': "unat off + unat n' \<le> unat (i_size ?i)" "unat n' = min (unat n) (unat (i_size ?i) - unat off)"
      using 3(1) o unat_sub [of off "i_size ?i"] by (auto simp: n'_def word_less_nat_alt word_le_nat_alt)
    from readi_loop_run [OF assms(1,2) refl, of 0 n' off "unat n'" "[]"] n'(1) obtain t where
      "readi_loop (unat n') ip ToLocal off 0 n' [] s = Ret (sint n', map (file_byte (content s) ?i) [unat off..<unat off + unat n']) t" "same_fs s t"
      by auto
    moreover have bs: "map (file_byte (content s) ?i) [unat off..<unat off + unat n'] = bs"
      using take_drop_file [OF n'(1)] that 3(2) n'(2) by (simp add: min_def)
    moreover have "unat n' < 2 ^ 31" using n'(1) sz by linarith
    then have "sint n' = int (length bs)" unfolding bs [symmetric] length_map using sint_unat by simp
    moreover have "readi ip ToLocal off n s = readi_loop (unat n') ip ToLocal off 0 n' [] s"
      using 3 o by (simp add: readi_def n'_def Let_def word_less_nat_alt word_le_nat_alt)
    ultimately show ?thesis by metis
  qed
qed

text \<open>
  C30: \<^verbatim>\<open>readi\<close> implements reading from a sequence of bytes. The contents of an inode are the bytes of its direct and
  indirect blocks up to its size; a read of \<open>n\<close> bytes at \<open>off\<close> into a kernel buffer returns that part of the sequence, cut at its end, across
  block boundaries and through the indirect block. It changes neither the contents of any block nor the log. A range whose end is
  not a 32-bit number reads nothing.
\<close>

theorem readi_refines_byte_sequence:
  assumes "log_ok s" "file_ok (content s) (itable s ip)"
  shows "\<exists>t bs. readi ip ToLocal off n s = Ret (int (length bs), bs) t
    \<and> bs = (if unat off + unat n < 2 ^ 32 then take (unat n) (drop (unat off) (file_bytes (content s) (itable s ip))) else [])
    \<and> log_ok t \<and> content t = content s \<and> klog t = klog s \<and> itable t = itable s"
  using readi_run [OF assms refl, of off n] bio_frameD(2,4) by (fastforce simp: same_fs_def)

text \<open>A file of 1030 bytes in the blocks 100 and 101 of the disk.\<close>

definition demo_inode :: inode where
  "demo_inode = \<lparr>i_dev = 1, i_inum = 7, i_ref = 1, i_valid = True, i_type = 2, i_major = 0, i_minor = 0, i_nlink = 1, i_size = 1030,
     i_addrs = (\<lambda>k. 100 + of_nat k)\<rparr>"

lemma demo_file: "file_ok c demo_inode"
proof -
  have "unat (file_block c demo_inode k) = 100 + k \<and> file_block c demo_inode k \<noteq> 0" if "k < 2" for k
    using that by (auto simp: less_2_cases_iff file_block_def demo_inode_def)
  moreover have "k < 2" if "k * BSIZE < 1030" for k :: nat using that by linarith
  ultimately show ?thesis by (force simp: file_ok_def demo_inode_def)
qed

theorem readi_refines_byte_sequence_witness:
  "\<exists>s t. readi 0 ToLocal 1020 100 s = Ret (10, [7, 7, 7, 7, 0, 0, 0, 0, 0, 0]) t"
proof -
  obtain s0 where s0: "log_ok s0" "content s0 100 = replicate BSIZE 7" "\<forall>n. n \<noteq> 100 \<longrightarrow> content s0 n = replicate BSIZE 0"
    using demo_transaction by blast
  let ?s = "s0\<lparr>itable := (\<lambda>_. demo_inode)\<rparr>"
  have b: "take 100 (drop 1020 (file_bytes (content s0) demo_inode)) = map (file_byte (content s0) demo_inode) [1020..<1030]"
    by (simp add: file_bytes_def drop_map take_map demo_inode_def)
  have "file_byte (content s0) demo_inode p = (if p < 1024 then 7 else 0)" if "p < 1030" for p
  proof (cases "p < 1024")
    case True
    then show ?thesis using s0(2) by (simp add: file_byte_def file_block_def demo_inode_def)
  next
    case False
    then have "p div 1024 = 1" "p mod 1024 = p - 1024" using that by (simp_all add: div_nat_eqI mod_if)
    then show ?thesis using False that s0(3) by (simp add: file_byte_def file_block_def demo_inode_def)
  qed
  then have "map (file_byte (content s0) demo_inode) [1020..<1030] = [7, 7, 7, 7, 0, 0, 0, 0, 0, 0]"
    by (simp add: upt_rec)
  then have "take 100 (drop 1020 (file_bytes (content s0) demo_inode)) = [7, 7, 7, 7, 0, 0, 0, 0, 0, 0]" using b by simp
  moreover obtain t bs where "readi 0 ToLocal 1020 100 ?s = Ret (int (length bs), bs) t"
      "bs = take 100 (drop 1020 (file_bytes (content s0) demo_inode))"
    using readi_refines_byte_sequence [of ?s 0 1020 100] s0(1) demo_file by auto
  ultimately have "readi 0 ToLocal 1020 100 ?s = Ret (10, [7, 7, 7, 7, 0, 0, 0, 0, 0, 0]) t" by simp
  then show ?thesis by blast
qed

subsection \<open>The inode table\<close>

text \<open>A process that runs with no lock held finds the table free.\<close>

lemma iget_run:
  assumes "calm s"
  shows "iget dev inum s =
    (case find (\<lambda>i. i_ref (itable s i) > 0 \<and> i_dev (itable s i) = dev \<and> i_inum (itable s i) = inum) [0..<NINODE] of
       Some ip \<Rightarrow> Ret ip (s\<lparr>itable := (itable s)(ip := (itable s ip)\<lparr>i_ref := i_ref (itable s ip) + 1\<rparr>)\<rparr>)
     | None \<Rightarrow> (case find (\<lambda>i. i_ref (itable s i) = 0) [0..<NINODE] of
           None \<Rightarrow> Stop (Panic ''iget: no inodes'') (acq ItableLock s)
         | Some ip \<Rightarrow> Ret ip (s\<lparr>itable := (itable s)(ip := (itable s ip)\<lparr>i_dev := dev, i_inum := inum, i_ref := 1, i_valid := False\<rparr>)\<rparr>)))"
  using assms by (simp add: iget_def acquire_calm release_held panic_def split: option.splits)

definition cached_at :: "(nat \<Rightarrow> inode) \<Rightarrow> u32 \<Rightarrow> u32 \<Rightarrow> nat \<Rightarrow> bool" where
  "cached_at tab dev inum i \<longleftrightarrow> i < NINODE \<and> i_ref (tab i) > 0 \<and> i_dev (tab i) = dev \<and> i_inum (tab i) = inum"

text \<open>No inode has two entries that are in use.\<close>

definition itable_ok :: "(nat \<Rightarrow> inode) \<Rightarrow> bool" where
  "itable_ok tab \<longleftrightarrow> (\<forall>i < NINODE. 0 \<le> i_ref (tab i)) \<and> (\<forall>dev inum i j. cached_at tab dev inum i \<longrightarrow> cached_at tab dev inum j \<longrightarrow> i = j)"

lemma iget_gets:
  assumes "calm t" "i < NINODE" "i_ref (itable t i) = 0"
  shows "\<exists>ip u. iget dev n t = Ret ip u \<and> cached_at (itable u) dev n ip \<and> content u = content t"
proof (cases "find (\<lambda>i. i_ref (itable t i) > 0 \<and> i_dev (itable t i) = dev \<and> i_inum (itable t i) = n) [0..<NINODE]")
  case None
  have "find (\<lambda>i. i_ref (itable t i) = 0) [0..<NINODE] \<noteq> None" using assms(2,3) by (auto simp: find_None_iff)
  then obtain ip where ip: "find (\<lambda>i. i_ref (itable t i) = 0) [0..<NINODE] = Some ip" by blast
  then have "ip < NINODE" by (auto simp: find_Some_iff)
  then show ?thesis using iget_run [OF assms(1), of dev n] None ip by (simp add: cached_at_def)
next
  case (Some ip)
  then have "cached_at (itable t) dev n ip" by (auto simp: find_Some_iff cached_at_def)
  then show ?thesis using iget_run [OF assms(1), of dev n] Some by (simp add: cached_at_def)
qed

text \<open>
  C31: the table holds every inode at most once. If the inode is in use, \<^verbatim>\<open>iget\<close> returns its entry with one reference
  more; otherwise it takes an entry without references, gives it one and marks it as not read from the disk. Other entries do not
  change, and the table still has no two entries in use for one inode. It panics exactly when the inode is not in use and
  every entry is.
\<close>

theorem iget_keeps_inodes_unique:
  assumes "calm s" "itable_ok (itable s)"
  shows "if (\<exists>i. cached_at (itable s) dev inum i) \<or> (\<exists>i < NINODE. i_ref (itable s i) = 0)
    then \<exists>ip t. iget dev inum s = Ret ip t \<and> cached_at (itable t) dev inum ip \<and> itable_ok (itable t)
      \<and> (\<forall>j. j \<noteq> ip \<longrightarrow> itable t j = itable s j)
      \<and> (cached_at (itable s) dev inum ip \<and> itable t ip = (itable s ip)\<lparr>i_ref := i_ref (itable s ip) + 1\<rparr>
         \<or> (\<forall>i. \<not> cached_at (itable s) dev inum i) \<and> i_ref (itable s ip) = 0 \<and> i_ref (itable t ip) = 1 \<and> \<not> i_valid (itable t ip))
    else \<exists>t. iget dev inum s = Stop (Panic ''iget: no inodes'') t"
proof (cases "find (\<lambda>i. i_ref (itable s i) > 0 \<and> i_dev (itable s i) = dev \<and> i_inum (itable s i) = inum) [0..<NINODE]")
  case (Some ip)
  then have ip: "cached_at (itable s) dev inum ip" by (auto simp: find_Some_iff cached_at_def)
  let ?tab = "(itable s)(ip := (itable s ip)\<lparr>i_ref := i_ref (itable s ip) + 1\<rparr>)"
  have "cached_at ?tab d n j = cached_at (itable s) d n j" for d n j using ip by (auto simp: cached_at_def)
  then have "itable_ok ?tab" "cached_at ?tab dev inum ip" using assms(2) ip by (auto simp: itable_ok_def cached_at_def)
  then show ?thesis using iget_run [OF assms(1), of dev inum] Some ip by auto
next
  case None
  then have no: "\<not> cached_at (itable s) dev inum i" for i by (auto simp: find_None_iff cached_at_def)
  show ?thesis
  proof (cases "find (\<lambda>i. i_ref (itable s i) = 0) [0..<NINODE]")
    case (Some ip)
    then have ip: "ip < NINODE" "i_ref (itable s ip) = 0" by (auto simp: find_Some_iff)
    let ?tab = "(itable s)(ip := (itable s ip)\<lparr>i_dev := dev, i_inum := inum, i_ref := 1, i_valid := False\<rparr>)"
    have "cached_at ?tab d n j \<longleftrightarrow> (if j = ip then d = dev \<and> n = inum else cached_at (itable s) d n j)" for d n j
      using ip by (auto simp: cached_at_def)
    then have "itable_ok ?tab" "cached_at ?tab dev inum ip" using assms(2) ip no by (auto simp: itable_ok_def)
    then show ?thesis using iget_run [OF assms(1), of dev inum] None Some ip no by auto
  next
    case f: None
    then have "\<not> (\<exists>i < NINODE. i_ref (itable s i) = 0)" by (auto simp: find_None_iff)
    then show ?thesis using iget_run [OF assms(1), of dev inum] None f no by simp
  qed
qed

theorem iget_keeps_inodes_unique_witness:
  "\<exists>ip t. iget 1 5 booted = Ret ip t \<and> cached_at (itable t) 1 5 ip \<and> i_ref (itable t ip) = 1"
proof -
  have r: "i_ref (itable booted i) = 0" for i by (simp add: booted_unfold)
  then have "itable_ok (itable booted)" "\<not> cached_at (itable booted) 1 5 i" for i by (auto simp: itable_ok_def cached_at_def)
  moreover have "\<exists>i < NINODE. i_ref (itable booted i) = 0" using r by (intro exI [of _ 0]) simp
  ultimately show ?thesis using iget_keeps_inodes_unique [of booted 1 5] booted_simps(1) by (simp only: if_True simp_thms) blast
qed

subsection \<open>Directories\<close>

text \<open>A name is what precedes the first zero among its 14 bytes.\<close>

definition cstr :: "nat \<Rightarrow> u8 list \<Rightarrow> u8 list" where
  "cstr n p = takeWhile (\<lambda>c. c \<noteq> 0) (take n p)"

lemma name_diff_eq: "name_diff n p q = 0 \<longleftrightarrow> cstr n p = cstr n q"
proof (induction n arbitrary: p q)
  case (Suc n)
  show ?case
    by (cases p; cases q) (auto simp: cstr_def Suc.IH [unfolded cstr_def] word_uint_eq_iff)
qed (simp add: cstr_def)

definition dirent_at :: "(u32 \<Rightarrow> u8 list) \<Rightarrow> inode \<Rightarrow> nat \<Rightarrow> u8 list" where
  "dirent_at c i k = take 16 (drop (16 * k) (file_bytes c i))"

text \<open>The directory as a list of names and inode numbers; entries with the number 0 are free.\<close>

definition dir_entries :: "(u32 \<Rightarrow> u8 list) \<Rightarrow> inode \<Rightarrow> (u8 list \<times> u16) list" where
  "dir_entries c i = map (\<lambda>k. (cstr DIRSIZ (drop 2 (dirent_at c i k)), ld16 (dirent_at c i k) 0))
     (filter (\<lambda>k. ld16 (dirent_at c i k) 0 \<noteq> 0) [0..<unat (i_size i) div 16])"

definition entry_matches :: "(u32 \<Rightarrow> u8 list) \<Rightarrow> inode \<Rightarrow> u8 list \<Rightarrow> nat \<Rightarrow> bool" where
  "entry_matches c i name k \<longleftrightarrow> ld16 (dirent_at c i k) 0 \<noteq> 0 \<and> cstr DIRSIZ (drop 2 (dirent_at c i k)) = cstr DIRSIZ name"

lemma map_of_find:
  "map_of (map (\<lambda>k. (f k, g k)) (filter P ks)) x = map_option g (find (\<lambda>k. P k \<and> f k = x) ks)"
  by (induction ks) auto

lemma dir_entries_find:
  "map_of (dir_entries c i) (cstr DIRSIZ name) = map_option (\<lambda>k. ld16 (dirent_at c i k) 0) (find (entry_matches c i name) [0..<unat (i_size i) div 16])"
  unfolding dir_entries_def map_of_find entry_matches_def by simp

definition dir_ok :: "(u32 \<Rightarrow> u8 list) \<Rightarrow> inode \<Rightarrow> bool" where
  "dir_ok c i \<longleftrightarrow> file_ok c i \<and> i_type i = T_DIR \<and> 16 dvd unat (i_size i)"

lemma dirent_read:
  assumes "log_ok s" "dir_ok (content s) (itable s dp)" "k < unat (i_size (itable s dp)) div 16"
  shows "\<exists>t. readi dp ToLocal (of_nat (16 * k)) 16 s = Ret (16, dirent_at (content s) (itable s dp) k) t \<and> same_fs s t"
    "unat (of_nat (16 * k) :: u32) = 16 * k"
proof -
  let ?i = "itable s dp"
  have f: "file_ok (content s) ?i" and sz: "unat (i_size ?i) < 2 ^ 31" "16 * k + 16 \<le> unat (i_size ?i)"
    using assms(2,3) by (auto simp: dir_ok_def file_ok_def)
  show u: "unat (of_nat (16 * k) :: u32) = 16 * k" using sz unfolding unat_of_nat by simp
  have "length (dirent_at (content s) ?i k) = 16" using sz(2) by (simp add: dirent_at_def)
  then show "\<exists>t. readi dp ToLocal (of_nat (16 * k)) 16 s = Ret (16, dirent_at (content s) ?i k) t \<and> same_fs s t"
    using readi_run [OF assms(1) f refl, of "of_nat (16 * k)" 16] sz u by (simp add: dirent_at_def)
qed

lemma dirlookup_at_miss:
  assumes "log_ok s" "dir_ok (content s) (itable s dp)" "k < unat (i_size (itable s dp)) div 16" "\<not> entry_matches (content s) (itable s dp) name k"
  shows "\<exists>t. dirlookup_at dp name (of_nat (16 * k)) s = Ret None t \<and> same_fs s t"
  using dirent_read(1) [OF assms(1-3)] assms(4) name_diff_eq [of DIRSIZ name]
  by (auto simp: dirlookup_at_def entry_matches_def namecmp_def)

lemma dirlookup_at_hit:
  assumes "log_ok s" "dir_ok (content s) (itable s dp)" "k < unat (i_size (itable s dp)) div 16" "entry_matches (content s) (itable s dp) name k"
    "i < NINODE" "i_ref (itable s i) = 0"
  shows "\<exists>ip t. dirlookup_at dp name (of_nat (16 * k)) s = Ret (Some (ip, of_nat (16 * k))) t \<and> content t = content s
    \<and> cached_at (itable t) 1 (ucast (ld16 (dirent_at (content s) (itable s dp) k) 0)) ip"
proof -
  let ?de = "dirent_at (content s) (itable s dp) k"
  from dirent_read(1) [OF assms(1-3)] obtain t where t: "readi dp ToLocal (of_nat (16 * k)) 16 s = Ret (16, ?de) t" "same_fs s t" by blast
  note f = same_fsD [OF t(2)]
  have cm: "calm t" using f(1) by (simp add: log_ok_def bio_inv_def)
  let ?n = "ucast (ld16 ?de 0) :: u32"
  have dev: "i_dev (itable t dp) = 1" using assms(2) f(3) by (simp add: dir_ok_def file_ok_def)
  have "\<exists>ip u. iget 1 ?n t = Ret ip u \<and> cached_at (itable u) 1 ?n ip \<and> content u = content t"
    using iget_gets [OF cm assms(5)] assms(6) f(3) by metis
  then obtain ip u where "iget 1 ?n t = Ret ip u" "cached_at (itable u) 1 ?n ip" "content u = content t" by blast
  then have "dirlookup_at dp name (of_nat (16 * k)) s = Ret (Some (ip, of_nat (16 * k))) u"
    using t(1) assms(4) dev name_diff_eq [of DIRSIZ name]
    by (simp add: dirlookup_at_def entry_matches_def namecmp_def)
  then show ?thesis using f(2) \<open>cached_at (itable u) 1 ?n ip\<close> \<open>content u = content t\<close> by auto
qed

lemma dirlookup_skip:
  assumes "log_ok s" "dir_ok (content s) (itable s dp)" "m \<le> unat (i_size (itable s dp)) div 16"
    "\<And>k. k < m \<Longrightarrow> \<not> entry_matches (content s) (itable s dp) name k"
  shows "\<exists>t. searchM (map (\<lambda>k. of_nat (16 * k)) [0..<m] @ ys) (dirlookup_at dp name) s = searchM ys (dirlookup_at dp name) t \<and> same_fs s t"
proof (rule searchM_skip_inv)
  fix x t assume x: "x \<in> set (map (\<lambda>k. of_nat (16 * k) :: u32) [0..<m])" and t: "same_fs s t"
  then obtain k where k: "x = of_nat (16 * k)" "k < m" by auto
  note f = same_fsD [OF t]
  obtain u where "dirlookup_at dp name x t = Ret None u" "same_fs t u"
    using dirlookup_at_miss [of t dp k name] assms f k by auto
  then show "\<exists>u. dirlookup_at dp name x t = Ret None u \<and> same_fs s u" using same_fs_trans [OF t] by blast
qed (use same_fs_refl [OF assms(1)] in simp)

lemma dirlookup_run: "dir_ok c (itable s dp) \<Longrightarrow>
  dirlookup dp name s = searchM (map (\<lambda>k. of_nat (16 * k)) [0..<unat (i_size (itable s dp)) div 16]) (dirlookup_at dp name) s"
  by (auto simp: dirlookup_def dir_offsets_def dir_ok_def elim!: dvdE)

text \<open>
  C32: \<^verbatim>\<open>dirlookup\<close> implements the lookup in a list of names. If the directory has an entry with the name, the call returns an inode in use for the number of
  its first such entry, and the offset of that entry in the directory; otherwise it finds nothing and leaves
  the inode table alone. Names are compared up to their first zero byte or 14 bytes; free entries are skipped. No block changes.
\<close>

theorem dirlookup_refines_map:
  assumes "log_ok s" "dir_ok (content s) (itable s dp)" "i < NINODE" "i_ref (itable s i) = 0"
  shows "case map_of (dir_entries (content s) (itable s dp)) (cstr DIRSIZ name) of
      None \<Rightarrow> \<exists>t. dirlookup dp name s = Ret None t \<and> itable t = itable s \<and> content t = content s
    | Some inum \<Rightarrow> \<exists>ip k t. dirlookup dp name s = Ret (Some (ip, of_nat (16 * k))) t \<and> cached_at (itable t) 1 (ucast inum) ip
        \<and> ld16 (dirent_at (content s) (itable s dp) k) 0 = inum \<and> content t = content s"
proof (cases "find (entry_matches (content s) (itable s dp) name) [0..<unat (i_size (itable s dp)) div 16]")
  case None
  then have "\<exists>t. dirlookup dp name s = Ret None t \<and> same_fs s t"
    using dirlookup_skip [OF assms(1,2) le_refl, of name "[]"] dirlookup_run [OF assms(2)] by (auto simp: find_None_iff)
  then show ?thesis using same_fsD dir_entries_find [of "content s" "itable s dp" name] None by (auto split: option.splits)
next
  case (Some k)
  let ?m = "unat (i_size (itable s dp)) div 16"
  have k: "k < ?m" "entry_matches (content s) (itable s dp) name k" "\<And>j. j < k \<Longrightarrow> \<not> entry_matches (content s) (itable s dp) name j"
    using Some by (auto simp: find_Some_iff)
  have "[0..<?m] = [0..<k] @ k # [Suc k..<?m]" using k(1) by (metis le_add_diff_inverse less_imp_le_nat upt_add_eq_append upt_conv_Cons zero_le)
  then obtain t where t: "dirlookup dp name s = searchM (of_nat (16 * k) # map (\<lambda>k. of_nat (16 * k)) [Suc k..<?m]) (dirlookup_at dp name) t" "same_fs s t"
    using dirlookup_skip [OF assms(1,2) less_imp_le_nat [OF k(1)] k(3)] dirlookup_run [OF assms(2), of name] by (metis list.simps(9) map_append)
  note f = same_fsD [OF t(2)]
  from dirlookup_at_hit [of t dp k name i] obtain ip u where "dirlookup_at dp name (of_nat (16 * k)) t = Ret (Some (ip, of_nat (16 * k))) u"
      "content u = content s" "cached_at (itable u) 1 (ucast (ld16 (dirent_at (content s) (itable s dp) k) 0)) ip"
    using assms f k by auto
  then show ?thesis using t(1) dir_entries_find [of "content s" "itable s dp" name] Some by (auto intro!: exI [of _ k])
qed

text \<open>A directory with the entries \<open>.\<close> and \<open>ab\<close>, in block 200.\<close>

definition demo_dir :: "u8 list" where
  "demo_dir = dirent_bytes 1 [46] @ dirent_bytes 5 [97, 98] @ replicate 992 0"

definition demo_dir_inode :: inode where
  "demo_dir_inode = \<lparr>i_dev = 1, i_inum = 1, i_ref = 1, i_valid = True, i_type = 1, i_major = 0, i_minor = 0, i_nlink = 1, i_size = 32,
     i_addrs = (\<lambda>_. 200)\<rparr>"

lemma length_dirent_bytes [simp]: "length (dirent_bytes n nm) = 16"
  by (simp add: dirent_bytes_def)

lemma demo_dir_bytes:
  assumes "c 200 = demo_dir"
  shows "file_bytes c demo_dir_inode = dirent_bytes 1 [46] @ dirent_bytes 5 [97, 98]"
proof -
  have "file_byte c demo_dir_inode p = demo_dir ! p" if "p < 32" for p
    using that assms by (simp add: file_byte_def file_block_def demo_dir_inode_def)
  then have "file_bytes c demo_dir_inode = map (\<lambda>p. demo_dir ! p) [0..<32]"
    by (auto simp: file_bytes_def demo_dir_inode_def)
  also have "\<dots> = take 32 demo_dir" by (intro nth_equalityI) (auto simp: demo_dir_def nth_append)
  finally show ?thesis by (simp add: demo_dir_def)
qed

lemma demo_dir_entries:
  assumes "c 200 = demo_dir"
  shows "dir_entries c demo_dir_inode = [([46], 1), ([97, 98], 5)]"
proof -
  have "dirent_at c demo_dir_inode 0 = dirent_bytes 1 [46]" "dirent_at c demo_dir_inode 1 = dirent_bytes 5 [97, 98]"
    using demo_dir_bytes [of c, OF assms] by (simp_all add: dirent_at_def)
  moreover have "ld16 (dirent_bytes 1 [46]) 0 = 1" "ld16 (dirent_bytes 5 [97, 98]) 0 = 5"
    by (simp_all add: dirent_bytes_def le16_def ld16_def)
  moreover have "cstr DIRSIZ (drop 2 (dirent_bytes 1 [46])) = [46]" "cstr DIRSIZ (drop 2 (dirent_bytes 5 [97, 98])) = [97, 98]"
    by code_simp+
  moreover have "[0..<unat (i_size demo_dir_inode) div 16] = [0, 1]" by (simp add: demo_dir_inode_def upt_rec)
  ultimately show ?thesis by (simp add: dir_entries_def)
qed

theorem dirlookup_refines_map_witness:
  "\<exists>s ip off t. dirlookup 0 [97, 98] s = Ret (Some (ip, off)) t \<and> i_inum (itable t ip) = 5 \<and> i_ref (itable t ip) > 0"
proof -
  obtain s0 where s0: "log_ok s0" "log_outstanding (klog s0) = 1" "lh_n (klog s0) = 1" "log_size (klog s0) = 30" "log_start (klog s0) = 2"
    using demo_transaction by blast
  then have "txn (Suc 4) s0" "data_block s0 200" by (simp_all add: txn_def data_block_def in_log_def)
  from log_update_run [OF this, of "\<lambda>_. demo_dir"] obtain s1 where s1: "txn 4 s1" "content s1 200 = demo_dir"
    by (auto simp: demo_dir_def)
  let ?s = "s1\<lparr>itable := (\<lambda>_. demo_dir_inode\<lparr>i_ref := 0\<rparr>)(0 := demo_dir_inode)\<rparr>"
  have "k < 1" if "k * 1024 < 32" for k :: nat using that by linarith
  then have "dir_ok (content s1) demo_dir_inode"
    by (auto simp: dir_ok_def file_ok_def demo_dir_inode_def file_block_def)
  moreover have "map_of (dir_entries (content s1) demo_dir_inode) (cstr DIRSIZ [97, 98]) = Some 5"
    using demo_dir_entries [of "content s1", OF s1(2)] by (simp add: cstr_def)
  ultimately show ?thesis
    using dirlookup_refines_map [of ?s 0 1 "[97, 98]"] s1(1) by (auto simp: txn_def cached_at_def)
qed

end
