(* ===== verification/Paths.thy ===== *)
theory Paths
  imports Contents
begin

section \<open>Path names and the loops of the file system\<close>

text \<open>
  Lemmas on \<^verbatim>\<open>skipelem\<close> and \<^verbatim>\<open>namex\<close> of \<^verbatim>\<open>kernel/fs.c\<close>, and the termination of the loops that move the bytes of a file.
\<close>

subsection \<open>The elements of a path\<close>

text \<open>The path cut at every slash, empty pieces included.\<close>

fun pieces :: "u8 list \<Rightarrow> u8 list list" where
  "pieces [] = [[]]"
| "pieces (c # cs) = (if c = SLASH then [] # pieces cs else (c # hd (pieces cs)) # tl (pieces cs))"

definition path_elements :: "u8 list \<Rightarrow> u8 list list" where
  "path_elements path = map (take DIRSIZ) (filter (\<lambda>e. e \<noteq> []) (pieces path))"

text \<open>The names that the loop of \<^verbatim>\<open>namex\<close> gets from \<^verbatim>\<open>skipelem\<close>.\<close>

function skipelems :: "u8 list \<Rightarrow> u8 list list" where
  "skipelems path = (case skipelem path of None \<Rightarrow> [] | Some (rest, name) \<Rightarrow> name # skipelems rest)"
  by pat_completeness auto
termination
  by (relation "measure length") (auto dest: skipelem_shorter)

declare skipelems.simps [simp del]

lemma pieces_nonempty [simp]: "pieces p \<noteq> []"
  by (cases p) auto

lemma pieces_slashes: "filter (\<lambda>e. e \<noteq> []) (pieces (dropWhile (\<lambda>c. c = SLASH) p)) = filter (\<lambda>e. e \<noteq> []) (pieces p)"
  by (induction p) auto

lemma pieces_first:
  "pieces p = takeWhile (\<lambda>c. c \<noteq> SLASH) p #
     (case dropWhile (\<lambda>c. c \<noteq> SLASH) p of [] \<Rightarrow> [] | _ # rest \<Rightarrow> pieces rest)"
  by (induction p) auto

lemma filter_pieces_rest:
  "filter (\<lambda>e. e \<noteq> []) (case dropWhile (\<lambda>c. c \<noteq> SLASH) p of [] \<Rightarrow> [] | _ # rest \<Rightarrow> pieces rest)
   = filter (\<lambda>e. e \<noteq> []) (pieces (dropWhile (\<lambda>c. c = SLASH) (dropWhile (\<lambda>c. c \<noteq> SLASH) p)))"
proof (cases "dropWhile (\<lambda>c. c \<noteq> SLASH) p")
  case (Cons c rest)
  then have "c = SLASH" using hd_dropWhile [of "\<lambda>c. c \<noteq> SLASH" p] by simp
  then show ?thesis using Cons pieces_slashes [of rest] by simp
next
  case Nil
  show ?thesis unfolding Nil by simp
qed

text \<open>
  C33: the elements of a path. The successive calls of \<^verbatim>\<open>skipelem\<close> return the non-empty pieces of the path between its slashes, in
  order and each cut to 14 bytes, however many slashes precede, separate or follow them.
\<close>

theorem skipelem_splits_path: "skipelems path = path_elements path"
proof (induction path rule: skipelems.induct)
  case (1 path)
  define p where "p = dropWhile (\<lambda>c. c = SLASH) path"
  show ?case
  proof (cases "p = []")
    case True
    then have "filter (\<lambda>e. e \<noteq> []) (pieces path) = []" using pieces_slashes [of path] True unfolding p_def by (simp only:) simp
    moreover have "skipelem path = None" using True by (simp add: skipelem_def p_def Let_def)
    ultimately show ?thesis by (simp add: skipelems.simps path_elements_def)
  next
    case False
    let ?name = "takeWhile (\<lambda>c. c \<noteq> SLASH) p" and ?rest = "dropWhile (\<lambda>c. c = SLASH) (dropWhile (\<lambda>c. c \<noteq> SLASH) p)"
    have e: "skipelem path = Some (?rest, take DIRSIZ ?name)" using False by (simp add: skipelem_def p_def Let_def)
    have "hd p \<noteq> SLASH" using hd_dropWhile [of "\<lambda>c. c = SLASH" path] False by (simp add: p_def)
    then have "?name \<noteq> []" using False by (cases p) auto
    then have "filter (\<lambda>e. e \<noteq> []) (pieces path) = ?name # filter (\<lambda>e. e \<noteq> []) (pieces ?rest)"
      using pieces_slashes [of path] pieces_first [of p] filter_pieces_rest [of p] by (simp add: p_def)
    moreover have "skipelems ?rest = path_elements ?rest" using "1.IH" [OF e refl] by simp
    ultimately show ?thesis using e by (simp add: skipelems.simps [of path] path_elements_def)
  qed
qed

end
