(* ===== verification/Files.thy ===== *)
theory Files
  imports Sysfile IoFrames Paths
begin

section \<open>Descriptors and references of open files\<close>

text \<open>
  What the system calls on file descriptors do to the table of open files and to the descriptor tables of the
  processes. The lemmas abstract the kernel state to a view of these tables, show what each routine does to the view, and conclude that
  the reference count of every open file is the number of descriptors that name it, in every state the
  system calls reach.
\<close>

subsection \<open>The view\<close>

record fview =
  v_ref :: "nat \<Rightarrow> int"
  v_type :: "nat \<Rightarrow> fdtype"
  v_ofile :: "nat \<Rightarrow> nat \<Rightarrow> nat option"
  v_cur :: "nat option"

definition fview_of :: "kern \<Rightarrow> fview" where
  "fview_of s = \<lparr>v_ref = \<lambda>f. f_ref (ftable s f), v_type = \<lambda>f. f_type (ftable s f),
     v_ofile = \<lambda>p. p_ofile (procs s p), v_cur = c_proc (mycpu s)\<rparr>"

lemma fview_of_sel [simp]:
  "v_ref (fview_of s) f = f_ref (ftable s f)" "v_type (fview_of s) f = f_type (ftable s f)"
  "v_ofile (fview_of s) p = p_ofile (procs s p)" "v_cur (fview_of s) = c_proc (mycpu s)"
  by (simp_all add: fview_of_def)

interpretation files: io_blind fview_of
  by unfold_locales (auto simp: fview_of_def mycpu_def cpuid_def fun_eq_iff)

definition v_close :: "nat \<Rightarrow> fview \<Rightarrow> fview" where
  "v_close f v = (if v_ref v f > 1 then v\<lparr>v_ref := (v_ref v)(f := v_ref v f - 1)\<rparr>
     else v\<lparr>v_ref := (v_ref v)(f := 0), v_type := (v_type v)(f := FD_NONE)\<rparr>)"

definition v_set_fd :: "nat \<Rightarrow> nat \<Rightarrow> nat option \<Rightarrow> fview \<Rightarrow> fview" where
  "v_set_fd p fd fo v = v\<lparr>v_ofile := (v_ofile v)(p := (v_ofile v p)(fd := fo))\<rparr>"

definition v_set_ref :: "nat \<Rightarrow> int \<Rightarrow> fview \<Rightarrow> fview" where
  "v_set_ref f r v = v\<lparr>v_ref := (v_ref v)(f := r)\<rparr>"

lemma fview_set_file:
  "set_file f g s = Ret x t \<Longrightarrow> fview_of t = (fview_of s)\<lparr>v_ref := (v_ref (fview_of s))(f := f_ref (g (ftable s f))),
     v_type := (v_type (fview_of s))(f := f_type (g (ftable s f)))\<rparr>"
  by (auto simp: fview_of_def mycpu_def cpuid_def fun_eq_iff)

lemma fview_set_ref:
  assumes "set_file f g s = Ret x t" "f_type (g (ftable s f)) = f_type (ftable s f)"
  shows "fview_of t = v_set_ref f (f_ref (g (ftable s f))) (fview_of s)"
  using fview_set_file [OF assms(1)] assms(2) by (simp add: v_set_ref_def fview_of_def fun_upd_idem)

lemma fview_eqD:
  assumes "fview_of t = fview_of s"
  shows "f_ref (ftable t f) = f_ref (ftable s f)" "f_type (ftable t f) = f_type (ftable s f)"
    "p_ofile (procs t p) = p_ofile (procs s p)" "c_proc (mycpu t) = c_proc (mycpu s)"
  using assms fview_of_sel by metis+

lemma fview_curproc:
  assumes "curproc s = Ret p t" shows "fview_of t = fview_of s" "v_cur (fview_of s) = Some p"
proof -
  show v: "fview_of t = fview_of s" using keepsD [OF files.keeps_curproc assms] .
  from assms obtain a b where "push_off s = Ret () a" and b: "c_proc (mycpu a) = Some p"
    by (auto simp: curproc_def myproc_def bindM_eq_Ret seqM_eq_Ret split: option.splits)
  then show "v_cur (fview_of s) = Some p" using keepsD [OF files.keeps_push_off, of s "()" a] by (metis fview_of_sel(4))
qed

subsection \<open>The routines on the view\<close>

lemma filealloc_view:
  assumes "filealloc s = Ret fo t"
  shows "fo = None \<Longrightarrow> fview_of t = fview_of s"
    and "fo = Some f \<Longrightarrow> v_ref (fview_of s) f = 0 \<and> fview_of t = v_set_ref f 1 (fview_of s)"
proof -
  from assms obtain a where a: "acquire FtableLock s = Ret () a" by (auto simp: filealloc_def seqM_eq_Ret)
  have v: "fview_of a = fview_of s" using keepsD [OF files.keeps_acquire a] .
  note r = fview_eqD(1) [OF v]
  show "fview_of t = fview_of s" if "fo = None"
    using assms a v that keepsD [OF files.keeps_release]
    by (auto simp: filealloc_def seqM_eq_Ret bindM_eq_Ret split: option.splits)
  show "v_ref (fview_of s) f = 0 \<and> fview_of t = v_set_ref f 1 (fview_of s)" if "fo = Some f"
  proof -
    from assms a that obtain b where f: "find (\<lambda>f. f_ref (ftable a f) = 0) [0..<NFILE] = Some f"
      and b: "set_file f (\<lambda>x. x\<lparr>f_ref := 1\<rparr>) a = Ret () b" "release FtableLock b = Ret () t"
      by (auto simp: filealloc_def seqM_eq_Ret bindM_eq_Ret split: option.splits)
    have "fview_of t = v_set_ref f 1 (fview_of s)"
      using fview_set_ref [OF b(1)] keepsD [OF files.keeps_release b(2)] v by simp
    then show ?thesis using f r by (auto simp: find_Some_iff)
  qed
qed

lemma filedup_view:
  assumes "filedup f s = Ret g t"
  shows "g = f" "v_ref (fview_of s) f \<ge> 1" "fview_of t = v_set_ref f (v_ref (fview_of s) f + 1) (fview_of s)"
proof -
  from assms obtain a b where a: "acquire FtableLock s = Ret () a" "f_ref (ftable a f) \<ge> 1" "g = f"
    and b: "set_file f (\<lambda>x. x\<lparr>f_ref := f_ref x + 1\<rparr>) a = Ret () b" "release FtableLock b = Ret () t"
    by (auto simp: filedup_def seqM_eq_Ret bindM_eq_Ret split: if_splits)
  have v: "fview_of a = fview_of s" using keepsD [OF files.keeps_acquire a(1)] .
  note r = fview_eqD(1) [OF v]
  show "g = f" "v_ref (fview_of s) f \<ge> 1" using a r by auto
  show "fview_of t = v_set_ref f (v_ref (fview_of s) f + 1) (fview_of s)"
    using fview_set_ref [OF b(1)] keepsD [OF files.keeps_release b(2)] v r by simp
qed

definition close_rest :: "kfile \<Rightarrow> unit K" where
  "close_rest ff = (case f_type ff of FD_PIPE \<Rightarrow> pipeclose (f_pipe ff) (f_writable ff) | FD_NONE \<Rightarrow> returnM ()
     | _ \<Rightarrow> seqM begin_op (seqM (iput (f_ip ff)) end_op))"

lemma fileclose_eq:
  "fileclose f =
     seqM (acquire FtableLock) (
     bindM (get_file f f_ref) (\<lambda>r.
     if r < 1 then panic ''fileclose'' else
     seqM (set_file f (\<lambda>x. x\<lparr>f_ref := f_ref x - 1\<rparr>)) (
     if r - 1 > 0 then release FtableLock else
     bindM (get_file f id) (\<lambda>ff.
     seqM (set_file f (\<lambda>x. x\<lparr>f_ref := 0, f_type := FD_NONE\<rparr>)) (
     seqM (release FtableLock) (close_rest ff))))))"
  unfolding fileclose_def close_rest_def ..

lemma keeps_close_rest: "keeps fview_of (close_rest ff)"
  unfolding close_rest_def by (cases "f_type ff") (auto intro!: keeps_rules files.keeps_pipeclose files.keeps_fs)

lemma fileclose_last:
  assumes "seqM (set_file f (\<lambda>x. x\<lparr>f_ref := 0, f_type := FD_NONE\<rparr>)) (seqM (release FtableLock) (close_rest ff)) s = Ret x t"
  shows "fview_of t = (fview_of s)\<lparr>v_ref := (v_ref (fview_of s))(f := 0), v_type := (v_type (fview_of s))(f := FD_NONE)\<rparr>"
proof -
  from assms obtain y c z d where c: "set_file f (\<lambda>x. x\<lparr>f_ref := 0, f_type := FD_NONE\<rparr>) s = Ret y c"
    and d: "release FtableLock c = Ret z d" "close_rest ff d = Ret x t"
    unfolding seqM_eq_Ret by blast
  show ?thesis using fview_set_file [OF c] keepsD [OF files.keeps_release d(1)] keepsD [OF keeps_close_rest d(2)] by simp
qed

lemma fileclose_view:
  assumes "fileclose f s = Ret x t"
  shows "v_ref (fview_of s) f \<ge> 1" "fview_of t = v_close f (fview_of s)"
proof -
  from assms obtain a where a: "acquire FtableLock s = Ret () a" by (auto simp: fileclose_def seqM_eq_Ret)
  have v: "fview_of a = fview_of s" using keepsD [OF files.keeps_acquire a] .
  note r = fview_eqD(1) [OF v]
  let ?b = "a\<lparr>ftable := (ftable a)(f := (ftable a f)\<lparr>f_ref := f_ref (ftable a f) - 1\<rparr>)\<rparr>"
  have vb: "fview_of ?b = v_set_ref f (f_ref (ftable s f) - 1) (fview_of s)" 
    using fview_set_ref [of f "\<lambda>x. x\<lparr>f_ref := f_ref x - 1\<rparr>" a] v r by simp
  let ?last = "seqM (set_file f (\<lambda>x. x\<lparr>f_ref := 0, f_type := FD_NONE\<rparr>)) (seqM (release FtableLock) (close_rest (ftable ?b f)))"
  have run: "fileclose f s = (if f_ref (ftable a f) < 1 then panic ''fileclose'' a else if f_ref (ftable a f) - 1 > 0 then release FtableLock ?b
      else ?last ?b)"
    by (simp add: fileclose_eq a)
  have ge: "\<not> f_ref (ftable a f) < 1" using assms unfolding run by (cases "f_ref (ftable a f) < 1") simp_all
  then show "v_ref (fview_of s) f \<ge> 1" by (simp add: r)
  show "fview_of t = v_close f (fview_of s)"
  proof (cases "f_ref (ftable a f) - 1 > 0")
    case True
    then have "release FtableLock ?b = Ret x t" using assms unfolding run if_not_P [OF ge] if_P [OF True] by blast
    then show ?thesis using keepsD [OF files.keeps_release, of FtableLock ?b x t] vb True r by (simp add: v_close_def v_set_ref_def)
  next
    case False
    then have "?last ?b = Ret x t" using assms unfolding run if_not_P [OF ge] if_not_P [OF False] by blast
    from fileclose_last [OF this] show ?thesis unfolding vb using False r by (simp add: v_close_def v_set_ref_def)
  qed
qed

lemma set_ofile_view: "set_ofile p fd fo s = Ret x t \<Longrightarrow> fview_of t = v_set_fd p fd fo (fview_of s)"
  by (auto simp: set_ofile_def set_proc_def fview_of_def v_set_fd_def mycpu_def cpuid_def fun_eq_iff)

lemma fdalloc_view:
  assumes "fdalloc f s = Ret fd t"
  shows "fd < 0 \<Longrightarrow> fview_of t = fview_of s"
    and "\<not> fd < 0 \<Longrightarrow> \<exists>p. v_cur (fview_of s) = Some p \<and> v_ofile (fview_of s) p (nat fd) = None
      \<and> fview_of t = v_set_fd p (nat fd) (Some f) (fview_of s)"
proof -
  from assms obtain p a where p: "curproc s = Ret p a" by (auto simp: fdalloc_def bindM_eq_Ret)
  note c = fview_curproc [OF p]
  show "fview_of t = fview_of s" if "fd < 0"
    using assms p c that by (auto simp: fdalloc_def get_proc_def bindM_eq_Ret seqM_eq_Ret split: option.splits)
  show "\<exists>p. v_cur (fview_of s) = Some p \<and> v_ofile (fview_of s) p (nat fd) = None
      \<and> fview_of t = v_set_fd p (nat fd) (Some f) (fview_of s)" if "\<not> fd < 0"
  proof -
    from assms p that obtain k where k: "find (\<lambda>fd. p_ofile (procs a p) fd = None) [0..<NOFILE] = Some k" "fd = int k"
      "set_ofile p k (Some f) a = Ret () t"
      by (auto simp: fdalloc_def get_proc_def bindM_eq_Ret seqM_eq_Ret split: option.splits)
    then show ?thesis using set_ofile_view [OF k(3)] c fview_eqD(3) [OF c(1)] by (auto simp: find_Some_iff)
  qed
qed

subsection \<open>The balance of references\<close>

text \<open>
  The references of a file are its descriptors and \<open>e f\<close> more, which a routine holds; the files \<open>N\<close> are allocated and have no type yet.
\<close>

definition fd_refs :: "(nat \<Rightarrow> nat \<Rightarrow> nat option) \<Rightarrow> nat \<Rightarrow> (nat \<times> nat) set" where
  "fd_refs tab f = {(p, fd). tab p fd = Some f}"

definition balance :: "(nat \<Rightarrow> int) \<Rightarrow> nat set \<Rightarrow> fview \<Rightarrow> bool" where
  "balance e N v \<longleftrightarrow> (\<forall>f. finite (fd_refs (v_ofile v) f) \<and> v_ref v f = int (card (fd_refs (v_ofile v) f)) + e f
     \<and> (v_type v f \<noteq> FD_NONE \<longleftrightarrow> v_ref v f > 0 \<and> f \<notin> N))"

lemma fd_refs_set:
  "fd_refs (tab(p := (tab p)(fd := new))) f = (if new = Some f then insert (p, fd) (fd_refs tab f) else fd_refs tab f - {(p, fd)})"
  by (auto simp: fd_refs_def split: if_splits)

lemma in_fd_refs [simp]: "(p, fd) \<in> fd_refs tab f \<longleftrightarrow> tab p fd = Some f"
  by (simp add: fd_refs_def)

lemma balance_card:
  assumes "balance e N v" "v_ofile v p fd = Some f"
  shows "card (fd_refs (v_ofile v) f) > 0"
proof -
  have "finite (fd_refs (v_ofile v) f)" using assms(1) by (simp add: balance_def)
  then show ?thesis using assms(2) by (auto simp: card_gt_0_iff fd_refs_def)
qed

lemma balance_alloc: "balance e N v \<Longrightarrow> v_ref v f = 0 \<Longrightarrow> balance (e(f := e f + 1)) (insert f N) (v_set_ref f 1 v)"
  unfolding balance_def v_set_ref_def by auto

lemma balance_dup: "balance e N v \<Longrightarrow> v_ref v f \<ge> 1 \<Longrightarrow> balance (e(f := e f + 1)) N (v_set_ref f (v_ref v f + 1) v)"
  unfolding balance_def v_set_ref_def by auto

lemma balance_close: "balance e N v \<Longrightarrow> v_ref v f \<ge> 1 \<Longrightarrow> balance (e(f := e f - 1)) N (v_close f v)"
  unfolding balance_def v_close_def by auto

lemma balance_type:
  "balance e N v \<Longrightarrow> v_ref v f > 0 \<Longrightarrow> ty \<noteq> FD_NONE \<Longrightarrow> balance e (N - {f}) (v\<lparr>v_ref := (v_ref v)(f := v_ref v f), v_type := (v_type v)(f := ty)\<rparr>)"
  unfolding balance_def by auto

lemma balance_take:
  assumes "balance e N v" "v_ofile v p fd = None"
  shows "balance (e(f := e f - 1)) N (v_set_fd p fd (Some f) v)"
  using assms unfolding balance_def v_set_fd_def by (auto simp: fd_refs_set)

lemma balance_drop:
  assumes "balance e N v" "v_ofile v p fd = Some f"
  shows "balance (e(f := e f + 1)) N (v_set_fd p fd None v)"
  using assms balance_card [OF assms] unfolding balance_def v_set_fd_def
  by (auto simp: fd_refs_set card_Diff_singleton_if of_nat_diff)

lemma balance_cur: "balance e N v \<Longrightarrow> balance e N (v\<lparr>v_cur := c\<rparr>)"
  by (simp add: balance_def)

definition files_ok :: "kern \<Rightarrow> bool" where
  "files_ok s \<longleftrightarrow> balance (\<lambda>_. 0) {} (fview_of s)"

text \<open>A descriptor of the current process names a file that is open.\<close>

lemma balance_open:
  assumes "balance e N v" "v_ofile v p fd = Some f" "e f \<ge> 0"
  shows "v_ref v f \<ge> 1"
  using assms balance_card [OF assms(1,2)] unfolding balance_def by auto

subsection \<open>The system calls\<close>

lemma keeps_args: "keeps fview_of (argint n)" "keeps fview_of (argaddr n)"
  unfolding argint_def argaddr_def argraw_def get_tf_def by (intro files.keeps_io)+

lemma argfd_view:
  assumes "argfd n s = Ret a t"
  shows "fview_of t = fview_of s" "a = Some (fd, f) \<Longrightarrow> \<exists>p. v_cur (fview_of s) = Some p \<and> v_ofile (fview_of s) p fd = Some f"
proof -
  from assms obtain k u where k: "argint n s = Ret k u" by (auto simp: argfd_def bindM_eq_Ret)
  note u = keepsD [OF keeps_args(1) k]
  show "fview_of t = fview_of s" using assms k u fview_curproc
    by (auto simp: argfd_def get_proc_def bindM_eq_Ret split: if_splits)
  show "\<exists>p. v_cur (fview_of s) = Some p \<and> v_ofile (fview_of s) p fd = Some f" if "a = Some (fd, f)"
  proof -
    from assms k that obtain p where p: "curproc u = Ret p t" "p_ofile (procs t p) fd = Some f"
      by (auto simp: argfd_def get_proc_def bindM_eq_Ret split: if_splits)
    then show ?thesis using fview_curproc [OF p(1)] u by (auto simp flip: fview_of_sel(3))
  qed
qed

lemma sys_dup_files:
  assumes "files_ok s" "sys_dup s = Ret r t"
  shows "files_ok t"
proof -
  from assms(2) obtain a u where a: "argfd 0 s = Ret a u" by (auto simp: sys_dup_def bindM_eq_Ret)
  note u = argfd_view [OF a]
  show ?thesis
  proof (cases a)
    case None
    then show ?thesis using assms a u by (auto simp: sys_dup_def files_ok_def)
  next
    case (Some x)
    then obtain fd f where x: "a = Some (fd, f)" by (cases x) auto
    from assms(2) a x obtain k w where k: "fdalloc f u = Ret k w" by (auto simp: sys_dup_def bindM_eq_Ret)
    note w = fdalloc_view [OF k]
    show ?thesis
    proof (cases "k < 0")
      case True
      then show ?thesis using assms a x k u w by (auto simp: sys_dup_def files_ok_def)
    next
      case False
      then obtain g where g: "filedup f w = Ret g t" using assms(2) a x k by (auto simp: sys_dup_def bindM_eq_Ret)
      obtain p where p: "v_ofile (fview_of u) p (nat k) = None" "fview_of w = v_set_fd p (nat k) (Some f) (fview_of u)"
        using w(2) [OF False] by blast
      have "balance ((\<lambda>_. 0)(f := 0 - 1)) {} (fview_of w)"
        using balance_take [OF _ p(1), of "\<lambda>_. 0"] assms(1) u(1) p(2) by (simp add: files_ok_def)
      from balance_dup [OF this filedup_view(2) [OF g]] filedup_view(3) [OF g]
      show ?thesis by (simp add: files_ok_def fun_upd_idem)
    qed
  qed
qed

lemma sys_close_files:
  assumes "files_ok s" "sys_close s = Ret r t"
  shows "files_ok t"
proof -
  from assms(2) obtain a u where a: "argfd 0 s = Ret a u" by (auto simp: sys_close_def bindM_eq_Ret)
  note u = argfd_view [OF a]
  show ?thesis
  proof (cases a)
    case None
    then show ?thesis using assms a u by (auto simp: sys_close_def files_ok_def)
  next
    case (Some x)
    then obtain fd f where x: "a = Some (fd, f)" by (cases x) auto
    from assms(2) a x obtain p y v w where p: "curproc u = Ret p v" and o: "set_ofile p fd None v = Ret () w" and c: "fileclose f w = Ret () t"
      by (auto simp: sys_close_def bindM_eq_Ret seqM_eq_Ret)
    note v = fview_curproc [OF p]
    have "v_ofile (fview_of v) p fd = Some f" using u(2) [OF x] v u(1) by simp
    then have "balance ((\<lambda>_. 0)(f := 0 + 1)) {} (fview_of w)"
      using balance_drop [of "\<lambda>_. 0" "{}" "fview_of v" p fd f] set_ofile_view [OF o] assms(1) u(1) v(1) by (simp add: files_ok_def)
    from balance_close [OF this fileclose_view(1) [OF c]] fileclose_view(2) [OF c]
    show ?thesis by (simp add: files_ok_def fun_upd_idem)
  qed
qed

lemma keeps_argstr: "keeps fview_of (argstr n k)"
  unfolding argstr_def fetchstr_def Let_def by (intro files.keeps_io keeps_args)

lemma keeps_create: "keeps fview_of (create path ty major minor)"
  unfolding create_def create_new_def by (auto intro!: files.keeps_fs split: option.splits)

lemma keeps_open_inode: "keeps fview_of (open_inode path omode)"
  unfolding open_inode_def by (auto intro!: files.keeps_fs keeps_create split: option.splits)

lemma keeps_end_with: "keeps fview_of (end_with r)" and keeps_open_bad: "keeps fview_of (open_bad ip)"
  unfolding open_bad_def end_with_def by (intro files.keeps_fs)+

lemma seqM_RetE:
  assumes "seqM m n s = Ret y u" obtains x t where "m s = Ret x t" "n t = Ret y u"
  using assms by (auto simp: seqM_eq_Ret)

lemma bindM_RetE:
  assumes "bindM m n s = Ret y u" obtains x t where "m s = Ret x t" "n x t = Ret y u"
  using assms by (auto simp: bindM_eq_Ret)

lemma set_file_type:
  assumes "set_file f g s = Ret x t" "balance e N (fview_of s)" "f_ref (ftable s f) > 0"
    "f_ref (g (ftable s f)) = f_ref (ftable s f)" "f_type (g (ftable s f)) \<noteq> FD_NONE"
  shows "balance e (N - {f}) (fview_of t)" "f_ref (ftable t f) > 0" "f_type (ftable t f) \<noteq> FD_NONE"
  using fview_set_file [OF assms(1)] balance_type [OF assms(2), of f "f_type (g (ftable s f))"] assms by auto

lemma open_file_view:
  assumes "open_file ip f fd omode s = Ret r t" "balance e N (fview_of s)" "f_ref (ftable s f) > 0"
  shows "balance e (N - {f}) (fview_of t)"
proof -
  define i where "i = itable s ip"
  have "seqM (if i_type i = T_DEVICE then set_file f (\<lambda>x. x\<lparr>f_type := FD_DEVICE, f_major := i_major i\<rparr>)
        else set_file f (\<lambda>x. x\<lparr>f_type := FD_INODE, f_off := 0\<rparr>)) (
     seqM (set_file f (\<lambda>x. x\<lparr>f_ip := ip, f_readable := (omode AND O_WRONLY = 0),
       f_writable := (omode AND O_WRONLY \<noteq> 0 \<or> omode AND O_RDWR \<noteq> 0)\<rparr>)) (
     seqM (whenM (omode AND O_TRUNC \<noteq> 0 \<and> i_type i = T_FILE) (itrunc ip)) (seqM (iunlock ip) (end_with (word_of_int fd))))) s = Ret r t"
    using assms(1) unfolding open_file_def get_inode_def bindM_gets i_def id_apply .
  then obtain y a where a: "(if i_type i = T_DEVICE then set_file f (\<lambda>x. x\<lparr>f_type := FD_DEVICE, f_major := i_major i\<rparr>)
        else set_file f (\<lambda>x. x\<lparr>f_type := FD_INODE, f_off := 0\<rparr>)) s = Ret y a"
    and a2: "seqM (set_file f (\<lambda>x. x\<lparr>f_ip := ip, f_readable := (omode AND O_WRONLY = 0),
       f_writable := (omode AND O_WRONLY \<noteq> 0 \<or> omode AND O_RDWR \<noteq> 0)\<rparr>)) (
       seqM (whenM (omode AND O_TRUNC \<noteq> 0 \<and> i_type i = T_FILE) (itrunc ip)) (seqM (iunlock ip) (end_with (word_of_int fd)))) a = Ret r t"
    by (rule seqM_RetE)
  from a2 obtain z b where b: "set_file f (\<lambda>x. x\<lparr>f_ip := ip, f_readable := (omode AND O_WRONLY = 0),
       f_writable := (omode AND O_WRONLY \<noteq> 0 \<or> omode AND O_RDWR \<noteq> 0)\<rparr>) a = Ret z b"
    and c: "seqM (whenM (omode AND O_TRUNC \<noteq> 0 \<and> i_type i = T_FILE) (itrunc ip)) (seqM (iunlock ip) (end_with (word_of_int fd))) b = Ret r t"
    by (rule seqM_RetE)
  have a': "balance e (N - {f}) (fview_of a) \<and> f_ref (ftable a f) > 0 \<and> f_type (ftable a f) \<noteq> FD_NONE"
  proof (cases "i_type i = T_DEVICE")
    case True
    show ?thesis using set_file_type [OF a [unfolded if_P [OF True]] assms(2,3)] by simp
  next
    case False
    show ?thesis using set_file_type [OF a [unfolded if_not_P [OF False]] assms(2,3)] by simp
  qed
  have b': "balance e (N - {f}) (fview_of b)" using set_file_type(1) [OF b] a' by fastforce
  have "keeps fview_of (seqM (whenM (omode AND O_TRUNC \<noteq> 0 \<and> i_type i = T_FILE) (itrunc ip)) (seqM (iunlock ip) (end_with (word_of_int fd))))"
    by (intro files.keeps_fs keeps_end_with)
  from keepsD [OF this c] b' show ?thesis by simp
qed

text \<open>A file that \<^verbatim>\<open>filealloc\<close> has given gets a descriptor and a type, or is closed again.\<close>

lemma open_new_file:
  assumes "balance (\<lambda>_. 0) {} (fview_of s)" "filealloc s = Ret (Some f) u"
    and "bindM (fdalloc f) (\<lambda>fd. if fd < 0 then seqM (fileclose f) (open_bad ip) else open_file ip f fd om) u = Ret r t"
  shows "balance (\<lambda>_. 0) {} (fview_of t)"
proof -
  note a = filealloc_view(2) [OF assms(2) refl]
  have u: "balance ((\<lambda>_. 0)(f := 1)) {f} (fview_of u)" "v_ref (fview_of u) f = 1"
    using balance_alloc [OF assms(1), of f] a by (auto simp: v_set_ref_def)
  from assms(3) obtain fd w where w: "fdalloc f u = Ret fd w"
    and rest: "(if fd < 0 then seqM (fileclose f) (open_bad ip) else open_file ip f fd om) w = Ret r t"
    by (auto simp only: bindM_eq_Ret)
  show ?thesis
  proof (cases "fd < 0")
    case True
    then obtain y x where c: "fileclose f w = Ret y x" "open_bad ip x = Ret r t" using rest by (auto simp: seqM_eq_Ret)
    have "balance (\<lambda>_. 0) {f} (fview_of x)"
      using balance_close [of "(\<lambda>_. 0)(f := 1)" "{f}" "fview_of u" f] u fdalloc_view(1) [OF w True] fileclose_view(2) [OF c(1)]
      by (simp add: fun_upd_idem)
    moreover have "\<not> v_ref (fview_of x) f > 0"
      using u(2) fdalloc_view(1) [OF w True] fileclose_view(2) [OF c(1)] by (auto simp: v_close_def)
    ultimately have "balance (\<lambda>_. 0) {} (fview_of x)" by (auto simp: balance_def)
    then show ?thesis using keepsD [OF keeps_open_bad c(2)] by simp
  next
    case False
    from fdalloc_view(2) [OF w False] obtain p where p: "v_ofile (fview_of u) p (nat fd) = None"
      "fview_of w = v_set_fd p (nat fd) (Some f) (fview_of u)" by blast
    have "balance (\<lambda>_. 0) {f} (fview_of w)" using balance_take [OF u(1) p(1), of f] p(2) by (simp add: fun_upd_idem)
    moreover have "v_ref (fview_of w) f = 1" unfolding p(2) using u(2) by (simp add: v_set_fd_def)
    ultimately show ?thesis using open_file_view [of ip f fd om w r t "\<lambda>_. 0" "{f}"] rest False by simp
  qed
qed

lemma sys_open_files:
  assumes "files_ok s" "sys_open s = Ret r t"
  shows "files_ok t"
proof -
  note ok = assms(1) [unfolded files_ok_def]
  from assms(2) obtain n path a where a: "argstr 0 MAXPATH s = Ret (n, path) a" by (auto simp: sys_open_def bindM_eq_Ret)
  note va = keepsD [OF keeps_argstr a]
  show ?thesis
  proof (cases "n < 0")
    case False
    from assms(2) a False obtain om b y c fo d where b: "argint 1 a = Ret om b" and c: "begin_op b = Ret y c" and d: "open_inode path om c = Ret fo d"
      by (auto simp: sys_open_def bindM_eq_Ret seqM_eq_Ret)
    have vd: "fview_of d = fview_of s"
      using va keepsD [OF keeps_args(1) b] keepsD [OF files.keeps_begin_op c] keepsD [OF keeps_open_inode d] by simp
    show ?thesis
    proof (cases fo)
      case None
      then have "end_with (- 1) d = Ret r t" using assms(2) a False b c d by (auto simp: sys_open_def bindM_eq_Ret seqM_eq_Ret)
      from keepsD [OF keeps_end_with this] show ?thesis using vd ok by (simp add: files_ok_def)
    next
      case (Some ip)
      let ?bad = "i_type (itable d ip) = T_DEVICE \<and> (sint (i_major (itable d ip)) < 0 \<or> sint (i_major (itable d ip)) \<ge> NDEV)"
      have run: "(if ?bad then open_bad ip else bindM filealloc (\<lambda>fo. case fo of None \<Rightarrow> open_bad ip
         | Some f \<Rightarrow> bindM (fdalloc f) (\<lambda>fd. if fd < 0 then seqM (fileclose f) (open_bad ip) else open_file ip f fd om))) d = Ret r t"
        using assms(2) a False b c d Some by (simp add: sys_open_def get_inode_def bindM_gets)
      have bad: "files_ok t" if "open_bad ip u = Ret r t" "balance (\<lambda>_. 0) {} (fview_of u)" for u
        using keepsD [OF keeps_open_bad that(1)] that(2) by (simp add: files_ok_def)
      show ?thesis
      proof (cases ?bad)
        case True
        then show ?thesis using run bad ok vd by (simp del: de_Morgan_disj)
      next
        case False
        with run obtain fo' e where e: "filealloc d = Ret fo' e" and rest: "(case fo' of None \<Rightarrow> open_bad ip
         | Some f \<Rightarrow> bindM (fdalloc f) (\<lambda>fd. if fd < 0 then seqM (fileclose f) (open_bad ip) else open_file ip f fd om)) e = Ret r t"
          by (auto simp only: if_False bindM_eq_Ret)
        show ?thesis
        proof (cases fo')
          case None
          then show ?thesis using rest bad filealloc_view(1) [OF e] ok vd by simp
        next
          case (Some f)
          have "bindM (fdalloc f) (\<lambda>fd. if fd < 0 then seqM (fileclose f) (open_bad ip) else open_file ip f fd om) e = Ret r t"
            using rest unfolding Some option.case .
          from open_new_file [OF _ e [unfolded Some] this] show ?thesis using ok vd by (simp add: files_ok_def)
        qed
      qed
    qed
  qed (use assms a va in \<open>auto simp: sys_open_def files_ok_def\<close>)
qed

subsection \<open>Pipes\<close>

lemma keeps_initlock: "keeps fview_of (initlock lk nm)"
  unfolding initlock_def set_lock_def by (simp add: keeps_modify files.blind)

text \<open>A file with one reference is closed: it needs no type any more.\<close>

lemma close_new:
  assumes "fileclose f s = Ret x t" "balance e N (fview_of s)" "f_ref (ftable s f) = 1"
  shows "balance (e(f := e f - 1)) (N - {f}) (fview_of t)" "v_cur (fview_of t) = v_cur (fview_of s)"
    "g \<noteq> f \<Longrightarrow> f_ref (ftable t g) = f_ref (ftable s g)"
proof -
  note c = fileclose_view(2) [OF assms(1)]
  have v: "fview_of t = (fview_of s)\<lparr>v_ref := (v_ref (fview_of s))(f := 0), v_type := (v_type (fview_of s))(f := FD_NONE)\<rparr>"
    using c assms(3) by (simp add: v_close_def)
  then show "v_cur (fview_of t) = v_cur (fview_of s)" by (simp del: fview_of_sel)
  show "f_ref (ftable t g) = f_ref (ftable s g)" if "g \<noteq> f" using v that fview_of_sel(1) [of t g] by simp
  show "balance (e(f := e f - 1)) (N - {f}) (fview_of t)" unfolding v using assms(2,3) by (auto simp: balance_def)
qed

lemma alloc_new:
  assumes "filealloc s = Ret (Some f) t" "balance e N (fview_of s)"
  shows "balance (e(f := e f + 1)) (insert f N) (fview_of t)" "v_cur (fview_of t) = v_cur (fview_of s)"
    "f_ref (ftable t f) = 1" "f_ref (ftable s f) = 0" "g \<noteq> f \<Longrightarrow> f_ref (ftable t g) = f_ref (ftable s g)"
proof -
  note a = filealloc_view(2) [OF assms(1) refl]
  show "f_ref (ftable s f) = 0" using a by simp
  show "balance (e(f := e f + 1)) (insert f N) (fview_of t)" using balance_alloc [OF assms(2)] a by simp
  show "v_cur (fview_of t) = v_cur (fview_of s)" using a by (simp add: v_set_ref_def del: fview_of_sel)
  show "f_ref (ftable t f) = 1" "g \<noteq> f \<Longrightarrow> f_ref (ftable t g) = f_ref (ftable s g)"
    using a fview_of_sel(1) [of t f] fview_of_sel(1) [of t g] by (simp_all add: v_set_ref_def)
qed

lemma pipe_make:
  assumes "balance e N (fview_of s)" "f_ref (ftable s a) = 1" "f_ref (ftable s b) = 1"
    and "seqM (set_pipe pi q) (seqM (initlock (PipeLock pi) ''pipe'') (
             seqM (set_file a (\<lambda>x. x\<lparr>f_type := FD_PIPE, f_readable := True, f_writable := False, f_pipe := pi\<rparr>)) (
             seqM (set_file b (\<lambda>x. x\<lparr>f_type := FD_PIPE, f_readable := False, f_writable := True, f_pipe := pi\<rparr>))
                  (returnM (Some (a, b)))))) s = Ret pp t"
  shows "pp = Some (a, b) \<and> balance e (N - {a} - {b}) (fview_of t) \<and> v_cur (fview_of t) = v_cur (fview_of s)"
proof -
  from assms(4) obtain x1 s1 x2 s2 x3 s3 x4 s4 where s1: "set_pipe pi q s = Ret x1 s1" and s2: "initlock (PipeLock pi) ''pipe'' s1 = Ret x2 s2"
    and s3: "set_file a (\<lambda>x. x\<lparr>f_type := FD_PIPE, f_readable := True, f_writable := False, f_pipe := pi\<rparr>) s2 = Ret x3 s3"
    and s4: "set_file b (\<lambda>x. x\<lparr>f_type := FD_PIPE, f_readable := False, f_writable := True, f_pipe := pi\<rparr>) s3 = Ret x4 s4"
    and fin: "returnM (Some (a, b)) s4 = Ret pp t"
    by (elim seqM_RetE)
  have v2: "fview_of s2 = fview_of s" using keepsD [OF files.keeps_set(7) s1] keepsD [OF keeps_initlock s2] by simp
  note r2 = fview_eqD(1) [OF v2]
  have b3: "balance e (N - {a}) (fview_of s3)" using set_file_type(1) [OF s3] assms(1,2) v2 r2 by simp
  have r3: "f_ref (ftable s3 b) = 1" using s3 r2 assms(2,3) by (cases "a = b") auto
  have "balance e (N - {a} - {b}) (fview_of s4)" using set_file_type(1) [OF s4 b3] r3 by simp
  moreover have "v_cur (fview_of s4) = v_cur (fview_of s)"
    using fview_set_file [OF s3] fview_set_file [OF s4] v2 by (simp del: fview_of_sel)
  ultimately show ?thesis using fin by simp
qed

lemma pipealloc_view:
  assumes "balance (\<lambda>_. 0) {} (fview_of s)" "pipealloc s = Ret pp t"
  shows "case pp of None \<Rightarrow> balance (\<lambda>_. 0) {} (fview_of t)
    | Some (a, b) \<Rightarrow> a \<noteq> b \<and> balance ((\<lambda>_. 0)(a := 1, b := 1)) {} (fview_of t) \<and> v_cur (fview_of t) = v_cur (fview_of s)"
proof -
  from assms(2) obtain f0 u where u: "filealloc s = Ret f0 u" by (auto simp: pipealloc_def bindM_eq_Ret)
  show ?thesis
  proof (cases f0)
    case None
    then show ?thesis using assms u filealloc_view(1) [OF u] by (auto simp: pipealloc_def pipealloc_bad_def)
  next
    case (Some a)
    note n1 = alloc_new [OF u [unfolded Some] assms(1)]
    from assms(2) u Some obtain f1 w where w: "filealloc u = Ret f1 w" by (auto simp: pipealloc_def bindM_eq_Ret)
    show ?thesis
    proof (cases f1)
      case None
      then obtain y where c: "fileclose a w = Ret () y" "pp = None" "t = y"
        using assms(2) u Some w by (auto simp: pipealloc_def pipealloc_bad_def seqM_eq_Ret)
      have v: "fview_of w = fview_of u" using filealloc_view(1) [OF w None] .
      show ?thesis using close_new(1) [OF c(1), of "(\<lambda>_. 0)(a := 1)" "{a}"] n1(1,3) fview_eqD(1) [OF v] v c(2,3) by (simp add: fun_upd_idem)
    next
      case (Some b)
      note n2 = alloc_new [OF w [unfolded Some] n1(1)]
      have ab: "a \<noteq> b" using n1(3) n2(4) by auto
      have ra: "f_ref (ftable w a) = 1" using n2(5) ab n1(3) by simp
      have "bindM kalloc (\<lambda>pi. if pi = 0 then pipealloc_bad pi (Some a) (Some b) else
             seqM (set_pipe pi (\<lambda>q. q\<lparr>pi_readopen := True, pi_writeopen := True, pi_nwrite := 0, pi_nread := 0\<rparr>)) (
             seqM (initlock (PipeLock pi) ''pipe'') (
             seqM (set_file a (\<lambda>x. x\<lparr>f_type := FD_PIPE, f_readable := True, f_writable := False, f_pipe := pi\<rparr>)) (
             seqM (set_file b (\<lambda>x. x\<lparr>f_type := FD_PIPE, f_readable := False, f_writable := True, f_pipe := pi\<rparr>))
                  (returnM (Some (a, b))))))) w = Ret pp t"
        using assms(2) u w \<open>f0 = Some a\<close> Some by (simp add: pipealloc_def)
      then obtain pi x where x: "kalloc w = Ret pi x"
        and rest: "(if pi = 0 then pipealloc_bad pi (Some a) (Some b) else
             seqM (set_pipe pi (\<lambda>q. q\<lparr>pi_readopen := True, pi_writeopen := True, pi_nwrite := 0, pi_nread := 0\<rparr>)) (
             seqM (initlock (PipeLock pi) ''pipe'') (
             seqM (set_file a (\<lambda>x. x\<lparr>f_type := FD_PIPE, f_readable := True, f_writable := False, f_pipe := pi\<rparr>)) (
             seqM (set_file b (\<lambda>x. x\<lparr>f_type := FD_PIPE, f_readable := False, f_writable := True, f_pipe := pi\<rparr>))
                  (returnM (Some (a, b))))))) x = Ret pp t"
        by (rule bindM_RetE)
      have v: "fview_of x = fview_of w" using keepsD [OF files.keeps_kalloc x] .
      note r = fview_eqD(1) [OF v]
      have bal: "balance ((\<lambda>_. 0)(a := 1, b := 1)) {a, b} (fview_of x)" using n2(1) v ab by (simp add: insert_commute)
      show ?thesis
      proof (cases "pi = 0")
        case True
        then obtain y z where y: "fileclose a x = Ret () y" and z: "fileclose b y = Ret () z" "pp = None" "t = z"
          using rest by (auto simp: pipealloc_bad_def seqM_eq_Ret)
        note ca = close_new [OF y bal, unfolded r, OF ra]
        show ?thesis using close_new(1) [OF z(1) ca(1)] ca(3) [of b] ab n2(3) r z(2,3) by (simp add: fun_upd_twist fun_upd_idem)
      next
        case False
        show ?thesis using pipe_make [OF bal _ _ rest [unfolded if_not_P [OF False]]] ra n2(2,3) n1(2) r v ab by (auto simp: insert_Diff_if)
      qed
    qed
  qed
qed

lemma pipe_bad_files:
  assumes "pipe_bad a b s = Ret r t" "balance ((\<lambda>_. 0)(a := 1, b := 1)) {} (fview_of s)" "a \<noteq> b"
  shows "files_ok t"
proof -
  from assms(1) obtain x u y where u: "fileclose a s = Ret x u" and t: "fileclose b u = Ret y t"
    by (auto simp: pipe_bad_def seqM_eq_Ret)
  have "balance ((\<lambda>_. 0)(b := 1)) {} (fview_of u)"
    using balance_close [OF assms(2) fileclose_view(1) [OF u]] fileclose_view(2) [OF u] assms(3) by (simp add: fun_upd_twist fun_upd_idem)
  then show ?thesis
    using balance_close [OF _ fileclose_view(1) [OF t]] fileclose_view(2) [OF t] by (fastforce simp: files_ok_def fun_upd_idem)
qed

text \<open>The descriptors that \<^verbatim>\<open>sys_pipe\<close> takes back.\<close>

lemma take_back:
  assumes "set_ofile p fd None s = Ret x t" "v_ofile (fview_of s) p fd = Some f" "balance e N (fview_of s)"
  shows "balance (e(f := e f + 1)) N (fview_of t)" "k \<noteq> fd \<Longrightarrow> v_ofile (fview_of t) p k = v_ofile (fview_of s) p k"
  using balance_drop [OF assms(3,2)] set_ofile_view [OF assms(1)] by (simp_all add: v_set_fd_def del: fview_of_sel)

lemma pipe_descriptors:
  assumes "a \<noteq> b" "balance ((\<lambda>_. 0)(a := 1, b := 1)) {} (fview_of s)" "v_cur (fview_of s) = Some p"
    and "bindM (fdalloc a) (\<lambda>fd0.
         if fd0 < 0 then pipe_bad a b else
         bindM (fdalloc b) (\<lambda>fd1.
         if fd1 < 0 then seqM (set_ofile p (nat fd0) None) (pipe_bad a b) else
         bindM (get_proc p p_pagetable) (\<lambda>pt.
         bindM (copyout pt fa (le32 (word_of_int fd0))) (\<lambda>r.
         bindM (if r < 0 then returnM r else copyout pt (fa + 4) (le32 (word_of_int fd1))) (\<lambda>r.
         if r < 0 then
           seqM (set_ofile p (nat fd0) None) (
           seqM (set_ofile p (nat fd1) None)
                (pipe_bad a b))
         else returnM 0))))) s = Ret r t"
  shows "files_ok t"
proof -
  from assms(4) obtain fd0 u where u: "fdalloc a s = Ret fd0 u" by (auto simp: bindM_eq_Ret)
  show ?thesis
  proof (cases "fd0 < 0")
    case True
    then show ?thesis using assms u fdalloc_view(1) [OF u True] pipe_bad_files [of a b u r t] by simp
  next
    case False
    from fdalloc_view(2) [OF u False] assms(3) have o0: "v_ofile (fview_of s) p (nat fd0) = None"
      and vu: "fview_of u = v_set_fd p (nat fd0) (Some a) (fview_of s)" by auto
    have bu: "balance ((\<lambda>_. 0)(b := 1)) {} (fview_of u)"
      using balance_take [OF assms(2) o0, of a] vu assms(1) by (simp add: fun_upd_twist fun_upd_idem)
    have ou: "v_ofile (fview_of u) p (nat fd0) = Some a" "v_cur (fview_of u) = Some p" using assms(3) by (simp_all add: vu v_set_fd_def del: fview_of_sel)
    from assms(4) u False obtain fd1 w where w: "fdalloc b u = Ret fd1 w" by (auto simp: bindM_eq_Ret)
    show ?thesis
    proof (cases "fd1 < 0")
      case True
      then obtain x y where y: "set_ofile p (nat fd0) None w = Ret x y" "pipe_bad a b y = Ret r t"
        using assms(4) u False w by (auto simp: seqM_eq_Ret)
      have "fview_of w = fview_of u" using fdalloc_view(1) [OF w True] .
      then have "balance ((\<lambda>_. 0)(a := 1, b := 1)) {} (fview_of y)"
        using take_back(1) [OF y(1), of a "(\<lambda>_. 0)(b := 1)" "{}"] ou bu assms(1) by (simp add: fun_upd_twist)
      then show ?thesis using pipe_bad_files [OF y(2)] assms(1) by simp
    next
      case False1: False
      from fdalloc_view(2) [OF w False1] ou(2) have o1: "v_ofile (fview_of u) p (nat fd1) = None"
        and vw: "fview_of w = v_set_fd p (nat fd1) (Some b) (fview_of u)" by auto
      have bw: "balance (\<lambda>_. 0) {} (fview_of w)" using balance_take [OF bu o1, of b] vw by (simp add: fun_upd_idem)
      have ow: "v_ofile (fview_of w) p (nat fd0) = Some a" "v_ofile (fview_of w) p (nat fd1) = Some b" "nat fd0 \<noteq> nat fd1"
        using ou(1) o1 by (auto simp: vw v_set_fd_def simp del: fview_of_sel)
      define pt where "pt = p_pagetable (procs w p)"
      have "bindM (copyout pt fa (le32 (word_of_int fd0))) (\<lambda>r.
         bindM (if r < 0 then returnM r else copyout pt (fa + 4) (le32 (word_of_int fd1))) (\<lambda>r.
         if r < 0 then seqM (set_ofile p (nat fd0) None) (seqM (set_ofile p (nat fd1) None) (pipe_bad a b)) else returnM 0)) w = Ret r t"
        unfolding pt_def using assms(4) u False w False1 by (simp add: get_proc_def)
      then obtain c y0 r' y where c: "copyout pt fa (le32 (word_of_int fd0)) w = Ret c y0"
          "(if c < 0 then returnM c else copyout pt (fa + 4) (le32 (word_of_int fd1))) y0 = Ret r' y"
        and rest: "(if r' < 0 then seqM (set_ofile p (nat fd0) None) (seqM (set_ofile p (nat fd1) None) (pipe_bad a b)) else returnM 0) y = Ret r t"
        by (elim bindM_RetE)
      have vy: "fview_of y = fview_of w"
        using keepsD [OF files.keeps_copyout c(1)] c(2) keepsD [OF files.keeps_copyout] by (auto split: if_splits)
      show ?thesis
      proof (cases "r' < 0")
        case True
        then obtain i j k l where i: "set_ofile p (nat fd0) None y = Ret k i" "set_ofile p (nat fd1) None i = Ret l j" "pipe_bad a b j = Ret r t"
          using rest by (auto simp: seqM_eq_Ret)
        note tb = take_back [OF i(1) _ , unfolded vy, OF ow(1) bw]
        have "balance ((\<lambda>_. 0)(a := 1, b := 1)) {} (fview_of j)"
          using take_back(1) [OF i(2) _ tb(1), of b] tb(2) ow assms(1) by simp
        then show ?thesis using pipe_bad_files [OF i(3)] assms(1) by simp
      next
        case False
        then show ?thesis using rest vy bw by (simp add: files_ok_def)
      qed
    qed
  qed
qed

lemma sys_pipe_files:
  assumes "files_ok s" "sys_pipe s = Ret r t"
  shows "files_ok t"
proof -
  note ok = assms(1) [unfolded files_ok_def]
  from assms(2) obtain p s1 fa s2 pp s3 where s1: "curproc s = Ret p s1" and s2: "argaddr 0 s1 = Ret fa s2" and s3: "pipealloc s2 = Ret pp s3"
    by (auto simp: sys_pipe_def bindM_eq_Ret)
  have v2: "fview_of s2 = fview_of s" "v_cur (fview_of s2) = Some p"
    using fview_curproc [OF s1] keepsD [OF keeps_args(2) s2] by (simp_all del: fview_of_sel)
  note pa = pipealloc_view [OF _ s3, unfolded v2(1), OF ok]
  show ?thesis
  proof (cases pp)
    case None
    then show ?thesis using pa assms(2) s1 s2 s3 by (auto simp: sys_pipe_def files_ok_def)
  next
    case (Some ab)
    then obtain a b where ab: "pp = Some (a, b)" by (cases ab) auto
    have b3: "a \<noteq> b" "balance ((\<lambda>_. 0)(a := 1, b := 1)) {} (fview_of s3)" "v_cur (fview_of s3) = Some p"
      using pa ab v2 by (auto simp del: fview_of_sel)
    have rest: "bindM (fdalloc a) (\<lambda>fd0.
         if fd0 < 0 then pipe_bad a b else
         bindM (fdalloc b) (\<lambda>fd1.
         if fd1 < 0 then seqM (set_ofile p (nat fd0) None) (pipe_bad a b) else
         bindM (get_proc p p_pagetable) (\<lambda>pt.
         bindM (copyout pt fa (le32 (word_of_int fd0))) (\<lambda>r.
         bindM (if r < 0 then returnM r else copyout pt (fa + 4) (le32 (word_of_int fd1))) (\<lambda>r.
         if r < 0 then
           seqM (set_ofile p (nat fd0) None) (
           seqM (set_ofile p (nat fd1) None)
                (pipe_bad a b))
         else returnM 0))))) s3 = Ret r t"
      using assms(2) s1 s2 s3 ab by (simp add: sys_pipe_def)
    show ?thesis by (rule pipe_descriptors [OF b3 rest])
  qed
qed

subsection \<open>Reading and writing\<close>

lemma keeps_get_file: "keeps fview_of (get_file f g)"
  by (simp add: get_file_def keeps_gets)

lemma keeps_set_off: "keeps fview_of (set_file f (\<lambda>y. y\<lparr>f_off := k y\<rparr>))"
  unfolding set_file_def by (rule keeps_modify) (auto simp: fview_of_def mycpu_def cpuid_def fun_eq_iff)

lemma keeps_dev_call: "keeps fview_of (dev_call d addr n)"
  unfolding dev_call_def by (cases d) (simp_all add: files.keeps_consoleread files.keeps_consolewrite)

lemmas keeps_file = files.keeps_fs files.keeps_piperead files.keeps_pipewrite keeps_get_file keeps_set_off keeps_dev_call

lemma keeps_fileread: "keeps fview_of (fileread f addr n)"
  unfolding fileread_def
  by (intro keeps_rules keeps_get_file impI, split fdtype.split, intro conjI impI keeps_file)

lemma keeps_filewrite: "keeps fview_of (filewrite f addr n)"
proof -
  have l: "keeps fview_of (filewrite_loop k f addr i n)" for k i
    by (induction k arbitrary: i) (auto simp: Let_def intro!: keeps_file)
  show ?thesis unfolding filewrite_def
    by (intro keeps_rules keeps_get_file impI, split fdtype.split, intro conjI impI keeps_file l)
qed

lemma keeps_filestat: "keeps fview_of (filestat pad f addr)"
  unfolding filestat_def stati_def by (intro keeps_file)

lemma keeps_argfd: "keeps fview_of (argfd n)"
  unfolding argfd_def by (intro files.keeps_io keeps_args)

lemma keeps_read_write: "keeps fview_of sys_read" "keeps fview_of sys_write" "keeps fview_of (sys_fstat pad)"
  unfolding sys_read_def sys_write_def sys_fstat_def
  by (auto intro!: keeps_rules keeps_args keeps_argfd keeps_fileread keeps_filewrite keeps_filestat split: option.splits)

subsection \<open>Fork and exit\<close>

lemma fork_file_balance:
  assumes "fork_file p np i s = Ret x t" "balance (\<lambda>_. 0) {} (fview_of s)" "v_ofile (fview_of s) np i = None"
  shows "balance (\<lambda>_. 0) {} (fview_of t)" "j \<noteq> i \<Longrightarrow> v_ofile (fview_of t) np j = v_ofile (fview_of s) np j"
proof -
  have "balance (\<lambda>_. 0) {} (fview_of t) \<and> (j \<noteq> i \<longrightarrow> v_ofile (fview_of t) np j = v_ofile (fview_of s) np j)"
  proof (cases "p_ofile (procs s p) i")
    case None
    then show ?thesis using assms by (simp add: fork_file_def get_proc_def)
  next
    case (Some f)
    then obtain g u where u: "filedup f s = Ret g u" "set_ofile np i (Some g) u = Ret x t"
      using assms(1) by (auto simp: fork_file_def get_proc_def set_ofile_def bindM_eq_Ret)
    note d = filedup_view [OF u(1)]
    have "balance ((\<lambda>_. 0)(f := 1)) {} (fview_of u)" using balance_dup [OF assms(2) d(2)] d(3) by simp
    moreover have "v_ofile (fview_of u) np i = None" using assms(3) d(3) by (simp add: v_set_ref_def del: fview_of_sel)
    ultimately have "balance (\<lambda>_. 0) {} (fview_of t)"
      using balance_take [of _ "{}" "fview_of u" np i f] set_ofile_view [OF u(2)] d(1) by (fastforce simp: fun_upd_idem)
    moreover have "v_ofile (fview_of t) np j = v_ofile (fview_of s) np j" if "j \<noteq> i"
      using set_ofile_view [OF u(2)] d(3) that by (simp add: v_set_fd_def v_set_ref_def del: fview_of_sel)
    ultimately show ?thesis by blast
  qed
  then show "balance (\<lambda>_. 0) {} (fview_of t)" "j \<noteq> i \<Longrightarrow> v_ofile (fview_of t) np j = v_ofile (fview_of s) np j" by blast+
qed

lemma fork_files:
  "forM xs (fork_file p np) s = Ret x t \<Longrightarrow> files_ok s \<Longrightarrow> distinct xs \<Longrightarrow> \<forall>i \<in> set xs. p_ofile (procs s np) i = None \<Longrightarrow> files_ok t"
proof (induction xs arbitrary: s)
  case (Cons i xs)
  then obtain y u where u: "fork_file p np i s = Ret y u" "forM xs (fork_file p np) u = Ret x t" by (auto simp: seqM_eq_Ret)
  note b = fork_file_balance [OF u(1), folded files_ok_def, OF Cons.prems(2), unfolded fview_of_sel]
  have n: "p_ofile (procs s np) i = None" using Cons.prems(4) by simp
  have "\<forall>k \<in> set xs. p_ofile (procs u np) k = None" using b(2) [OF n] Cons.prems(3,4) by (metis distinct.simps(2) list.set_intros(2))
  then show ?case using Cons.IH [OF u(2) b(1) [OF n]] Cons.prems(3) by simp
qed simp

lemma exit_file_balance:
  assumes "exit_file p fd s = Ret x t" "files_ok s"
  shows "files_ok t"
proof (cases "p_ofile (procs s p) fd")
  case None
  then show ?thesis using assms by (simp add: exit_file_def get_proc_def)
next
  case (Some f)
  then obtain y u where u: "fileclose f s = Ret y u" "set_ofile p fd None u = Ret x t"
    using assms(1) by (auto simp: exit_file_def get_proc_def set_ofile_def bindM_eq_Ret seqM_eq_Ret)
  note c = fileclose_view [OF u(1)]
  have "balance ((\<lambda>_. 0)(f := - 1)) {} (fview_of u)"
    using balance_close [OF assms(2) [unfolded files_ok_def] c(1)] c(2) by simp
  moreover have "v_ofile (fview_of u) p fd = Some f" using Some c(2) by (simp add: v_close_def del: fview_of_sel) simp
  ultimately show ?thesis using take_back(1) [OF u(2)] by (fastforce simp: files_ok_def fun_upd_idem)
qed

lemma exit_files: "forM xs (exit_file p) s = Ret x t \<Longrightarrow> files_ok s \<Longrightarrow> files_ok t"
  by (induction xs arbitrary: s) (auto simp: seqM_eq_Ret dest: exit_file_balance)

subsection \<open>Every reachable state\<close>

text \<open>
  The steps that touch open files: the system calls, the loop of \<^verbatim>\<open>fork\<close> that copies the descriptors to a process
  without any, the loop of \<^verbatim>\<open>exit\<close> that closes them, and whatever else the kernel does that changes neither table, such
  as running another process.
\<close>

inductive file_step :: "kern \<Rightarrow> kern \<Rightarrow> bool" where
  step_dup: "sys_dup s = Ret r t \<Longrightarrow> file_step s t"
| step_close: "sys_close s = Ret r t \<Longrightarrow> file_step s t"
| step_open: "sys_open s = Ret r t \<Longrightarrow> file_step s t"
| step_pipe: "sys_pipe s = Ret r t \<Longrightarrow> file_step s t"
| step_read: "sys_read s = Ret r t \<Longrightarrow> file_step s t"
| step_write: "sys_write s = Ret r t \<Longrightarrow> file_step s t"
| step_fstat: "sys_fstat pad s = Ret r t \<Longrightarrow> file_step s t"
| step_fork: "\<forall>fd < NOFILE. p_ofile (procs s np) fd = None \<Longrightarrow> forM [0..<NOFILE] (fork_file p np) s = Ret x t \<Longrightarrow> file_step s t"
| step_exit: "forM [0..<NOFILE] (exit_file p) s = Ret x t \<Longrightarrow> file_step s t"
| step_other: "ftable t = ftable s \<Longrightarrow> (\<forall>p. p_ofile (procs t p) = p_ofile (procs s p)) \<Longrightarrow> file_step s t"

lemma keeps_files_ok: "keeps fview_of m \<Longrightarrow> m s = Ret r t \<Longrightarrow> files_ok s \<Longrightarrow> files_ok t"
  using keepsD by (fastforce simp: files_ok_def)

lemma file_step_ok: "file_step s t \<Longrightarrow> files_ok s \<Longrightarrow> files_ok t"
proof (induction rule: file_step.induct)
  case (step_fork s np p x t)
  then show ?case using fork_files [OF step_fork(2)] by simp
next
  case (step_other t s)
  then have "fview_of t = (fview_of s)\<lparr>v_cur := c_proc (mycpu t)\<rparr>" by (simp add: fview_of_def)
  then show ?case using balance_cur [of "\<lambda>_. 0" "{}" "fview_of s"] step_other(3) by (simp add: files_ok_def)
next
  case (step_read s r t)
  then show ?case using keeps_files_ok [OF keeps_read_write(1)] by blast
next
  case (step_write s r t)
  then show ?case using keeps_files_ok [OF keeps_read_write(2)] by blast
next
  case (step_fstat pad s r t)
  then show ?case using keeps_files_ok [OF keeps_read_write(3)] by blast
qed (blast intro: sys_dup_files sys_close_files sys_open_files sys_pipe_files exit_files)+

lemma reachable_files_ok: "file_step\<^sup>*\<^sup>* s t \<Longrightarrow> files_ok s \<Longrightarrow> files_ok t"
  by (induction rule: rtranclp_induct) (auto intro: file_step_ok)

text \<open>
  C34: references of open files. In every state that the system calls, \<^verbatim>\<open>fork\<close> and \<^verbatim>\<open>exit\<close> reach from a state with this property, the
  reference count of a file is the number of descriptors that name it, a file has a type exactly as long as it has references, and
  no descriptor names a file without references, also after a call that failed halfway.
\<close>

theorem file_references_balance:
  assumes "file_step\<^sup>*\<^sup>* s t" "files_ok s"
  shows "f_ref (ftable t f) = int (card {(p, fd). p_ofile (procs t p) fd = Some f}) \<and> finite {(p, fd). p_ofile (procs t p) fd = Some f}
    \<and> (f_type (ftable t f) = FD_NONE \<longleftrightarrow> f_ref (ftable t f) = 0) \<and> (p_ofile (procs t p) fd = Some f \<longrightarrow> 0 < f_ref (ftable t f))"
proof -
  have b: "balance (\<lambda>_. 0) {} (fview_of t)" using reachable_files_ok [OF assms] by (simp add: files_ok_def)
  have d: "fd_refs (v_ofile (fview_of t)) f = {(p, fd). p_ofile (procs t p) fd = Some f}" by (simp add: fd_refs_def)
  have r: "finite (fd_refs (v_ofile (fview_of t)) f)" "f_ref (ftable t f) = int (card (fd_refs (v_ofile (fview_of t)) f))"
    "f_type (ftable t f) \<noteq> FD_NONE \<longleftrightarrow> f_ref (ftable t f) > 0"
    using b unfolding balance_def by simp_all
  have "p_ofile (procs t p) fd = Some f \<Longrightarrow> 0 < f_ref (ftable t f)"
    using balance_open [OF b, of p fd f] by simp
  moreover have "f_type (ftable t f) = FD_NONE \<longleftrightarrow> f_ref (ftable t f) = 0" using r(2,3) by linarith
  ultimately show ?thesis using r(1,2) unfolding d by blast
qed

text \<open>Process 0 has one file open, as its descriptor 0.\<close>

definition demo_open :: kern where
  "demo_open = booted\<lparr>ftable := (ftable booted)(0 := (ftable booted 0)\<lparr>f_type := FD_INODE, f_ref := 1\<rparr>),
     procs := (\<lambda>p. (procs booted p)\<lparr>p_trapframe := 4096, p_ofile := (if p = 0 then [0 \<mapsto> 0] else (\<lambda>_. None))\<rparr>)\<rparr>"

lemma booted_files: "f_ref (ftable booted f) = 0" "f_type (ftable booted f) = FD_NONE" "phys booted a = 0"
  by (simp_all add: booted_unfold)

lemma demo_open_simps: "calm demo_open" "cur demo_open = 0" "p_ofile (procs demo_open p) = (if p = 0 then [0 \<mapsto> 0] else (\<lambda>_. None))"
    "p_trapframe (procs demo_open p) = 4096" "phys demo_open = phys booted"
    "f_ref (ftable demo_open f) = (if f = 0 then 1 else 0)" "f_type (ftable demo_open f) = (if f = 0 then FD_INODE else FD_NONE)"
  by (simp_all add: demo_open_def booted_files)

lemma demo_open_ok: "files_ok demo_open"
proof -
  have "fd_refs (v_ofile (fview_of demo_open)) f = (if f = 0 then {(0, 0)} else {})" for f
    by (auto simp: fd_refs_def demo_open_simps split: if_splits)
  then show ?thesis by (simp add: files_ok_def balance_def demo_open_simps)
qed

lemma demo_dup: "\<exists>t. sys_dup demo_open = Ret 1 t \<and> f_ref (ftable t 0) = 2"
proof -
  have "argint 0 demo_open = Ret 0 demo_open"
    by (simp add: argint_def argraw_def get_tf_def get_proc_def curproc_calm demo_open_simps get64_def bindM_gets)
      (simp add: booted_files ld64_def)
  then have "argfd 0 demo_open = Ret (Some (0, 0)) demo_open"
    by (simp add: argfd_def curproc_calm demo_open_simps get_proc_def)
  moreover have "fdalloc 0 demo_open = Ret 1 (demo_open\<lparr>procs := (procs demo_open)(0 := (procs demo_open 0)\<lparr>p_ofile := [0 \<mapsto> 0, 1 \<mapsto> 0]\<rparr>)\<rparr>)"
    by (simp add: fdalloc_def curproc_calm demo_open_simps get_proc_def set_ofile_def set_proc_def upt_rec)
  ultimately show ?thesis
    by (simp add: sys_dup_def filedup_def acquire_calm release_held demo_open_simps)
qed

theorem file_references_balance_witness:
  "\<exists>t. sys_dup demo_open = Ret 1 t \<and> f_ref (ftable t 0) = 2 \<and> card {(p, fd). p_ofile (procs t p) fd = Some 0} = 2"
proof -
  obtain t where t: "sys_dup demo_open = Ret 1 t" "f_ref (ftable t 0) = 2" using demo_dup by blast
  have "file_step\<^sup>*\<^sup>* demo_open t" using step_dup [OF t(1)] by blast
  from file_references_balance [OF this demo_open_ok, of 0] t show ?thesis by auto
qed

end
