(* ===== verification/Reap.thy ===== *)
theory Reap
  imports Proc
begin

section \<open>Giving back the memory of a process\<close>

text \<open>
  Lemmas on \<^verbatim>\<open>freewalk\<close>, \<^verbatim>\<open>uvmfree\<close> (kernel/vm.c) and \<^verbatim>\<open>proc_freepagetable\<close>, \<^verbatim>\<open>freeproc\<close> and \<^verbatim>\<open>wait\<close> (kernel/proc.c): every page of
  an address space, page-table pages included, goes back to the allocator exactly once, and \<^verbatim>\<open>wait\<close> thereby reaps the first zombie child.
\<close>

subsection \<open>Freeing the page-table pages\<close>

text \<open>Inner entries point to tables: none of the permission bits is set.\<close>

primrec inner_ok :: "nat \<Rightarrow> mem \<Rightarrow> u64 \<Rightarrow> bool" where
  "inner_ok 0 m pt \<longleftrightarrow> True"
| "inner_ok (Suc l) m pt \<longleftrightarrow> (\<forall>i<512. valid_pte (entry m pt i) \<longrightarrow>
     entry m pt i AND (PTE_R OR PTE_W OR PTE_X) = 0 \<and> inner_ok l m (PTE2PA (entry m pt i)))"

text \<open>A tree without leaf entries.\<close>

primrec bare :: "nat \<Rightarrow> mem \<Rightarrow> u64 \<Rightarrow> bool" where
  "bare 0 m pt \<longleftrightarrow> (\<forall>i<512. \<not> valid_pte (entry m pt i))"
| "bare (Suc l) m pt \<longleftrightarrow> (\<forall>i<512. valid_pte (entry m pt i) \<longrightarrow> bare l m (PTE2PA (entry m pt i)))"

lemma tree_same:
  assumes "tree_ok l m pt" "\<And>a. PGROUNDDOWN a \<in> tables l m pt \<Longrightarrow> m' a = m a"
  shows "inner_ok l m' pt = inner_ok l m pt \<and> bare l m' pt = bare l m pt"
  using assms
proof (induction l arbitrary: pt)
  case 0
  have "entry m' pt i = entry m pt i" if "i < 512" for i using that 0 by (intro entry_frame) auto
  then show ?case by simp
next
  case (Suc l)
  have e: "entry m' pt i = entry m pt i" if "i < 512" for i using that Suc.prems by (intro entry_frame) auto
  have "inner_ok l m' c = inner_ok l m c \<and> bare l m' c = bare l m c"
    if "i < 512" "valid_pte (entry m pt i)" "c = PTE2PA (entry m pt i)" for i c
    using that Suc.prems by (intro Suc.IH) auto
  then show ?case using e by auto
qed

text \<open>What is needed of a tree that is freed, and what freeing it gives.\<close>

definition freeable :: "nat \<Rightarrow> u64 \<Rightarrow> u64 list \<Rightarrow> 'z kmem_scheme \<Rightarrow> bool" where
  "freeable l pt xs s \<longleftrightarrow> tree_ok l (phys s) pt \<and> inner_ok l (phys s) pt \<and> bare l (phys s) pt \<and> kmem_ready s xs
     \<and> tables l (phys s) pt \<inter> set xs = {} \<and> (\<forall>p \<in> tables l (phys s) pt. valid_page s p)"

definition freed :: "u64 set \<Rightarrow> u64 list \<Rightarrow> 'z kmem_scheme \<Rightarrow> 'z kmem_scheme \<Rightarrow> bool" where
  "freed P xs s t \<longleftrightarrow> (\<exists>ys. set ys = P \<and> kmem_ready t (ys @ xs)) \<and> mem_only s t
     \<and> (\<forall>b. PGROUNDDOWN b \<notin> P \<longrightarrow> phys t b = phys s b)"

lemma freedD:
  assumes "freed P xs s t"
  obtains ys where "set ys = P" "kmem_ready t (ys @ xs)" "mem_only s t" "\<And>b. PGROUNDDOWN b \<notin> P \<Longrightarrow> phys t b = phys s b"
    "\<And>x. valid_page t x = valid_page s x"
  using assms mem_only_eq(1) [of s t] unfolding freed_def by (auto simp: valid_page_def)

lemma kfree_freed:
  assumes "kmem_ready s xs" "valid_page s f" "f \<notin> set xs"
  shows "\<exists>t. kfree f s = Ret () t \<and> freed {f} xs s t"
proof -
  define t where "t = (settle s)\<lparr>phys := st64 (memset f 1 4096 (phys s)) f (freelist s), freelist := f\<rparr>"
  have k: "kfree f s = Ret () t" "kmem_ready t (f # xs)" using kmem_ready_kfree [OF assms] by (auto simp: t_def)
  have f: "page_aligned f" "aligned 3 f" using assms(2) by (auto dest: valid_pageD)
  have "phys t b = phys s b" if "PGROUNDDOWN b \<noteq> f" for b
    using that f st64_page_other [OF f(2), of b] by (simp add: t_def memset_page)
  moreover have "mem_only s t" by (simp add: t_def mem_only_phys mem_only_freelist)
  moreover have "\<exists>ys. set ys = {f} \<and> kmem_ready t (ys @ xs)" using k(2) by (intro exI [of _ "[f]"]) simp
  ultimately show ?thesis using k(1) by (simp add: freed_def)
qed

lemma freed_trans:
  assumes "freed P xs s t" "set ys = P" "kmem_ready t (ys @ xs)" "freed Q (ys @ xs) t u"
  shows "freed (Q \<union> P) xs s u"
proof -
  from freedD [OF assms(4)] obtain zs where z: "set zs = Q" "kmem_ready u (zs @ ys @ xs)" "mem_only t u"
    "\<And>b. PGROUNDDOWN b \<notin> Q \<Longrightarrow> phys u b = phys t b" by metis
  then show ?thesis using assms(1,2) mem_only_trans [of s t u]
    unfolding freed_def by (auto intro!: exI [of _ "zs @ ys"])
qed

definition freewalk_body :: "nat \<Rightarrow> u64 \<Rightarrow> nat \<Rightarrow> ('z kmem_scheme, unit) M" where
  "freewalk_body depth pagetable i =
     bindM (get64 (pagetable + of_nat i * 8)) (\<lambda>pte.
     if pte AND PTE_V \<noteq> 0 \<and> pte AND (PTE_R OR PTE_W OR PTE_X) = 0 then
       seqM (freewalk depth (PTE2PA pte))
            (put64 (pagetable + of_nat i * 8) 0)
     else if pte AND PTE_V \<noteq> 0 then panic ''freewalk: leaf''
     else returnM ())"

lemma freewalk_Suc: "freewalk (Suc depth) pt = seqM (forM [0..<512] (freewalk_body depth pt)) (kfree pt)"
  by (simp add: freewalk_body_def [abs_def])

lemma of_nat_512: "n < 512 \<Longrightarrow> (of_nat n :: u64) < 512" "n < 512 \<Longrightarrow> unat (of_nat n :: u64) = n"
  by (simp_all add: word_less_nat_alt unat_of_nat)

text \<open>The pages of the subtrees in the first \<open>n\<close> slots.\<close>

definition subtrees :: "nat \<Rightarrow> mem \<Rightarrow> u64 \<Rightarrow> nat \<Rightarrow> u64 set" where
  "subtrees l m pt n = (\<Union>i \<in> {i. i < 512 \<and> unat i < n \<and> valid_pte (entry m pt i)}. tables l m (PTE2PA (entry m pt i)))"

lemma subtrees_Suc:
  assumes "n < 512"
  shows "subtrees l m pt (Suc n) = (if valid_pte (entry m pt (of_nat n)) then tables l m (PTE2PA (entry m pt (of_nat n))) else {}) \<union> subtrees l m pt n"
proof -
  have "(i < 512 \<and> unat i < Suc n) = (i = of_nat n \<or> i < 512 \<and> unat i < n)" for i :: u64
    using of_nat_512 [OF assms] by (auto simp: less_Suc_eq word_unat_eq_iff)
  then have "{i. i < 512 \<and> unat i < Suc n \<and> valid_pte (entry m pt i)}
      = {i. i = of_nat n \<and> valid_pte (entry m pt i)} \<union> {i. i < 512 \<and> unat i < n \<and> valid_pte (entry m pt i)}" by blast
  then show ?thesis by (auto simp: subtrees_def)
qed

lemma subtrees_all: "tables (Suc l) m pt = insert pt (subtrees l m pt 512)"
proof -
  have "unat i < 512" if "i < 512" for i :: u64 using that by (simp add: word_less_nat_alt)
  then have "{i. i < 512 \<and> unat i < 512 \<and> valid_pte (entry m pt i)} = {i. i < 512 \<and> valid_pte (entry m pt i)}" by auto
  then show ?thesis by (simp add: subtrees_def)
qed

text \<open>The state of the loop of \<^verbatim>\<open>freewalk\<close> before slot \<open>n\<close>.\<close>

definition walked :: "nat \<Rightarrow> u64 \<Rightarrow> u64 list \<Rightarrow> nat \<Rightarrow> 'z kmem_scheme \<Rightarrow> u64 list \<Rightarrow> 'z kmem_scheme \<Rightarrow> bool" where
  "walked l pt xs n s ys t \<longleftrightarrow> set ys = subtrees l (phys s) pt n \<and> kmem_ready t (ys @ xs) \<and> mem_only s t
     \<and> (\<forall>b. PGROUNDDOWN b \<notin> insert pt (subtrees l (phys s) pt n) \<longrightarrow> phys t b = phys s b)
     \<and> (\<forall>i<512. n \<le> unat i \<longrightarrow> entry (phys t) pt i = entry (phys s) pt i)"

lemma freewalk_slot:
  fixes s :: "'z kmem_scheme"
  assumes f: "freeable (Suc l) pt xs s" and n: "n < 512" and w: "walked l pt xs n s ys t"
    and IH: "\<And>c zs (u :: 'z kmem_scheme). freeable l c zs u \<Longrightarrow> \<exists>v. freewalk (Suc l) c u = Ret () v \<and> freed (tables l (phys u) c) zs u v"
  shows "\<exists>zs u. freewalk_body (Suc l) pt n t = Ret () u \<and> walked l pt xs (Suc n) s zs u"
proof -
  let ?i = "of_nat n :: u64"
  note i = of_nat_512 [OF n]
  have ok: "tree_ok (Suc l) (phys s) pt" "inner_ok (Suc l) (phys s) pt" "bare (Suc l) (phys s) pt" "tables (Suc l) (phys s) pt \<inter> set xs = {}"
    "\<forall>p \<in> tables (Suc l) (phys s) pt. valid_page s p" using f by (auto simp: freeable_def)
  have W: "set ys = subtrees l (phys s) pt n" "kmem_ready t (ys @ xs)" "mem_only s t"
    "\<And>b. PGROUNDDOWN b \<notin> insert pt (subtrees l (phys s) pt n) \<Longrightarrow> phys t b = phys s b"
    "\<And>i. i < 512 \<Longrightarrow> n \<le> unat i \<Longrightarrow> entry (phys t) pt i = entry (phys s) pt i" using w by (auto simp: walked_def)
  have e: "entry (phys t) pt ?i = entry (phys s) pt ?i" using W(5) i by simp
  have pt: "page_aligned pt" "pt \<notin> set xs" using ok(1,4) by auto
  show ?thesis
  proof (cases "valid_pte (entry (phys s) pt ?i)")
    case False
    then have "freewalk_body (Suc l) pt n t = Ret () t" using e by (simp add: freewalk_body_def valid_pte_def entry_def slot_def)
    moreover have "walked l pt xs (Suc n) s ys t" using W False by (auto simp: walked_def subtrees_Suc [OF n])
    ultimately show ?thesis by blast
  next
    case True
    define c where "c = PTE2PA (entry (phys s) pt ?i)"
    have T: "tables l (phys s) c \<subseteq> tables (Suc l) (phys s) pt" "pt \<notin> tables l (phys s) c" "tree_ok l (phys s) c" "inner_ok l (phys s) c" "bare l (phys s) c"
      using True ok(1-3) i tables_child [OF i(1) True, of l] by (auto simp: c_def)
    have D: "tables l (phys s) c \<inter> subtrees l (phys s) pt n = {}"
      using ok(1) i True by (fastforce simp: subtrees_def c_def)
    have same: "phys t b = phys s b" if "PGROUNDDOWN b \<in> tables l (phys s) c" for b
      using that T(2) D by (intro W(4)) auto
    note F = tree_frame [OF T(3) same] tree_same [OF T(3) same]
    have "tables l (phys s) c \<inter> set (ys @ xs) = {}" unfolding set_append W(1) using T(1) D ok(4) by blast
    moreover have "valid_page t p" if "p \<in> tables l (phys s) c" for p
      using T(1) that ok(5) mem_only_eq(1) [OF W(3)] unfolding valid_page_def by (metis subsetD)
    ultimately have "freeable l c (ys @ xs) t" using F T(3-5) W(2) by (simp add: freeable_def)
    from IH [OF this] obtain u where u: "freewalk (Suc l) c t = Ret () u" "freed (tables l (phys s) c) (ys @ xs) t u" using F by auto
    from freedD [OF u(2)] obtain zs where z: "set zs = tables l (phys s) c" "kmem_ready u (zs @ ys @ xs)" "mem_only t u"
      "\<And>b. PGROUNDDOWN b \<notin> tables l (phys s) c \<Longrightarrow> phys u b = phys t b" by metis
    define v where "v = u\<lparr>phys := st64 (phys u) (slot pt ?i) 0\<rparr>"
    have vs: "phys v b = phys u b" if "PGROUNDDOWN b \<noteq> pt" for b using st64_slot_other [OF pt(1) i(1) that] by (simp add: v_def)
    have ptn: "pt \<notin> subtrees l (phys s) pt n" using ok(1) by (auto simp: subtrees_def)
    have "pt \<notin> set (zs @ ys @ xs)" using z(1) W(1) T(2) ptn pt(2) by simp
    then have "kmem_ready v (zs @ ys @ xs)"
      unfolding v_def using vs by (intro kmem_ready_phys [OF z(2)]) (simp add: v_def, metis)
    moreover have "mem_only s v" using mem_only_trans [OF W(3) z(3)] by (simp add: v_def mem_only_phys)
    moreover have "entry (phys v) pt j = entry (phys s) pt j" if j: "j < 512" "Suc n \<le> unat j" for j
    proof -
      have "entry (phys u) pt j = entry (phys t) pt j" using z(4) T(2) pt(1) j by (intro entry_frame) auto
      moreover have "?i \<noteq> j" using j i by auto
      ultimately show ?thesis using entry_st64 [OF pt(1) pt(1) i(1) j(1), of "phys u" 0] W(5) [OF j(1)] j(2) by (simp add: v_def)
    qed
    moreover have "phys v b = phys s b" if "PGROUNDDOWN b \<notin> insert pt (subtrees l (phys s) pt (Suc n))" for b
      using that True vs [of b] z(4) [of b] W(4) [of b] by (simp add: subtrees_Suc [OF n] c_def)
    ultimately have "walked l pt xs (Suc n) s (zs @ ys) v"
      using z(1) W(1) True by (auto simp: walked_def subtrees_Suc [OF n] c_def)
    moreover have "entry (phys s) pt ?i AND (PTE_R OR PTE_W OR PTE_X) = 0" using ok(2) True i by simp
    then have "freewalk_body (Suc l) pt n t = Ret () v"
      using e True u(1) unfolding freewalk_body_def by (simp add: valid_pte_def entry_def slot_def c_def v_def)
    ultimately show ?thesis by blast
  qed
qed

lemma freewalk_run:
  fixes s :: "'z kmem_scheme"
  shows "freeable l pt xs s \<Longrightarrow> \<exists>t. freewalk (Suc l) pt s = Ret () t \<and> freed (tables l (phys s) pt) xs s t"
proof (induction l arbitrary: pt xs s)
  case 0
  have "freewalk_body 0 pt n s = Ret () s" if "n < 512" for n
    using 0 of_nat_512(1) [OF that] by (simp add: freeable_def freewalk_body_def valid_pte_def entry_def slot_def)
  then have "forM [0..<n] (freewalk_body 0 pt) s = Ret () s" if "n \<le> 512" for n
    using that by (induction n) (simp_all add: forM_append seqM_apply)
  then have "freewalk (Suc 0) pt s = kfree pt s" unfolding freewalk_Suc by (simp add: seqM_apply del: upt_Suc)
  moreover have "kmem_ready s xs" "valid_page s pt" "pt \<notin> set xs" using 0 by (auto simp: freeable_def)
  ultimately show ?case using kfree_freed [of s xs pt] by simp
next
  case (Suc l)
  note IH = Suc.IH and prems = Suc.prems
  have ok: "tree_ok (Suc l) (phys s) pt" "kmem_ready s xs" "tables (Suc l) (phys s) pt \<inter> set xs = {}" "valid_page s pt"
    using Suc.prems by (auto simp: freeable_def)
  have "\<exists>ys t. forM [0..<n] (freewalk_body (Suc l) pt) s = Ret () t \<and> walked l pt xs n s ys t" if "n \<le> 512" for n
    using that
  proof (induction n)
    case 0
    show ?case using ok(2) by (intro exI [of _ "[]"]) (simp add: walked_def subtrees_def)
  next
    case (Suc n)
    then obtain ys t where t: "forM [0..<n] (freewalk_body (Suc l) pt) s = Ret () t" "walked l pt xs n s ys t" by auto
    obtain zs u where "freewalk_body (Suc l) pt n t = Ret () u" "walked l pt xs (Suc n) s zs u"
      using freewalk_slot [OF prems _ t(2) IH] Suc.prems by auto
    then show ?case using t(1) by (auto simp: forM_append seqM_apply)
  qed
  then obtain ys t where t: "forM [0..<512] (freewalk_body (Suc l) pt) s = Ret () t" "walked l pt xs 512 s ys t" by blast
  let ?S = "subtrees l (phys s) pt 512"
  have W: "set ys = ?S" "kmem_ready t (ys @ xs)" "mem_only s t" "\<And>b. PGROUNDDOWN b \<notin> insert pt ?S \<Longrightarrow> phys t b = phys s b"
    using t(2) by (auto simp: walked_def)
  have "pt \<notin> ?S" using ok(1) by (auto simp: subtrees_def)
  moreover have "pt \<notin> set xs" using ok(3) by auto
  moreover have "valid_page t pt" using ok(4) mem_only_eq(1) [OF W(3)] by (simp add: valid_page_def)
  ultimately obtain u where u: "kfree pt t = Ret () u" "freed {pt} (ys @ xs) t u" using kfree_freed [OF W(2), of pt] W(1) by auto
  from freedD [OF u(2)] obtain zs where z: "set zs = {pt}" "kmem_ready u (zs @ ys @ xs)" "mem_only t u" "\<And>b. PGROUNDDOWN b \<noteq> pt \<Longrightarrow> phys u b = phys t b"
    by (metis singletonD)
  have "freed (insert pt ?S) xs s u"
    unfolding freed_def using z W mem_only_trans [OF W(3) z(3)] by (auto intro!: exI [of _ "zs @ ys"])
  then show ?case using t(1) u(1) unfolding freewalk_Suc subtrees_all by (simp add: seqM_apply del: upt_Suc)
qed

subsection \<open>A table with nothing mapped\<close>

lemma index_bits:
  assumes "(i :: u64) < 2 ^ k" "k < 64" "bit i n"
  shows "n < k"
proof (rule ccontr)
  assume "\<not> n < k"
  then have "(2 :: nat) ^ k \<le> 2 ^ n" by simp
  moreover have "(2 :: nat) ^ k < 2 ^ 64" using assms(2) by (rule power_strict_increasing) simp
  then have "unat (of_nat (2 ^ k) :: u64) = 2 ^ k" unfolding unat_of_nat by simp
  then have "unat i < 2 ^ k" using assms(1) by (simp add: word_less_nat_alt)
  ultimately have "unat i < 2 ^ n" by linarith
  then have "unat i div 2 ^ n = 0" by (rule div_less)
  moreover have "bit (unat i) n" using assms(3) by (simp add: bit_unsigned_iff)
  ultimately show False by (simp add: bit_iff_odd)
qed

lemma bits_less:
  assumes "\<And>n. bit (w :: u64) n \<Longrightarrow> n < 38"
  shows "w < 2 ^ 38"
proof -
  have "take_bit 38 (unat w) = unat w" by (rule bit_eqI) (auto simp: bit_take_bit_iff bit_unsigned_iff dest: assms)
  then have "unat w < 2 ^ 38" by (metis take_bit_nat_less_exp)
  then show ?thesis by (simp add: word_less_nat_alt)
qed

lemma PX_join:
  assumes "i2 < 512" "i1 < 512" "i0 < 512"
  shows "\<exists>va. PX 2 va = i2 \<and> PX 1 va = i1 \<and> PX 0 va = i0 \<and> (i2 < 256 \<longrightarrow> va < MAXVA)"
proof -
  let ?va = "push_bit 30 i2 OR push_bit 21 i1 OR push_bit 12 i0"
  have b: "\<And>n. bit i2 n \<Longrightarrow> n < 9" "\<And>n. bit i1 n \<Longrightarrow> n < 9" "\<And>n. bit i0 n \<Longrightarrow> n < 9"
    using index_bits [of _ 9] assms by auto
  have "PX 2 ?va = i2" "PX 1 ?va = i1" "PX 0 ?va = i0"
    by (rule bit_word_eqI; use b in \<open>fastforce simp: bit_PX bit_simps\<close>)+
  moreover have "?va < 2 ^ 38" if "i2 < 256"
  proof (rule bits_less)
    fix n assume "bit ?va n"
    moreover have "\<And>n. bit i2 n \<Longrightarrow> n < 8" using index_bits [of i2 8] that by auto
    ultimately show "n < 38" using b by (fastforce simp: bit_simps)
  qed
  ultimately show ?thesis by (intro exI [of _ ?va]) (simp add: MAXVA_val)
qed

lemma bare_unmapped:
  assumes "\<And>va. va < MAXVA \<Longrightarrow> pte_at 2 m pt va = None" "\<And>i. i < 512 \<Longrightarrow> 256 \<le> i \<Longrightarrow> \<not> valid_pte (entry m pt i)"
  shows "bare 2 m pt"
proof -
  have "\<not> valid_pte (entry m (PTE2PA (entry m (PTE2PA (entry m pt i2)) i1)) i0)"
    if i: "i2 < 512" "valid_pte (entry m pt i2)" "i1 < 512" "valid_pte (entry m (PTE2PA (entry m pt i2)) i1)" "i0 < 512" for i2 i1 i0
  proof -
    have "i2 < 256" using assms(2) [OF i(1)] i(2) by (meson not_less)
    then obtain va where va: "PX 2 va = i2" "PX 1 va = i1" "PX 0 va = i0" "va < MAXVA" using PX_join [OF i(1,3,5)] by blast
    then have "pte_at 2 m pt va = pte_at 0 m (PTE2PA (entry m (PTE2PA (entry m pt i2)) i1)) va"
      using i by (simp add: numeral_2_eq_2 pte_at_Suc)
    then show ?thesis using assms(1) [OF va(4)] va(3) by (simp add: pte_at_0 split: if_splits)
  qed
  then show ?thesis by (simp add: numeral_2_eq_2)
qed

subsection \<open>Freeing an address space\<close>

definition npages :: "u64 \<Rightarrow> nat" where
  "npages sz = unat (PGROUNDUP sz) div 4096"

text \<open>
  An address space as \<^verbatim>\<open>proc_pagetable\<close>, \<^verbatim>\<open>uvmalloc\<close> and \<^verbatim>\<open>exec\<close> build it: the pages up to its size, the trapframe and the trampoline are
  mapped and nothing else; the pages up to the size have frames of their own.
\<close>

definition space_ok :: "u64 \<Rightarrow> u64 \<Rightarrow> u64 list \<Rightarrow> 'z kmem_scheme \<Rightarrow> bool" where
  "space_ok pt sz xs s \<longleftrightarrow> pt_ready pt xs s \<and> inner_ok 2 (phys s) pt \<and> (\<forall>i<512. 256 \<le> i \<longrightarrow> \<not> valid_pte (entry (phys s) pt i))
     \<and> (\<forall>p \<in> tables 2 (phys s) pt. valid_page s p) \<and> npages sz * 4096 \<le> unat TRAPFRAME
     \<and> mapped_leaves (phys s) pt 0 (npages sz) \<and> mapped_leaves (phys s) pt TRAPFRAME 1 \<and> mapped_leaves (phys s) pt TRAMPOLINE 1
     \<and> (\<forall>va<MAXVA. pte_at 2 (phys s) pt va \<noteq> None \<longrightarrow> in_pages 0 (npages sz) va \<or> in_pages TRAPFRAME 1 va \<or> in_pages TRAMPOLINE 1 va)
     \<and> distinct (frames_of (phys s) pt 0 (npages sz))
     \<and> (\<forall>f \<in> set (frames_of (phys s) pt 0 (npages sz)). valid_page s f \<and> f \<notin> set xs \<union> tables 2 (phys s) pt)"

definition space_pages :: "mem \<Rightarrow> u64 \<Rightarrow> u64 \<Rightarrow> u64 set" where
  "space_pages m pt sz = tables 2 m pt \<union> set (frames_of m pt 0 (npages sz))"

lemma trap_pages: "unat TRAPFRAME = 2 ^ 38 - 8192" "unat TRAMPOLINE = 2 ^ 38 - 4096" "page_aligned TRAPFRAME" "page_aligned TRAMPOLINE"
  by (simp_all add: TRAPFRAME_def TRAMPOLINE_def MAXVA_val page_aligned_mod)

lemma in_pages_apart:
  assumes "unat a + n * 4096 \<le> unat b" "unat b + k * 4096 \<le> 2 ^ 38" "in_pages a n wa"
  shows "\<not> in_pages b k wa"
proof
  assume "in_pages b k wa"
  let ?p = "PGROUNDDOWN wa"
  have a: "unat (?p - a) < n * 4096" "unat (?p - b) < k * 4096" using assms(3) \<open>in_pages b k wa\<close> by (auto simp: in_pages_def)
  have "unat (x + (?p - x)) = unat x + unat (?p - x)" if "unat x + unat (?p - x) < 2 ^ 64" for x
    using that unat_add_lem [of x "?p - x"] by simp
  then have "unat ?p = unat a + unat (?p - a)" "unat ?p = unat b + unat (?p - b)" using a assms(1,2) by auto
  then show False using a assms(1) by linarith
qed

lemma uvmunmap_range:
  assumes "pt_ready pt xs s" "page_aligned va" "unat va + n * 4096 \<le> 2 ^ 38" "mapped_leaves (phys s) pt va n"
    "do_free \<longrightarrow> distinct (frames_of (phys s) pt va n) \<and> (\<forall>f \<in> set (frames_of (phys s) pt va n). valid_page s f \<and> f \<notin> set xs \<union> tables 2 (phys s) pt)"
  obtains t where "uvmunmap pt va (of_nat n) do_free s = Ret () t"
    "pt_ready pt (if do_free then rev (frames_of (phys s) pt va n) @ xs else xs) t" "mem_only s t" "unmaps_pages pt va n s t"
    "tables 2 (phys t) pt = tables 2 (phys s) pt" "inner_eq 2 (phys s) (phys t) pt"
    "\<And>b. PGROUNDDOWN b \<notin> tables 2 (phys s) pt \<Longrightarrow> (do_free \<longrightarrow> PGROUNDDOWN b \<notin> set (frames_of (phys s) pt va n)) \<Longrightarrow> phys t b = phys s b"
proof -
  have "uvmunmap pt va (of_nat n) do_free s = uvmunmap_from pt va (va + of_nat n * PGSIZE) do_free s"
    using assms(2) by (simp add: uvmunmap_def page_aligned_mod)
  then show thesis using uvmunmap_from_range [OF assms] that by auto
qed

text \<open>Unmapping the trampoline or the trapframe keeps the rest of the space.\<close>

lemma unmap_keeps:
  assumes "unmaps_pages pt b k s t" "page_aligned a" "unat a + n * 4096 \<le> 2 ^ 38"
    "\<And>wa. in_pages a n wa \<Longrightarrow> \<not> in_pages b k wa"
  shows "frames_of (phys t) pt a n = frames_of (phys s) pt a n \<and> mapped_leaves (phys t) pt a n = mapped_leaves (phys s) pt a n"
  using assms(1,4) by (intro leaves_cong [OF assms(2,3)]) (auto simp: unmaps_pages_def)

lemma inner_eq_ok: "inner_eq l m m' pt \<Longrightarrow> inner_ok l m' pt = inner_ok l m pt"
  by (induction l arbitrary: pt) auto

lemma uvmfree_eq:
  assumes "uvmunmap pt 0 (of_nat (npages sz)) True s = Ret () t"
  shows "uvmfree pt sz s = freewalk (Suc 2) pt t"
proof -
  have e: "Suc 2 = (3 :: nat)" by simp
  have n: "of_nat (npages sz) = PGROUNDUP sz div PGSIZE"
  proof -
    have "unat (PGROUNDUP sz) < 2 ^ LENGTH(64)" by (rule unsigned_less)
    then have "npages sz < 2 ^ LENGTH(64)" unfolding npages_def by (rule le_less_trans [OF div_le_dividend])
    then have "unat (of_nat (npages sz) :: u64) = npages sz" by (simp add: unat_of_nat)
    then show ?thesis by (simp add: npages_def word_unat_eq_iff unat_div)
  qed
  show ?thesis
  proof (cases "sz = 0")
    case True
    then have "npages sz = 0" by (simp add: npages_def PGROUNDUP_def)
    then have "t = s" using assms by (simp add: uvmunmap_def) (subst (asm) uvmunmap_from.simps, simp)
    then show ?thesis unfolding e uvmfree_def using True by simp
  next
    case False
    then have "sz > 0" by (simp add: word_gt_0)
    then show ?thesis unfolding e uvmfree_def using assms [unfolded n] by simp
  qed
qed

lemma proc_freepagetable_run:
  assumes "space_ok pt sz xs s"
  shows "\<exists>t. proc_freepagetable pt sz s = Ret () t \<and> freed (space_pages (phys s) pt sz) xs s t"
proof -
  let ?n = "npages sz" and ?T = "tables 2 (phys s) pt" and ?F = "frames_of (phys s) pt 0 (npages sz)"
  have S: "pt_ready pt xs s" "inner_ok 2 (phys s) pt" "\<And>i. i < 512 \<Longrightarrow> 256 \<le> i \<Longrightarrow> \<not> valid_pte (entry (phys s) pt i)"
    "\<And>p. p \<in> ?T \<Longrightarrow> valid_page s p" "?n * 4096 \<le> unat TRAPFRAME" "mapped_leaves (phys s) pt 0 ?n" "mapped_leaves (phys s) pt TRAPFRAME 1"
    "mapped_leaves (phys s) pt TRAMPOLINE 1" "distinct ?F" "\<And>f. f \<in> set ?F \<Longrightarrow> valid_page s f \<and> f \<notin> set xs \<union> ?T"
    "\<And>va. va < MAXVA \<Longrightarrow> pte_at 2 (phys s) pt va \<noteq> None \<Longrightarrow> in_pages 0 ?n va \<or> in_pages TRAPFRAME 1 va \<or> in_pages TRAMPOLINE 1 va"
    using assms by (auto simp: space_ok_def)
  have bound: "unat TRAMPOLINE + 1 * 4096 \<le> 2 ^ 38" "unat TRAPFRAME + 1 * 4096 \<le> unat TRAMPOLINE" "unat (0 :: u64) + ?n * 4096 \<le> unat TRAPFRAME"
    "unat TRAPFRAME + 1 * 4096 \<le> 2 ^ 38" "unat (0 :: u64) + ?n * 4096 \<le> 2 ^ 38" "unat (0 :: u64) + ?n * 4096 \<le> unat TRAMPOLINE" "page_aligned (0 :: u64)"
    using trap_pages(1,2) S(5) by (simp_all add: page_aligned_mod)
  obtain s1 where s1: "uvmunmap pt TRAMPOLINE (of_nat 1) False s = Ret () s1" "pt_ready pt xs s1" "mem_only s s1" "unmaps_pages pt TRAMPOLINE 1 s s1"
    "tables 2 (phys s1) pt = ?T" "inner_eq 2 (phys s) (phys s1) pt" "\<And>b. PGROUNDDOWN b \<notin> ?T \<Longrightarrow> phys s1 b = phys s b"
    using uvmunmap_range [OF S(1) trap_pages(4) bound(1) S(8), of False] by auto
  have k1: "mapped_leaves (phys s1) pt TRAPFRAME 1" "frames_of (phys s1) pt 0 ?n = ?F" "mapped_leaves (phys s1) pt 0 ?n"
    using unmap_keeps [OF s1(4) trap_pages(3) bound(4) in_pages_apart [OF bound(2,1)]] S(7)
      unmap_keeps [OF s1(4) bound(7,5) in_pages_apart [OF bound(6,1)]] S(6) by blast+
  obtain s2 where s2: "uvmunmap pt TRAPFRAME (of_nat 1) False s1 = Ret () s2" "pt_ready pt xs s2" "mem_only s1 s2" "unmaps_pages pt TRAPFRAME 1 s1 s2"
    "tables 2 (phys s2) pt = ?T" "inner_eq 2 (phys s1) (phys s2) pt" "\<And>b. PGROUNDDOWN b \<notin> ?T \<Longrightarrow> phys s2 b = phys s1 b"
    using uvmunmap_range [OF s1(2) trap_pages(3) bound(4) k1(1), of False] s1(5) by auto
  have k2: "frames_of (phys s2) pt 0 ?n = ?F" "mapped_leaves (phys s2) pt 0 ?n"
    using unmap_keeps [OF s2(4) bound(7,5) in_pages_apart [OF bound(3,4)]] k1 by auto
  have m2: "mem_only s s2" using mem_only_trans [OF s1(3) s2(3)] .
  have v2: "valid_page s2 x = valid_page s x" for x using mem_only_eq(1) [OF m2] by (simp add: valid_page_def)
  have pre: "True \<longrightarrow> distinct (frames_of (phys s2) pt 0 ?n) \<and> (\<forall>f \<in> set (frames_of (phys s2) pt 0 ?n). valid_page s2 f \<and> f \<notin> set xs \<union> tables 2 (phys s2) pt)"
    using S(9,10) by (simp add: k2 s2(5) v2)
  obtain s3 where s3: "uvmunmap pt 0 (of_nat ?n) True s2 = Ret () s3" "pt_ready pt (rev ?F @ xs) s3" "mem_only s2 s3" "unmaps_pages pt 0 ?n s2 s3"
    "tables 2 (phys s3) pt = ?T" "inner_eq 2 (phys s2) (phys s3) pt" "\<And>b. PGROUNDDOWN b \<notin> ?T \<Longrightarrow> PGROUNDDOWN b \<notin> set ?F \<Longrightarrow> phys s3 b = phys s2 b"
    using uvmunmap_range [OF s2(2) bound(7,5) k2(2) pre] k2(1) s2(5) by (auto simp only: if_True simp_thms)
  have m3: "mem_only s s3" using mem_only_trans [OF m2 s3(3)] .
  have i3: "inner_eq 2 (phys s) (phys s3) pt" using inner_eq_trans [OF inner_eq_trans [OF s1(6) s2(6)] s3(6)] .
  have "pte_at 2 (phys s3) pt va = None" if "va < MAXVA" for va
    using that s1(4) s2(4) s3(4) S(11) [OF that] unfolding unmaps_pages_def by (cases "pte_at 2 (phys s) pt va") auto
  moreover have "\<not> valid_pte (entry (phys s3) pt i)" if "i < 512" "256 \<le> i" for i
    using i3 S(3) [OF that] that(1) by (simp add: numeral_2_eq_2)
  ultimately have "bare 2 (phys s3) pt" by (rule bare_unmapped)
  moreover have "valid_page s3 x = valid_page s x" for x using mem_only_eq(1) [OF m3] by (simp add: valid_page_def)
  ultimately have "freeable 2 pt (rev ?F @ xs) s3"
    using s3(2,5) S(2,4) inner_eq_ok [OF i3] by (auto simp: freeable_def pt_ready_def)
  from freewalk_run [OF this, unfolded s3(5)] obtain t where t: "freewalk (Suc 2) pt s3 = Ret () t" "freed ?T (rev ?F @ xs) s3 t" by blast
  from freedD [OF t(2)] obtain ys where y: "set ys = ?T" "kmem_ready t (ys @ rev ?F @ xs)" "mem_only s3 t" "\<And>b. PGROUNDDOWN b \<notin> ?T \<Longrightarrow> phys t b = phys s3 b"
    by metis
  have "freed (space_pages (phys s) pt sz) xs s t"
    unfolding freed_def space_pages_def using y s1(7) s2(7) s3(7) mem_only_trans [OF m3 y(3)] by (auto intro!: exI [of _ "ys @ rev ?F"])
  moreover have "uvmfree pt sz s2 = Ret () t" using uvmfree_eq [OF s3(1)] t(1) by simp
  then have "proc_freepagetable pt sz s = Ret () t" using s1(1) s2(1) by (simp add: proc_freepagetable_def)
  ultimately show ?thesis by blast
qed

subsection \<open>Freeing a slot of the process table\<close>

lemma kmem_ready_procs [simp]: "kmem_ready (s\<lparr>procs := x\<rparr>) xs = kmem_ready s xs" "valid_page (s\<lparr>procs := x\<rparr>) a = valid_page s a"
  by (simp_all add: kmem_ready_def kmem_ok_def valid_page_def lock_free_def intr_wf_def spin_defs)

lemma space_ok_frame:
  assumes "space_ok pt sz xs s" "\<And>a. PGROUNDDOWN a \<in> tables 2 (phys s) pt \<Longrightarrow> phys t a = phys s a" "k_end t = k_end s"
    "kmem_ready t (ys @ xs)" "set ys \<inter> space_pages (phys s) pt sz = {}"
  shows "space_ok pt sz (ys @ xs) t" "space_pages (phys t) pt sz = space_pages (phys s) pt sz"
proof -
  let ?n = "npages sz"
  have S: "pt_ready pt xs s" using assms(1) by (simp add: space_ok_def)
  then have ok: "tree_ok 2 (phys s) pt" by (simp add: pt_ready_def)
  have F: "tables 2 (phys t) pt = tables 2 (phys s) pt" "tree_ok 2 (phys t) pt" "\<And>va. pte_at 2 (phys t) pt va = pte_at 2 (phys s) pt va"
    using tree_frame [OF ok assms(2)] by blast+
  have L: "frames_of (phys t) pt a n = frames_of (phys s) pt a n" "mapped_leaves (phys t) pt a n = mapped_leaves (phys s) pt a n" for a n
    by (induction n arbitrary: a) (simp_all add: F(3))
  have E: "entry (phys t) pt i = entry (phys s) pt i" if "i < 512" for i
    using that ok assms(2) by (intro entry_frame) (auto simp: tables_root dest: tree_ok_root)
  have V: "valid_page t x = valid_page s x" for x using assms(3) by (simp add: valid_page_def)
  show P: "space_pages (phys t) pt sz = space_pages (phys s) pt sz" by (simp only: space_pages_def F(1) L)
  have Y: "\<And>y. y \<in> set ys \<Longrightarrow> y \<notin> tables 2 (phys s) pt" "\<And>y. y \<in> set ys \<Longrightarrow> y \<notin> set (frames_of (phys s) pt 0 ?n)"
    using assms(5) by (auto simp only: space_pages_def)
  have "set (ys @ xs) \<inter> tables 2 (phys s) pt = {}" using S Y(1) unfolding pt_ready_def set_append by blast
  then have "pt_ready pt (ys @ xs) t" using F assms(4) by (simp add: pt_ready_def)
  moreover have "inner_ok 2 (phys t) pt = inner_ok 2 (phys s) pt" using tree_same [OF ok assms(2)] by blast
  moreover have "f \<notin> set (ys @ xs) \<union> tables 2 (phys s) pt" if "f \<in> set (frames_of (phys s) pt 0 ?n)" for f
    using assms(1) that Y(2) unfolding space_ok_def set_append by blast
  ultimately show "space_ok pt sz (ys @ xs) t"
    using assms(1) E unfolding space_ok_def F L V by simp
qed

text \<open>A process whose pages can be given back, and the pages.\<close>

definition proc_pages :: "mem \<Rightarrow> proc \<Rightarrow> u64 set" where
  "proc_pages m c = insert (p_trapframe c) (space_pages m (p_pagetable c) (p_sz c))"

definition reapable :: "proc \<Rightarrow> u64 list \<Rightarrow> 'z kmem_scheme \<Rightarrow> bool" where
  "reapable c xs s \<longleftrightarrow> p_trapframe c \<noteq> 0 \<and> valid_page s (p_trapframe c) \<and> p_trapframe c \<notin> set xs \<union> space_pages (phys s) (p_pagetable c) (p_sz c)
     \<and> p_pagetable c \<noteq> 0 \<and> space_ok (p_pagetable c) (p_sz c) xs s"

lemma reapable_pages:
  assumes "reapable c xs s"
  shows "proc_pages (phys s) c \<inter> set xs = {}" "kmem_ready s xs"
  using assms by (auto simp: reapable_def proc_pages_def space_pages_def space_ok_def pt_ready_def)

lemma reapable_frame:
  assumes "reapable c xs s" "\<And>a. PGROUNDDOWN a \<in> tables 2 (phys s) (p_pagetable c) \<Longrightarrow> phys t a = phys s a" "k_end t = k_end s" "kmem_ready t xs"
  shows "reapable c xs t" "proc_pages (phys t) c = proc_pages (phys s) c"
  using assms space_ok_frame [of "p_pagetable c" "p_sz c" xs s t "[]"] by (auto simp: reapable_def proc_pages_def valid_page_def)

lemma mem_only_locks:
  assumes "mem_only s t"
  shows "in_cs lk t = in_cs lk s" "lock_free lk t = lock_free lk s" "noff (mycpu t) = noff (mycpu s)"
proof -
  have "in_cs lk (settle t) = in_cs lk (settle s)" "lock_free lk (settle t) = lock_free lk (settle s)"
      "noff (mycpu (settle t)) = noff (mycpu (settle s))"
    using assms unfolding mem_only_def by simp_all
  then show "in_cs lk t = in_cs lk s" "lock_free lk t = lock_free lk s" "noff (mycpu t) = noff (mycpu s)" by (simp_all add: mycpu_def cpuid_def)
qed

lemma kmem_ready_locks:
  "kmem_ready s xs \<Longrightarrow> lk \<noteq> KmemLock \<Longrightarrow> kmem_ready (acq lk s) xs"
  "kmem_ready s xs \<Longrightarrow> in_cs lk s \<Longrightarrow> kmem_ready (rel lk s) xs"
  by (auto simp: kmem_ready_def kmem_ok_def valid_page_def in_cs_def intr_wf_def acq_def rel_def lock_free_def spin_defs)

lemma in_cs_rel: "in_cs lk' s \<Longrightarrow> lk' \<noteq> lk \<Longrightarrow> 2 \<le> noff (mycpu s) \<Longrightarrow> in_cs lk' (rel lk s)"
  by (auto simp: in_cs_def rel_def spin_defs)

lemma freeproc_run:
  assumes "reapable (procs s q) xs s"
  shows "\<exists>t. freeproc q s = Ret () t \<and> procs t = (procs s)(q := cleared (procs s q))
    \<and> (\<exists>ys. set ys = proc_pages (phys s) (procs s q) \<and> kmem_ready t (ys @ xs))
    \<and> (\<forall>b. PGROUNDDOWN b \<notin> proc_pages (phys s) (procs s q) \<longrightarrow> phys t b = phys s b)
    \<and> (\<forall>lk. in_cs lk t = in_cs lk s \<and> lock_free lk t = lock_free lk s) \<and> noff (mycpu t) = noff (mycpu s)"
proof -
  let ?c = "procs s q"
  let ?tf = "p_trapframe ?c" and ?pt = "p_pagetable ?c" and ?sz = "p_sz ?c"
  have R: "?tf \<noteq> 0" "valid_page s ?tf" "?tf \<notin> set xs" "?tf \<notin> space_pages (phys s) ?pt ?sz" "?pt \<noteq> 0" "space_ok ?pt ?sz xs s"
    using assms by (auto simp: reapable_def)
  obtain s1 where s1: "kfree ?tf s = Ret () s1" "freed {?tf} xs s s1"
    using kfree_freed [of s xs ?tf] R reapable_pages(2) [OF assms] by blast
  from freedD [OF s1(2)] obtain ys where y: "set ys = {?tf}" "kmem_ready s1 (ys @ xs)" "mem_only s s1" "\<And>b. PGROUNDDOWN b \<notin> {?tf} \<Longrightarrow> phys s1 b = phys s b"
    by metis
  define s2 where "s2 = s1\<lparr>procs := (procs s1)(q := (procs s1 q)\<lparr>p_trapframe := 0\<rparr>)\<rparr>"
  have p1: "procs s1 = procs s" using keepsD [OF procs_frame.keeps_kfree s1(1)] .
  have "phys s2 a = phys s a" if "PGROUNDDOWN a \<in> tables 2 (phys s) ?pt" for a
  proof -
    have "PGROUNDDOWN a \<notin> {?tf}" using that R(4) by (auto simp: space_pages_def)
    then show ?thesis using y(4) by (simp add: s2_def)
  qed
  moreover have "k_end s2 = k_end s" "kmem_ready s2 (ys @ xs)" using mem_only_eq(1) [OF y(3)] y(2) by (simp_all add: s2_def)
  moreover have "set ys \<inter> space_pages (phys s) ?pt ?sz = {}" using y(1) R(4) by simp
  ultimately have S: "space_ok ?pt ?sz (ys @ xs) s2" "space_pages (phys s2) ?pt ?sz = space_pages (phys s) ?pt ?sz"
    using space_ok_frame [OF R(6), of s2 ys] by blast+
  from proc_freepagetable_run [OF S(1)] obtain s3 where s3: "proc_freepagetable ?pt ?sz s2 = Ret () s3"
    "freed (space_pages (phys s) ?pt ?sz) (ys @ xs) s2 s3" unfolding S(2) by blast
  from freedD [OF s3(2)] obtain zs where z: "set zs = space_pages (phys s) ?pt ?sz" "kmem_ready s3 (zs @ ys @ xs)" "mem_only s2 s3"
    "\<And>b. PGROUNDDOWN b \<notin> space_pages (phys s) ?pt ?sz \<Longrightarrow> phys s3 b = phys s2 b" by metis
  define t where "t = s3\<lparr>procs := (procs s3)(q := cleared (procs s3 q))\<rparr>"
  have f: "freeproc q s = Ret () t" using s1(1) s3(1) R(1,5) p1 by (simp add: freeproc_def s2_def t_def)
  have "kmem_ready t (zs @ ys @ xs)" "set (zs @ ys) = proc_pages (phys s) ?c" using z(1,2) y(1) by (auto simp: t_def proc_pages_def)
  then have "\<exists>ys. set ys = proc_pages (phys s) ?c \<and> kmem_ready t (ys @ xs)" by (metis append.assoc)
  moreover have "phys t b = phys s b" if "PGROUNDDOWN b \<notin> proc_pages (phys s) ?c" for b
    using that z(4) [of b] y(4) [of b] by (simp add: t_def s2_def proc_pages_def)
  moreover have "in_cs lk t = in_cs lk s" "lock_free lk t = lock_free lk s" "noff (mycpu t) = noff (mycpu s)" for lk
    using mem_only_locks(1,2) [OF z(3), of lk] mem_only_locks(1,2) [OF y(3), of lk] mem_only_locks(3) [OF z(3)] mem_only_locks(3) [OF y(3)] by (simp_all add: t_def s2_def in_cs_def lock_free_def spin_defs)
  ultimately show ?thesis using f freeproc_procs [OF f] by blast
qed

subsection \<open>wait\<close>

lemma wait_scan_skip:
  assumes "waiting s" "\<forall>q \<in> set ps. q < NPROC \<and> (p_parent (procs s q) = Some p \<longrightarrow> p_state (procs s q) \<noteq> ZOMBIE)"
  shows "\<exists>k. wait_scan (ps @ qs) p addr kids s = wait_scan qs p addr k s"
  using assms(2)
proof (induction ps arbitrary: kids)
  case (Cons q ps)
  then show ?case
    using waitingD [OF assms(1)] by (cases "p_parent (procs s q) = Some p") (simp_all add: acquire_free release_in_cs rel_acq)
qed auto

text \<open>The caller's buffer for the exit status: mapped for four bytes, and apart from the free pages and the pages of the child.\<close>

definition status_ok :: "u64 \<Rightarrow> proc \<Rightarrow> proc \<Rightarrow> u64 list \<Rightarrow> mem \<Rightarrow> bool" where
  "status_ok addr parent c xs m \<longleftrightarrow> user_ok m (p_pagetable parent) \<and> user_range m (p_pagetable parent) addr 4
     \<and> tables 2 m (p_pagetable parent) \<inter> proc_pages m c = {} \<and> (\<forall>wa. user_pa m (p_pagetable parent) wa \<notin> set xs \<union> proc_pages m c)"

lemma tables_nonzero: "tree_ok l m pt \<Longrightarrow> x \<in> tables l m pt \<Longrightarrow> x \<noteq> 0"
  by (induction l arbitrary: pt) auto

lemma status_copied:
  assumes "reapable c xs s" "addr \<noteq> 0 \<Longrightarrow> status_ok addr parent c xs (phys s)"
  shows "\<exists>m. (if addr \<noteq> 0 then copyout (p_pagetable parent) addr (bytes_of_int x) else returnM 0) s = Ret 0 (s\<lparr>phys := m\<rparr>)
    \<and> reapable c xs (s\<lparr>phys := m\<rparr>) \<and> proc_pages m c = proc_pages (phys s) c
    \<and> (addr \<noteq> 0 \<longrightarrow> user_ok m (p_pagetable parent) \<and> user_bytes m (p_pagetable parent) addr 4 = bytes_of_int x
         \<and> tables 2 m (p_pagetable parent) \<inter> proc_pages m c = {} \<and> (\<forall>wa. user_pa m (p_pagetable parent) wa \<notin> proc_pages m c))"
proof (cases "addr = 0")
  case True
  then show ?thesis using assms(1) by (intro exI [of _ "phys s"]) simp
next
  case False
  let ?pt = "p_pagetable parent"
  have S: "user_ok (phys s) ?pt" "user_range (phys s) ?pt addr 4" "tables 2 (phys s) ?pt \<inter> proc_pages (phys s) c = {}"
      "\<And>wa. user_pa (phys s) ?pt wa \<notin> set xs \<union> proc_pages (phys s) c"
    using assms(2) False unfolding status_ok_def by blast+
  have n: "length (bytes_of_int x) = 4" by (simp add: bytes_of_int_def)
  from copyout_writes [OF S(1), of addr "bytes_of_int x"] S(2) n obtain m where
    m: "copyout ?pt addr (bytes_of_int x) s = Ret 0 (s\<lparr>phys := m\<rparr>)" and w: "wrote_user ?pt addr (bytes_of_int x) (phys s) m"
    by auto
  have same: "m a = phys s a" if "PGROUNDDOWN a \<in> set xs \<union> proc_pages (phys s) c" for a
    using w that S(4) unfolding wrote_user_def by metis
  have "kmem_ready (s\<lparr>phys := m\<rparr>) xs" using kmem_ready_phys reapable_pages(2) [OF assms(1)] same by blast
  moreover have "tables 2 (phys s) (p_pagetable c) \<subseteq> proc_pages (phys s) c" by (auto simp: proc_pages_def space_pages_def)
  ultimately have R: "reapable c xs (s\<lparr>phys := m\<rparr>)" "proc_pages m c = proc_pages (phys s) c"
    using reapable_frame [OF assms(1), of "s\<lparr>phys := m\<rparr>"] same by auto
  have "user_byte m ?pt (addr + of_nat i) = bytes_of_int x ! i" if "i < 4" for i
  proof -
    have "unat (of_nat i :: u64) = i" using that by (simp add: unat_of_nat)
    then show ?thesis using w that n S(2) by (simp add: wrote_user_def user_range_def)
  qed
  then have "user_bytes m ?pt addr 4 = bytes_of_int x" using n by (intro nth_equalityI) (simp_all add: user_bytes_def)
  moreover have "tables 2 m ?pt \<inter> proc_pages (phys s) c = {}"
  proof -
    have "m a = phys s a" if "PGROUNDDOWN a \<in> tables 2 (phys s) ?pt" for a
      using w that S(1) tables_nonzero unfolding wrote_user_def user_ok_def by metis
    then show ?thesis using tree_frame [of 2 "phys s" ?pt m] S(1,3) by (auto simp: user_ok_def)
  qed
  moreover have "user_ok m ?pt" "\<And>wa. user_pa m ?pt wa = user_pa (phys s) ?pt wa" using w by (simp_all add: wrote_user_def)
  ultimately show ?thesis using m R S(4) False by (intro exI [of _ m]) simp
qed

lemma user_bytes_frame:
  assumes "tree_ok 2 m pt" "\<And>a. PGROUNDDOWN a \<notin> P \<Longrightarrow> m' a = m a" "tables 2 m pt \<inter> P = {}" "\<And>wa. user_pa m pt wa \<notin> P"
  shows "user_bytes m' pt va n = user_bytes m pt va n"
proof -
  have "pte_at 2 m' pt wa = pte_at 2 m pt wa" for wa using tree_frame [OF assms(1), of m'] assms(2,3) by blast
  then have u: "user_pa m' pt wa = user_pa m pt wa" for wa by (simp add: user_pa_def)
  have "m' (user_pa m pt wa + (wa - PGROUNDDOWN wa)) = m (user_pa m pt wa + (wa - PGROUNDDOWN wa))" for wa
    using assms(2) assms(4) [of wa] by (simp add: user_byte_page)
  then show ?thesis by (simp add: user_bytes_def user_byte_def u)
qed

definition zombie_child :: "nat \<Rightarrow> 'z ptab_scheme \<Rightarrow> nat \<Rightarrow> bool" where
  "zombie_child p s q \<longleftrightarrow> p_parent (procs s q) = Some p \<and> p_state (procs s q) = ZOMBIE"

lemma wait_scan_reaps:
  assumes "waiting s" "q < NPROC" "zombie_child p s q" "reapable (procs s q) xs s" "1 \<le> noff (mycpu s)"
    "addr \<noteq> 0 \<Longrightarrow> status_ok addr (procs s p) (procs s q) xs (phys s)"
  shows "\<exists>t ys. wait_scan (q # qs) p addr kids s = Ret (Some (p_pid (procs s q)), True) t \<and> procs t = (procs s)(q := cleared (procs s q))
    \<and> set ys = proc_pages (phys s) (procs s q) \<and> kmem_ready t (ys @ xs) \<and> lock_free WaitLock t \<and> (\<forall>r<NPROC. lock_free (ProcLock r) t)
    \<and> (addr \<noteq> 0 \<longrightarrow> user_bytes (phys t) (p_pagetable (procs s p)) addr 4 = bytes_of_int (p_xstate (procs s q)))"
proof -
  let ?c = "procs s q" and ?par = "procs s p"
  let ?a = "acq (ProcLock q) s"
  have W: "intr_wf s" "settle s = s" "lock_free (ProcLock q) s" "in_cs WaitLock s" using waitingD [OF assms(1)] assms(1,2) by (auto simp: waiting_def)
  have "kmem_ready ?a xs" using kmem_ready_locks(1) reapable_pages(2) [OF assms(4)] by blast
  then have "reapable ?c xs ?a" using reapable_frame(1) [OF assms(4), of ?a] by simp
  from status_copied [OF this, of addr ?par "p_xstate ?c"] assms(6) obtain m where
    m: "(if addr \<noteq> 0 then copyout (p_pagetable ?par) addr (bytes_of_int (p_xstate ?c)) else returnM 0) ?a = Ret 0 (?a\<lparr>phys := m\<rparr>)"
      "reapable ?c xs (?a\<lparr>phys := m\<rparr>)" "proc_pages m ?c = proc_pages (phys s) ?c"
    and u: "addr \<noteq> 0 \<longrightarrow> user_ok m (p_pagetable ?par) \<and> user_bytes m (p_pagetable ?par) addr 4 = bytes_of_int (p_xstate ?c)
         \<and> tables 2 m (p_pagetable ?par) \<inter> proc_pages m ?c = {} \<and> (\<forall>wa. user_pa m (p_pagetable ?par) wa \<notin> proc_pages m ?c)"
    by auto
  let ?b = "?a\<lparr>phys := m\<rparr>"
  from freeproc_run [of ?b q xs] m(2,3) obtain v ys where
    v: "freeproc q ?b = Ret () v" "procs v = (procs s)(q := cleared ?c)" "set ys = proc_pages (phys s) ?c" "kmem_ready v (ys @ xs)"
      "\<And>b. PGROUNDDOWN b \<notin> proc_pages (phys s) ?c \<Longrightarrow> phys v b = m b"
    and l: "\<And>lk. in_cs lk v = in_cs lk ?a" "\<And>lk. lock_free lk v = lock_free lk ?a" "noff (mycpu v) = noff (mycpu ?a)"
    by auto
  have cs: "in_cs (ProcLock q) v" "in_cs WaitLock v" "2 \<le> noff (mycpu v)" using W assms(5) by (simp_all add: l noff_acq)
  let ?t = "rel WaitLock (rel (ProcLock q) v)"
  have w: "in_cs WaitLock (rel (ProcLock q) v)" using in_cs_rel [OF cs(2) _ cs(3)] by simp
  then have "wait_scan (q # qs) p addr kids s = Ret (Some (p_pid ?c), True) ?t"
    using assms(3) W(3) m(1) v(1) cs(1) by (simp add: zombie_child_def acquire_free release_in_cs)
  moreover have "kmem_ready ?t (ys @ xs)" using kmem_ready_locks(2) v(4) cs(1) w by blast
  moreover have "lock_free (ProcLock r) ?t" if "r < NPROC" for r
    using that waitingD(3) [OF assms(1)] by (cases "r = q") (simp_all add: l)
  moreover have "user_bytes (phys ?t) (p_pagetable ?par) addr 4 = bytes_of_int (p_xstate ?c)" if "addr \<noteq> 0"
    using u that user_bytes_frame [of m "p_pagetable ?par" "proc_pages m ?c" "phys v" addr 4] v(5) m(3) by (auto simp: user_ok_def)
  ultimately show ?thesis using v(2,3) by auto
qed

lemma first_zombie:
  assumes "find P [0..<n] = Some q"
  shows "q < n" "P q" "\<forall>r<q. \<not> P r" "[0..<n] = [0..<q] @ q # [Suc q..<n]"
proof -
  show q: "q < n" "P q" "\<forall>r<q. \<not> P r" using assms by (auto simp: find_Some_iff)
  have "[0..<n] = [0..<q] @ [q..<n]" using q(1) by (metis le_add_diff_inverse less_imp_le_nat upt_add_eq_append zero_le)
  then show "[0..<n] = [0..<q] @ q # [Suc q..<n]" using q(1) by (simp add: upt_conv_Cons)
qed

text \<open>
  C14: \<^verbatim>\<open>wait\<close>, called with no lock held by a process all of whose zombie children have well-formed
  memory. If it has a zombie child, the first one in the table is reaped: its pid is returned, its slot
  is cleared and every other slot is unchanged, its trapframe, its user pages and all pages of its page
  table are back on the free list, every lock is released, and the exit status has been stored at the
  given address unless that is null. If no child is a zombie, the caller goes to sleep on its own process
  when it has children and has not been killed, and otherwise gets \<^term>\<open>- 1\<close> at once.
\<close>

theorem wait_reaps_zombie:
  fixes s :: "'z ptab_scheme"
  assumes "quiet s" "lock_free WaitLock s" "c_proc (mycpu s) = Some p" "p < NPROC" "noff (mycpu s) = 0"
    and "\<And>q. q < NPROC \<Longrightarrow> zombie_child p s q \<Longrightarrow> reapable (procs s q) xs s"
    and "\<And>q. q < NPROC \<Longrightarrow> zombie_child p s q \<Longrightarrow> addr \<noteq> 0 \<Longrightarrow> status_ok addr (procs s p) (procs s q) xs (phys s)"
  shows "case find (zombie_child p s) [0..<NPROC] of
      Some q \<Rightarrow> \<exists>t ys. wait addr s = Ret (p_pid (procs s q)) t
        \<and> procs t = (procs s)(q := cleared (procs s q)) \<and> p_state (procs t q) = UNUSED
        \<and> set ys = proc_pages (phys s) (procs s q) \<and> kmem_ready t (ys @ xs) \<and> quiet t \<and> lock_free WaitLock t
        \<and> (addr \<noteq> 0 \<longrightarrow> user_bytes (phys t) (p_pagetable (procs s p)) addr 4 = bytes_of_int (p_xstate (procs s q)))
    | None \<Rightarrow> if (\<exists>q<NPROC. p_parent (procs s q) = Some p) \<and> p_killed (procs s p) = 0
        then \<exists>t. wait addr s = Stop (Switch (Asleep (ChanProc p))) t \<and> lock_free WaitLock t
          \<and> p_state (procs t p) = SLEEPING \<and> p_chan (procs t p) = Some (ChanProc p)
        else wait addr s = Ret (- 1) (settle s)"
proof (cases "find (zombie_child p s) [0..<NPROC]")
  case None
  then have "\<forall>q<NPROC. p_parent (procs s q) = Some p \<longrightarrow> p_state (procs s q) \<noteq> ZOMBIE"
    by (auto simp: find_None_iff zombie_child_def)
  from wait_without_zombie [OF assms(1-5) this, of addr] show ?thesis unfolding None option.case .
next
  case (Some q)
  note F = first_zombie [OF Some]
  let ?w = "acq WaitLock s"
  have w: "waiting ?w" using assms(1) by (rule waiting_acq)
  have z: "zombie_child p ?w q" using F(2) by (simp add: zombie_child_def)
  have R: "reapable (procs s q) xs s" using assms(6) F(1,2) by blast
  have "kmem_ready ?w xs" using kmem_ready_locks(1) reapable_pages(2) [OF R] by blast
  then have r: "reapable (procs ?w q) xs ?w" using reapable_frame(1) [OF R, of ?w] by simp
  obtain k where "wait_scan [0..<NPROC] p addr False ?w = wait_scan (q # [Suc q..<NPROC]) p addr k ?w"
    using wait_scan_skip [OF w, of "[0..<q]" p "q # [Suc q..<NPROC]" addr False] F by (auto simp: zombie_child_def)
  with wait_scan_reaps [OF w F(1) z r, of addr "[Suc q..<NPROC]" k] assms(5,7) F(1,2) obtain t ys where
    t: "wait_scan [0..<NPROC] p addr False ?w = Ret (Some (p_pid (procs s q)), True) t"
    and T: "procs t = (procs s)(q := cleared (procs s q))" "set ys = proc_pages (phys s) (procs s q)" "kmem_ready t (ys @ xs)"
      "lock_free WaitLock t" "\<forall>r<NPROC. lock_free (ProcLock r) t"
      "addr \<noteq> 0 \<longrightarrow> user_bytes (phys t) (p_pagetable (procs s p)) addr 4 = bytes_of_int (p_xstate (procs s q))"
    by (auto simp: noff_acq)
  have "wait addr s = Ret (p_pid (procs s q)) t"
    using t assms(2) curproc_run [OF quietD(2) [OF assms(1)] assms(3)] by (simp add: wait_def acquire_free wait_turn_def)
  moreover have "quiet t" using T(3,5) by (simp add: quiet_def kmem_ready_def)
  ultimately show ?thesis using T unfolding Some option.case by (intro exI [of _ t] exI [of _ ys]) (simp add: cleared_def)
qed

subsection \<open>A zombie with one user page\<close>

text \<open>
  The pages 0x87F00000 to 0x87F04000 are a page table that maps one user page at 0, the trapframe and the
  trampoline; the user page and the trapframe follow.
\<close>

definition reap_mem :: mem where
  "reap_mem = st64 (st64 (st64 (st64 (st64 (st64 (st64 (\<lambda>_. 0)
     (slot 0x87F00000 0) 0x21FC0401) (slot 0x87F01000 0) 0x21FC0801) (slot 0x87F02000 0) 0x21FC141F)
     (slot 0x87F00000 255) 0x21FC0C01) (slot 0x87F03000 511) 0x21FC1001)
     (slot 0x87F04000 510) 0x21FC1807) (slot 0x87F04000 511) 0x20001C0B"

definition reap_state :: ptab where
  "reap_state = demo\<lparr>phys := reap_mem, procs := demo_procs(2 := (demo_procs 2)
     \<lparr>p_state := ZOMBIE, p_xstate := 7, p_trapframe := 0x87F06000, p_pagetable := 0x87F00000, p_sz := 4096\<rparr>)\<rparr>"

lemma reap_pages: "page_aligned (0x87F00000 :: u64)" "page_aligned (0x87F01000 :: u64)" "page_aligned (0x87F02000 :: u64)"
    "page_aligned (0x87F03000 :: u64)" "page_aligned (0x87F04000 :: u64)" "page_aligned (0x87F05000 :: u64)" "page_aligned (0x87F06000 :: u64)"
  by (simp_all add: page_aligned_mod)

lemma reap_entry:
  assumes "page_aligned pt" "i < 512"
  shows "entry reap_mem pt i =
    (if pt = 0x87F00000 \<and> i = 0 then 0x21FC0401 else if pt = 0x87F01000 \<and> i = 0 then 0x21FC0801
     else if pt = 0x87F02000 \<and> i = 0 then 0x21FC141F else if pt = 0x87F00000 \<and> i = 255 then 0x21FC0C01
     else if pt = 0x87F03000 \<and> i = 511 then 0x21FC1001 else if pt = 0x87F04000 \<and> i = 510 then 0x21FC1807
     else if pt = 0x87F04000 \<and> i = 511 then 0x20001C0B else 0)"
proof -
  have "entry (\<lambda>_. 0) pt i = 0" by (simp add: entry_def ld64_def)
  then show ?thesis unfolding reap_mem_def using assms by (simp add: entry_st64 reap_pages)
qed

lemmas reap_entries = reap_entry [OF reap_pages(1)] reap_entry [OF reap_pages(2)] reap_entry [OF reap_pages(3)]
  reap_entry [OF reap_pages(4)] reap_entry [OF reap_pages(5)]

lemma reap_valid:
  "i < 512 \<Longrightarrow> valid_pte (entry reap_mem 0x87F00000 i) \<longleftrightarrow> i = 0 \<or> i = 255"
  "i < 512 \<Longrightarrow> valid_pte (entry reap_mem 0x87F01000 i) \<longleftrightarrow> i = 0"
  "i < 512 \<Longrightarrow> valid_pte (entry reap_mem 0x87F02000 i) \<longleftrightarrow> i = 0"
  "i < 512 \<Longrightarrow> valid_pte (entry reap_mem 0x87F03000 i) \<longleftrightarrow> i = 511"
  "i < 512 \<Longrightarrow> valid_pte (entry reap_mem 0x87F04000 i) \<longleftrightarrow> i = 510 \<or> i = 511"
  by (auto simp: reap_entries valid_pte_def)

lemma reap_children:
  "PTE2PA (entry reap_mem 0x87F00000 0) = 0x87F01000" "PTE2PA (entry reap_mem 0x87F00000 255) = 0x87F03000"
  "PTE2PA (entry reap_mem 0x87F01000 0) = 0x87F02000" "PTE2PA (entry reap_mem 0x87F03000 511) = 0x87F04000"
  by (simp_all add: reap_entries PTE2PA_def push_bit_eq_mult drop_bit_eq_div)

lemma reap_sub:
  "{i. i < 512 \<and> valid_pte (entry reap_mem 0x87F00000 i)} = {0, 255}"
  "{i. i < 512 \<and> valid_pte (entry reap_mem 0x87F01000 i)} = {0}"
  "{i. i < 512 \<and> valid_pte (entry reap_mem 0x87F03000 i)} = {511}"
  using reap_valid by auto

lemma reap_tables1:
  "tables (Suc 0) reap_mem 0x87F01000 = {0x87F01000, 0x87F02000}" "tables (Suc 0) reap_mem 0x87F03000 = {0x87F03000, 0x87F04000}"
  by (simp_all add: reap_sub reap_children)

lemma reap_tables: "tables 2 reap_mem 0x87F00000 = {0x87F00000, 0x87F01000, 0x87F02000, 0x87F03000, 0x87F04000}"
  unfolding numeral_2_eq_2 tables.simps(2) [of "Suc 0"] reap_sub UN_insert reap_children reap_tables1 by auto

lemma reap_tree1: "tree_ok (Suc 0) reap_mem 0x87F01000" "tree_ok (Suc 0) reap_mem 0x87F03000"
  by (auto simp: reap_pages reap_valid reap_children)

lemma reap_tree: "tree_ok 2 reap_mem 0x87F00000"
  unfolding numeral_2_eq_2 tree_ok.simps(2) [of "Suc 0"]
  by (auto simp: reap_pages reap_valid reap_children reap_tables1 reap_tree1 simp del: tree_ok.simps tables.simps)

lemma reap_inner: "inner_ok 2 reap_mem 0x87F00000"
  unfolding numeral_2_eq_2 by (auto simp: reap_valid reap_children) (simp_all add: reap_entries)

lemma reap_pte:
  "pte_at 2 reap_mem 0x87F00000 va =
    (if PX 2 va = 0 \<and> PX 1 va = 0 \<and> PX 0 va = 0 then Some 0x21FC141F
     else if PX 2 va = 255 \<and> PX 1 va = 511 \<and> PX 0 va = 510 then Some 0x21FC1807
     else if PX 2 va = 255 \<and> PX 1 va = 511 \<and> PX 0 va = 511 then Some 0x20001C0B else None)"
proof -
  have L: "PX l va < 512" for l by (rule PX_less)
  have A: "pte_at 0 reap_mem 0x87F02000 va = (if PX 0 va = 0 then Some 0x21FC141F else None)"
      "pte_at 0 reap_mem 0x87F04000 va = (if PX 0 va = 510 then Some 0x21FC1807 else if PX 0 va = 511 then Some 0x20001C0B else None)"
    using L [of 0] by (auto simp: pte_at_0 reap_valid) (simp_all add: reap_entries)
  have B: "pte_at 1 reap_mem 0x87F01000 va = (if PX 1 va = 0 then pte_at 0 reap_mem 0x87F02000 va else None)"
      "pte_at 1 reap_mem 0x87F03000 va = (if PX 1 va = 511 then pte_at 0 reap_mem 0x87F04000 va else None)"
    using L [of 1] by (auto simp: pte_at_Suc reap_valid reap_children)
  have C: "pte_at 2 reap_mem 0x87F00000 va =
      (if PX 2 va = 0 then pte_at 1 reap_mem 0x87F01000 va else if PX 2 va = 255 then pte_at 1 reap_mem 0x87F03000 va else None)"
    using L [of 2] pte_at_Suc [of 1 reap_mem "0x87F00000" va] by (auto simp: reap_valid reap_children numeral_2_eq_2)
  show ?thesis unfolding C B A by auto
qed

lemma reap_PX: "PX 2 0 = 0" "PX 1 0 = 0" "PX 0 0 = 0" "PX 2 TRAPFRAME = 255" "PX 1 TRAPFRAME = 511" "PX 0 TRAPFRAME = 510"
    "PX 2 TRAMPOLINE = 255" "PX 1 TRAMPOLINE = 511" "PX 0 TRAMPOLINE = 511"
  by (simp_all add: PX_def TRAPFRAME_def TRAMPOLINE_def MAXVA_val drop_bit_eq_div)

lemma upto_two: "(\<forall>k\<le>2. P k) \<longleftrightarrow> P 0 \<and> P 1 \<and> P (2 :: nat)"
  by (auto simp: numeral_2_eq_2 le_Suc_eq)

lemma reap_only:
  assumes "va < MAXVA" "pte_at 2 reap_mem 0x87F00000 va \<noteq> None"
  shows "in_pages 0 1 va \<or> in_pages TRAPFRAME 1 va \<or> in_pages TRAMPOLINE 1 va"
proof -
  have m: "0 < MAXVA" "TRAPFRAME < MAXVA" "TRAMPOLINE < MAXVA" by (simp_all add: TRAPFRAME_def TRAMPOLINE_def MAXVA_val)
  consider "\<forall>k\<le>2. PX k va = PX k 0" | "\<forall>k\<le>2. PX k va = PX k TRAPFRAME" | "\<forall>k\<le>2. PX k va = PX k TRAMPOLINE"
    using assms(2) unfolding upto_two reap_PX reap_pte by (auto split: if_splits)
  then have "PGROUNDDOWN va = PGROUNDDOWN 0 \<or> PGROUNDDOWN va = PGROUNDDOWN TRAPFRAME \<or> PGROUNDDOWN va = PGROUNDDOWN TRAMPOLINE"
    using PX_same_page assms(1) m by cases blast+
  then have "PGROUNDDOWN va = 0 \<or> PGROUNDDOWN va = TRAPFRAME \<or> PGROUNDDOWN va = TRAMPOLINE"
    by (simp add: PGROUNDDOWN_def TRAPFRAME_def TRAMPOLINE_def MAXVA_val)
  then show ?thesis by (auto simp: in_pages_def)
qed

lemma reap_npages: "npages 4096 = Suc 0" by (simp add: npages_def PGROUNDUP_def)

lemma reap_ready: "kmem_ready reap_state []" "phys reap_state = reap_mem" "\<And>x. valid_page reap_state x \<longleftrightarrow> page_aligned x \<and> 0x80030000 \<le> x \<and> x < PHYSTOP"
  by (simp_all add: reap_state_def kmem_ready_def kmem_ok_def demo_def lock_free_def intr_wf_def spin_defs valid_page_def)

lemma reap_frames: "frames_of reap_mem 0x87F00000 0 (Suc 0) = [0x87F05000]"
  by (simp add: reap_pte reap_PX PTE2PA_def push_bit_eq_mult drop_bit_eq_div del: One_nat_def)

lemma reap_leaves: "mapped_leaves reap_mem 0x87F00000 0 (Suc 0)" "mapped_leaves reap_mem 0x87F00000 TRAPFRAME (Suc 0)"
    "mapped_leaves reap_mem 0x87F00000 TRAMPOLINE (Suc 0)"
  by (simp_all add: reap_pte reap_PX PTE_FLAGS_def del: One_nat_def)

lemma reap_space: "space_ok 0x87F00000 4096 [] reap_state"
proof -
  have "pt_ready 0x87F00000 [] reap_state" using reap_ready reap_tree by (simp add: pt_ready_def)
  moreover have "\<forall>i<512. 256 \<le> i \<longrightarrow> \<not> valid_pte (entry reap_mem 0x87F00000 i)" by (auto simp: reap_valid)
  ultimately show ?thesis
    unfolding space_ok_def reap_ready reap_npages reap_tables reap_frames
    using reap_inner reap_leaves reap_only trap_pages by (simp add: reap_pages PHYSTOP_val)
qed

lemma reap_zombie: "procs reap_state 2 = (demo_procs 2)
     \<lparr>p_state := ZOMBIE, p_xstate := 7, p_trapframe := 0x87F06000, p_pagetable := 0x87F00000, p_sz := 4096\<rparr>"
  by (simp add: reap_state_def)

lemma reap_proc_pages: "proc_pages reap_mem (procs reap_state 2)
    = {0x87F00000, 0x87F01000, 0x87F02000, 0x87F03000, 0x87F04000, 0x87F05000, 0x87F06000}"
  by (auto simp: reap_zombie proc_pages_def space_pages_def reap_npages reap_tables reap_frames simp del: frames_of.simps)

lemma reap_reapable: "reapable (procs reap_state 2) [] reap_state"
  using reap_space by (simp add: reapable_def reap_zombie space_pages_def reap_npages reap_tables reap_frames reap_ready reap_pages PHYSTOP_val del: frames_of.simps)

lemma reap_child: "q < NPROC \<Longrightarrow> zombie_child 0 reap_state q \<longleftrightarrow> q = 2"
  by (auto simp: zombie_child_def reap_state_def demo_procs_def blank_proc_def)

theorem wait_reaps_zombie_witness:
  "\<exists>t ys. wait 0 reap_state = Ret 3 t \<and> p_state (procs t 2) = UNUSED
     \<and> set ys = {0x87F00000, 0x87F01000, 0x87F02000, 0x87F03000, 0x87F04000, 0x87F05000, 0x87F06000} \<and> kmem_ready t ys"
proof -
  have s: "quiet reap_state" "lock_free WaitLock reap_state" "c_proc (mycpu reap_state) = Some 0" "noff (mycpu reap_state) = 0"
    by (simp_all add: reap_state_def demo_def quiet_def lock_free_def intr_wf_def spin_defs)
  have "find (zombie_child 0 reap_state) [0..<NPROC] = Some 2"
    by (subst find_Some_iff) (auto intro!: exI [of _ 2] simp: reap_child)
  then have "\<exists>t ys. wait 0 reap_state = Ret (p_pid (procs reap_state 2)) t \<and> p_state (procs t 2) = UNUSED
      \<and> set ys = proc_pages (phys reap_state) (procs reap_state 2) \<and> kmem_ready t ys"
    using wait_reaps_zombie [OF s(1-3) _ s(4), of "[]" 0] reap_child reap_reapable by fastforce
  moreover have "p_pid (procs reap_state 2) = 3" by (simp add: reap_zombie demo_procs_def blank_proc_def)
  ultimately show ?thesis unfolding reap_ready(2) reap_proc_pages by simp
qed

end
