(* ===== verification/Ulib.thy ===== *)
theory Ulib
  imports CString
begin

section \<open>The user library (user/ulib.c)\<close>

text \<open>
  The string and memory routines that user programs link, on the byte memory of the process. A loop that runs to a NUL
  byte may run forever, so it is a partial function and its result an option; the lemmas show that it returns on a terminated string and
  what it returns. A descriptor that is read is the list of the chunks that successive reads find.
\<close>

subsection \<open>Definitions\<close>

partial_function (option) strcpy :: "u64 \<Rightarrow> u64 \<Rightarrow> mem \<Rightarrow> mem option" where
  "strcpy s t m = (let m' = m(s := m t) in if m t \<noteq> 0 then strcpy (s + 1) (t + 1) m' else Some m')"

partial_function (option) strcmp_user :: "u64 \<Rightarrow> u64 \<Rightarrow> mem \<Rightarrow> int option" where
  "strcmp_user p q m = (if m p \<noteq> 0 \<and> m p = m q then strcmp_user (p + 1) (q + 1) m else Some (uint (m p) - uint (m q)))"

partial_function (option) strlen_user_from :: "mem \<Rightarrow> u64 \<Rightarrow> nat \<Rightarrow> nat option" where
  "strlen_user_from m s n = (if m (s + of_nat n) = 0 then Some n else strlen_user_from m s (Suc n))"

definition strlen_user :: "u64 \<Rightarrow> mem \<Rightarrow> nat option" where
  "strlen_user s m = strlen_user_from m s 0"

definition memset_user :: "u64 \<Rightarrow> u8 \<Rightarrow> nat \<Rightarrow> mem \<Rightarrow> mem" where
  "memset_user dst c n m = memset_from n dst c m"

text \<open>The address of the first \<open>c\<close> of the string, or the null pointer.\<close>

partial_function (option) strchr :: "u64 \<Rightarrow> u8 \<Rightarrow> mem \<Rightarrow> u64 option" where
  "strchr s c m = (if m s = 0 then Some 0 else if m s = c then Some s else strchr (s + 1) c m)"

partial_function (option) atoi_from :: "u32 \<Rightarrow> u64 \<Rightarrow> mem \<Rightarrow> int option" where
  "atoi_from n s m = (if 48 \<le> m s \<and> m s \<le> 57 then atoi_from (n * 10 + ucast (m s) - 48) (s + 1) m else Some (sint n))"

definition atoi :: "u64 \<Rightarrow> mem \<Rightarrow> int option" where
  "atoi s m = atoi_from 0 s m"

definition memmove_user :: "u64 \<Rightarrow> u64 \<Rightarrow> nat \<Rightarrow> mem \<Rightarrow> mem" where
  "memmove_user vdst vsrc n m =
     (if vsrc > vdst then copy_up n vdst vsrc m
      else copy_down n (vdst + of_nat n) (vsrc + of_nat n) m)"

primrec memcmp_user :: "nat \<Rightarrow> u64 \<Rightarrow> u64 \<Rightarrow> mem \<Rightarrow> int" where
  "memcmp_user 0 p1 p2 m = 0"
| "memcmp_user (Suc n) p1 p2 m =
     (if m p1 \<noteq> m p2 then uint (m p1) - uint (m p2) else memcmp_user n (p1 + 1) (p2 + 1) m)"

definition memcpy_user :: "u64 \<Rightarrow> u64 \<Rightarrow> nat \<Rightarrow> mem \<Rightarrow> mem" where
  "memcpy_user dst src n m = memmove_user dst src n m"

text \<open>
  What \<^verbatim>\<open>read\<close> hands over when \<open>k\<close> bytes are asked for, and what the next reads will find: a chunk is what the file, pipe or console line has to offer;
  no chunk, or an empty one, is the end of the file.
\<close>

type_synonym source = "u8 list list"

fun read_upto :: "nat \<Rightarrow> source \<Rightarrow> u8 list \<times> source" where
  "read_upto k [] = ([], [])"
| "read_upto k (c # cs) = (take k c, if length c > k then drop k c # cs else cs)"

text \<open>The bytes that \<^verbatim>\<open>gets\<close> stores, without the final NUL; \<open>room\<close> is \<^verbatim>\<open>max\<close> - 1 - \<^verbatim>\<open>i\<close>.\<close>

fun gets_from :: "nat \<Rightarrow> source \<Rightarrow> u8 list \<times> source" where
  "gets_from 0 src = ([], src)"
| "gets_from (Suc room) src =
     (case read_upto 1 src of
        ([], src') \<Rightarrow> ([], src')
      | (c # _, src') \<Rightarrow>
          if c = 10 \<or> c = 13 then ([c], src')
          else let (cs, src'') = gets_from room src' in (c # cs, src''))"

definition gets_user :: "int \<Rightarrow> source \<Rightarrow> u8 list \<times> source" where
  "gets_user mx src = gets_from (nat (mx - 1)) src"

subsection \<open>Strings in memory\<close>

definition str_at :: "mem \<Rightarrow> u64 \<Rightarrow> u8 list \<Rightarrow> bool" where
  "str_at m s bs \<longleftrightarrow> 0 \<notin> set bs \<and> (\<forall>i < length bs. m (s + of_nat i) = bs ! i) \<and> m (s + of_nat (length bs)) = 0"

lemma str_at_Nil [simp]: "str_at m s [] \<longleftrightarrow> m s = 0"
  by (simp add: str_at_def)

lemma str_at_Cons [simp]: "str_at m s (c # bs) \<longleftrightarrow> c \<noteq> 0 \<and> m s = c \<and> str_at m (s + 1) bs"
  by (auto simp: str_at_def All_less_Suc2 ac_simps)

lemma strlen_user_from_str: "str_at m (s + of_nat n) bs \<Longrightarrow> strlen_user_from m s n = Some (n + length bs)"
  by (induction bs arbitrary: n) (subst strlen_user_from.simps, simp add: ac_simps)+

lemma strlen_user_str: "str_at m s bs \<Longrightarrow> strlen_user s m = Some (length bs)"
  using strlen_user_from_str [of m s 0 bs] by (simp add: strlen_user_def)

lemma strchr_str:
  "str_at m s bs \<Longrightarrow> strchr s c m = Some (if c \<in> set bs then s + of_nat (length (takeWhile (\<lambda>b. b \<noteq> c) bs)) else 0)"
  by (induction bs arbitrary: s) (subst strchr.simps, simp add: ac_simps)+

lemma strcmp_user_str:
  "str_at m p as \<Longrightarrow> str_at m q bs \<Longrightarrow> \<exists>d. strcmp_user p q m = Some d \<and> (d = 0 \<longleftrightarrow> as = bs)"
proof (induction as arbitrary: p q bs)
  case Nil
  then show ?case by (cases bs) (auto simp: strcmp_user.simps [of p q] word_uint_eq_iff)
next
  case (Cons a as)
  show ?case
  proof (cases "bs \<noteq> [] \<and> hd bs = a")
    case True
    then obtain bs' where "bs = a # bs'" by (cases bs) auto
    then show ?thesis using Cons.IH [of "p + 1" "q + 1" bs'] Cons.prems by (subst strcmp_user.simps) auto
  next
    case False
    then have "m p \<noteq> m q" using Cons.prems by (cases bs) auto
    then show ?thesis using False Cons.prems by (subst strcmp_user.simps) (auto simp: word_uint_eq_iff)
  qed
qed

lemma str_at_upd: "str_at m t bs \<Longrightarrow> (\<forall>j \<le> length bs. s \<noteq> t + of_nat j) \<Longrightarrow> str_at (m(s := c)) t bs"
  unfolding str_at_def by (metis fun_upd_other less_imp_le le_refl)

lemma strcpy_str:
  assumes "str_at m t bs" "length bs < 2 ^ 63" "\<forall>i \<le> length bs. \<forall>j \<le> length bs. s + of_nat i \<noteq> t + of_nat j"
  shows "\<exists>m'. strcpy s t m = Some m' \<and> str_at m' s bs \<and> (\<forall>a. (\<forall>i \<le> length bs. a \<noteq> s + of_nat i) \<longrightarrow> m' a = m a)"
  using assms
proof (induction bs arbitrary: s t m)
  case Nil
  then show ?case by (subst strcpy.simps) (auto simp: Let_def)
next
  case (Cons b bs)
  have sep: "s + 1 + of_nat i \<noteq> t + 1 + of_nat j" if "i \<le> length bs" "j \<le> length bs" for i j
    using Cons.prems(3) [rule_format, of "Suc i" "Suc j"] that by (simp add: ac_simps)
  have st: "s \<noteq> t + 1 + of_nat j" if "j \<le> length bs" for j
    using Cons.prems(3) [rule_format, of 0 "Suc j"] that by (simp add: ac_simps)
  have fresh: "s \<noteq> s + 1 + of_nat i" if "i \<le> length bs" for i
  proof -
    have "unat (1 + of_nat i :: u64) = Suc i" using that Cons.prems(2) by (simp add: unat_word_ariths unat_of_nat)
    then have "(1 + of_nat i :: u64) \<noteq> 0" by (metis Zero_not_Suc unsigned_0)
    then show ?thesis by (simp add: add.assoc)
  qed
  have "str_at (m(s := b)) (t + 1) bs" using str_at_upd [of m "t + 1" bs s b] Cons.prems(1) st by simp
  moreover have "length bs < 2 ^ 63" using Cons.prems(2) by simp
  moreover have "\<forall>i \<le> length bs. \<forall>j \<le> length bs. s + 1 + of_nat i \<noteq> t + 1 + of_nat j" using sep by blast
  ultimately obtain m' where m': "strcpy (s + 1) (t + 1) (m(s := b)) = Some m'" "str_at m' (s + 1) bs"
    "\<forall>a. (\<forall>i \<le> length bs. a \<noteq> s + 1 + of_nat i) \<longrightarrow> m' a = (m(s := b)) a"
    using Cons.IH [of "m(s := b)" "t + 1" "s + 1"] by blast
  have "strcpy s t m = Some m'" using m'(1) Cons.prems(1) by (subst strcpy.simps) (simp add: Let_def)
  moreover have "m' s = b" using m'(3) fresh by simp
  moreover have "m' a = m a" if "\<forall>i \<le> length (b # bs). a \<noteq> s + of_nat i" for a
  proof -
    have "a \<noteq> s" using that [rule_format, of 0] by simp
    moreover have "a \<noteq> s + 1 + of_nat i" if "i \<le> length bs" for i
      using \<open>\<forall>i \<le> length (b # bs). a \<noteq> s + of_nat i\<close> [rule_format, of "Suc i"] that by (simp add: ac_simps)
    ultimately show ?thesis using m'(3) by simp
  qed
  ultimately show ?case using m'(2) Cons.prems(1) by auto
qed

lemma memmove_user_block:
  assumes "n \<le> 2 ^ 63" "unat src + n \<le> 2 ^ 64" "unat dst + n \<le> 2 ^ 64"
  shows "memmove_user dst src n m = block_copy n dst src m"
proof (cases "src > dst")
  case True
  then have "unat (dst - src) = 2 ^ 64 + unat dst - unat src" by (simp add: unat_sub_if' word_less_nat_alt)
  then have "n \<le> unat (dst - src)" using assms(2) by simp
  then show ?thesis using copy_up_block [OF assms(1)] True by (simp add: memmove_user_def)
next
  case False
  have "dst = src \<or> n \<le> unat (src - dst)"
  proof (cases "dst = src")
    case ne: False
    then have "unat (src - dst) = 2 ^ 64 + unat src - unat dst"
      using False by (auto simp: unat_sub_if' word_less_nat_alt word_le_nat_alt word_unat_eq_iff)
    then show ?thesis using assms(3) by linarith
  qed simp
  then show ?thesis using copy_down_block [OF assms(1), of dst src m] False by (simp add: memmove_user_def)
qed

subsection \<open>Numbers and lines\<close>

lemma takeWhile_stop: "x \<notin> set l \<Longrightarrow> takeWhile (\<lambda>b. b \<noteq> x) (l @ x # p) = l"
  by (induction l) auto

definition dec_value :: "nat \<Rightarrow> u8 list \<Rightarrow> nat" where
  "dec_value n ds = foldl (\<lambda>n d. n * 10 + (unat d - 48)) n ds"

lemma atoi_from_dec:
  assumes "\<forall>d \<in> set ds. 48 \<le> d \<and> d \<le> 57" "\<forall>i < length ds. m (s + of_nat i) = ds ! i"
    "\<not> (48 \<le> m (s + of_nat (length ds)) \<and> m (s + of_nat (length ds)) \<le> 57)" "dec_value n ds < 2 ^ 31"
  shows "atoi_from (of_nat n) s m = Some (int (dec_value n ds))"
  using assms
proof (induction ds arbitrary: n s)
  case Nil
  have "sint (of_nat n :: u32) = int n" using Nil.prems(4) by (simp add: dec_value_def signed_of_nat take_bit_int_eq_self signed_take_bit_int_eq_self)
  then show ?case using Nil by (subst atoi_from.simps) (auto simp: dec_value_def)
next
  case (Cons d ds)
  have d: "m s = d" "48 \<le> d" "d \<le> 57" using Cons.prems(1,2) by auto
  let ?n = "n * 10 + (unat d - 48)"
  have e: "(of_nat n * 10 + ucast d - 48 :: u32) = of_nat ?n"
  proof -
    have "of_nat (unat d - 48) = (ucast d - 48 :: u32)" using d(2) by (simp add: of_nat_diff word_le_nat_alt)
    then show ?thesis by (simp add: algebra_simps)
  qed
  have "atoi_from (of_nat ?n) (s + 1) m = Some (int (dec_value ?n ds))"
  proof (rule Cons.IH)
    show "\<forall>i < length ds. m (s + 1 + of_nat i) = ds ! i" using Cons.prems(2) by (auto simp: All_less_Suc2 ac_simps)
    show "\<not> (48 \<le> m (s + 1 + of_nat (length ds)) \<and> m (s + 1 + of_nat (length ds)) \<le> 57)" using Cons.prems(3) by (simp add: ac_simps)
  qed (use Cons.prems in \<open>auto simp: dec_value_def\<close>)
  moreover have "atoi_from (of_nat n) s m = atoi_from (of_nat n * 10 + ucast d - 48) (s + 1) m" using d by (subst atoi_from.simps) simp
  ultimately show ?case unfolding e by (simp add: dec_value_def)
qed

lemma read_upto_concat: "read_upto k src = (got, src') \<Longrightarrow> concat src = got @ concat src'"
  by (cases "(k, src)" rule: read_upto.cases) (auto split: if_splits)

lemma read_upto_nonempty: "read_upto k src = (got, src') \<Longrightarrow> [] \<notin> set src \<Longrightarrow> [] \<notin> set src' \<and> (0 < k \<longrightarrow> got = [] \<longrightarrow> src = [])"
  by (cases "(k, src)" rule: read_upto.cases) (auto split: if_splits)

lemma read_upto_length: "length (fst (read_upto k src)) \<le> k"
  by (cases "(k, src)" rule: read_upto.cases) auto

lemma gets_from_line:
  "gets_from room src = (l, src') \<Longrightarrow> [] \<notin> set src \<Longrightarrow>
     concat src = l @ concat src' \<and> length l \<le> room \<and> (\<forall>c \<in> set (butlast l). c \<noteq> 10 \<and> c \<noteq> 13)
     \<and> (length l = room \<or> src' = [] \<or> l \<noteq> [] \<and> (last l = 10 \<or> last l = 13))"
proof (induction room src arbitrary: l rule: gets_from.induct)
  case (2 room src)
  obtain got src1 where r: "read_upto 1 src = (got, src1)" by fastforce
  note n = read_upto_nonempty [OF r 2(3)] and c = read_upto_concat [OF r]
  show ?case
  proof (cases got)
    case Nil
    then show ?thesis using 2(2) r n c by auto
  next
    case (Cons b bs)
    then have got: "got = [b]" using read_upto_length [of 1 src] r by simp
    show ?thesis
    proof (cases "b = 10 \<or> b = 13")
      case True
      then show ?thesis using 2(2) r got c by auto
    next
      case False
      obtain cs src2 where g: "gets_from room src1 = (cs, src2)" by fastforce
      have l: "l = b # cs" "src2 = src'" using 2(2) r got False g by auto
      then show ?thesis using 2(1) [OF r [symmetric] got False g [unfolded l(2)]] n c False got by auto
    qed
  qed
qed simp

end
