(* ===== verification/Grep.thy ===== *)
theory Grep
  imports Ulib
begin

section \<open>Text filters (user/grep.c, user/wc.c, user/cat.c)\<close>

text \<open>
  The programs that read a descriptor in pieces and write to the standard output. A C string is the list of its bytes before the NUL.
  The lemmas show that the matcher of \<^verbatim>\<open>grep\<close> decides the language of its patterns, and that reading in pieces does not
  change what the programs print.
\<close>

subsection \<open>The matcher\<close>

abbreviation (input) STAR :: u8 where "STAR \<equiv> 42"
abbreviation (input) DOTCH :: u8 where "DOTCH \<equiv> 46"
abbreviation (input) DOLLAR :: u8 where "DOLLAR \<equiv> 36"
abbreviation (input) CARET :: u8 where "CARET \<equiv> 94"
abbreviation (input) NEWLINE :: u8 where "NEWLINE \<equiv> 10"

function (sequential) matchhere :: "u8 list \<Rightarrow> u8 list \<Rightarrow> bool"
  and matchstar :: "u8 \<Rightarrow> u8 list \<Rightarrow> u8 list \<Rightarrow> bool" where
  "matchhere [] tx = True"
| "matchhere (c # re) tx =
     (if re \<noteq> [] \<and> hd re = STAR then matchstar c (tl re) tx
      else if c = DOLLAR \<and> re = [] then tx = []
      else if tx \<noteq> [] \<and> (c = DOTCH \<or> c = hd tx) then matchhere re (tl tx)
      else False)"
| "matchstar c re tx =
     (if matchhere re tx then True
      else if tx \<noteq> [] \<and> (hd tx = c \<or> c = DOTCH) then matchstar c re (tl tx)
      else False)"
  by pat_completeness auto
termination
  by (relation "measure (\<lambda>x. case x of Inl (re, tx) \<Rightarrow> 2 * (length re + length tx) | Inr (c, re, tx) \<Rightarrow> 2 * (length re + length tx) + 1)")
    (auto simp: neq_Nil_conv)

declare matchstar.simps [simp del]

fun match_from :: "u8 list \<Rightarrow> u8 list \<Rightarrow> bool" where
  "match_from re tx = (if matchhere re tx then True else if tx \<noteq> [] then match_from re (tl tx) else False)"

declare match_from.simps [simp del]

definition match :: "u8 list \<Rightarrow> u8 list \<Rightarrow> bool" where
  "match re tx = (if re \<noteq> [] \<and> hd re = CARET then matchhere (tl re) tx else match_from re tx)"

subsection \<open>The language of a pattern\<close>

text \<open>A pattern is a sequence of characters, each possibly starred, and may be tied to the end of the text.\<close>

datatype atom = One u8 | Many u8

fun atoms :: "u8 list \<Rightarrow> atom list \<times> bool" where
  "atoms [] = ([], False)"
| "atoms [c] = (if c = DOLLAR then ([], True) else ([One c], False))"
| "atoms (c # d # re) = (if d = STAR then apfst (Cons (Many c)) (atoms re) else apfst (Cons (One c)) (atoms (d # re)))"

definition fits :: "u8 \<Rightarrow> u8 \<Rightarrow> bool" where
  "fits c x \<longleftrightarrow> c = DOTCH \<or> x = c"

primrec atom_lang :: "atom \<Rightarrow> u8 list set" where
  "atom_lang (One c) = {[x] | x. fits c x}"
| "atom_lang (Many c) = {xs. \<forall>x \<in> set xs. fits c x}"

primrec lang :: "atom list \<Rightarrow> u8 list set" where
  "lang [] = {[]}"
| "lang (a # as) = {u @ v | u v. u \<in> atom_lang a \<and> v \<in> lang as}"

text \<open>The text begins with a word of the pattern, and is that word if the pattern is tied to the end.\<close>

definition prefix_lang :: "atom list \<times> bool \<Rightarrow> u8 list set" where
  "prefix_lang r = {u @ v | u v. u \<in> lang (fst r) \<and> (snd r \<longrightarrow> v = [])}"

lemma in_prefix_lang: "tx \<in> prefix_lang r \<longleftrightarrow> (\<exists>u v. tx = u @ v \<and> u \<in> lang (fst r) \<and> (snd r \<longrightarrow> v = []))"
  by (simp add: prefix_lang_def)

lemma prefix_lang_Cons: "tx \<in> prefix_lang (apfst (Cons a) r) \<longleftrightarrow> (\<exists>w rest. tx = w @ rest \<and> w \<in> atom_lang a \<and> rest \<in> prefix_lang r)"
proof
  assume "tx \<in> prefix_lang (apfst (Cons a) r)"
  then obtain w u v where "tx = (w @ u) @ v" "w \<in> atom_lang a" "u \<in> lang (fst r)" "snd r \<longrightarrow> v = []"
    unfolding in_prefix_lang fst_apfst snd_apfst lang.simps by blast
  then show "\<exists>w rest. tx = w @ rest \<and> w \<in> atom_lang a \<and> rest \<in> prefix_lang r"
    unfolding in_prefix_lang by (intro exI [of _ w] exI [of _ "u @ v"]) auto
next
  assume "\<exists>w rest. tx = w @ rest \<and> w \<in> atom_lang a \<and> rest \<in> prefix_lang r"
  then obtain w u v where "tx = w @ u @ v" "w \<in> atom_lang a" "u \<in> lang (fst r)" "snd r \<longrightarrow> v = []"
    unfolding in_prefix_lang by blast
  then show "tx \<in> prefix_lang (apfst (Cons a) r)"
    unfolding in_prefix_lang by (intro exI [of _ "w @ u"] exI [of _ v]) auto
qed

lemma prefix_lang_One: "tx \<in> prefix_lang (apfst (Cons (One c)) r) \<longleftrightarrow> tx \<noteq> [] \<and> fits c (hd tx) \<and> tl tx \<in> prefix_lang r"
proof
  assume "tx \<noteq> [] \<and> fits c (hd tx) \<and> tl tx \<in> prefix_lang r"
  then show "tx \<in> prefix_lang (apfst (Cons (One c)) r)"
    unfolding prefix_lang_Cons by (intro exI [of _ "[hd tx]"] exI [of _ "tl tx"]) auto
qed (auto simp: prefix_lang_Cons)

lemma prefix_lang_Many:
  "tx \<in> prefix_lang (apfst (Cons (Many c)) r) \<longleftrightarrow> tx \<in> prefix_lang r \<or> tx \<noteq> [] \<and> fits c (hd tx) \<and> tl tx \<in> prefix_lang (apfst (Cons (Many c)) r)"
proof -
  have eq: "tx \<in> prefix_lang (apfst (Cons (Many c)) r) \<longleftrightarrow> (\<exists>xs v. tx = xs @ v \<and> (\<forall>x \<in> set xs. fits c x) \<and> v \<in> prefix_lang r)" for tx
    by (simp add: prefix_lang_Cons)
  show ?thesis unfolding eq
  proof (intro iffI)
    assume "\<exists>xs v. tx = xs @ v \<and> (\<forall>x \<in> set xs. fits c x) \<and> v \<in> prefix_lang r"
    then obtain xs v where x: "tx = xs @ v" "\<forall>x \<in> set xs. fits c x" "v \<in> prefix_lang r" by blast
    then show "tx \<in> prefix_lang r \<or> tx \<noteq> [] \<and> fits c (hd tx) \<and> (\<exists>xs v. tl tx = xs @ v \<and> (\<forall>x \<in> set xs. fits c x) \<and> v \<in> prefix_lang r)"
      by (cases xs) auto
  next
    assume "tx \<in> prefix_lang r \<or> tx \<noteq> [] \<and> fits c (hd tx) \<and> (\<exists>xs v. tl tx = xs @ v \<and> (\<forall>x \<in> set xs. fits c x) \<and> v \<in> prefix_lang r)"
    then show "\<exists>xs v. tx = xs @ v \<and> (\<forall>x \<in> set xs. fits c x) \<and> v \<in> prefix_lang r"
    proof
      assume "tx \<in> prefix_lang r"
      then show ?thesis by (intro exI [of _ "[]"] exI [of _ tx]) simp
    next
      assume "tx \<noteq> [] \<and> fits c (hd tx) \<and> (\<exists>xs v. tl tx = xs @ v \<and> (\<forall>x \<in> set xs. fits c x) \<and> v \<in> prefix_lang r)"
      then obtain xs v where "tx \<noteq> []" "fits c (hd tx)" "tl tx = xs @ v" "\<forall>x \<in> set xs. fits c x" "v \<in> prefix_lang r" by blast
      then show ?thesis by (intro exI [of _ "hd tx # xs"] exI [of _ v]) (cases tx, auto)
    qed
  qed
qed

lemma matchhere_lang: "matchhere re tx \<longleftrightarrow> tx \<in> prefix_lang (atoms re)"
  and matchstar_lang: "matchstar c re tx \<longleftrightarrow> tx \<in> prefix_lang (apfst (Cons (Many c)) (atoms re))"
proof (induction re tx and c re tx rule: matchhere_matchstar.induct)
  case (1 tx)
  then show ?case by (simp add: prefix_lang_def)
next
  case (2 c re tx)
  show ?case
  proof (cases re)
    case Nil
    then show ?thesis using prefix_lang_One [of tx c "([], False)"] by (cases "c = DOLLAR") (auto simp: fits_def in_prefix_lang)
  next
    case (Cons d re')
    then show ?thesis using 2 by (auto simp: prefix_lang_One fits_def)
  qed
next
  case (3 c re tx)
  then show ?case by (subst matchstar.simps, subst prefix_lang_Many) (auto simp: fits_def)
qed

lemma match_from_lang: "match_from re tx \<longleftrightarrow> (\<exists>a b. tx = a @ b \<and> b \<in> prefix_lang (atoms re))"
proof (induction re tx rule: match_from.induct)
  case (1 re tx)
  show ?case
  proof (cases tx)
    case Nil
    then show ?thesis by (subst match_from.simps) (simp add: matchhere_lang)
  next
    case (Cons x xs)
    then have "match_from re tx \<longleftrightarrow> tx \<in> prefix_lang (atoms re) \<or> (\<exists>a b. xs = a @ b \<and> b \<in> prefix_lang (atoms re))"
      using 1 by (subst match_from.simps) (simp add: matchhere_lang)
    then show ?thesis unfolding Cons by (auto simp: Cons_eq_append_conv)
  qed
qed

text \<open>
  C35: the matcher of \<^verbatim>\<open>grep\<close> decides the language of the pattern. A pattern without a leading \<^verbatim>\<open>^\<close> matches a tx exactly when some part of the tx is
  a word of the pattern, where a character stands for itself, a dot for any character, a starred one for any number of such characters, and
  a final \<^verbatim>\<open>$\<close> ties the part to the end of the tx; a leading \<^verbatim>\<open>^\<close> ties it to the beginning.
\<close>

theorem match_decides_pattern:
  "match re tx \<longleftrightarrow> (if re \<noteq> [] \<and> hd re = CARET
     then \<exists>u v. tx = u @ v \<and> u \<in> lang (fst (atoms (tl re))) \<and> (snd (atoms (tl re)) \<longrightarrow> v = [])
     else \<exists>a u v. tx = a @ u @ v \<and> u \<in> lang (fst (atoms re)) \<and> (snd (atoms re) \<longrightarrow> v = []))"
  unfolding match_def matchhere_lang match_from_lang in_prefix_lang by (simp, blast)

theorem match_decides_pattern_witness: "match [97, 42, 98, 36] [99, 97, 97, 98]"
proof -
  have a: "atoms [97, 42, 98, 36] = ([Many 97, One 98], True)" by simp
  have "[97, 97, 98] = [97, 97] @ [98] @ ([] :: u8 list)" by simp
  then have "[97, 97, 98] \<in> lang [Many 97, One 98]" by (fastforce simp: fits_def)
  then have "\<exists>a u v. [99, 97, 97, 98] = a @ u @ v \<and> u \<in> lang (fst (atoms [97, 42, 98, 36])) \<and> (snd (atoms [97, 42, 98, 36]) \<longrightarrow> v = [])"
    unfolding a fst_conv by (intro exI [of _ "[99]"] exI [of _ "[97, 97, 98]"] exI [of _ "[]"]) (simp del: lang.simps)
  then show ?thesis using match_decides_pattern [of "[97, 42, 98, 36]" "[99, 97, 97, 98]"] by (simp del: lang.simps atoms.simps)
qed

subsection \<open>Lines in a buffer\<close>

text \<open>The offset that \<^verbatim>\<open>strchr\<close> finds for a newline in the bytes from \<^verbatim>\<open>p\<close> to the NUL after the buffer's contents.\<close>

definition find_newline :: "u8 list \<Rightarrow> nat option" where
  "find_newline p = (let l = takeWhile (\<lambda>b. b \<noteq> 0) p in
     if NEWLINE \<in> set l then Some (length (takeWhile (\<lambda>b. b \<noteq> NEWLINE) l)) else None)"

lemma find_newline_less: "find_newline p = Some i \<Longrightarrow> i < length p"
proof -
  assume f: "find_newline p = Some i"
  let ?l = "takeWhile (\<lambda>b. b \<noteq> 0) p"
  have "NEWLINE \<in> set ?l" "i = length (takeWhile (\<lambda>b. b \<noteq> NEWLINE) ?l)" using f by (auto simp: find_newline_def Let_def split: if_splits)
  then have "i < length ?l" by (metis (mono_tags, lifting) length_takeWhile_le nat_less_le takeWhile_eq_all_conv takeWhile_eq_take take_all_iff order_refl)
  then show ?thesis using length_takeWhile_le [of "\<lambda>b. b \<noteq> 0" p] by linarith
qed

text \<open>
  The inner loop of \<^verbatim>\<open>grep\<close>: what it writes, and the bytes that are left from \<^verbatim>\<open>p\<close> on. The byte \<^verbatim>\<open>*q\<close> that is
  zeroed for the match is before the new \<^verbatim>\<open>p\<close> and is never read again.
\<close>

function grep_buf :: "u8 list \<Rightarrow> u8 list \<Rightarrow> u8 list \<times> u8 list" where
  "grep_buf pattern p =
     (case find_newline p of
        None \<Rightarrow> ([], p)
      | Some q \<Rightarrow>
          apfst (append (if match pattern (take q p) then take (Suc q) p else [])) (grep_buf pattern (drop (Suc q) p)))"
  by pat_completeness auto
termination
  by (relation "measure (\<lambda>(pattern, p). length p)") (auto dest: find_newline_less)

declare grep_buf.simps [simp del]

text \<open>The outer loop: \<open>buf\<close> is the first \<^verbatim>\<open>m\<close> bytes of the buffer of 1024.\<close>

function grep_loop :: "u8 list \<Rightarrow> u8 list \<Rightarrow> source \<Rightarrow> u8 list" where
  "grep_loop pattern buf src =
     (let (got, src') = read_upto (1024 - length buf - 1) src in
      if got = [] then []
      else let (out, rest) = grep_buf pattern (buf @ got) in out @ grep_loop pattern rest src')"
  by pat_completeness auto
termination
proof (relation "measure (\<lambda>(pattern, buf, src). length (concat src))")
  fix pattern buf src x got src' y out rest
  assume "x = read_upto (1024 - length buf - 1) src" "(got, src') = x" "got \<noteq> []"
  then show "((pattern, rest, src'), pattern, buf, src) \<in> measure (\<lambda>(pattern, buf, src). length (concat src))"
    using read_upto_concat [of "1024 - length buf - 1" src got src'] by simp
qed simp

declare grep_loop.simps [simp del]

definition grep :: "u8 list \<Rightarrow> source \<Rightarrow> u8 list" where
  "grep pattern src = grep_loop pattern [] src"

text \<open>The lines of a text that end in a newline, without it, and what follows the last of them.\<close>

function complete_lines :: "u8 list \<Rightarrow> u8 list list" where
  "complete_lines p = (if NEWLINE \<in> set p
     then takeWhile (\<lambda>b. b \<noteq> NEWLINE) p # complete_lines (tl (dropWhile (\<lambda>b. b \<noteq> NEWLINE) p)) else [])"
  by pat_completeness auto
termination
proof (relation "measure length")
  fix p :: "u8 list"
  assume "NEWLINE \<in> set p"
  then have "dropWhile (\<lambda>b. b \<noteq> NEWLINE) p \<noteq> []" by (simp add: dropWhile_eq_Nil_conv)
  then show "(tl (dropWhile (\<lambda>b. b \<noteq> NEWLINE) p), p) \<in> measure length"
    using length_dropWhile_le [of "\<lambda>b. b \<noteq> NEWLINE" p] by (cases "dropWhile (\<lambda>b. b \<noteq> NEWLINE) p") auto
qed simp

declare complete_lines.simps [simp del]

abbreviation (input) unlines :: "u8 list list \<Rightarrow> u8 list" where "unlines ls \<equiv> concat (map (\<lambda>l. l @ [NEWLINE]) ls)"

lemma complete_lines_none: "NEWLINE \<notin> set p \<Longrightarrow> complete_lines p = []"
  by (simp add: complete_lines.simps)

lemma complete_lines_Cons: "NEWLINE \<notin> set l \<Longrightarrow> complete_lines (l @ NEWLINE # p) = l # complete_lines p"
  by (subst complete_lines.simps) (simp add: takeWhile_append2 dropWhile_append2 takeWhile_append dropWhile_append)

lemma complete_lines_unlines: "\<forall>l \<in> set ls. NEWLINE \<notin> set l \<Longrightarrow> complete_lines (unlines ls @ p) = ls @ complete_lines p"
  by (induction ls) (simp_all add: complete_lines_Cons)

lemma lines_split: "\<exists>ls rest. p = unlines ls @ rest \<and> (\<forall>l \<in> set ls. NEWLINE \<notin> set l) \<and> NEWLINE \<notin> set rest"
proof (induction "length p" arbitrary: p rule: less_induct)
  case less
  show ?case
  proof (cases "NEWLINE \<in> set p")
    case True
    then obtain l q where p: "p = l @ NEWLINE # q" "NEWLINE \<notin> set l" by (meson split_list_first)
    then obtain ls rest where "q = unlines ls @ rest" "\<forall>l \<in> set ls. NEWLINE \<notin> set l" "NEWLINE \<notin> set rest" using less [of q] by auto
    then show ?thesis using p by (intro exI [of _ "l # ls"] exI [of _ rest]) simp
  next
    case False
    then show ?thesis by (intro exI [of _ "[]"] exI [of _ p]) simp
  qed
qed

lemma grep_buf_lines:
  assumes "\<forall>l \<in> set ls. NEWLINE \<notin> set l" "NEWLINE \<notin> set rest" "0 \<notin> set (unlines ls @ rest)"
  shows "grep_buf pattern (unlines ls @ rest) = (unlines (filter (match pattern) ls), rest)"
  using assms
proof (induction ls)
  case Nil
  then have "takeWhile (\<lambda>b. b \<noteq> 0) rest = rest" unfolding takeWhile_eq_all_conv by auto
  then have "find_newline rest = None" using Nil(2) unfolding find_newline_def Let_def by (simp del: takeWhile_eq_all_conv)
  then show ?case by (simp add: grep_buf.simps [of pattern rest])
next
  case (Cons l ls)
  let ?p = "unlines (l # ls) @ rest"
  have z: "takeWhile (\<lambda>b. b \<noteq> 0) ?p = ?p" using Cons.prems(3) unfolding takeWhile_eq_all_conv by blast
  have "find_newline ?p = Some (length l)"
    unfolding find_newline_def Let_def z using Cons.prems(1) by (simp add: takeWhile_stop)
  then have "grep_buf pattern ?p = apfst (append (if match pattern l then l @ [NEWLINE] else [])) (grep_buf pattern (unlines ls @ rest))"
    by (subst grep_buf.simps) simp
  then show ?case using Cons by simp
qed

lemma grep_loop_lines:
  assumes "0 \<notin> set (buf @ concat src)" "NEWLINE \<notin> set buf" "length buf \<le> 1023" "[] \<notin> set src"
    "\<forall>l \<in> set (complete_lines (buf @ concat src)). length l < 1023"
  shows "grep_loop pattern buf src = unlines (filter (match pattern) (complete_lines (buf @ concat src)))"
  using assms
proof (induction pattern buf src rule: grep_loop.induct)
  case (1 pattern buf src)
  obtain got src' where r: "read_upto (1024 - length buf - 1) src = (got, src')" by fastforce
  note c = read_upto_concat [OF r] and n = read_upto_nonempty [OF r 1(5)]
  show ?case
  proof (cases "got = []")
    case True
    have "complete_lines (buf @ concat src) = []"
    proof (cases "NEWLINE \<in> set (concat src)")
      case nl: True
      then have "src \<noteq> []" by auto
      then have len: "length buf = 1023" using n True 1(4) by linarith
      obtain l q where "concat src = l @ NEWLINE # q" "NEWLINE \<notin> set l" using nl by (meson split_list_first)
      then have "buf @ l \<in> set (complete_lines (buf @ concat src))" using complete_lines_Cons [of "buf @ l" q] 1(3) by simp
      then show ?thesis using 1(6) len by fastforce
    qed (use 1(3) complete_lines_none in auto)
    then show ?thesis using r True by (subst grep_loop.simps) simp
  next
    case False
    obtain ls rest where s: "buf @ got = unlines ls @ rest" "\<forall>l \<in> set ls. NEWLINE \<notin> set l" "NEWLINE \<notin> set rest" using lines_split by blast
    have e: "buf @ concat src = unlines ls @ (rest @ concat src')" using c s(1) by (metis append.assoc)
    then have l: "complete_lines (buf @ concat src) = ls @ complete_lines (rest @ concat src')" using complete_lines_unlines [OF s(2)] by simp
    have z: "0 \<notin> set (unlines ls @ rest)" "0 \<notin> set (rest @ concat src')" using 1(2) e by auto
    have g: "grep_buf pattern (buf @ got) = (unlines (filter (match pattern) ls), rest)" unfolding s(1) by (rule grep_buf_lines [OF s(2,3) z(1)])
    have "length (buf @ got) \<le> 1023" using read_upto_length [of "1024 - length buf - 1" src] r 1(4) by simp
    then have "length rest \<le> 1023" using s(1) by (metis le_trans length_append le_add2)
    then have "grep_loop pattern rest src' = unlines (filter (match pattern) (complete_lines (rest @ concat src')))"
      using 1(1) [OF r [symmetric] refl False g [symmetric] refl] z(2) s(3) n 1(6) l by simp
    then show ?thesis using r False g l by (subst grep_loop.simps) simp
  qed
qed

text \<open>
  C36: \<^verbatim>\<open>grep\<close> prints exactly the matching lines. However the reads cut the input into pieces, the output is the lines of the input that
  the pattern matches, in order and with their newlines, provided the input has no NUL byte and no line is longer than the buffer
  can hold; a last line without a newline is not printed.
\<close>

theorem grep_prints_matching_lines:
  assumes "0 \<notin> set (concat src)" "[] \<notin> set src" "\<forall>l \<in> set (complete_lines (concat src)). length l < 1023"
  shows "grep pattern src = concat (map (\<lambda>l. l @ [NEWLINE]) (filter (match pattern) (complete_lines (concat src))))"
  using grep_loop_lines [of "[]" src pattern] assms by (simp add: grep_def)

theorem grep_prints_matching_lines_witness:
  "grep [98, 46] [[97, 10, 97], [98, 98, 10, 98, 10], [99, 98, 99, 10, 98, 98]] = [97, 98, 98, 10, 99, 98, 99, 10]"
proof -
  let ?src = "[[97, 10, 97], [98, 98, 10, 98, 10], [99, 98, 99, 10, 98, 98]] :: u8 list list"
  have l: "complete_lines (concat ?src) = [[97], [97, 98, 98], [98], [99, 98, 99]]" by (simp add: complete_lines.simps)
  have m: "match [98, 46] [97] = False" "match [98, 46] [97, 98, 98] = True" "match [98, 46] [98] = False" "match [98, 46] [99, 98, 99] = True"
    by (simp_all add: match_def match_from.simps)
  show ?thesis using grep_prints_matching_lines [of ?src "[98, 46]"] unfolding l by (simp add: m)
qed

subsection \<open>Counting words\<close>

record wcount =
  wc_l :: int
  wc_w :: int
  wc_c :: int
  wc_inword :: bool

definition wc_space :: "u8 \<Rightarrow> bool" where
  "wc_space b \<longleftrightarrow> b \<in> set [32, 13, 9, 10, 11]"

definition wc_byte :: "u8 \<Rightarrow> wcount \<Rightarrow> wcount" where
  "wc_byte b s =
     (let s = s\<lparr>wc_c := wc_c s + 1\<rparr>;
          s = (if b = NEWLINE then s\<lparr>wc_l := wc_l s + 1\<rparr> else s)
      in if wc_space b then s\<lparr>wc_inword := False\<rparr>
         else if \<not> wc_inword s then s\<lparr>wc_w := wc_w s + 1, wc_inword := True\<rparr> else s)"

function wc_loop :: "source \<Rightarrow> wcount \<Rightarrow> wcount" where
  "wc_loop src s =
     (let (got, src') = read_upto 512 src in
      if got = [] then s else wc_loop src' (fold wc_byte got s))"
  by pat_completeness auto
termination
proof (relation "measure (\<lambda>(src, s). length (concat src))")
  fix src :: source and s :: wcount and x got src'
  assume "x = read_upto 512 src" "(got, src') = x" "got \<noteq> []"
  then show "((src', fold wc_byte got s), src, s) \<in> measure (\<lambda>(src, s). length (concat src))"
    using read_upto_concat [of 512 src got src'] by simp
qed simp

declare wc_loop.simps [simp del]

definition wc :: "source \<Rightarrow> int \<times> int \<times> int" where
  "wc src = (let s = wc_loop src \<lparr>wc_l = 0, wc_w = 0, wc_c = 0, wc_inword = False\<rparr> in (wc_l s, wc_w s, wc_c s))"

lemma wc_loop_fold: "[] \<notin> set src \<Longrightarrow> wc_loop src s = fold wc_byte (concat src) s"
proof (induction src s rule: wc_loop.induct)
  case (1 src s)
  obtain got src' where r: "read_upto 512 src = (got, src')" by fastforce
  show ?case
  proof (cases "got = []")
    case True
    then have "src = []" using read_upto_nonempty [OF r 1(2)] by simp
    then show ?thesis by (subst wc_loop.simps) simp
  next
    case False
    then show ?thesis using r 1(1) [OF r [symmetric] refl False] read_upto_concat [OF r] read_upto_nonempty [OF r 1(2)]
      by (subst wc_loop.simps) simp
  qed
qed

text \<open>The words: the positions at which a word begins.\<close>

fun word_starts :: "bool \<Rightarrow> u8 list \<Rightarrow> nat" where
  "word_starts inword [] = 0"
| "word_starts inword (b # bs) = (if \<not> wc_space b \<and> \<not> inword then 1 else 0) + word_starts (\<not> wc_space b) bs"

lemma wc_counts:
  assumes "[] \<notin> set src"
  shows "wc src = (int (count_list (concat src) NEWLINE), int (word_starts False (concat src)), int (length (concat src)))"
proof -
  have "fold wc_byte bs s = \<lparr>wc_l = wc_l s + int (count_list bs NEWLINE), wc_w = wc_w s + int (word_starts (wc_inword s) bs),
      wc_c = wc_c s + int (length bs), wc_inword = (if bs = [] then wc_inword s else \<not> wc_space (last bs))\<rparr>" for bs s
    by (induction bs arbitrary: s) (auto simp: wc_byte_def Let_def)
  then show ?thesis using wc_loop_fold [OF assms] by (simp add: wc_def)
qed

subsection \<open>Copying\<close>

text \<open>\<open>wr\<close> is the result of \<^verbatim>\<open>write\<close> on the standard output; the bytes handed to it, and whether it failed.\<close>

function cat_loop :: "(u8 list \<Rightarrow> int) \<Rightarrow> source \<Rightarrow> u8 list \<times> bool" where
  "cat_loop wr src =
     (let (got, src') = read_upto 512 src in
      if got = [] then ([], True)
      else if wr got \<noteq> int (length got) then (got, False)
      else apfst (append got) (cat_loop wr src'))"
  by pat_completeness auto
termination
proof (relation "measure (\<lambda>(wr, src). length (concat src))")
  fix wr :: "u8 list \<Rightarrow> int" and src :: source and x got src'
  assume "x = read_upto 512 src" "(got, src') = x" "got \<noteq> []"
  then show "((wr, src'), wr, src) \<in> measure (\<lambda>(wr, src). length (concat src))"
    using read_upto_concat [of 512 src got src'] by simp
qed simp

declare cat_loop.simps [simp del]

lemma cat_copies:
  assumes "[] \<notin> set src" "\<And>bs. wr bs = int (length bs)"
  shows "cat_loop wr src = (concat src, True)"
  using assms
proof (induction wr src rule: cat_loop.induct)
  case (1 wr src)
  obtain got src' where r: "read_upto 512 src = (got, src')" by fastforce
  show ?case
  proof (cases "got = []")
    case True
    then have "src = []" using read_upto_nonempty [OF r 1(2)] by simp
    then show ?thesis by (subst cat_loop.simps) simp
  next
    case False
    have w: "wr got = int (length got)" using 1(3) .
    have "cat_loop wr src' = (concat src', True)"
      using 1(1) [OF r [symmetric] refl False] w 1(3) read_upto_nonempty [OF r 1(2)] by blast
    then show ?thesis using r False w read_upto_concat [OF r] by (subst cat_loop.simps) simp
  qed
qed

end
