(* ===== verification/Sh.thy ===== *)
theory Sh
  imports Ulib
begin

section \<open>The shell (user/sh.c)\<close>

text \<open>
  The parser of the shell. The line is the list of its bytes before the NUL, a pointer into it is an offset, and a word is the
  pair of the offsets \<^verbatim>\<open>q\<close> and \<^verbatim>\<open>eq\<close>. A call of the shell's \<^verbatim>\<open>panic\<close>, which ends the process, is the result
  \<open>Fail\<close>. \<^verbatim>\<open>malloc\<close> gives memory in all constructors. The recursive-descent routines take fuel; the lemmas show that a fuel linear in
  the length of the line is always enough, and that the words of a parsed command are cut out of the line correctly.
\<close>

subsection \<open>Tokens\<close>

definition char_at :: "u8 list \<Rightarrow> nat \<Rightarrow> u8" where
  "char_at buf i = (if i < length buf then buf ! i else 0)"

definition is_white :: "u8 \<Rightarrow> bool" where
  "is_white c \<longleftrightarrow> c \<in> set [32, 9, 13, 10, 11]"

definition is_symbol :: "u8 \<Rightarrow> bool" where
  "is_symbol c \<longleftrightarrow> c \<in> set [60, 124, 62, 38, 59, 40, 41]"

function skip_while :: "(u8 \<Rightarrow> bool) \<Rightarrow> u8 list \<Rightarrow> nat \<Rightarrow> nat" where
  "skip_while P buf s = (if s < length buf then if P (buf ! s) then skip_while P buf (Suc s) else s else s)"
  by pat_completeness auto
termination
  by (relation "measure (\<lambda>(P, buf, s). length buf - s)") auto

declare skip_while.simps [simp del]

text \<open>The result is the token, its two ends, and the offset after the white space that follows.\<close>

definition gettoken :: "u8 list \<Rightarrow> nat \<Rightarrow> u8 \<times> nat \<times> nat \<times> nat" where
  "gettoken buf ps =
     (let q = skip_while is_white buf ps;
          c = char_at buf q;
          (ret, eq) =
            (if c = 0 then (c, q)
             else if c \<in> set [124, 40, 41, 59, 38, 60] then (c, Suc q)
             else if c = 62 then if char_at buf (Suc q) = 62 then (43, Suc (Suc q)) else (c, Suc q)
             else (97, skip_while (\<lambda>c. \<not> is_white c \<and> \<not> is_symbol c) buf q))
      in (ret, q, eq, skip_while is_white buf eq))"

definition peek :: "u8 list \<Rightarrow> nat \<Rightarrow> u8 list \<Rightarrow> nat \<times> bool" where
  "peek buf ps toks =
     (let s = skip_while is_white buf ps in (s, char_at buf s \<noteq> 0 \<and> char_at buf s \<in> set toks))"

subsection \<open>Commands\<close>

datatype cmd =
    EXEC "(nat \<times> nat) list"
  | REDIR cmd nat nat int int
  | PIPE cmd cmd
  | LIST cmd cmd
  | BACK cmd

datatype 'a parse = Ok 'a nat | Fail string | OutOfFuel

definition bindP :: "'a parse \<Rightarrow> ('a \<Rightarrow> nat \<Rightarrow> 'b parse) \<Rightarrow> 'b parse" where
  "bindP p f = (case p of Ok x s \<Rightarrow> f x s | Fail e \<Rightarrow> Fail e | OutOfFuel \<Rightarrow> OutOfFuel)"

lemma bindP_simps [simp]: "bindP (Ok x s) f = f x s" "bindP (Fail e) f = Fail e" "bindP OutOfFuel f = OutOfFuel"
  by (simp_all add: bindP_def)

lemma bindP_cong [fundef_cong]: "p = p' \<Longrightarrow> (\<And>x s. p' = Ok x s \<Longrightarrow> f x s = f' x s) \<Longrightarrow> bindP p f = bindP p' f'"
  by (auto simp: bindP_def split: parse.split)

lemma bindP_eq_Ok: "bindP p f = Ok y t \<longleftrightarrow> (\<exists>x s. p = Ok x s \<and> f x s = Ok y t)"
  by (auto simp: bindP_def split: parse.splits)

subsection \<open>Progress of the tokens\<close>

lemma skip_while_bounds: "s \<le> length buf \<Longrightarrow> s \<le> skip_while P buf s \<and> skip_while P buf s \<le> length buf"
proof (induction P buf s rule: skip_while.induct)
  case (1 P buf s)
  then show ?case by (subst (1 2) skip_while.simps) auto
qed

lemma skip_while_inside: "s \<le> i \<Longrightarrow> i < skip_while P buf s \<Longrightarrow> P (buf ! i)"
proof (induction P buf s rule: skip_while.induct)
  case (1 P buf s)
  have "i < (if s < length buf then if P (buf ! s) then skip_while P buf (Suc s) else s else s)" using 1(3) by (subst (asm) skip_while.simps)
  then show ?case using 1 by (cases "i = s") (auto split: if_splits)
qed

lemma skip_while_stops: "skip_while P buf s < length buf \<Longrightarrow> \<not> P (buf ! skip_while P buf s)"
proof (induction P buf s rule: skip_while.induct)
  case (1 P buf s)
  then show ?case by (subst (asm) skip_while.simps, subst skip_while.simps) (auto split: if_splits)
qed

definition is_word :: "u8 \<Rightarrow> bool" where
  "is_word c \<longleftrightarrow> \<not> is_white c \<and> \<not> is_symbol c"

text \<open>The offsets \<open>q\<close> and \<open>eq\<close> cut a whole word out of the line.\<close>

definition word_ends :: "u8 list \<Rightarrow> nat \<times> nat \<Rightarrow> bool" where
  "word_ends buf w \<longleftrightarrow> fst w < snd w \<and> snd w \<le> length buf \<and> (\<forall>i. fst w \<le> i \<and> i < snd w \<longrightarrow> is_word (buf ! i))
     \<and> (snd w < length buf \<longrightarrow> \<not> is_word (buf ! snd w))"

lemma char_at_nonzero: "char_at buf q \<noteq> 0 \<Longrightarrow> q < length buf \<and> char_at buf q = buf ! q"
  by (simp add: char_at_def split: if_splits)

lemma skip_white_stops: "char_at buf (skip_while is_white buf ps) \<noteq> 0 \<Longrightarrow> \<not> is_white (char_at buf (skip_while is_white buf ps))"
  using skip_while_stops [of is_white buf ps] char_at_nonzero by metis

lemma skip_word:
  assumes "q < length buf" "is_word (buf ! q)"
  shows "word_ends buf (q, skip_while is_word buf q)"
proof -
  have "skip_while is_word buf q = skip_while is_word buf (Suc q)" using assms by (subst skip_while.simps) simp
  then have "q < skip_while is_word buf q" using skip_while_bounds [of "Suc q" buf is_word] assms(1) by simp
  then show ?thesis using skip_while_bounds [of q buf is_word] skip_while_inside [of q _ is_word buf] skip_while_stops [of is_word buf q] assms
    by (auto simp: word_ends_def)
qed

lemma gettoken_spec:
  assumes "ps \<le> length buf" "gettoken buf ps = (tok, q, eq, s)"
  shows "ps \<le> q \<and> q \<le> eq \<and> eq \<le> s \<and> s \<le> length buf \<and> (tok \<noteq> 0 \<longrightarrow> q < eq) \<and> (tok = 97 \<longrightarrow> word_ends buf (q, eq))"
proof -
  define c where "c = char_at buf (skip_while is_white buf ps)"
  have q: "q = skip_while is_white buf ps" "s = skip_while is_white buf eq" using assms(2) by (auto simp: gettoken_def Let_def split: prod.splits)
  note b = skip_while_bounds [OF assms(1), of is_white]
  have "(\<lambda>c. \<not> is_white c \<and> \<not> is_symbol c) = is_word" by (simp add: is_word_def fun_eq_iff)
  then have r: "(tok, eq) = (if c = 0 then (c, q) else if c \<in> set [124, 40, 41, 59, 38, 60] then (c, Suc q)
             else if c = 62 then if char_at buf (Suc q) = 62 then (43, Suc (Suc q)) else (c, Suc q)
             else (97, skip_while is_word buf q))"
    using assms(2) by (auto simp: gettoken_def Let_def c_def q split: prod.splits)
  have "q \<le> eq \<and> eq \<le> length buf \<and> (tok \<noteq> 0 \<longrightarrow> q < eq) \<and> (tok = 97 \<longrightarrow> word_ends buf (q, eq))"
  proof (cases "c = 0")
    case True
    then show ?thesis using r b q by simp
  next
    case False
    then have c: "q < length buf" "c = buf ! q" "\<not> is_white c" using char_at_nonzero skip_white_stops c_def q(1) by auto
    show ?thesis
    proof (cases "c \<in> set [124, 40, 41, 59, 38, 60] \<or> c = 62")
      case True
      then show ?thesis using r False c(1) char_at_nonzero [of buf "Suc q"] by (auto split: if_splits)
    next
      case word: False
      then have "is_word c" using c(3) by (auto simp: is_word_def is_symbol_def)
      then have "word_ends buf (q, skip_while is_word buf q)" using skip_word c by simp
      moreover have "tok = 97" "eq = skip_while is_word buf q" using r False word by auto
      ultimately show ?thesis by (auto simp: word_ends_def)
    qed
  qed
  then show ?thesis using b q skip_while_bounds [of eq buf is_white] by auto
qed

lemma peek_spec: "ps \<le> length buf \<Longrightarrow> peek buf ps toks = (s, b) \<Longrightarrow> ps \<le> s \<and> s \<le> length buf \<and> (b \<longrightarrow> char_at buf s \<noteq> 0 \<and> \<not> is_white (char_at buf s))"
  using skip_while_bounds [of ps buf is_white] skip_white_stops [of buf ps] by (auto simp: peek_def Let_def)

text \<open>After a successful \<^verbatim>\<open>peek\<close> the next token is not the end of the line.\<close>

lemma peek_gettoken:
  assumes "ps \<le> length buf" "peek buf ps toks = (s, True)" "gettoken buf s = (tok, q, eq, s')"
  shows "s < s' \<and> s' \<le> length buf"
proof -
  have c: "s \<le> length buf" "char_at buf s \<noteq> 0" "\<not> is_white (char_at buf s)" using peek_spec [OF assms(1,2)] by auto
  then have "skip_while is_white buf s = s" using char_at_nonzero [of buf s] by (subst skip_while.simps) simp
  then have "tok \<noteq> 0" using assms(3) c(2) by (auto simp: gettoken_def Let_def split: if_splits)
  then show ?thesis using gettoken_spec [OF c(1) assms(3)] by linarith
qed

subsection \<open>Redirections and words\<close>

abbreviation (input) RDONLY :: int where "RDONLY \<equiv> 0"
abbreviation (input) WRONLY_CREATE_TRUNC :: int where "WRONLY_CREATE_TRUNC \<equiv> 0x601"
abbreviation (input) WRONLY_CREATE :: int where "WRONLY_CREATE \<equiv> 0x201"

type_synonym redirection = "nat \<times> nat \<times> int \<times> int"

text \<open>
  The redirections that \<^verbatim>\<open>parseredirs\<close> finds, the first one first; the code wraps each around the command it has. In
  \<^verbatim>\<open>parseexec\<close> the command is filled in after it has been wrapped, so the wrapping is done at the end here.
\<close>

definition redir_of :: "u8 \<Rightarrow> nat \<Rightarrow> nat \<Rightarrow> redirection list" where
  "redir_of tok q eq =
     (if tok = 60 then [(q, eq, RDONLY, 0)]
      else if tok = 62 then [(q, eq, WRONLY_CREATE_TRUNC, 1)]
      else if tok = 43 then [(q, eq, WRONLY_CREATE, 1)]
      else [])"

function parseredirs :: "u8 list \<Rightarrow> nat \<Rightarrow> redirection list parse" where
  "parseredirs buf ps =
     (if \<not> ps \<le> length buf then OutOfFuel else
      case peek buf ps [60, 62] of
        (s, False) \<Rightarrow> Ok [] s
      | (s, True) \<Rightarrow>
          (case gettoken buf s of (tok, _, _, s1) \<Rightarrow>
           case gettoken buf s1 of (tok2, q, eq, s2) \<Rightarrow>
           if tok2 \<noteq> 97 then Fail ''missing file for redirection''
           else bindP (parseredirs buf s2) (\<lambda>rs s. Ok (redir_of tok q eq @ rs) s)))"
  by pat_completeness auto
termination
proof (relation "measure (\<lambda>(buf, ps). length buf - ps)")
  fix buf ps s y tok a b c d s1 tok2 e q f eq s2
  assume "\<not> \<not> ps \<le> length buf" "(s, y) = peek buf ps [60, 62]" "y = True" "(tok, a) = gettoken buf s" "(b, c) = a" "(d, s1) = c"
    "(tok2, e) = gettoken buf s1" "(q, f) = e" "(eq, s2) = f" "\<not> tok2 \<noteq> 97"
  then show "((buf, s2), buf, ps) \<in> measure (\<lambda>(buf, ps). length buf - ps)"
    using peek_spec [of ps buf "[60, 62]" s True] peek_gettoken [of ps buf "[60, 62]" s tok b d s1] gettoken_spec [of s1 buf tok2 q eq s2] by auto
qed simp

declare parseredirs.simps [simp del]

definition wrap :: "cmd \<Rightarrow> redirection list \<Rightarrow> cmd" where
  "wrap c rs = foldl (\<lambda>c (file, efile, mode, fd). REDIR c file efile mode fd) c rs"

definition redirs_ok :: "u8 list \<Rightarrow> redirection list \<Rightarrow> bool" where
  "redirs_ok buf rs \<longleftrightarrow> (\<forall>(q, eq, mode, fd) \<in> set rs. word_ends buf (q, eq) \<and> (fd = 0 \<or> fd = 1))"

lemma parseredirs_spec:
  assumes "ps \<le> length buf"
  shows "case parseredirs buf ps of Ok rs s \<Rightarrow> ps \<le> s \<and> s \<le> length buf \<and> redirs_ok buf rs | Fail e \<Rightarrow> True | OutOfFuel \<Rightarrow> False"
  using assms
proof (induction buf ps rule: parseredirs.induct)
  case (1 buf ps)
  obtain s b where p: "peek buf ps [60, 62] = (s, b)" by fastforce
  note ps = peek_spec [OF 1(2) p]
  show ?case
  proof (cases b)
    case False
    then show ?thesis using p ps 1(2) by (subst parseredirs.simps) (simp add: redirs_ok_def)
  next
    case True
    obtain tok x y s1 where g1: "gettoken buf s = (tok, x, y, s1)" by (metis prod_cases4)
    obtain tok2 q eq s2 where g2: "gettoken buf s1 = (tok2, q, eq, s2)" by (metis prod_cases4)
    have p1: "peek buf ps [60, 62] = (s, True)" using p True by simp
    note a1 = peek_gettoken [OF 1(2) p1 g1] and a2 = gettoken_spec [OF _ g2]
    show ?thesis
    proof (cases "tok2 = 97")
      case word: True
      have IH: "case parseredirs buf s2 of Ok rs s \<Rightarrow> s2 \<le> s \<and> s \<le> length buf \<and> redirs_ok buf rs | Fail e \<Rightarrow> True | OutOfFuel \<Rightarrow> False"
        using 1(1) [OF _ p1 [symmetric] _ g1 [symmetric] refl refl g2 [symmetric] refl refl] 1(2) True word a1 a2 by simp
      then show ?thesis using p g1 g2 True word ps a1 a2 1(2)
        by (subst parseredirs.simps) (auto simp: redirs_ok_def redir_of_def split: parse.splits)
    qed (use p g1 g2 True 1(2) in \<open>subst parseredirs.simps, simp\<close>)
  qed
qed

abbreviation (input) MAXARGS :: nat where "MAXARGS \<equiv> 10"

text \<open>The loop of \<^verbatim>\<open>parseexec\<close>: the words so far and the redirections so far.\<close>

function parseargs :: "u8 list \<Rightarrow> nat \<Rightarrow> (nat \<times> nat) list \<Rightarrow> redirection list \<Rightarrow> cmd parse" where
  "parseargs buf ps argv rs =
     (if \<not> ps \<le> length buf then OutOfFuel else
      case peek buf ps [124, 41, 38, 59] of
        (s, True) \<Rightarrow> Ok (wrap (EXEC argv) rs) s
      | (s, False) \<Rightarrow>
          (case gettoken buf s of (tok, q, eq, s1) \<Rightarrow>
           if tok = 0 then Ok (wrap (EXEC argv) rs) s1
           else if tok \<noteq> 97 then Fail ''syntax''
           else if length argv + 1 \<ge> MAXARGS then Fail ''too many args''
           else bindP (parseredirs buf s1) (\<lambda>rs' s2. parseargs buf s2 (argv @ [(q, eq)]) (rs @ rs'))))"
  by pat_completeness auto
termination
proof (relation "measure (\<lambda>(buf, ps, argv, rs). length buf - ps)")
  fix buf :: "u8 list" and ps s y tok a q b eq s1 rs' s2 and argv :: "(nat \<times> nat) list" and rs :: "redirection list"
  assume "\<not> \<not> ps \<le> length buf" "(s, y) = peek buf ps [124, 41, 38, 59]" "y = False" "(tok, a) = gettoken buf s" "(q, b) = a" "(eq, s1) = b"
    "tok \<noteq> 0" "\<not> tok \<noteq> 97" "\<not> MAXARGS \<le> length argv + 1" "parseredirs buf s1 = Ok rs' s2"
  then show "((buf, s2, argv @ [(q, eq)], rs @ rs'), buf, ps, argv, rs) \<in> measure (\<lambda>(buf, ps, argv, rs). length buf - ps)"
    using peek_spec [of ps buf "[124, 41, 38, 59]" s False] gettoken_spec [of s buf tok q eq s1] parseredirs_spec [of s1 buf] by fastforce
qed simp

declare parseargs.simps [simp del]

text \<open>The loop of \<^verbatim>\<open>parseline\<close> over the signs \<^verbatim>\<open>&\<close>.\<close>

function parseback :: "u8 list \<Rightarrow> nat \<Rightarrow> cmd \<Rightarrow> cmd parse" where
  "parseback buf ps cmd =
     (if \<not> ps \<le> length buf then OutOfFuel else
      case peek buf ps [38] of
        (s, True) \<Rightarrow> (case gettoken buf s of (_, _, _, s1) \<Rightarrow> parseback buf s1 (BACK cmd))
      | (s, False) \<Rightarrow> Ok cmd s)"
  by pat_completeness auto
termination
proof (relation "measure (\<lambda>(buf, ps, cmd). length buf - ps)")
  fix buf ps cmd s y tok a q b eq s1
  assume "\<not> \<not> ps \<le> length buf" "(s, y) = peek buf ps [38]" "y = True" "(tok, a) = gettoken buf s" "(q, b) = a" "(eq, s1) = b"
  then show "((buf, s1, BACK cmd), buf, ps, cmd) \<in> measure (\<lambda>(buf, ps, cmd). length buf - ps)"
    using peek_spec [of ps buf "[38]" s True] peek_gettoken [of ps buf "[38]" s tok q eq s1] by auto
qed simp

declare parseback.simps [simp del]

subsection \<open>The recursive routines\<close>

fun parseline :: "nat \<Rightarrow> u8 list \<Rightarrow> nat \<Rightarrow> cmd parse"
  and parsepipe :: "nat \<Rightarrow> u8 list \<Rightarrow> nat \<Rightarrow> cmd parse"
  and parseexec :: "nat \<Rightarrow> u8 list \<Rightarrow> nat \<Rightarrow> cmd parse"
  and parseblock :: "nat \<Rightarrow> u8 list \<Rightarrow> nat \<Rightarrow> cmd parse" where
  "parseline 0 buf ps = OutOfFuel"
| "parseline (Suc fuel) buf ps =
     bindP (parsepipe fuel buf ps) (\<lambda>cmd s.
     bindP (parseback buf s cmd) (\<lambda>cmd s.
     case peek buf s [59] of
       (s, False) \<Rightarrow> Ok cmd s
     | (s, True) \<Rightarrow>
         (case gettoken buf s of (_, _, _, s1) \<Rightarrow>
          bindP (parseline fuel buf s1) (\<lambda>r s2. Ok (LIST cmd r) s2))))"
| "parsepipe 0 buf ps = OutOfFuel"
| "parsepipe (Suc fuel) buf ps =
     bindP (parseexec fuel buf ps) (\<lambda>cmd s.
     case peek buf s [124] of
       (s, False) \<Rightarrow> Ok cmd s
     | (s, True) \<Rightarrow>
         (case gettoken buf s of (_, _, _, s1) \<Rightarrow>
          bindP (parsepipe fuel buf s1) (\<lambda>r s2. Ok (PIPE cmd r) s2)))"
| "parseexec 0 buf ps = OutOfFuel"
| "parseexec (Suc fuel) buf ps =
     (case peek buf ps [40] of
        (s, True) \<Rightarrow> parseblock fuel buf s
      | (s, False) \<Rightarrow> bindP (parseredirs buf s) (\<lambda>rs s1. parseargs buf s1 [] rs))"
| "parseblock 0 buf ps = OutOfFuel"
| "parseblock (Suc fuel) buf ps =
     (case peek buf ps [40] of
        (s, False) \<Rightarrow> Fail ''parseblock''
      | (s, True) \<Rightarrow>
          (case gettoken buf s of (_, _, _, s1) \<Rightarrow>
           bindP (parseline fuel buf s1) (\<lambda>cmd s2.
           case peek buf s2 [41] of
             (s3, False) \<Rightarrow> Fail ''syntax - missing )''
           | (s3, True) \<Rightarrow>
               (case gettoken buf s3 of (_, _, _, s4) \<Rightarrow>
                bindP (parseredirs buf s4) (\<lambda>rs s5. Ok (wrap cmd rs) s5)))))"

text \<open>\<^verbatim>\<open>parsecmd\<close> up to its call of \<^verbatim>\<open>nulterminate\<close>.\<close>

definition parse_all :: "u8 list \<Rightarrow> cmd parse" where
  "parse_all buf =
     bindP (parseline (4 * length buf + 4) buf 0) (\<lambda>cmd s.
     case peek buf s [] of (s1, _) \<Rightarrow>
     if s1 \<noteq> length buf then Fail ''syntax'' else Ok cmd s1)"

text \<open>\<^verbatim>\<open>nulterminate\<close> stores a NUL at the end of every word, in the buffer with the line and its NUL.\<close>

definition nul_at :: "nat \<Rightarrow> u8 list \<Rightarrow> u8 list" where
  "nul_at e mem = mem[e := 0]"

fun nulterminate :: "cmd \<Rightarrow> u8 list \<Rightarrow> u8 list" where
  "nulterminate (EXEC argv) mem = fold (\<lambda>(q, eq). nul_at eq) argv mem"
| "nulterminate (REDIR c file efile mode fd) mem = nul_at efile (nulterminate c mem)"
| "nulterminate (PIPE l r) mem = nulterminate r (nulterminate l mem)"
| "nulterminate (LIST l r) mem = nulterminate r (nulterminate l mem)"
| "nulterminate (BACK c) mem = nulterminate c mem"

text \<open>The line is stored with its NUL; the result is the command and the buffer after \<^verbatim>\<open>nulterminate\<close>.\<close>

definition parsecmd :: "u8 list \<Rightarrow> (cmd \<times> u8 list) parse" where
  "parsecmd buf = bindP (parse_all buf) (\<lambda>cmd s. Ok (cmd, nulterminate cmd (buf @ [0])) s)"

subsection \<open>What a command contains\<close>

fun words :: "cmd \<Rightarrow> (nat \<times> nat) list" where
  "words (EXEC argv) = argv"
| "words (REDIR c file efile mode fd) = words c @ [(file, efile)]"
| "words (PIPE l r) = words l @ words r"
| "words (LIST l r) = words l @ words r"
| "words (BACK c) = words c"

fun cmd_fits :: "cmd \<Rightarrow> bool" where
  "cmd_fits (EXEC argv) \<longleftrightarrow> length argv < MAXARGS"
| "cmd_fits (REDIR c file efile mode fd) \<longleftrightarrow> cmd_fits c \<and> (fd = 0 \<or> fd = 1)"
| "cmd_fits (PIPE l r) \<longleftrightarrow> cmd_fits l \<and> cmd_fits r"
| "cmd_fits (LIST l r) \<longleftrightarrow> cmd_fits l \<and> cmd_fits r"
| "cmd_fits (BACK c) \<longleftrightarrow> cmd_fits c"

definition cmd_ok :: "u8 list \<Rightarrow> cmd \<Rightarrow> bool" where
  "cmd_ok buf c \<longleftrightarrow> cmd_fits c \<and> (\<forall>w \<in> set (words c). word_ends buf w)"

text \<open>A result of the parser: a command and an offset not before \<open>ps\<close>, or a syntax error.\<close>

definition parsed :: "u8 list \<Rightarrow> nat \<Rightarrow> cmd parse \<Rightarrow> bool" where
  "parsed buf ps p \<longleftrightarrow> (case p of Ok c s \<Rightarrow> ps \<le> s \<and> s \<le> length buf \<and> cmd_ok buf c | Fail e \<Rightarrow> True | OutOfFuel \<Rightarrow> False)"

lemma cmd_ok_simps [simp]:
  "cmd_ok buf (PIPE l r) \<longleftrightarrow> cmd_ok buf l \<and> cmd_ok buf r" "cmd_ok buf (LIST l r) \<longleftrightarrow> cmd_ok buf l \<and> cmd_ok buf r"
  "cmd_ok buf (BACK c) \<longleftrightarrow> cmd_ok buf c" "cmd_ok buf (REDIR c file efile mode fd) \<longleftrightarrow> cmd_ok buf c \<and> word_ends buf (file, efile) \<and> (fd = 0 \<or> fd = 1)"
  by (auto simp: cmd_ok_def)

lemma redirs_ok_append [simp]: "redirs_ok buf (rs @ rs') \<longleftrightarrow> redirs_ok buf rs \<and> redirs_ok buf rs'"
  by (simp add: redirs_ok_def ball_Un)

lemma redirs_ok_Cons [simp]: "redirs_ok buf ((q, eq, mode, fd) # rs) \<longleftrightarrow> word_ends buf (q, eq) \<and> (fd = 0 \<or> fd = 1) \<and> redirs_ok buf rs"
  by (simp add: redirs_ok_def)

lemma cmd_ok_wrap: "cmd_ok buf c \<Longrightarrow> redirs_ok buf rs \<Longrightarrow> cmd_ok buf (wrap c rs)"
  unfolding wrap_def by (induction rs arbitrary: c) (simp_all add: split_paired_all)

lemma parsed_simps [simp]: "parsed buf ps (Fail e)" "\<not> parsed buf ps OutOfFuel"
    "parsed buf ps (Ok c s) \<longleftrightarrow> ps \<le> s \<and> s \<le> length buf \<and> cmd_ok buf c"
  by (simp_all add: parsed_def)

lemma parsed_bind:
  assumes "parsed buf ps p" "\<And>c s. p = Ok c s \<Longrightarrow> ps \<le> s \<Longrightarrow> s \<le> length buf \<Longrightarrow> cmd_ok buf c \<Longrightarrow> parsed buf ps (f c s)"
  shows "parsed buf ps (bindP p f)"
  using assms by (cases p) auto

lemma parsed_mono: "parsed buf s p \<Longrightarrow> ps \<le> s \<Longrightarrow> parsed buf ps p"
  by (auto simp: parsed_def split: parse.splits)

lemma parsed_redirs:
  assumes "ps \<le> length buf" "\<And>rs s. ps \<le> s \<Longrightarrow> s \<le> length buf \<Longrightarrow> redirs_ok buf rs \<Longrightarrow> parsed buf ps (f rs s)"
  shows "parsed buf ps (bindP (parseredirs buf ps) f)"
  using parseredirs_spec [OF assms(1)] assms(2) by (cases "parseredirs buf ps") auto

lemma parsed_parseargs:
  assumes "ps \<le> length buf" "\<forall>w \<in> set argv. word_ends buf w" "length argv < MAXARGS" "redirs_ok buf rs"
  shows "parsed buf ps (parseargs buf ps argv rs)"
  using assms
proof (induction buf ps argv rs rule: parseargs.induct)
  case (1 buf ps argv rs)
  obtain s b where p: "peek buf ps [124, 41, 38, 59] = (s, b)" by fastforce
  note ps = peek_spec [OF 1(2) p]
  have ok: "cmd_ok buf (wrap (EXEC argv) rs)" using 1(3-5) by (intro cmd_ok_wrap) (simp_all add: cmd_ok_def)
  show ?case
  proof (cases b)
    case True
    then show ?thesis using p ps 1(2) ok by (subst parseargs.simps) simp
  next
    case False
    then have p1: "peek buf ps [124, 41, 38, 59] = (s, False)" using p by simp
    obtain tok q eq s1 where g: "gettoken buf s = (tok, q, eq, s1)" by (metis prod_cases4)
    note a = gettoken_spec [OF _ g]
    show ?thesis
    proof (cases "tok = 97 \<and> length argv + 1 < MAXARGS")
      case word: True
      have "parsed buf s1 (bindP (parseredirs buf s1) (\<lambda>rs' s2. parseargs buf s2 (argv @ [(q, eq)]) (rs @ rs')))"
      proof (cases "parseredirs buf s1")
        case (Ok rs' s2)
        have s2: "s1 \<le> s2" "s2 \<le> length buf" "redirs_ok buf rs'" using parseredirs_spec [of s1 buf] Ok a ps by auto
        have "parsed buf s2 (parseargs buf s2 (argv @ [(q, eq)]) (rs @ rs'))"
          using 1(1) [OF _ p1 [symmetric] _ g [symmetric] refl refl _ _ _ Ok] 1(2-5) word s2 a ps by simp
        then show ?thesis using Ok parsed_mono s2(1) by simp
      qed (use parseredirs_spec [of s1 buf] a ps in auto)
      from parsed_mono [OF this, of ps] have "parsed buf ps (bindP (parseredirs buf s1) (\<lambda>rs' s2. parseargs buf s2 (argv @ [(q, eq)]) (rs @ rs')))"
        using ps a by simp
      then show ?thesis using p1 g word 1(2) by (subst parseargs.simps) simp
    qed (use p1 g ps a 1(2) ok in \<open>subst parseargs.simps, simp add: not_less\<close>)
  qed
qed

lemma parsed_parseback: "ps \<le> length buf \<Longrightarrow> cmd_ok buf c \<Longrightarrow> parsed buf ps (parseback buf ps c)"
proof (induction buf ps c rule: parseback.induct)
  case (1 buf ps c)
  obtain s b where p: "peek buf ps [38] = (s, b)" by fastforce
  note ps = peek_spec [OF 1(2) p]
  show ?case
  proof (cases b)
    case False
    then show ?thesis using p ps 1(2,3) by (subst parseback.simps) simp
  next
    case True
    then have p1: "peek buf ps [38] = (s, True)" using p by simp
    obtain tok q eq s1 where g: "gettoken buf s = (tok, q, eq, s1)" by (metis prod_cases4)
    note a = peek_gettoken [OF 1(2) p1 g]
    have "parsed buf s1 (parseback buf s1 (BACK c))" using 1(1) [OF _ p1 [symmetric] _ g [symmetric] refl refl] 1(2,3) a by simp
    from parsed_mono [OF this, of ps] show ?thesis using p1 g ps a 1(2) by (subst parseback.simps) simp
  qed
qed

subsection \<open>Enough fuel\<close>

text \<open>
  With fuel \<open>k\<close>, a routine that needs \<open>4 n + d\<close> for the \<open>n\<close> bytes that are left returns, and more fuel does not change the result.
\<close>

definition settles :: "u8 list \<Rightarrow> nat \<Rightarrow> (nat \<Rightarrow> u8 list \<Rightarrow> nat \<Rightarrow> cmd parse) \<Rightarrow> nat \<Rightarrow> bool" where
  "settles buf d f k \<longleftrightarrow> (\<forall>ps k'. ps \<le> length buf \<and> 4 * (length buf - ps) + d \<le> k \<and> k \<le> k' \<longrightarrow>
     parsed buf ps (f k buf ps) \<and> f k' buf ps = f k buf ps)"

lemma settlesD:
  assumes "settles buf d f k" "ps \<le> length buf" "4 * (length buf - ps) + d \<le> k" "k \<le> k'"
  shows "parsed buf ps (f k buf ps)" "f k' buf ps = f k buf ps"
  using assms unfolding settles_def by blast+

lemma settlesI:
  assumes "\<And>ps k'. ps \<le> length buf \<Longrightarrow> 4 * (length buf - ps) + d \<le> Suc k \<Longrightarrow> k \<le> k' \<Longrightarrow>
     parsed buf ps (f (Suc k) buf ps) \<and> f (Suc k') buf ps = f (Suc k) buf ps"
  shows "settles buf d f (Suc k)"
  unfolding settles_def
proof (intro allI impI)
  fix ps k'
  assume a: "ps \<le> length buf \<and> 4 * (length buf - ps) + d \<le> Suc k \<and> Suc k \<le> k'"
  then obtain k'' where "k' = Suc k''" "k \<le> k''" by (cases k') auto
  then show "parsed buf ps (f (Suc k) buf ps) \<and> f k' buf ps = f (Suc k) buf ps" using assms [of ps k''] a by simp
qed

lemma parsed_bind_eq:
  assumes "parsed buf ps p" "\<And>c s. p = Ok c s \<Longrightarrow> ps \<le> s \<Longrightarrow> s \<le> length buf \<Longrightarrow> cmd_ok buf c \<Longrightarrow> parsed buf ps (f c s) \<and> g c s = f c s"
  shows "parsed buf ps (bindP p f) \<and> bindP p g = bindP p f"
proof (cases p)
  case (Ok c s)
  then show ?thesis using assms(1) assms(2) [OF Ok] by simp
qed (use assms(1) in simp_all)

lemma redirs_bind_eq:
  assumes "ps \<le> length buf" "\<And>rs s. ps \<le> s \<Longrightarrow> s \<le> length buf \<Longrightarrow> redirs_ok buf rs \<Longrightarrow> parsed buf p0 (f rs s)"
  shows "parsed buf p0 (bindP (parseredirs buf ps) f)"
  using parseredirs_spec [OF assms(1)] assms(2) by (cases "parseredirs buf ps") auto

text \<open>A sign that is followed by another part of the line: the part begins later.\<close>

lemma sign_step:
  assumes "settles buf d f k" "s \<le> length buf" "ps \<le> s" "4 * (length buf - ps) + d' \<le> Suc k" "d \<le> d' + 3" "k \<le> k'" "cmd_ok buf c"
    "\<And>l r. cmd_ok buf l \<Longrightarrow> cmd_ok buf r \<Longrightarrow> cmd_ok buf (join l r)"
  shows "parsed buf ps (case peek buf s sign of (s, False) \<Rightarrow> Ok c s
      | (s, True) \<Rightarrow> (case gettoken buf s of (_, _, _, s1) \<Rightarrow> bindP (f k buf s1) (\<lambda>r s2. Ok (join c r) s2)))
    \<and> (case peek buf s sign of (s, False) \<Rightarrow> Ok c s
      | (s, True) \<Rightarrow> (case gettoken buf s of (_, _, _, s1) \<Rightarrow> bindP (f k' buf s1) (\<lambda>r s2. Ok (join c r) s2)))
      = (case peek buf s sign of (s, False) \<Rightarrow> Ok c s
      | (s, True) \<Rightarrow> (case gettoken buf s of (_, _, _, s1) \<Rightarrow> bindP (f k buf s1) (\<lambda>r s2. Ok (join c r) s2)))"
proof -
  obtain s' b where p: "peek buf s sign = (s', b)" by fastforce
  note ps = peek_spec [OF assms(2) p]
  show ?thesis
  proof (cases b)
    case False
    then show ?thesis using p ps assms(3,7) by simp
  next
    case True
    obtain tok q eq s1 where g: "gettoken buf s' = (tok, q, eq, s1)" by (metis prod_cases4)
    have a: "s' < s1" "s1 \<le> length buf" using peek_gettoken [OF assms(2) _ g] p True by auto
    have "4 * (length buf - s1) + d \<le> k" using a ps assms(3,4,5) by linarith
    note s1 = settlesD [OF assms(1) a(2) this assms(6)]
    have "parsed buf ps (bindP (f k buf s1) (\<lambda>r s2. Ok (join c r) s2))"
      using parsed_mono [OF s1(1), of ps] a ps assms(3,7,8) by (intro parsed_bind) auto
    then show ?thesis using p True g s1(2) by simp
  qed
qed

lemma line_step:
  assumes "settles buf 3 parsepipe k" "settles buf 4 parseline k" shows "settles buf 4 parseline (Suc k)"
proof (rule settlesI)
  fix ps k' assume a: "ps \<le> length buf" "4 * (length buf - ps) + 4 \<le> Suc k" "k \<le> k'"
  note p = settlesD [OF assms(1) a(1) _ a(3)]
  have "parsed buf ps (parsepipe k buf ps)" "parsepipe k' buf ps = parsepipe k buf ps" using p a(2) by simp_all
  then show "parsed buf ps (parseline (Suc k) buf ps) \<and> parseline (Suc k') buf ps = parseline (Suc k) buf ps"
    unfolding parseline.simps
  proof (simp only:, elim parsed_bind_eq)
    fix c s assume s: "ps \<le> s" "s \<le> length buf" "cmd_ok buf c"
    show "parsed buf ps (bindP (parseback buf s c) (\<lambda>cmd s. case peek buf s [59] of (s, False) \<Rightarrow> Ok cmd s
         | (s, True) \<Rightarrow> (case gettoken buf s of (_, _, _, s1) \<Rightarrow> bindP (parseline k buf s1) (\<lambda>r s2. Ok (LIST cmd r) s2))))
      \<and> bindP (parseback buf s c) (\<lambda>cmd s. case peek buf s [59] of (s, False) \<Rightarrow> Ok cmd s
         | (s, True) \<Rightarrow> (case gettoken buf s of (_, _, _, s1) \<Rightarrow> bindP (parseline k' buf s1) (\<lambda>r s2. Ok (LIST cmd r) s2)))
      = bindP (parseback buf s c) (\<lambda>cmd s. case peek buf s [59] of (s, False) \<Rightarrow> Ok cmd s
         | (s, True) \<Rightarrow> (case gettoken buf s of (_, _, _, s1) \<Rightarrow> bindP (parseline k buf s1) (\<lambda>r s2. Ok (LIST cmd r) s2)))"
    proof (rule parsed_bind_eq)
      show "parsed buf ps (parseback buf s c)" using parsed_parseback [OF s(2,3)] parsed_mono s(1) by blast
    qed (rule sign_step [OF assms(2) _ _ a(2) _ a(3)], simp_all)
  qed
qed

lemma pipe_step:
  assumes "settles buf 2 parseexec k" "settles buf 3 parsepipe k" shows "settles buf 3 parsepipe (Suc k)"
proof (rule settlesI)
  fix ps k' assume a: "ps \<le> length buf" "4 * (length buf - ps) + 3 \<le> Suc k" "k \<le> k'"
  note p = settlesD [OF assms(1) a(1) _ a(3)]
  have "parsed buf ps (parseexec k buf ps)" "parseexec k' buf ps = parseexec k buf ps" using p a(2) by simp_all
  then show "parsed buf ps (parsepipe (Suc k) buf ps) \<and> parsepipe (Suc k') buf ps = parsepipe (Suc k) buf ps"
    unfolding parsepipe.simps by (simp only:, elim parsed_bind_eq) (rule sign_step [OF assms(2) _ _ a(2) _ a(3)], simp_all)
qed

lemma exec_step:
  assumes "settles buf 1 parseblock k" shows "settles buf 2 parseexec (Suc k)"
proof (rule settlesI)
  fix ps k' assume a: "ps \<le> length buf" "4 * (length buf - ps) + 2 \<le> Suc k" "k \<le> k'"
  obtain s b where p: "peek buf ps [40] = (s, b)" by fastforce
  note ps = peek_spec [OF a(1) p]
  show "parsed buf ps (parseexec (Suc k) buf ps) \<and> parseexec (Suc k') buf ps = parseexec (Suc k) buf ps"
  proof (cases b)
    case True
    have "s \<le> length buf" "4 * (length buf - s) + 1 \<le> k" using ps a(2) by auto
    note s = settlesD [OF assms this a(3)]
    show ?thesis using p True s parsed_mono [OF s(1), of ps] ps by simp
  next
    case False
    have "parsed buf ps (bindP (parseredirs buf s) (\<lambda>rs s1. parseargs buf s1 [] rs))"
    proof (rule redirs_bind_eq)
      fix rs s1 assume s1: "s \<le> s1" "s1 \<le> length buf" "redirs_ok buf rs"
      show "parsed buf ps (parseargs buf s1 [] rs)" using parsed_mono [OF parsed_parseargs [of s1 buf "[]" rs], of ps] s1 ps by simp
    qed (use ps in simp)
    then show ?thesis using p False by simp
  qed
qed

lemma block_step:
  assumes "settles buf 4 parseline k" shows "settles buf 1 parseblock (Suc k)"
proof (rule settlesI)
  fix ps k' assume a: "ps \<le> length buf" "4 * (length buf - ps) + 1 \<le> Suc k" "k \<le> k'"
  obtain s b where p: "peek buf ps [40] = (s, b)" by fastforce
  note ps = peek_spec [OF a(1) p]
  let ?rest = "\<lambda>cmd s2. case peek buf s2 [41] of (s3, False) \<Rightarrow> Fail ''syntax - missing )''
           | (s3, True) \<Rightarrow> (case gettoken buf s3 of (_, _, _, s4) \<Rightarrow> bindP (parseredirs buf s4) (\<lambda>rs s5. Ok (wrap cmd rs) s5))"
  show "parsed buf ps (parseblock (Suc k) buf ps) \<and> parseblock (Suc k') buf ps = parseblock (Suc k) buf ps"
  proof (cases b)
    case True
    obtain tok q eq s1 where g: "gettoken buf s = (tok, q, eq, s1)" by (metis prod_cases4)
    have s1: "s < s1" "s1 \<le> length buf" using peek_gettoken [OF a(1) _ g] p True by auto
    have "4 * (length buf - s1) + 4 \<le> k" using a(2) ps s1 by linarith
    note l = settlesD [OF assms s1(2) this a(3)]
    have "parsed buf ps (bindP (parseline k buf s1) ?rest)"
    proof (rule parsed_bind)
      show "parsed buf ps (parseline k buf s1)" using parsed_mono [OF l(1), of ps] s1 ps by simp
    next
      fix c s2 assume s2: "ps \<le> s2" "s2 \<le> length buf" "cmd_ok buf c"
      obtain s3 b3 where p3: "peek buf s2 [41] = (s3, b3)" by fastforce
      obtain tok3 q3 eq3 s4 where g3: "gettoken buf s3 = (tok3, q3, eq3, s4)" by (metis prod_cases4)
      show "parsed buf ps (?rest c s2)"
      proof (cases b3)
        case True
        have s4: "s3 < s4" "s4 \<le> length buf" using peek_gettoken [OF s2(2) _ g3] p3 True by auto
        have "parsed buf ps (bindP (parseredirs buf s4) (\<lambda>rs s5. Ok (wrap c rs) s5))"
          using s4 s2 peek_spec [OF s2(2) p3] by (intro redirs_bind_eq) (auto intro: cmd_ok_wrap)
        then show ?thesis using p3 g3 True by simp
      qed (use p3 in simp)
    qed
    then show ?thesis using p True g l(2) by simp
  qed (use p in simp)
qed

lemma parser_settles:
  "settles buf 4 parseline k \<and> settles buf 3 parsepipe k \<and> settles buf 2 parseexec k \<and> settles buf 1 parseblock k"
proof (induction k)
  case 0
  then show ?case by (simp add: settles_def)
next
  case (Suc k)
  then show ?case using line_step pipe_step exec_step block_step by blast
qed

lemma parse_all_parsed: "parsed buf 0 (parse_all buf)"
proof -
  have "parsed buf 0 (parseline (4 * length buf + 4) buf 0)"
    using settlesD(1) [OF conjunct1 [OF parser_settles] _ _ order_refl, of 0 buf "4 * length buf + 4"] by simp
  then show ?thesis unfolding parse_all_def
    by (rule parsed_bind) (auto dest: peek_spec split: prod.split)
qed

lemma parsecmd_OkD:
  assumes "parsecmd buf = Ok (c, mem) s"
  shows "cmd_ok buf c" "mem = nulterminate c (buf @ [0])"
  using assms parse_all_parsed [of buf] by (auto simp: parsecmd_def bindP_eq_Ok)

lemma parsecmd_settled: "parsecmd buf \<noteq> OutOfFuel"
  using parse_all_parsed [of buf] by (cases "parse_all buf") (auto simp: parsecmd_def)

text \<open>
  C37: the parser of the shell always ends. On every line \<^verbatim>\<open>parsecmd\<close> returns a command or reports a syntax error; it never recurses forever,
  however the line nests parentheses, pipes and lists: any fuel from four times the length of the line on gives the same result.
\<close>

theorem parsecmd_terminates:
  "parsecmd buf \<noteq> OutOfFuel \<and> (\<forall>fuel. 4 * length buf + 4 \<le> fuel \<longrightarrow> parseline fuel buf 0 = parseline (4 * length buf + 4) buf 0
     \<and> parseline fuel buf 0 \<noteq> OutOfFuel)"
proof -
  have s: "settles buf 4 parseline (4 * length buf + 4)" using parser_settles by blast
  have p: "parsed buf 0 (parseline (4 * length buf + 4) buf 0)" using settlesD(1) [OF s _ _ order_refl, of 0] by simp
  have "parseline fuel buf 0 = parseline (4 * length buf + 4) buf 0" if "4 * length buf + 4 \<le> fuel" for fuel
    using settlesD(2) [OF s _ _ that, of 0] by simp
  moreover have "parseline (4 * length buf + 4) buf 0 \<noteq> OutOfFuel" using p by auto
  moreover have "parsecmd buf \<noteq> OutOfFuel" by (rule parsecmd_settled)
  ultimately show ?thesis by presburger
qed

subsection \<open>Terminating the words\<close>

definition ends :: "cmd \<Rightarrow> nat set" where
  "ends c = snd ` set (words c)"

lemma nul_at_nth: "length (nul_at e mem) = length mem" "i < length mem \<Longrightarrow> nul_at e mem ! i = (if i = e then 0 else mem ! i)"
  by (simp_all add: nul_at_def nth_list_update)

lemma fold_nul_at:
  "length (fold (\<lambda>(q, eq). nul_at eq) argv mem) = length mem
   \<and> (i < length mem \<longrightarrow> fold (\<lambda>(q, eq). nul_at eq) argv mem ! i = (if i \<in> snd ` set argv then 0 else mem ! i))"
proof (induction argv arbitrary: mem)
  case (Cons w argv)
  obtain q e where w: "w = (q, e)" by fastforce
  have "snd ` set (w # argv) = insert e (snd ` set argv)" by (simp add: w)
  then show ?case using Cons.IH [of "nul_at e mem"] nul_at_nth [of e mem] nul_at_nth(2) [of i mem e] by (cases "i = e") (simp_all add: w)
qed simp

lemma nulterminate_nth:
  "length (nulterminate c mem) = length mem \<and> (i < length mem \<longrightarrow> nulterminate c mem ! i = (if i \<in> ends c then 0 else mem ! i))"
proof (induction c arbitrary: mem)
  case (EXEC argv)
  show ?case using fold_nul_at [of argv mem i] by (simp add: ends_def)
qed (simp_all add: nul_at_nth ends_def image_Un)

lemma nulterminate_word:
  assumes "cmd_ok buf c" "0 \<notin> set buf" "(q, eq) \<in> set (words c)"
  shows "takeWhile (\<lambda>b. b \<noteq> 0) (drop q (nulterminate c (buf @ [0]))) = take (eq - q) (drop q buf)"
proof -
  have ok: "\<And>w. w \<in> set (words c) \<Longrightarrow> word_ends buf w" using assms(1) by (auto simp: cmd_ok_def)
  let ?m = "nulterminate c (buf @ [0])"
  have we: "q < eq" "eq \<le> length buf" "\<And>i. q \<le> i \<Longrightarrow> i < eq \<Longrightarrow> is_word (buf ! i)" using ok [OF assms(3)] by (auto simp: word_ends_def)
  have keep: "?m ! i = buf ! i" if "q \<le> i" "i < eq" for i
  proof -
    have "i \<notin> ends c" using ok we(3) [OF that] we(2) that by (fastforce simp: ends_def word_ends_def)
    then show ?thesis using nulterminate_nth [of c "buf @ [0]" i] we(2) that by (simp add: nth_append)
  qed
  have len: "length ?m = Suc (length buf)" using nulterminate_nth [of c "buf @ [0]"] by simp
  have "eq \<in> ends c" using assms(3) by (force simp: ends_def)
  then have z: "?m ! eq = 0" using nulterminate_nth [of c "buf @ [0]" eq] we(2) by simp
  have pre: "take (eq - q) (drop q ?m) = take (eq - q) (drop q buf)" using we len keep by (intro nth_equalityI) auto
  have "drop q ?m = take (eq - q) (drop q ?m) @ 0 # drop (Suc eq) ?m"
    using we len z id_take_nth_drop [of "eq - q" "drop q ?m"] by simp
  then have "drop q ?m = take (eq - q) (drop q buf) @ 0 # drop (Suc eq) ?m" using pre by simp
  moreover have "0 \<notin> set (take (eq - q) (drop q buf))" using assms(2) by (meson in_set_dropD in_set_takeD)
  ultimately show ?thesis by (simp add: takeWhile_stop)
qed

text \<open>
  C38: \<^verbatim>\<open>nulterminate\<close> gives every word its own string. For a command that \<^verbatim>\<open>parsecmd\<close> returns, each program argument and file name is, as a C
  string in the buffer it leaves, a non-empty word of the line, whole and uncut by the NULs stored for the other
  words; no command has more arguments than its array holds with the final null pointer, and only the standard input and output are redirected.
\<close>

theorem nulterminate_delimits_words:
  assumes "parsecmd buf = Ok (c, mem) s" "0 \<notin> set buf"
  shows "cmd_fits c \<and> (\<forall>(q, eq) \<in> set (words c).
    takeWhile (\<lambda>b. b \<noteq> 0) (drop q mem) = take (eq - q) (drop q buf) \<and> q < eq \<and> eq \<le> length buf)"
proof -
  note ok = parsecmd_OkD [OF assms(1)]
  then show ?thesis using nulterminate_word [OF ok(1) assms(2)] by (fastforce simp: cmd_ok_def word_ends_def)
qed

text \<open>The line \<^verbatim>\<open>ab>c&\<close>: a word, the file it writes to, in the background.\<close>

definition demo_line :: "u8 list" where
  "demo_line = [97, 98, 62, 99, 38]"

lemma demo_skip: "skip_while is_white demo_line s = s"
  by (subst skip_while.simps) (auto simp: demo_line_def is_white_def nth_Cons' less_Suc_eq)

lemma demo_peek: "peek demo_line s toks = (s, char_at demo_line s \<noteq> 0 \<and> char_at demo_line s \<in> set toks)"
  by (simp add: peek_def demo_skip)

lemma demo_char: "char_at demo_line 0 = 97" "char_at demo_line 2 = 62" "char_at demo_line 3 = 99" "char_at demo_line 4 = 38"
    "char_at demo_line 5 = 0" "length demo_line = 5"
  by (simp_all add: char_at_def demo_line_def)

lemma demo_word: "skip_while (\<lambda>c. \<not> is_white c \<and> \<not> is_symbol c) demo_line 0 = 2"
    "skip_while (\<lambda>c. \<not> is_white c \<and> \<not> is_symbol c) demo_line 3 = 4"
  by (simp_all add: skip_while.simps demo_line_def is_white_def is_symbol_def)

lemma demo_token: "gettoken demo_line 0 = (97, 0, 2, 2)" "gettoken demo_line 2 = (62, 2, 3, 3)" "gettoken demo_line 3 = (97, 3, 4, 4)"
    "gettoken demo_line 4 = (38, 4, 5, 5)"
  by (simp_all add: gettoken_def demo_skip demo_word demo_char)

lemma demo_redirs: "parseredirs demo_line 0 = Ok [] 0" "parseredirs demo_line 2 = Ok [(3, 4, 0x601, 1)] 4"
proof -
  have "parseredirs demo_line 4 = Ok [] 4" by (subst parseredirs.simps) (simp add: demo_peek demo_char)
  then show "parseredirs demo_line 2 = Ok [(3, 4, 0x601, 1)] 4"
    by (subst parseredirs.simps) (simp add: demo_peek demo_char demo_token redir_of_def)
  show "parseredirs demo_line 0 = Ok [] 0" by (subst parseredirs.simps) (simp add: demo_peek demo_char)
qed

lemma demo_parse_all: "parse_all demo_line = Ok (BACK (REDIR (EXEC [(0, 2)]) 3 4 0x601 1)) 5"
proof -
  let ?c = "REDIR (EXEC [(0, 2)]) 3 4 0x601 1"
  have "parseargs demo_line 4 [(0, 2)] [(3, 4, 0x601, 1)] = Ok ?c 4"
    by (subst parseargs.simps) (simp add: demo_peek demo_char wrap_def)
  then have "parseargs demo_line 0 [] [] = Ok ?c 4"
    by (subst parseargs.simps) (simp add: demo_peek demo_char demo_token demo_redirs)
  then have "parsepipe (Suc (Suc k)) demo_line 0 = Ok ?c 4" for k by (simp add: demo_peek demo_char demo_redirs)
  moreover have "parseback demo_line 5 (BACK ?c) = Ok (BACK ?c) 5" by (subst parseback.simps) (simp add: demo_peek demo_char)
  then have "parseback demo_line 4 ?c = Ok (BACK ?c) 5" by (subst parseback.simps) (simp add: demo_peek demo_char demo_token)
  ultimately have "parseline (Suc (Suc (Suc k))) demo_line 0 = Ok (BACK ?c) 5" for k
    unfolding parseline.simps(2) by (simp only: bindP_simps) (simp add: demo_peek demo_char)
  moreover have "4 * length demo_line + 4 = Suc (Suc (Suc 21))" by (simp add: demo_char)
  ultimately show ?thesis unfolding parse_all_def by (simp only: bindP_simps) (simp add: demo_char demo_peek)
qed

lemma demo_parse: "parsecmd demo_line = Ok (BACK (REDIR (EXEC [(0, 2)]) 3 4 0x601 1), [97, 98, 0, 99, 0, 0]) 5"
  by (simp add: parsecmd_def demo_parse_all) (simp add: demo_line_def nul_at_def)

theorem nulterminate_delimits_words_witness:
  "\<exists>c mem s. parsecmd demo_line = Ok (c, mem) s \<and> takeWhile (\<lambda>b. b \<noteq> 0) (drop 0 mem) = [97, 98] \<and> takeWhile (\<lambda>b. b \<noteq> 0) (drop 3 mem) = [99]"
proof -
  have "0 \<notin> set demo_line" "take 2 (drop 0 demo_line) = [97, 98]" "take 1 (drop 3 demo_line) = [99]" by (simp_all add: demo_line_def)
  moreover obtain mem where e: "parsecmd demo_line = Ok (BACK (REDIR (EXEC [(0, 2)]) 3 4 0x601 1), mem) 5" using demo_parse by blast
  ultimately have "takeWhile (\<lambda>b. b \<noteq> 0) (drop 0 mem) = [97, 98]" "takeWhile (\<lambda>b. b \<noteq> 0) (drop 3 mem) = [99]"
    using nulterminate_delimits_words [OF e] by simp_all
  then show ?thesis using e by blast
qed

theorem parsecmd_terminates_witness: "parsecmd demo_line \<noteq> OutOfFuel \<and> parseline 100 demo_line 0 \<noteq> OutOfFuel"
proof -
  have "4 * length demo_line + 4 \<le> 100" by (simp add: demo_char)
  then show ?thesis using parsecmd_terminates [of demo_line] by blast
qed

subsection \<open>The main loop\<close>

text \<open>
  A line that begins with \<^verbatim>\<open>cd\<close> changes the directory of the shell itself; every other line is parsed and run by a child. The last byte
  of a \<^verbatim>\<open>cd\<close> line is cut off, whatever it is.
\<close>

datatype shell_act = Chdir "u8 list" | Spawn "u8 list"

definition getcmd :: "source \<Rightarrow> (u8 list \<times> source) option" where
  "getcmd src =
     (let (line, src') = gets_user 100 src; buf = takeWhile (\<lambda>b. b \<noteq> 0) line in
      if buf = [] then None else Some (buf, src'))"

definition shell_line :: "u8 list \<Rightarrow> shell_act" where
  "shell_line buf = (if take 3 buf = [99, 100, 32] then Chdir (drop 3 (butlast buf)) else Spawn buf)"

lemma gets_from_shrinks: "gets_from room src = (l, src') \<Longrightarrow> length (concat src') + length l = length (concat src)"
proof (induction room src arbitrary: l rule: gets_from.induct)
  case (2 room src)
  obtain got src1 where r: "read_upto 1 src = (got, src1)" by fastforce
  note c = read_upto_concat [OF r] and n = read_upto_length [of 1 src, unfolded r fst_conv]
  show ?case
  proof (cases got)
    case Nil
    then show ?thesis using 2(2) r c by simp
  next
    case (Cons b bs)
    then have got: "got = [b]" using n by simp
    obtain cs src2 where g: "gets_from room src1 = (cs, src2)" by fastforce
    show ?thesis
    proof (cases "b = 10 \<or> b = 13")
      case True
      then have "l = [b]" "src1 = src'" using 2(2) r got by auto
      then show ?thesis using got c by simp
    next
      case False
      then have l: "l = b # cs" "src2 = src'" using 2(2) r got g by auto
      show ?thesis using 2(1) [OF r [symmetric] got False g [unfolded l(2)]] l(1) got c by simp
    qed
  qed
qed simp

function sh_main :: "source \<Rightarrow> shell_act list" where
  "sh_main src = (case getcmd src of None \<Rightarrow> [] | Some (buf, src') \<Rightarrow> shell_line buf # sh_main src')"
  by pat_completeness auto
termination
proof (relation "measure (\<lambda>src. length (concat src))")
  fix src x buf src'
  assume "getcmd src = Some x" "(buf, src') = x"
  then obtain l where l: "gets_from 99 src = (l, src')" "takeWhile (\<lambda>b. b \<noteq> 0) l \<noteq> []"
    by (auto simp: getcmd_def gets_user_def Let_def split: prod.splits if_splits)
  then have "l \<noteq> []" by (cases l) simp_all
  then show "(src', src) \<in> measure (\<lambda>src. length (concat src))" using gets_from_shrinks [OF l(1)] by (cases l) simp_all
qed simp

declare sh_main.simps [simp del]

end
