(* ===== verification/ShRun.thy ===== *)
theory ShRun
  imports Sh
begin

section \<open>Running a command in the shell (user/sh.c)\<close>

text \<open>
  What \<^verbatim>\<open>runcmd\<close> does with a parsed command: the system calls of the process that runs it and of the processes it forks. The descriptors of a
  process are a map to what they are open on; the kernel gives out the lowest descriptor that is free, of 16. Whether \<^verbatim>\<open>open\<close>, \<^verbatim>\<open>pipe\<close> and
  \<^verbatim>\<open>fork\<close> succeed is a parameter. A pipe is named by the place of its command in the tree, as is a process. The descriptors that
  the parent of a pipe closes before it waits are not shown: it executes nothing afterwards. The lemmas show that every program is
  started with exactly the descriptors that the line asks for.
\<close>

subsection \<open>Descriptors\<close>

datatype endpoint = Inherited nat | Console | Opened "u8 list" int | ReadEnd "bool list" | WriteEnd "bool list"

type_synonym fds = "nat \<Rightarrow> endpoint option"

abbreviation (input) NOFILE :: nat where "NOFILE \<equiv> 16"

definition lowest_free :: "fds \<Rightarrow> nat option" where
  "lowest_free fds = find (\<lambda>n. fds n = None) [0..<NOFILE]"

definition fd_alloc :: "endpoint \<Rightarrow> fds \<Rightarrow> (nat \<times> fds) option" where
  "fd_alloc x fds = map_option (\<lambda>n. (n, fds(n := Some x))) (lowest_free fds)"

definition fd_close :: "nat \<Rightarrow> fds \<Rightarrow> fds" where
  "fd_close n fds = fds(n := None)"

text \<open>The shell does not look at the result of \<^verbatim>\<open>dup\<close>.\<close>

definition fd_dup :: "nat \<Rightarrow> fds \<Rightarrow> fds" where
  "fd_dup n fds = (case fds n of None \<Rightarrow> fds | Some x \<Rightarrow> (case fd_alloc x fds of None \<Rightarrow> fds | Some (k, fds') \<Rightarrow> fds'))"

definition fd_pipe :: "bool list \<Rightarrow> fds \<Rightarrow> (nat \<times> nat \<times> fds) option" where
  "fd_pipe path fds =
     (case fd_alloc (ReadEnd path) fds of None \<Rightarrow> None
      | Some (p0, fds0) \<Rightarrow> map_option (\<lambda>(p1, fds1). (p0, p1, fds1)) (fd_alloc (WriteEnd path) fds0))"

subsection \<open>Commands\<close>

record shell_env =
  can_open :: "u8 list \<Rightarrow> int \<Rightarrow> bool"
  can_pipe :: "bool list \<Rightarrow> bool"
  can_fork :: "bool list \<Rightarrow> bool"

text \<open>
  What a process does: \<^verbatim>\<open>exec\<close> of a program with its arguments and descriptors, which only returns when it fails; a child with all that it does; waiting for a
  child; a message on the standard error; the end.
\<close>

datatype act = Exec "u8 list list" fds | Fork "act list" | Wait | Say "u8 list" | Exit int

definition bytes_of :: "string \<Rightarrow> u8 list" where
  "bytes_of str = map of_char str"

definition cstr :: "u8 list \<Rightarrow> nat \<Rightarrow> u8 list" where
  "cstr mem q = takeWhile (\<lambda>b. b \<noteq> 0) (drop q mem)"

definition sh_panic :: "string \<Rightarrow> act list" where
  "sh_panic str = [Say (bytes_of str @ [10]), Exit 1]"

definition fork1 :: "shell_env \<Rightarrow> bool list \<Rightarrow> act list \<Rightarrow> act list \<Rightarrow> act list" where
  "fork1 env path child rest = (if can_fork env path then Fork child # rest else sh_panic ''fork'')"

fun runcmd :: "shell_env \<Rightarrow> u8 list \<Rightarrow> bool list \<Rightarrow> fds \<Rightarrow> cmd \<Rightarrow> act list" where
  "runcmd env mem path fds (EXEC argv) =
     (if argv = [] then [Exit 1]
      else let args = map (\<lambda>(q, eq). cstr mem q) argv in
        [Exec args fds, Say (bytes_of ''exec '' @ hd args @ bytes_of '' failed'' @ [10]), Exit 0])"
| "runcmd env mem path fds (REDIR c file efile mode fd) =
     (let name = cstr mem file; fds = fd_close (nat fd) fds in
      case (if can_open env name mode then fd_alloc (Opened name mode) fds else None) of
        None \<Rightarrow> [Say (bytes_of ''open '' @ name @ bytes_of '' failed'' @ [10]), Exit 1]
      | Some (n, fds) \<Rightarrow> runcmd env mem path fds c)"
| "runcmd env mem path fds (LIST l r) =
     fork1 env (path @ [False]) (runcmd env mem (path @ [False]) fds l) (Wait # runcmd env mem (path @ [True]) fds r)"
| "runcmd env mem path fds (PIPE l r) =
     (case (if can_pipe env path then fd_pipe path fds else None) of
        None \<Rightarrow> sh_panic ''pipe''
      | Some (p0, p1, fds) \<Rightarrow>
          fork1 env (path @ [False])
            (runcmd env mem (path @ [False]) (fd_close p1 (fd_close p0 (fd_dup p1 (fd_close 1 fds)))) l)
            (fork1 env (path @ [True])
              (runcmd env mem (path @ [True]) (fd_close p1 (fd_close p0 (fd_dup p0 (fd_close 0 fds)))) r)
              [Wait, Wait, Exit 0]))"
| "runcmd env mem path fds (BACK c) =
     fork1 env (path @ [False]) (runcmd env mem (path @ [False]) fds c) [Exit 0]"

text \<open>The loop of \<^verbatim>\<open>main\<close> that opens the console until the descriptors 0, 1 and 2 are taken.\<close>

definition free_fds :: "fds \<Rightarrow> nat set" where
  "free_fds fds = {n. n < NOFILE \<and> fds n = None}"

lemma lowest_freeD:
  assumes "lowest_free fds = Some n"
  shows "n < NOFILE" "fds n = None" "\<And>m. m < n \<Longrightarrow> fds m \<noteq> None"
  using assms by (auto simp: lowest_free_def find_Some_iff)

lemma fd_alloc_fewer:
  assumes "fd_alloc x fds = Some (n, fds')"
  shows "card (free_fds fds') < card (free_fds fds)"
proof -
  have l: "lowest_free fds = Some n" "fds' = fds(n := Some x)" using assms unfolding fd_alloc_def by auto
  have "free_fds fds' = free_fds fds - {n}" "n \<in> free_fds fds" using lowest_freeD(1,2) [OF l(1)] unfolding free_fds_def l(2) by auto
  moreover have "finite (free_fds fds)" by (rule finite_subset [of _ "{..<NOFILE}"]) (auto simp: free_fds_def)
  ultimately show ?thesis by (metis card_Diff1_less)
qed

function open_console :: "shell_env \<Rightarrow> fds \<Rightarrow> fds" where
  "open_console env fds =
     (case (if can_open env (bytes_of ''console'') 2 then fd_alloc Console fds else None) of
        None \<Rightarrow> fds
      | Some (n, fds') \<Rightarrow> if n \<ge> 3 then fd_close n fds' else open_console env fds')"
  by pat_completeness auto
termination
  by (relation "measure (\<lambda>(env, fds). card (free_fds fds))") (auto intro: fd_alloc_fewer split: if_splits)

declare open_console.simps [simp del]

subsection \<open>Every process ends\<close>

lemma runcmd_exits: "runcmd env mem path fds c \<noteq> [] \<and> last (runcmd env mem path fds c) \<in> {Exit 0, Exit 1}"
  by (induction env mem path fds c rule: runcmd.induct) (auto simp: fork1_def sh_panic_def Let_def split: option.splits)

subsection \<open>The programs of a command\<close>

text \<open>All programs that a process and its children execute.\<close>

fun programs :: "act list \<Rightarrow> (u8 list list \<times> fds) list" where
  "programs [] = []"
| "programs (Exec args fds # acts) = (args, fds) # programs acts"
| "programs (Fork child # acts) = programs child @ programs acts"
| "programs (Wait # acts) = programs acts"
| "programs (Say str # acts) = programs acts"
| "programs (Exit k # acts) = programs acts"

text \<open>
  What the command means: each program with its standard input and output. A redirection replaces one of them for the whole
  command it is on, a pipe connects the output of its left command to the input of its right command, and all else is passed on.
\<close>

fun plumbing :: "(nat \<times> nat \<Rightarrow> u8 list) \<Rightarrow> bool list \<Rightarrow> endpoint \<times> endpoint \<Rightarrow> cmd \<Rightarrow> (u8 list list \<times> endpoint \<times> endpoint) list" where
  "plumbing wd path io (EXEC argv) = (if argv = [] then [] else [(map wd argv, io)])"
| "plumbing wd path io (REDIR c file efile mode fd) =
     plumbing wd path (if fd = 0 then (Opened (wd (file, efile)) mode, snd io) else (fst io, Opened (wd (file, efile)) mode)) c"
| "plumbing wd path io (LIST l r) = plumbing wd (path @ [False]) io l @ plumbing wd (path @ [True]) io r"
| "plumbing wd path io (PIPE l r) =
     plumbing wd (path @ [False]) (fst io, WriteEnd path) l @ plumbing wd (path @ [True]) (ReadEnd path, snd io) r"
| "plumbing wd path io (BACK c) = plumbing wd (path @ [False]) io c"

definition std_fds :: "endpoint \<Rightarrow> endpoint \<times> endpoint \<Rightarrow> fds" where
  "std_fds err io = [0 \<mapsto> fst io, 1 \<mapsto> snd io, 2 \<mapsto> err]"

lemma lowest_freeI: "n < NOFILE \<Longrightarrow> fds n = None \<Longrightarrow> (\<And>m. m < n \<Longrightarrow> fds m \<noteq> None) \<Longrightarrow> lowest_free fds = Some n"
  unfolding lowest_free_def find_Some_iff by (intro exI [of _ n]) simp

lemma redirected:
  assumes "fd = 0 \<or> fd = 1"
  shows "fd_alloc x (fd_close (nat fd) (std_fds err io)) = Some (nat fd, std_fds err (if fd = 0 then (x, snd io) else (fst io, x)))"
proof -
  have "lowest_free (fd_close (nat fd) (std_fds err io)) = Some (nat fd)"
    using assms by (intro lowest_freeI) (auto simp: fd_close_def std_fds_def)
  then show ?thesis using assms by (auto simp: fd_alloc_def fd_close_def std_fds_def)
qed

lemma piped:
  "fd_pipe path (std_fds err io) = Some (3, 4, (std_fds err io)(3 \<mapsto> ReadEnd path, 4 \<mapsto> WriteEnd path))"
proof -
  have "lowest_free (std_fds err io) = Some 3" "lowest_free ((std_fds err io)(3 \<mapsto> x)) = Some 4" for x
    by (intro lowest_freeI; auto simp: std_fds_def less_Suc_eq numeral_eq_Suc)+
  then show ?thesis by (simp add: fd_pipe_def fd_alloc_def)
qed

lemma pipe_ends:
  fixes err io path
  defines "fds \<equiv> (std_fds err io)(3 \<mapsto> ReadEnd path, 4 \<mapsto> WriteEnd path)"
  shows "fd_close 4 (fd_close 3 (fd_dup 4 (fd_close 1 fds))) = std_fds err (fst io, WriteEnd path)"
    "fd_close 4 (fd_close 3 (fd_dup 3 (fd_close 0 fds))) = std_fds err (ReadEnd path, snd io)"
proof -
  have "lowest_free (fd_close 1 fds) = Some 1" "lowest_free (fd_close 0 fds) = Some 0"
    by (intro lowest_freeI; auto simp: fds_def std_fds_def fd_close_def)+
  then have "fd_dup 4 (fd_close 1 fds) = fds(1 \<mapsto> WriteEnd path)" "fd_dup 3 (fd_close 0 fds) = fds(0 \<mapsto> ReadEnd path)"
    by (simp_all add: fd_dup_def fd_alloc_def fds_def fd_close_def)
  then show "fd_close 4 (fd_close 3 (fd_dup 4 (fd_close 1 fds))) = std_fds err (fst io, WriteEnd path)"
    "fd_close 4 (fd_close 3 (fd_dup 3 (fd_close 0 fds))) = std_fds err (ReadEnd path, snd io)"
    by (auto simp: fun_eq_iff fds_def std_fds_def fd_close_def)
qed

definition willing :: "shell_env \<Rightarrow> bool" where
  "willing env \<longleftrightarrow> (\<forall>name mode. can_open env name mode) \<and> (\<forall>path. can_pipe env path) \<and> (\<forall>path. can_fork env path)"

lemma runcmd_programs:
  assumes "willing env" "cmd_fits c" "\<And>q eq. (q, eq) \<in> set (words c) \<Longrightarrow> cstr mem q = wd (q, eq)"
  shows "programs (runcmd env mem path (std_fds err io) c) = map (\<lambda>(args, io). (args, std_fds err io)) (plumbing wd path io c)"
  using assms(2,3)
proof (induction c arbitrary: path io)
  case (EXEC argv)
  then show ?case by (auto simp: Let_def)
next
  case (REDIR c f ef mode fd)
  have e: "cstr mem f = wd (f, ef)" using REDIR.prems(2) [of f ef] by simp
  show ?case using REDIR assms(1) redirected [of fd _ err io] by (simp add: willing_def Let_def e)
next
  case (PIPE l r)
  then show ?case using assms(1) by (simp add: willing_def fork1_def piped pipe_ends [simplified])
next
  case (LIST l r)
  then show ?case using assms(1) by (simp add: willing_def fork1_def)
next
  case (BACK c)
  then show ?case using assms(1) by (simp add: willing_def fork1_def)
qed

text \<open>
  The shell runs a line as it is written. For every line that the parser accepts, the programs that the child and its descendants execute, in
  order, are those the line names, with the words of the line as arguments; each has as standard input and output what the redirections and pipes
  around it say, the shell's standard error, and no other descriptor: in particular no end of a pipe stays open where it
  is not used.
\<close>

theorem shell_runs_line_as_written:
  assumes "parsecmd buf = Ok (c, mem) s" "0 \<notin> set buf" "willing env"
  shows "programs (runcmd env mem [] (std_fds err io) c)
    = map (\<lambda>(args, io). (args, std_fds err io)) (plumbing (\<lambda>(q, eq). take (eq - q) (drop q buf)) [] io c)"
proof -
  note ok = parsecmd_OkD [OF assms(1)]
  then show ?thesis unfolding ok(2) using assms(2,3) nulterminate_word [OF ok(1) assms(2)]
    by (intro runcmd_programs) (auto simp: cmd_ok_def cstr_def)
qed

theorem shell_runs_line_as_written_witness:
  "programs (runcmd \<lparr>can_open = \<lambda>n m. True, can_pipe = \<lambda>p. True, can_fork = \<lambda>p. True\<rparr>
      [97, 98, 0, 99, 0, 0] [] (std_fds Console (Console, Console))
      (BACK (REDIR (EXEC [(0, 2)]) 3 4 0x601 1)))
   = [([[97, 98]], std_fds Console (Console, Opened [99] 0x601))]"
proof -
  have "0 \<notin> set demo_line" "willing \<lparr>can_open = \<lambda>n m. True, can_pipe = \<lambda>p. True, can_fork = \<lambda>p. True\<rparr>"
    by (simp_all add: demo_line_def willing_def)
  from shell_runs_line_as_written [OF demo_parse this, of Console "(Console, Console)"]
  show ?thesis by (simp add: demo_line_def)
qed

subsection \<open>The descriptors of the shell\<close>

lemma open_console_spec:
  assumes "\<And>m. can_open env (bytes_of ''console'') m"
  shows "(\<forall>n. fds n \<noteq> None \<longrightarrow> open_console env fds n = fds n) \<and> (\<forall>n < 3. open_console env fds n \<noteq> None)
    \<and> (\<forall>n \<ge> 3. open_console env fds n = fds n)"
  using assms
proof (induction env fds rule: open_console.induct)
  case (1 env fds)
  show ?case
  proof (cases "lowest_free fds")
    case None
    then have "\<forall>n < NOFILE. fds n \<noteq> None" by (auto simp: lowest_free_def find_None_iff)
    then show ?thesis using None 1(2) by (subst (1 2 3) open_console.simps) (simp add: fd_alloc_def)
  next
    case (Some n)
    note l = lowest_freeD [OF Some]
    show ?thesis
    proof (cases "n \<ge> 3")
      case True
      then have "open_console env fds = fds" using Some 1(2) l(2) by (subst open_console.simps) (auto simp: fd_alloc_def fd_close_def)
      then show ?thesis using l(3) True by simp
    next
      case False
      have e: "open_console env fds = open_console env (fds(n := Some Console))"
        using Some False 1(2) by (subst open_console.simps) (simp add: fd_alloc_def)
      have IH: "(\<forall>k. (fds(n := Some Console)) k \<noteq> None \<longrightarrow> open_console env (fds(n := Some Console)) k = (fds(n := Some Console)) k)
        \<and> (\<forall>k < 3. open_console env (fds(n := Some Console)) k \<noteq> None) \<and> (\<forall>k \<ge> 3. open_console env (fds(n := Some Console)) k = (fds(n := Some Console)) k)"
        by (rule 1(1) [of "(n, fds(n := Some Console))" n]) (use 1(2) Some False in \<open>simp_all add: fd_alloc_def fun_upd_def\<close>)
      show ?thesis unfolding e
      proof (intro conjI allI impI)
        fix k
        show "open_console env (fds(n := Some Console)) k = fds k" if "fds k \<noteq> None" using IH that l(2) by (cases "k = n") auto
        show "open_console env (fds(n := Some Console)) k \<noteq> None" if "k < 3" using IH that by blast
        show "open_console env (fds(n := Some Console)) k = fds k" if "3 \<le> k" using IH that False by (cases "k = n") auto
      qed
    qed
  qed
qed

end
