(* ===== verification/Umalloc.thy ===== *)
theory Umalloc
  imports Prelude "HOL-Library.Word"
begin

section \<open>The memory allocator of user programs (user/umalloc.c)\<close>

text \<open>
  \<^verbatim>\<open>malloc\<close> and \<^verbatim>\<open>free\<close> after Kernighan and Ritchie: the free blocks are a circular list in the order of their addresses,
  which begins at the static header \<^verbatim>\<open>base\<close>. An address is counted in headers of 16 bytes, \<^verbatim>\<open>p + 1\<close> is the header after \<open>p\<close>, and
  0 is the null pointer. The memory is what the headers hold; what a program writes to its blocks does not touch them. The
  break of the process grows by \<^verbatim>\<open>sbrk\<close> up to the limit at which the kernel refuses. The searches run around
  the list, so they are partial functions; the lemmas show that they end, and that blocks in use never overlap each other or the free blocks.
\<close>

subsection \<open>Definitions\<close>

record umem =
  h_ptr :: "nat \<Rightarrow> nat"
  h_size :: "nat \<Rightarrow> nat"
  base :: nat
  freep :: nat
  brk :: nat
  brk_max :: nat

definition set_ptr :: "nat \<Rightarrow> nat \<Rightarrow> umem \<Rightarrow> umem" where
  "set_ptr p q h = h\<lparr>h_ptr := (h_ptr h)(p := q)\<rparr>"

definition set_size :: "nat \<Rightarrow> nat \<Rightarrow> umem \<Rightarrow> umem" where
  "set_size p n h = h\<lparr>h_size := (h_size h)(p := n)\<rparr>"

text \<open>The loop of \<^verbatim>\<open>free\<close>: the free block after which \<open>bp\<close> belongs.\<close>

definition free_here :: "umem \<Rightarrow> nat \<Rightarrow> nat \<Rightarrow> bool" where
  "free_here h bp p \<longleftrightarrow> bp > p \<and> bp < h_ptr h p \<or> p \<ge> h_ptr h p \<and> (bp > p \<or> bp < h_ptr h p)"

partial_function (option) free_find :: "umem \<Rightarrow> nat \<Rightarrow> nat \<Rightarrow> nat option" where
  "free_find h bp p = (if free_here h bp p then Some p else free_find h bp (h_ptr h p))"

definition free_join :: "nat \<Rightarrow> nat \<Rightarrow> umem \<Rightarrow> umem" where
  "free_join bp p h =
     (let h1 = (if bp + h_size h bp = h_ptr h p
                then set_ptr bp (h_ptr h (h_ptr h p)) (set_size bp (h_size h bp + h_size h (h_ptr h p)) h)
                else set_ptr bp (h_ptr h p) h);
          h2 = (if p + h_size h1 p = bp
                then set_ptr p (h_ptr h1 bp) (set_size p (h_size h1 p + h_size h1 bp) h1)
                else set_ptr p bp h1)
      in h2\<lparr>freep := p\<rparr>)"

definition free :: "nat \<Rightarrow> umem \<Rightarrow> umem option" where
  "free ap h = (let bp = ap - 1 in map_option (\<lambda>p. free_join bp p h) (free_find h bp (freep h)))"

text \<open>
  The system call \<^verbatim>\<open>sbrk\<close> as a program sees it, for a process below 2 GiB, where \<^verbatim>\<open>sys_sbrk\<close> returns the old size whole: the break
  moves, or the call fails. Its kernel side is \<^verbatim>\<open>sys_sbrk\<close> and \<^verbatim>\<open>growproc\<close>. The limit is a field, so that the
  lemmas hold wherever the kernel runs out of memory. \<^verbatim>\<open>morecore\<close> returns 0 for a null pointer.
\<close>

definition sbrk :: "int \<Rightarrow> umem \<Rightarrow> (nat \<times> umem) option" where
  "sbrk n h =
     (if n \<ge> 0 then if brk h + nat n div 16 \<le> brk_max h then Some (brk h, h\<lparr>brk := brk h + nat n div 16\<rparr>) else None
      else Some (brk h, if int (16 * brk h) + n < 0 then h else h\<lparr>brk := brk h - nat (- n) div 16\<rparr>))"

text \<open>The size in bytes is a \<^verbatim>\<open>uint64\<close> where it is computed and an \<^verbatim>\<open>int\<close> where it is passed on.\<close>

definition morecore :: "nat \<Rightarrow> umem \<Rightarrow> (nat \<times> umem) option" where
  "morecore nu h =
     (let nu = (if nu < 4096 then 4096 else nu) in
      case sbrk (sint (word_of_nat (nu * 16) :: 32 word)) h of None \<Rightarrow> Some (0, h)
      | Some (hp, h) \<Rightarrow> map_option (\<lambda>h. (freep h, h)) (free (hp + 1) (set_size hp nu h)))"

definition take_block :: "nat \<Rightarrow> nat \<Rightarrow> nat \<Rightarrow> umem \<Rightarrow> nat \<times> umem" where
  "take_block nunits prevp p h =
     (let (q, h) =
        (if h_size h p = nunits then (p, set_ptr prevp (h_ptr h p) h)
         else let q = p + (h_size h p - nunits) in (q, set_size q nunits (set_size p (h_size h p - nunits) h)))
      in (q + 1, h\<lparr>freep := prevp\<rparr>))"

partial_function (option) malloc_loop :: "nat \<Rightarrow> nat \<Rightarrow> nat \<Rightarrow> umem \<Rightarrow> (nat \<times> umem) option" where
  "malloc_loop nunits prevp p h =
     (if h_size h p \<ge> nunits then Some (take_block nunits prevp p h)
      else if p = freep h then
        (case morecore nunits h of
           None \<Rightarrow> None
         | Some r \<Rightarrow> if fst r = 0 then Some (0, snd r) else malloc_loop nunits (fst r) (h_ptr (snd r) (fst r)) (snd r))
      else malloc_loop nunits p (h_ptr h p) h)"

definition nunits :: "nat \<Rightarrow> nat" where
  "nunits nbytes = (nbytes + 16 - 1) div 16 + 1"

definition malloc :: "nat \<Rightarrow> umem \<Rightarrow> (nat \<times> umem) option" where
  "malloc nbytes h =
     (let h = (if freep h = 0 then (set_size (base h) 0 (set_ptr (base h) (base h) h))\<lparr>freep := base h\<rparr> else h)
      in malloc_loop (nunits nbytes) (freep h) (h_ptr h (freep h)) h)"

subsection \<open>The free list\<close>

fun links :: "umem \<Rightarrow> nat list \<Rightarrow> bool" where
  "links h (x # y # zs) \<longleftrightarrow> h_ptr h x = y \<and> links h (y # zs)"
| "links h zs \<longleftrightarrow> True"

lemma links_append: "links h (xs @ y # zs) \<longleftrightarrow> links h (xs @ [y]) \<and> links h (y # zs)"
proof (induction xs rule: induct_list012)
  case (3 x1 x2 xs)
  then show ?case by simp
qed (cases zs, simp_all)+

definition gap :: "umem \<Rightarrow> nat \<Rightarrow> nat \<Rightarrow> bool" where
  "gap h x y \<longleftrightarrow> x + h_size h x < y"

definition free_ring :: "umem \<Rightarrow> nat list \<Rightarrow> bool" where
  "free_ring h L \<longleftrightarrow> L \<noteq> [] \<and> hd L = base h \<and> h_size h (base h) = 0 \<and> (\<forall>x \<in> set L. x \<noteq> base h \<longrightarrow> 0 < h_size h x)
     \<and> sorted_wrt (gap h) L \<and> links h (L @ [base h])"

definition block :: "umem \<Rightarrow> nat \<Rightarrow> nat set" where
  "block h a = {a ..< a + h_size h a}"

definition units :: "umem \<Rightarrow> nat list \<Rightarrow> nat set" where
  "units h L = (\<Union>x \<in> set L. block h x)"

lemma units_append [simp]: "units h (xs @ ys) = units h xs \<union> units h ys" "units h (x # ys) = block h x \<union> units h ys" "units h [] = {}"
  by (auto simp: units_def)

lemma units_cong: "(\<And>x. x \<in> set L \<Longrightarrow> h_size h' x = h_size h x) \<Longrightarrow> units h' L = units h L"
  by (simp add: units_def block_def)

lemma ivl_join: "(a :: nat) \<le> b \<Longrightarrow> b \<le> c \<Longrightarrow> {a..<b} \<union> {b..<c} = {a..<c}"
  by auto

text \<open>The list \<open>L\<close> of the free blocks and the set \<open>A\<close> of the blocks in use share the memory from \<^verbatim>\<open>base\<close> to the break.\<close>

definition heap_ok :: "umem \<Rightarrow> nat list \<Rightarrow> nat set \<Rightarrow> bool" where
  "heap_ok h L A \<longleftrightarrow> free_ring h L \<and> freep h \<in> set L \<and> 0 < base h \<and> base h < brk h \<and> units h L \<subseteq> {..<brk h}
     \<and> (\<forall>a \<in> A. base h < a \<and> 0 < h_size h a \<and> block h a \<subseteq> {..<brk h} \<and> block h a \<inter> units h L = {})
     \<and> (\<forall>a \<in> A. \<forall>b \<in> A. a \<noteq> b \<longrightarrow> block h a \<inter> block h b = {})"

lemma links_Cons: "links h (x # zs) \<longleftrightarrow> zs = [] \<or> h_ptr h x = hd zs \<and> links h zs"
  by (cases zs) simp_all

lemma links_cong: "(\<And>x. x \<in> set (butlast zs) \<Longrightarrow> h_ptr h' x = h_ptr h x) \<Longrightarrow> links h' zs = links h zs"
  by (induction h zs rule: links.induct) auto

lemma sorted_gap_less: "sorted_wrt (gap h) L \<Longrightarrow> sorted_wrt (<) L"
  by (rule sorted_wrt_mono_rel [of _ "gap h"]) (auto simp: gap_def)

lemma free_ringD:
  assumes "free_ring h L"
  shows "L \<noteq> []" "hd L = base h" "h_size h (base h) = 0" "\<And>x. x \<in> set L \<Longrightarrow> x \<noteq> base h \<Longrightarrow> 0 < h_size h x" "sorted_wrt (gap h) L"
    "links h (L @ [base h])" "distinct L" "\<And>x. x \<in> set L \<Longrightarrow> base h \<le> x"
proof -
  show "L \<noteq> []" "hd L = base h" "h_size h (base h) = 0" "\<And>x. x \<in> set L \<Longrightarrow> x \<noteq> base h \<Longrightarrow> 0 < h_size h x" "sorted_wrt (gap h) L"
    "links h (L @ [base h])" using assms by (auto simp: free_ring_def)
  have s: "sorted_wrt (<) L" using assms sorted_gap_less unfolding free_ring_def by blast
  then show "distinct L" by (simp add: strict_sorted_iff)
  show "base h \<le> x" if "x \<in> set L" for x using s that assms by (cases L) (auto simp: free_ring_def)
qed

text \<open>The list read from any of its blocks on, once around.\<close>

lemma links_rotate:
  assumes "free_ring h (as @ f # bs)"
  shows "links h (f # bs @ as @ [f])"
proof (cases as)
  case Nil
  then show ?thesis using free_ringD(2,6) [OF assms] by simp
next
  case (Cons b as')
  then have b: "b = base h" using free_ringD(2) [OF assms] by simp
  have "links h (as @ f # (bs @ [base h]))" using free_ringD(6) [OF assms] by simp
  then have "links h (as @ [f])" "links h (f # bs @ [base h])" using links_append by blast+
  then show ?thesis using links_append [of h "f # bs" "base h" "as' @ [f]"] by (simp add: Cons b)
qed

lemma free_find_walk:
  "links h (ws @ [p]) \<Longrightarrow> (\<And>w. w \<in> set ws \<Longrightarrow> \<not> free_here h bp w) \<Longrightarrow> free_here h bp p \<Longrightarrow> free_find h bp (hd (ws @ [p])) = Some p"
proof (induction ws)
  case Nil
  then show ?case by (simp add: free_find.simps)
next
  case (Cons w ws)
  then have "h_ptr h w = hd (ws @ [p])" by (cases ws) simp_all
  then show ?case using Cons by (subst free_find.simps) (simp add: links_Cons)
qed

subsection \<open>Where a block belongs\<close>

lemma insertion_point:
  assumes "free_ring h L" "base h < bp" "bp \<notin> set L"
  shows "\<exists>as p bs. L = as @ p # bs \<and> p < bp \<and> (\<forall>y \<in> set bs. bp < y)"
proof -
  let ?l = "takeWhile (\<lambda>x. x < bp) L" and ?r = "dropWhile (\<lambda>x. x < bp) L"
  note f = free_ringD [OF assms(1)]
  have "?l \<noteq> []" using f(1,2) assms(2) by (cases L) auto
  then have l: "?l = butlast ?l @ [last ?l]" by simp
  have lb: "last ?l < bp" using \<open>?l \<noteq> []\<close> by (metis last_in_set set_takeWhileD)
  have "bp < y" if y: "y \<in> set ?r" for y
  proof -
    have "?r \<noteq> []"
    proof
      assume "?r = []"
      with y show False by (simp only: list.set empty_iff)
    qed
    then have "\<not> hd ?r < bp" using hd_dropWhile by blast
    moreover have "hd ?r \<in> set L" using \<open>?r \<noteq> []\<close> by (metis hd_in_set set_dropWhileD)
    ultimately have h: "bp < hd ?r" using assms(3) by (metis linorder_neqE_nat)
    have "sorted_wrt (<) (?l @ ?r)" using sorted_gap_less [OF f(5)] by simp
    then have "sorted_wrt (<) ?r" by (simp only: sorted_wrt_append)
    then have "hd ?r \<le> y" using y by (cases ?r) auto
    then show ?thesis using h by simp
  qed
  moreover have "L = butlast ?l @ last ?l # ?r" using l by (metis append.assoc append_Cons append_Nil takeWhile_dropWhile_id)
  ultimately show ?thesis using lb by blast
qed

lemma free_here_iff:
  assumes "free_ring h (as @ p # bs)" "p < bp" "\<forall>y \<in> set bs. bp < y" "base h < bp" "x \<in> set (as @ p # bs)"
  shows "free_here h bp x \<longleftrightarrow> x = p"
proof -
  note f = free_ringD [OF assms(1)]
  have s: "sorted_wrt (<) (as @ p # bs)" using sorted_gap_less [OF f(5)] .
  obtain us vs where x: "as @ p # bs = us @ x # vs" using assms(5) by (meson split_list)
  have "links h (us @ x # (vs @ [base h]))" using f(6) x by simp
  then have "links h (x # vs @ [base h])" using links_append by blast
  then have nx: "h_ptr h x = hd (vs @ [base h])" by (simp add: links_Cons)
  have ss: "\<forall>y \<in> set vs. x < y" using s unfolding x by (simp add: sorted_wrt_append)
  have h: "vs \<noteq> [] \<Longrightarrow> hd vs \<in> set vs" by simp
  consider "x \<in> set as" | "x = p" | "x \<in> set bs" using assms(5) by auto
  then show ?thesis
  proof cases
    case 1
    then have "x < p" using s by (auto simp: sorted_wrt_append)
    have "p \<in> set vs"
    proof -
      have "p \<notin> set us"
      proof
        assume "p \<in> set us"
        then have "p < x" using s unfolding x by (auto simp: sorted_wrt_append)
        then show False using \<open>x < p\<close> by simp
      qed
      moreover have "p \<in> set (us @ x # vs)" by (simp flip: x)
      ultimately show ?thesis using \<open>x < p\<close> by auto
    qed
    then have v: "vs \<noteq> []" by auto
    then have "h_ptr h x = hd vs" "x < hd vs" using nx ss by simp_all
    moreover have "hd vs \<le> p"
    proof -
      have "sorted_wrt (<) vs" using s unfolding x by (simp add: sorted_wrt_append)
      then show ?thesis using \<open>p \<in> set vs\<close> by (cases vs) auto
    qed
    ultimately show ?thesis using \<open>x < p\<close> assms(2) unfolding free_here_def by linarith
  next
    case 2
    have d: "p \<notin> set as" "p \<notin> set bs" using f(7) by auto
    have "us = as \<and> vs = bs" using append_Cons_eq_iff [OF d, of us vs] x 2 by simp
    then have "h_ptr h p = hd (bs @ [base h])" using nx 2 by simp
    then show ?thesis using 2 assms(2,3) f(8) [of p] by (cases bs) (simp_all add: free_here_def)
  next
    case 3
    then have "bp < x" using assms(3) by blast
    moreover have "h_ptr h x = base h \<or> x < h_ptr h x" using nx ss by (cases vs) auto
    ultimately show ?thesis using assms(2,4) unfolding free_here_def by linarith
  qed
qed

subsection \<open>Freeing a block\<close>

lemma free_find_place:
  assumes "free_ring h (as @ p # bs)" "p < bp" "\<forall>y \<in> set bs. bp < y" "base h < bp" "f \<in> set (as @ p # bs)"
  shows "free_find h bp f = Some p"
proof -
  obtain us vs where L: "as @ p # bs = us @ f # vs" using assms(5) by (meson split_list)
  have "p \<in> set (f # vs @ us)" using L by (metis Un_iff list.set_intros(1) set_ConsD set_append append_Cons in_set_conv_decomp)
  then obtain ws rest where w: "f # vs @ us = ws @ p # rest" by (meson split_list)
  have "links h ((f # vs @ us) @ [f])" using links_rotate [of h us f vs] assms(1) L by simp
  then have l: "links h (ws @ [p])" unfolding w using links_append [of h ws p "rest @ [f]"] by simp
  have "distinct (us @ f # vs)" using free_ringD(7) [OF assms(1)] L by simp
  then have d: "distinct (ws @ p # rest)" unfolding w [symmetric] by auto
  have "\<not> free_here h bp x" if "x \<in> set ws" for x
  proof -
    have "x \<in> set (f # vs @ us)" unfolding w using that by simp
    then have "x \<in> set (as @ p # bs)" unfolding L by auto
    then show ?thesis using free_here_iff [OF assms(1-4)] that d by auto
  qed
  moreover have "free_here h bp p" using free_here_iff [OF assms(1-4), of p] by simp
  moreover have "hd (ws @ [p]) = f" using w by (cases ws) auto
  ultimately show ?thesis using free_find_walk [OF l] by metis
qed

text \<open>What is needed of the block that is freed: it lies between its neighbours.\<close>

definition fits_between :: "umem \<Rightarrow> nat list \<Rightarrow> nat \<Rightarrow> nat \<Rightarrow> nat list \<Rightarrow> bool" where
  "fits_between h as p bp bs \<longleftrightarrow> free_ring h (as @ p # bs) \<and> base h < bp \<and> 0 < h_size h bp \<and> p < bp \<and> p + h_size h p \<le> bp
     \<and> (\<forall>y \<in> set bs. bp + h_size h bp \<le> y)"

definition freed_list :: "umem \<Rightarrow> nat list \<Rightarrow> nat \<Rightarrow> nat \<Rightarrow> nat list \<Rightarrow> nat list" where
  "freed_list h as p bp bs = as @ [p] @ (if p + h_size h p = bp then [] else [bp])
     @ (if bs \<noteq> [] \<and> bp + h_size h bp = hd bs then tl bs else bs)"

lemma free_join_fields:
  assumes "fits_between h as p bp bs"
  defines "nx \<equiv> hd (bs @ [base h])" and "m1 \<equiv> bs \<noteq> [] \<and> bp + h_size h bp = hd bs" and "m2 \<equiv> p + h_size h p = bp"
  defines "sz \<equiv> h_size h bp + (if m1 then h_size h (hd bs) else 0)" and "nx' \<equiv> if m1 then hd (tl bs @ [base h]) else nx"
  shows "h_size (free_join bp p h) = (if m2 then (h_size h)(bp := sz, p := h_size h p + sz) else (h_size h)(bp := sz))"
    "h_ptr (free_join bp p h) = (if m2 then (h_ptr h)(bp := nx', p := nx') else (h_ptr h)(bp := nx', p := bp))"
    "base (free_join bp p h) = base h" "brk (free_join bp p h) = brk h" "brk_max (free_join bp p h) = brk_max h" "freep (free_join bp p h) = p"
proof -
  have fl: "free_ring h (as @ p # bs)" and pb: "p < bp" and bb: "base h < bp" using assms(1) by (auto simp: fits_between_def)
  note f = free_ringD [OF fl]
  have "links h (as @ p # (bs @ [base h]))" using f(6) by simp
  then have lp: "links h (p # bs @ [base h])" using links_append by blast
  then have np: "h_ptr h p = nx" by (simp add: links_Cons nx_def)
  have m1: "bp + h_size h bp = h_ptr h p \<longleftrightarrow> m1" using np bb by (cases bs) (auto simp: nx_def m1_def)
  have ny: "h_ptr h (hd bs) = hd (tl bs @ [base h])" if "bs \<noteq> []" using lp that by (cases bs) (auto simp: links_Cons)
  define h1 where "h1 = (if m1 then set_ptr bp (h_ptr h (h_ptr h p)) (set_size bp (h_size h bp + h_size h (h_ptr h p)) h) else set_ptr bp (h_ptr h p) h)"
  have h1: "h_size h1 = (h_size h)(bp := sz)" "h_ptr h1 = (h_ptr h)(bp := nx')"
  proof -
    have "m1 \<Longrightarrow> nx = hd bs" by (simp add: m1_def nx_def)
    moreover have "m1 \<Longrightarrow> h_ptr h (hd bs) = hd (tl bs @ [base h])" using ny by (simp add: m1_def)
    ultimately show "h_size h1 = (h_size h)(bp := sz)" "h_ptr h1 = (h_ptr h)(bp := nx')"
      by (simp_all add: h1_def set_ptr_def set_size_def np sz_def nx'_def)
  qed
  have j: "free_join bp p h = (if m2 then set_ptr p (h_ptr h1 bp) (set_size p (h_size h1 p + h_size h1 bp) h1) else set_ptr p bp h1)\<lparr>freep := p\<rparr>"
    unfolding free_join_def Let_def m1 h1_def [symmetric] using h1(1) pb by (simp add: m2_def)
  show "h_size (free_join bp p h) = (if m2 then (h_size h)(bp := sz, p := h_size h p + sz) else (h_size h)(bp := sz))"
    unfolding j using h1(1) pb by (cases m2) (simp_all add: set_ptr_def set_size_def)
  show "h_ptr (free_join bp p h) = (if m2 then (h_ptr h)(bp := nx', p := nx') else (h_ptr h)(bp := nx', p := bp))"
    unfolding j using h1(2) by (cases m2) (simp_all add: set_ptr_def set_size_def)
  show "base (free_join bp p h) = base h" "brk (free_join bp p h) = brk h" "brk_max (free_join bp p h) = brk_max h" "freep (free_join bp p h) = p"
    by (simp_all add: free_join_def Let_def set_ptr_def set_size_def)
qed

lemma free_join_list:
  assumes "fits_between h as p bp bs"
  shows "free_ring (free_join bp p h) (freed_list h as p bp bs)"
proof -
  define m1 where "m1 \<longleftrightarrow> bs \<noteq> [] \<and> bp + h_size h bp = hd bs"
  define m2 where "m2 \<longleftrightarrow> p + h_size h p = bp"
  define rest where "rest = (if m1 then tl bs else bs)"
  define sz where "sz = h_size h bp + (if m1 then h_size h (hd bs) else 0)"
  let ?h = "free_join bp p h"
  have fl: "free_ring h (as @ p # bs)" and a: "base h < bp" "0 < h_size h bp" "p < bp" "p + h_size h p \<le> bp" "\<And>y. y \<in> set bs \<Longrightarrow> bp + h_size h bp \<le> y"
    using assms by (auto simp: fits_between_def)
  note f = free_ringD [OF fl]
  have nx: "(if m1 then hd (tl bs @ [base h]) else hd (bs @ [base h])) = hd (rest @ [base h])" by (simp add: rest_def)
  note fields = free_join_fields [OF assms, folded m1_def m2_def, folded sz_def, unfolded nx]
  have L: "freed_list h as p bp bs = as @ p # (if m2 then [] else [bp]) @ rest" by (simp add: freed_list_def m1_def m2_def rest_def)
  have rb: "set rest \<subseteq> set bs" by (cases bs) (auto simp: rest_def)
  have s: "\<And>x y. x \<in> set as \<Longrightarrow> y \<in> set (p # bs) \<Longrightarrow> gap h x y" "sorted_wrt (gap h) as" "sorted_wrt (gap h) bs" "\<And>y. y \<in> set bs \<Longrightarrow> gap h p y"
    using f(5) by (auto simp: sorted_wrt_append)
  have sr: "sorted_wrt (gap h) rest" using s(3) by (cases bs) (auto simp: rest_def)
  have K: "bp + sz < y" if y: "y \<in> set rest" for y
  proof (cases bs)
    case Nil
    then show ?thesis using y rb by simp
  next
    case (Cons z bs')
    show ?thesis
    proof (cases m1)
      case True
      then have "gap h z y" using y s(3) by (auto simp: rest_def Cons)
      then show ?thesis using True by (simp add: m1_def sz_def Cons gap_def)
    next
      case False
      then have "bp + h_size h bp < z" using a(5) [of z] by (simp add: m1_def Cons)
      moreover have "z \<le> y" using y s(3) False by (auto simp: rest_def Cons gap_def)
      ultimately show ?thesis using False by (simp add: sz_def)
    qed
  qed
  have ne: "x \<noteq> p \<and> x \<noteq> bp" if "x \<in> set as \<or> x \<in> set rest" for x
    using that s(1) [of x p] K [of x] rb s(4) [of x] a(3) by (fastforce simp: gap_def)
  have sz_h: "h_size ?h x = h_size h x" if "x \<in> set as \<or> x \<in> set rest" for x using ne [OF that] by (simp add: fields)
  have szp: "h_size ?h p = (if m2 then h_size h p + sz else h_size h p)" "\<not> m2 \<Longrightarrow> h_size ?h bp = sz" using a(3) by (simp_all add: fields)
  have basep: "p = base h \<Longrightarrow> \<not> m2" using f(3) a(1) by (auto simp: m2_def)
  have sorted: "sorted_wrt (gap ?h) (as @ p # (if m2 then [] else [bp]) @ rest)"
  proof -
    have "gap ?h x y" if "x \<in> set as" "y \<in> set (p # bp # rest)" for x y
      using s(1) [OF that(1), of p] s(1) [OF that(1), of y] that rb a(3) sz_h [of x] by (auto simp: gap_def)
    moreover have "gap ?h p y" if "y \<in> set rest" for y using K [OF that] a(4) szp by (auto simp: gap_def m2_def sz_def split: if_splits)
    moreover have "\<not> m2 \<Longrightarrow> gap ?h p bp" using a(4) szp by (auto simp: gap_def m2_def)
    moreover have "\<not> m2 \<Longrightarrow> gap ?h bp y" if "y \<in> set rest" for y using K [OF that] szp by (simp add: gap_def)
    moreover have "sorted_wrt (gap ?h) as" "sorted_wrt (gap ?h) rest"
      using s(2) sr sz_h by (auto simp: gap_def intro: sorted_wrt_mono_rel [rotated])
    ultimately show ?thesis by (auto simp: sorted_wrt_append)
  qed
  have "links h (as @ p # (bs @ [base h]))" using f(6) by simp
  then have l: "links h (as @ [p])" "links h (p # bs @ [base h])" using links_append by blast+
  have lr: "links h (rest @ [base h])" using l(2) by (cases bs) (auto simp: rest_def links_Cons)
  have la: "links ?h (as @ [p])" "links ?h (rest @ [base h])"
    using l(1) lr ne by (subst links_cong [of _ ?h h]; auto simp: fields butlast_append)+
  have lp: "links ?h (p # (if m2 then [] else [bp]) @ rest @ [base h])"
    using la(2) a(3) by (cases m2) (simp_all add: links_Cons fields)
  have hd: "hd (as @ p # (if m2 then [] else [bp]) @ rest) = base h" using f(2) by (cases as) simp_all
  have pos: "0 < h_size ?h x" if x: "x \<in> set (as @ p # (if m2 then [] else [bp]) @ rest)" "x \<noteq> base h" for x
  proof -
    have "x \<in> set as \<or> x \<in> set rest \<or> x = p \<or> \<not> m2 \<and> x = bp" using x(1) by (auto split: if_splits)
    moreover have "0 < h_size h y" if "y \<in> set as \<or> y \<in> set rest \<or> y = p" "y \<noteq> base h" for y using f(4) [of y] that rb by auto
    ultimately show ?thesis using sz_h [of x] szp x(2) a(2) by (auto simp: sz_def)
  qed
  have "links ?h (as @ p # ((if m2 then [] else [bp]) @ rest @ [base h]))" using la(1) lp links_append by blast
  moreover have "h_size ?h (base h) = 0" using f(3) a(1) basep by (auto simp: fields)
  ultimately show ?thesis unfolding free_ring_def L using hd pos sorted by (simp add: fields(3))
qed

text \<open>The free memory afterwards is the free memory before and the block; neighbours are joined.\<close>

lemma free_join_units:
  assumes "fits_between h as p bp bs"
  shows "units (free_join bp p h) (freed_list h as p bp bs) = units h (as @ p # bs) \<union> block h bp"
    and "\<exists>x \<in> set (freed_list h as p bp bs). h_size (free_join bp p h) x \<ge> h_size h bp"
    and "x \<noteq> p \<Longrightarrow> x \<noteq> bp \<Longrightarrow> h_size (free_join bp p h) x = h_size h x"
proof -
  define m1 where "m1 \<longleftrightarrow> bs \<noteq> [] \<and> bp + h_size h bp = hd bs"
  define m2 where "m2 \<longleftrightarrow> p + h_size h p = bp"
  define rest where "rest = (if m1 then tl bs else bs)"
  define sz where "sz = h_size h bp + (if m1 then h_size h (hd bs) else 0)"
  let ?h = "free_join bp p h"
  have fl: "free_ring h (as @ p # bs)" and a: "p < bp" "\<And>y. y \<in> set bs \<Longrightarrow> bp + h_size h bp \<le> y" "0 < h_size h bp"
    using assms by (auto simp: fits_between_def)
  have d: "distinct (as @ p # bs)" using free_ringD(7) [OF fl] .
  note fields = free_join_fields(1) [OF assms, folded m1_def m2_def, folded sz_def]
  have L: "freed_list h as p bp bs = as @ p # (if m2 then [] else [bp]) @ rest" by (simp add: freed_list_def m1_def m2_def rest_def)
  have s: "\<And>x. x \<in> set as \<Longrightarrow> x < p" "\<And>y. y \<in> set bs \<Longrightarrow> p < y"
    using sorted_gap_less [OF free_ringD(5) [OF fl]] by (auto simp: sorted_wrt_append)
  have "h_size ?h x = h_size h x" if "x \<in> set as" for x using s(1) [OF that] a(1) by (simp add: fields)
  moreover have "h_size ?h x = h_size h x" if "x \<in> set rest" for x
  proof -
    have "x \<in> set bs" using that by (cases bs) (auto simp: rest_def split: if_splits)
    then show ?thesis using s(2) [of x] a(2) [of x] a(3) by (simp add: fields)
  qed
  ultimately have u: "units ?h as = units h as" "units ?h rest = units h rest" using units_cong [of as ?h h] units_cong [of rest ?h h] by simp_all
  have r: "units h bs = (if m1 then block h (hd bs) else {}) \<union> units h rest" by (cases bs) (auto simp: rest_def m1_def)
  have b: "{bp..<bp + sz} = block h bp \<union> (if m1 then block h (hd bs) else {})"
  proof (cases m1)
    case True
    then have "hd bs = bp + h_size h bp" by (simp add: m1_def)
    then show ?thesis using True by (simp add: sz_def block_def ivl_join add.assoc)
  qed (simp add: sz_def block_def)
  have bp: "block ?h p = {p..<p + (if m2 then h_size h p + sz else h_size h p)}" using a(1) by (simp add: fields block_def)
  have "block ?h p \<union> units ?h (if m2 then [] else [bp]) = block h p \<union> {bp..<bp + sz}"
  proof (cases m2)
    case True
    then have "bp = p + h_size h p" by (simp add: m2_def)
    then show ?thesis using True ivl_join [of p "p + h_size h p" "p + h_size h p + sz"] unfolding bp by (simp add: block_def add.assoc)
  qed (use a(1) in \<open>simp add: fields block_def\<close>)
  then show "units ?h (freed_list h as p bp bs) = units h (as @ p # bs) \<union> block h bp"
    unfolding L units_append u r using b by auto
  show "\<exists>x \<in> set (freed_list h as p bp bs). h_size ?h x \<ge> h_size h bp"
    unfolding L using a(1) by (intro bexI [of _ "if m2 then p else bp"]) (auto simp: fields sz_def)
  show "x \<noteq> p \<Longrightarrow> x \<noteq> bp \<Longrightarrow> h_size ?h x = h_size h x" by (simp add: fields)
qed

lemma heap_okD:
  assumes "heap_ok h L A"
  shows "free_ring h L" "freep h \<in> set L" "units h L \<subseteq> {..<brk h}" "0 < base h" "base h < brk h"
    "\<And>a. a \<in> A \<Longrightarrow> base h < a" "\<And>a. a \<in> A \<Longrightarrow> 0 < h_size h a" "\<And>a. a \<in> A \<Longrightarrow> block h a \<subseteq> {..<brk h}"
    "\<And>a. a \<in> A \<Longrightarrow> block h a \<inter> units h L = {}" "\<And>a b. a \<in> A \<Longrightarrow> b \<in> A \<Longrightarrow> a \<noteq> b \<Longrightarrow> block h a \<inter> block h b = {}"
  using assms by (auto simp: heap_ok_def)

lemma block_self: "0 < h_size h a \<Longrightarrow> a \<in> block h a"
  by (auto simp: block_def)

lemma block_units: "x \<in> set L \<Longrightarrow> block h x \<subseteq> units h L"
  by (auto simp: units_def)

lemma heap_ok_insertI:
  assumes "free_ring h L" "freep h \<in> set L" "0 < base h" "base h < brk h" "units h L \<union> block h r \<subseteq> {..<brk h}" "block h r \<inter> units h L = {}"
    "base h < r" "0 < h_size h r" "\<And>a. a \<in> A \<Longrightarrow> base h < a" "\<And>a. a \<in> A \<Longrightarrow> 0 < h_size h a" "\<And>a. a \<in> A \<Longrightarrow> block h a \<subseteq> {..<brk h}"
    "\<And>a. a \<in> A \<Longrightarrow> block h a \<inter> (units h L \<union> block h r) = {}" "\<And>a b. a \<in> A \<Longrightarrow> b \<in> A \<Longrightarrow> a \<noteq> b \<Longrightarrow> block h a \<inter> block h b = {}"
  shows "heap_ok h L (insert r A)"
  unfolding heap_ok_def
proof (intro conjI ballI impI)
  show "block h a \<inter> units h L = {}" if "a \<in> insert r A" for a using that assms(6,12) by blast
  show "block h a \<subseteq> {..<brk h}" if "a \<in> insert r A" for a using that assms(5,11) by blast
  show "block h a \<inter> block h b = {}" if "a \<in> insert r A" "b \<in> insert r A" "a \<noteq> b" for a b using that assms(12,13) by blast
qed (use assms(1-10) in auto)

lemma heap_ok_less:
  assumes "heap_ok h L A"
  shows "a \<in> A \<Longrightarrow> a \<notin> set L" "x \<in> set L \<Longrightarrow> x < brk h" "a \<in> A \<Longrightarrow> a < brk h"
proof -
  note H = heap_okD [OF assms]
  note f = free_ringD [OF H(1)]
  show "a \<notin> set L" if "a \<in> A"
    using H(6,7,9) [OF that] block_units [of a L h] block_self [of h a] by blast
  show "x < brk h" if "x \<in> set L"
    using f(4) [OF that] H(3,5) block_units [OF that, of h] block_self [of h x] by (cases "x = base h") auto
  show "a < brk h" if "a \<in> A" using H(7,8) [OF that] block_self [of h a] by blast
qed

lemma free_spec:
  assumes "heap_ok h L A" "a \<in> A"
  shows "\<exists>h' L'. free (a + 1) h = Some h' \<and> heap_ok h' L' (A - {a}) \<and> units h' L' = units h L \<union> block h a
    \<and> (\<forall>b \<in> A - {a}. h_size h' b = h_size h b) \<and> base h' = base h \<and> brk h' = brk h \<and> brk_max h' = brk_max h
    \<and> (\<exists>x \<in> set L'. h_size h' x \<ge> h_size h a)"
proof -
  note H = heap_okD [OF assms(1)]
  note f = free_ringD [OF H(1)]
  have aL: "a \<notin> set L" using heap_ok_less(1) [OF assms] .
  obtain as p bs where L: "L = as @ p # bs" and p: "p < a" "\<forall>y \<in> set bs. a < y"
    using insertion_point [OF H(1) H(6) [OF assms(2)] aL] by blast
  have dj: "block h a \<inter> block h x = {}" if "x \<in> set L" for x using H(9) [OF assms(2)] block_units [OF that] by blast
  have "p + h_size h p \<le> a"
  proof -
    have "a \<notin> block h p" using dj [of p] L H(7) [OF assms(2)] block_self [of h a] by auto
    then show ?thesis using p(1) by (simp add: block_def)
  qed
  moreover have "a + h_size h a \<le> y" if "y \<in> set bs" for y
  proof -
    have "a < y" "y \<in> set L" using p(2) that L by auto
    then have "0 < h_size h y" using f(4) [of y] H(6) [OF assms(2)] by auto
    then have "y \<notin> block h a" using dj [OF \<open>y \<in> set L\<close>] block_self [of h y] by blast
    then show ?thesis using \<open>a < y\<close> by (simp add: block_def)
  qed
  ultimately have fb: "fits_between h as p a bs"
    using H(1,6,7) assms(2) p(1) L by (simp add: fits_between_def)
  define h' where "h' = free_join a p h"
  define L' where "L' = freed_list h as p a bs"
  have fr: "free (a + 1) h = Some h'"
    using free_find_place [of h as p bs a "freep h"] H(1,2,6) assms(2) p L by (simp add: free_def h'_def)
  note J = free_join_fields(3-6) [OF fb, folded h'_def] free_join_units(1,2) [OF fb, folded h'_def L'_def L] free_join_list [OF fb, folded h'_def L'_def]
  have sz: "h_size h' b = h_size h b" if "b \<in> A - {a}" for b
    using free_join_units(3) [OF fb, of b] heap_ok_less(1) [OF assms(1), of b] that L by (auto simp: h'_def)
  then have bl: "block h' b = block h b" if "b \<in> A - {a}" for b using that by (simp add: block_def)
  have "heap_ok h' L' (A - {a})"
    unfolding heap_ok_def
  proof (intro conjI ballI impI)
    show "units h' L' \<subseteq> {..<brk h'}" using H(3,8) assms(2) by (simp add: J)
    show "freep h' \<in> set L'" by (simp add: J L'_def freed_list_def)
    show "block h' b \<inter> units h' L' = {}" if "b \<in> A - {a}" for b using bl [OF that] H(9) [of b] H(10) [of b a] assms(2) that by (auto simp: J)
    show "block h' b \<inter> block h' c = {}" if "b \<in> A - {a}" "c \<in> A - {a}" "b \<noteq> c" for b c using bl that H(10) by simp
  qed (use J H bl sz in simp_all)
  then show ?thesis using fr J sz by blast
qed

subsection \<open>Growing the heap\<close>

lemma sbrk_bytes: "n < 2 ^ 27 \<Longrightarrow> sint (word_of_nat (n * 16) :: 32 word) = int (n * 16)"
  using sint_sbintrunc' [where 'a = 32, of "int (n * 16)"] by (simp add: signed_take_bit_int_eq_self)

lemma morecore_spec:
  assumes "heap_ok h L A" "n < 2 ^ 27"
  defines "nu \<equiv> max n 4096"
  shows "if brk h + nu \<le> brk_max h
    then \<exists>h' L'. morecore n h = Some (freep h', h') \<and> heap_ok h' L' A \<and> (\<forall>b \<in> A. h_size h' b = h_size h b)
      \<and> base h' = base h \<and> brk h' = brk h + nu \<and> units h' L' = units h L \<union> {brk h ..< brk h + nu} \<and> (\<exists>x \<in> set L'. h_size h' x \<ge> n)
    else morecore n h = Some (0, h)"
proof -
  have nu: "(if n < 4096 then 4096 else n) = nu" "nu < 2 ^ 27" "0 < nu" "n \<le> nu" using assms(2) by (auto simp: nu_def)
  note H = heap_okD [OF assms(1)]
  define h1 where "h1 = set_size (brk h) nu (h\<lparr>brk := brk h + nu\<rparr>)"
  have h1: "h_size h1 = (h_size h)(brk h := nu)" "h_ptr h1 = h_ptr h" "base h1 = base h" "freep h1 = freep h" "brk h1 = brk h + nu" "brk_max h1 = brk_max h"
    by (simp_all add: h1_def set_size_def)
  note less = heap_ok_less [OF assms(1)]
  have ne: "x \<noteq> brk h" if "x \<in> set L \<or> x \<in> A" for x using less that by blast
  have bl: "block h1 x = block h x" if "x \<in> set L \<or> x \<in> A" for x using ne [OF that] by (simp add: block_def h1)
  have bb: "block h1 (brk h) = {brk h ..< brk h + nu}" by (simp add: block_def h1)
  have u: "units h1 L = units h L" using ne by (intro units_cong) (simp add: h1)
  have fl: "free_ring h1 L"
  proof -
    have "sorted_wrt (gap h1) L" using free_ringD(5) [OF H(1)] ne by (auto simp: gap_def h1 intro: sorted_wrt_mono_rel [rotated])
    moreover have "links h1 (L @ [base h])" using free_ringD(6) [OF H(1)] links_cong [of "L @ [base h]" h1 h] by (simp add: h1)
    ultimately show ?thesis using H(1,5) ne by (auto simp: free_ring_def h1)
  qed
  have out: "{brk h ..< brk h + nu} \<inter> S = {}" if "S \<subseteq> {..<brk h}" for S using that by auto
  have AA: "block h1 a \<inter> block h1 b = {}" if "a \<in> A" "b \<in> A" "a \<noteq> b" for a b using H(10) [OF that] bl that by simp
  have new: "block h1 (brk h) \<inter> block h1 b = {}" if "b \<in> A" for b using out [OF H(8) [OF that]] bl that bb by simp
  have "heap_ok h1 L (insert (brk h) A)"
  proof (rule heap_ok_insertI)
    show "units h1 L \<union> block h1 (brk h) \<subseteq> {..<brk h1}" using H(3) unfolding u bb h1(5) by (auto intro: less_le_trans)
    show "block h1 (brk h) \<inter> units h1 L = {}" using out [OF H(3)] unfolding u bb .
    show "block h1 a \<subseteq> {..<brk h1}" if "a \<in> A" for a using H(8) [OF that] bl that unfolding h1(5) by (auto intro: less_le_trans)
    show "block h1 a \<inter> (units h1 L \<union> block h1 (brk h)) = {}" if "a \<in> A" for a using H(9) [OF that] new [OF that] bl that unfolding u by blast
    show "0 < h_size h1 a" if "a \<in> A" for a using H(7) [OF that] ne [of a] that by (simp add: h1)
  qed (use H(2,4,5,6) fl nu(3) AA in \<open>simp_all add: h1\<close>)
  from free_spec [OF this, of "brk h"] obtain h' L' where r: "free (brk h + 1) h1 = Some h'" "heap_ok h' L' (insert (brk h) A - {brk h})"
    "units h' L' = units h1 L \<union> block h1 (brk h)" "\<forall>b \<in> insert (brk h) A - {brk h}. h_size h' b = h_size h1 b" "base h' = base h1" "brk h' = brk h1"
    "\<exists>x \<in> set L'. h_size h' x \<ge> h_size h1 (brk h)" by blast
  have A: "insert (brk h) A - {brk h} = A" using ne by auto
  have sb: "sbrk (int (nu * 16)) h = (if brk h + nu \<le> brk_max h then Some (brk h, h\<lparr>brk := brk h + nu\<rparr>) else None)"
    unfolding sbrk_def nat_int by simp
  have "morecore n h = (if brk h + nu \<le> brk_max h then Some (freep h', h') else Some (0, h))"
    unfolding morecore_def Let_def nu(1) sbrk_bytes [OF nu(2)] sb using r(1) by (simp add: h1_def)
  moreover have "h_size h' b = h_size h b" if "b \<in> A" for b using r(4) ne that by (simp add: h1)
  moreover have "\<exists>x \<in> set L'. h_size h' x \<ge> n" using r(7) nu(4) le_trans unfolding h1 by (metis fun_upd_same)
  ultimately show ?thesis using r(2,3,5,6) unfolding A u bb h1 by (cases "brk h + nu \<le> brk_max h") auto
qed

subsection \<open>Allocating a block\<close>

lemma gap_disjoint: "gap h x y \<Longrightarrow> block h x \<inter> block h y = {}" "gap h x y \<Longrightarrow> block h y \<inter> block h x = {}"
  by (auto simp: gap_def block_def)

lemma take_exact_spec:
  assumes "heap_ok h (us @ q # x # vs) A" "0 < h_size h x"
  defines "h' \<equiv> (set_ptr q (h_ptr h x) h)\<lparr>freep := q\<rparr>"
  shows "heap_ok h' (us @ q # vs) (insert x A)" "units h (us @ q # x # vs) = units h' (us @ q # vs) \<union> block h' x" "x \<notin> A"
proof -
  let ?L = "us @ q # x # vs" and ?L' = "us @ q # vs"
  note H = heap_okD [OF assms(1)]
  note f = free_ringD [OF H(1)]
  have h': "h_size h' = h_size h" "h_ptr h' = (h_ptr h)(q := h_ptr h x)" "base h' = base h" "freep h' = q" "brk h' = brk h"
    by (simp_all add: h'_def set_ptr_def)
  have bl: "block h' = block h" "units h' = units h" by (auto simp: block_def units_def h')
  have "links h (us @ q # (x # vs @ [base h]))" using f(6) by simp
  then have l: "links h (us @ [q])" "links h (q # x # vs @ [base h])" using links_append by blast+
  then have lv: "h_ptr h x = hd (vs @ [base h])" "links h (vs @ [base h])" by (simp_all add: links_Cons)
  have d: "q \<notin> set us" "q \<notin> set vs" using f(7) by auto
  have "links h' (us @ [q])" "links h' (vs @ [base h])" using l(1) lv(2) d
    by (subst links_cong [of _ h' h]; auto simp: h' butlast_append)+
  then have "links h' (us @ q # (vs @ [base h]))" using links_append [of h' us q "vs @ [base h]"] lv(1) by (simp add: links_Cons h')
  moreover have g: "gap h' = gap h" by (intro ext) (simp add: gap_def h')
  ultimately have fl: "free_ring h' ?L'" using H(1) unfolding free_ring_def g by (cases us) (auto simp: h' sorted_wrt_append)
  show xA: "x \<notin> A" using heap_ok_less(1) [OF assms(1), of x] by auto
  show U: "units h ?L = units h' ?L' \<union> block h' x" by (auto simp: bl)
  have ux: "block h x \<inter> units h ?L' = {}"
  proof -
    have "block h x \<inter> block h y = {}" if "y \<in> set ?L'" for y
      using f(5) that gap_disjoint(1) [of h x y] gap_disjoint(2) [of h y x] by (auto simp: sorted_wrt_append)
    then show ?thesis unfolding units_def by blast
  qed
  have ab: "block h a \<inter> block h x = {}" "block h a \<inter> units h ?L' = {}" if "a \<in> A" for a using H(9) [OF that] by auto
  have xb: "base h < x"
    using f(5) f(8) [of q] by (auto simp: gap_def sorted_wrt_append)
  have xk: "block h x \<subseteq> {..<brk h}" "units h ?L' \<subseteq> {..<brk h}" using H(3) by auto
  show "heap_ok h' ?L' (insert x A)"
  proof (rule heap_ok_insertI)
    show "block h' a \<inter> (units h' ?L' \<union> block h' x) = {}" if "a \<in> A" for a using ab [OF that] unfolding bl by blast
    show "units h' ?L' \<union> block h' x \<subseteq> {..<brk h'}" using xk unfolding bl h' by blast
    show "block h' x \<inter> units h' ?L' = {}" using ux unfolding bl .
  qed (use fl H xb assms(2) in \<open>simp_all only: bl h'\<close>, simp)
qed

lemma take_split_spec:
  assumes "heap_ok h L A" "q \<in> set L" "x \<in> set L" "0 < n" "n < h_size h x"
  defines "r \<equiv> x + (h_size h x - n)"
  defines "h' \<equiv> (set_size r n (set_size x (h_size h x - n) h))\<lparr>freep := q\<rparr>"
  shows "heap_ok h' L (insert r A)" "units h L = units h' L \<union> block h' r" "r \<notin> A" "a \<in> A \<Longrightarrow> h_size h' a = h_size h a"
proof -
  note H = heap_okD [OF assms(1)]
  note f = free_ringD [OF H(1)]
  have rx: "x < r" "r + n = x + h_size h x" using assms(4,5) by (auto simp: r_def)
  have h': "h_size h' = (h_size h)(x := h_size h x - n, r := n)" "h_ptr h' = h_ptr h" "base h' = base h" "freep h' = q" "brk h' = brk h"
    by (simp_all add: h'_def set_size_def)
  obtain us vs where L: "L = us @ x # vs" using assms(3) by (meson split_list)
  have s: "\<And>y. y \<in> set us \<Longrightarrow> gap h y x" "\<And>y. y \<in> set vs \<Longrightarrow> gap h x y" using f(5) unfolding L by (auto simp: sorted_wrt_append)
  have rin: "r \<in> block h x" using rx assms(4) by (auto simp: block_def)
  have rL: "y \<noteq> r" if "y \<in> set L" for y using that s rx unfolding L by (fastforce simp: gap_def)
  have other: "y \<noteq> x" if "y \<in> set us \<or> y \<in> set vs" for y using that s by (auto simp: gap_def)
  have ou: "units h' us = units h us" "units h' vs = units h vs" using rL other by (auto intro!: units_cong simp: h' L)
  have bx: "block h' x \<union> block h' r = block h x" "block h' x \<inter> block h' r = {}" using rx by (auto simp: block_def h' r_def)
  show U: "units h L = units h' L \<union> block h' r" unfolding L using bx(1) by (auto simp: ou)
  show rA: "r \<notin> A"
  proof
    assume "r \<in> A"
    then have "r \<in> block h r" "block h r \<inter> units h L = {}" using H(7,9) block_self by blast+
    then show False using rin block_units [OF assms(3), of h] by blast
  qed
  have sA: "h_size h' a = h_size h a" if "a \<in> A" for a using that rA heap_ok_less(1) [OF assms(1) that] assms(3) by (auto simp: h')
  then show "a \<in> A \<Longrightarrow> h_size h' a = h_size h a" .
  have bA: "block h' a = block h a" if "a \<in> A" for a using sA [OF that] by (simp add: block_def)
  have xb: "x \<noteq> base h" using f(3) assms(5) by auto
  have le: "h_size h' y \<le> h_size h y" if "y \<in> set L" for y using rL [OF that] by (simp add: h')
  have fl: "free_ring h' L"
    unfolding free_ring_def
  proof (intro conjI ballI impI)
    show "sorted_wrt (gap h') L" by (rule sorted_wrt_mono_rel [OF _ f(5)]) (use le in \<open>fastforce simp: gap_def\<close>)
    show "links h' (L @ [base h'])" using f(6) links_cong [of "L @ [base h]" h' h] by (simp add: h')
    show "h_size h' (base h') = 0" using f(3) xb rL [of "base h"] f(1,2) by (metis h'(1,3) fun_upd_other hd_in_set)
    show "0 < h_size h' y" if "y \<in> set L" "y \<noteq> base h'" for y using f(4) [of y] that rL [of y] assms(5) by (simp add: h')
  qed (use f in \<open>simp_all add: h'\<close>)
  have rv: "block h' r \<inter> units h' L = {}"
  proof -
    have "block h x \<inter> block h y = {}" if "y \<in> set us \<or> y \<in> set vs" for y using that s gap_disjoint by blast
    then have "block h x \<inter> units h us = {}" "block h x \<inter> units h vs = {}" unfolding units_def by blast+
    then show ?thesis unfolding L using bx by (auto simp: ou)
  qed
  have ar: "block h' a \<inter> (units h' L \<union> block h' r) = {}" if "a \<in> A" for a using H(9) [OF that] bA [OF that] U by simp
  show "heap_ok h' L (insert r A)"
  proof (rule heap_ok_insertI)
    show "block h' a \<inter> block h' b = {}" if "a \<in> A" "b \<in> A" "a \<noteq> b" for a b using that H(10) bA by simp
    show "block h' a \<subseteq> {..<brk h'}" if "a \<in> A" for a using H(8) [OF that] bA [OF that] by (simp add: h'(5))
    show "0 < h_size h' a" if "a \<in> A" for a using H(7) [OF that] sA [OF that] by simp
    show "units h' L \<union> block h' r \<subseteq> {..<brk h'}" using U H(3) by (simp add: h'(5))
    show "base h' < r" using rx(1) f(8) [OF assms(3)] by (simp add: h')
    show "0 < h_size h' r" using assms(4) by (simp add: h')
  qed (use fl H assms(2) rv ar in \<open>simp_all add: h'(3-5)\<close>)
qed

text \<open>A request of \<open>n\<close> units granted: \<open>r\<close> is a block of that size apart from all others, which keep theirs; no memory is lost.\<close>

definition granted :: "nat \<Rightarrow> umem \<Rightarrow> nat list \<Rightarrow> nat set \<Rightarrow> nat \<Rightarrow> umem \<Rightarrow> nat list \<Rightarrow> bool" where
  "granted n h L A r h' L' \<longleftrightarrow> heap_ok h' L' (insert r A) \<and> r \<notin> A \<and> h_size h' r = n \<and> (\<forall>a \<in> A. h_size h' a = h_size h a)
     \<and> brk h \<le> brk h' \<and> units h' L' \<union> block h' r = units h L \<union> {brk h ..< brk h'}"

lemma take_block_spec:
  assumes "heap_ok h L A" "q \<in> set L" "h_ptr h q = x" "x \<in> set L" "0 < n" "n \<le> h_size h x"
  shows "\<exists>r h' L'. take_block n q x h = (r + 1, h') \<and> granted n h L A r h' L'"
proof (cases "h_size h x = n")
  case True
  note f = free_ringD [OF heap_okD(1) [OF assms(1)]]
  obtain us vs where L: "L = us @ q # vs" using assms(2) by (meson split_list)
  have "links h (us @ q # (vs @ [base h]))" using f(6) L by simp
  then have "links h (q # vs @ [base h])" using links_append by blast
  then have "hd (vs @ [base h]) = x" using assms(3) by (simp add: links_Cons)
  then have "vs = x # tl vs" using f(3) True assms(5) by (cases vs) auto
  then have L: "L = us @ q # x # tl vs" using L by simp
  have "0 < h_size h x" using True assms(5) by simp
  from take_exact_spec [OF assms(1) [unfolded L] this] have "granted n h L A x ((set_ptr q (h_ptr h x) h)\<lparr>freep := q\<rparr>) (us @ q # tl vs)"
    using True L by (simp add: granted_def set_ptr_def)
  then show ?thesis using True by (auto simp: take_block_def Let_def)
next
  case False
  then have "n < h_size h x" using assms(6) by simp
  from take_split_spec [OF assms(1,2,4,5) this] False show ?thesis
    by (auto simp: granted_def take_block_def Let_def set_size_def)
qed

lemma malloc_walk:
  "links h (q # ws @ [p]) \<Longrightarrow> (\<And>w. w \<in> set ws \<Longrightarrow> \<not> n \<le> h_size h w \<and> w \<noteq> freep h) \<Longrightarrow>
     malloc_loop n q (hd (ws @ [p])) h = malloc_loop n (last (q # ws)) p h"
proof (induction ws arbitrary: q)
  case (Cons w ws)
  then have "h_ptr h w = hd (ws @ [p])" by (cases ws) simp_all
  then show ?case using Cons.prems Cons.IH [of w] by (subst malloc_loop.simps) (simp add: links_Cons)
qed simp

lemma ring_walk:
  assumes "heap_ok h L A"
  obtains R where "set R = set L" "links h (freep h # R)" "last R = freep h" "R \<noteq> []" "distinct R"
proof -
  note H = heap_okD [OF assms]
  obtain as bs where L: "L = as @ freep h # bs" using H(2) by (meson split_list)
  show thesis
    by (rule that [of "bs @ as @ [freep h]"]) (use links_rotate [of h as "freep h" bs] free_ringD(7) [OF H(1)] H(1) L in auto)
qed

lemma malloc_loop_found:
  assumes "heap_ok h L A" "x \<in> set L" "n \<le> h_size h x" "0 < n"
  shows "\<exists>r h' L'. malloc_loop n (freep h) (h_ptr h (freep h)) h = Some (r + 1, h') \<and> granted n h L A r h' L'"
proof -
  obtain R where R: "set R = set L" "links h (freep h # R)" "last R = freep h" "R \<noteq> []" "distinct R" using ring_walk [OF assms(1)] .
  obtain ws y rest where w: "R = ws @ y # rest" "n \<le> h_size h y" "\<forall>z \<in> set ws. \<not> n \<le> h_size h z"
    using split_list_first_prop [of R "\<lambda>z. n \<le> h_size h z"] assms(2,3) R(1) by blast
  let ?q = "last (freep h # ws)"
  have "freep h \<in> set (y # rest)" using R(3) unfolding w(1) by (metis last_appendR last_in_set list.discI)
  then have fw: "freep h \<notin> set ws" using R(5) unfolding w(1) by auto
  have "links h ((freep h # ws) @ y # rest)" using R(2) w(1) by simp
  then have l: "links h ((freep h # ws) @ [y])" using links_append by blast
  then have "links h (butlast (freep h # ws) @ ?q # [y])" by (metis append.assoc append_Cons append_Nil append_butlast_last_id list.discI)
  then have "links h (?q # [y])" using links_append by blast
  then have qy: "h_ptr h ?q = y" by simp
  have "set ws \<subseteq> set L" "y \<in> set L" using R(1) w(1) by auto
  moreover have "?q \<in> set (freep h # ws)" by (rule last_in_set) simp
  ultimately have yL: "y \<in> set L" "?q \<in> set L" using heap_okD(2) [OF assms(1)] by auto
  have "h_ptr h (freep h) = hd (ws @ [y])" using l by (simp add: links_Cons)
  moreover have "malloc_loop n (freep h) (hd (ws @ [y])) h = malloc_loop n ?q y h"
    using l w(3) fw by (intro malloc_walk) auto
  ultimately have "malloc_loop n (freep h) (h_ptr h (freep h)) h = malloc_loop n ?q y h" by simp
  also have "\<dots> = Some (take_block n ?q y h)" by (subst malloc_loop.simps) (simp add: w(2))
  finally show ?thesis using take_block_spec [OF assms(1) yL(2) qy yL(1) assms(4) w(2)] by auto
qed

lemma malloc_loop_grow:
  assumes "heap_ok h L A" "\<And>x. x \<in> set L \<Longrightarrow> h_size h x < n"
  shows "malloc_loop n (freep h) (h_ptr h (freep h)) h = (case morecore n h of None \<Rightarrow> None
    | Some r \<Rightarrow> if fst r = 0 then Some (0, snd r) else malloc_loop n (fst r) (h_ptr (snd r) (fst r)) (snd r))"
proof -
  obtain R where R: "set R = set L" "links h (freep h # R)" "last R = freep h" "R \<noteq> []" "distinct R" using ring_walk [OF assms(1)] .
  let ?ws = "butlast R"
  have w: "R = ?ws @ [freep h]" using R(3,4) by (metis append_butlast_last_id)
  have "freep h \<notin> set ?ws" using R(5) w by (metis distinct_append disjoint_insert(2) list.set(2))
  then have "malloc_loop n (freep h) (hd (?ws @ [freep h])) h = malloc_loop n (last (freep h # ?ws)) (freep h) h"
    using R(1,2) w assms(2) by (intro malloc_walk) (auto simp: not_le dest: in_set_butlastD)
  moreover have "h_ptr h (freep h) = hd (?ws @ [freep h])" using R(2) w R(4) by (simp add: links_Cons)
  ultimately have "malloc_loop n (freep h) (h_ptr h (freep h)) h = malloc_loop n (last (freep h # ?ws)) (freep h) h" by simp
  also have "\<dots> = (case morecore n h of None \<Rightarrow> None
    | Some r \<Rightarrow> if fst r = 0 then Some (0, snd r) else malloc_loop n (fst r) (h_ptr (snd r) (fst r)) (snd r))"
    using assms(2) [OF heap_okD(2) [OF assms(1)]] by (subst malloc_loop.simps) (simp add: not_le)
  finally show ?thesis .
qed

lemma malloc_loop_spec:
  assumes "heap_ok h L A" "0 < n" "n < 2 ^ 27"
  shows "if (\<forall>x \<in> set L. h_size h x < n) \<and> brk_max h < brk h + max n 4096
    then malloc_loop n (freep h) (h_ptr h (freep h)) h = Some (0, h)
    else \<exists>r h' L'. malloc_loop n (freep h) (h_ptr h (freep h)) h = Some (r + 1, h') \<and> granted n h L A r h' L'"
proof (cases "\<forall>x \<in> set L. h_size h x < n")
  case False
  then show ?thesis using malloc_loop_found [OF assms(1) _ _ assms(2)] by (auto simp: not_less)
next
  case True
  note g = malloc_loop_grow [OF assms(1), of n, OF True [rule_format]]
  note M = morecore_spec [OF assms(1,3)]
  show ?thesis
  proof (cases "brk h + max n 4096 \<le> brk_max h")
    case False
    then have "morecore n h = Some (0, h)" using M by simp
    then show ?thesis using True False g by simp
  next
    case fits: True
    then obtain h1 L1 x where m: "morecore n h = Some (freep h1, h1)" "heap_ok h1 L1 A" "\<forall>b \<in> A. h_size h1 b = h_size h b" "base h1 = base h"
      "brk h1 = brk h + max n 4096" "units h1 L1 = units h L \<union> {brk h ..< brk h + max n 4096}" "x \<in> set L1" "h_size h1 x \<ge> n" using M by auto
    have "0 < freep h1"
      using heap_okD(1,2,4) [OF m(2)] free_ringD(8) [of h1 L1 "freep h1"] by simp
    then have e: "malloc_loop n (freep h) (h_ptr h (freep h)) h = malloc_loop n (freep h1) (h_ptr h1 (freep h1)) h1" using g m(1) by simp
    obtain r h' L' where r: "malloc_loop n (freep h1) (h_ptr h1 (freep h1)) h1 = Some (r + 1, h')" "granted n h1 L1 A r h' L'"
      using malloc_loop_found [OF m(2,7,8) assms(2)] by blast
    have "granted n h L A r h' L'"
      using r(2) m(3,5,6) ivl_join [of "brk h" "brk h1" "brk h'"] unfolding granted_def by (simp add: Un_assoc)
    then show ?thesis using e r(1) fits by auto
  qed
qed

subsection \<open>What malloc and free promise\<close>

text \<open>Before the first call \<^verbatim>\<open>freep\<close> is null and the static header is zero.\<close>

definition heap_state :: "umem \<Rightarrow> nat list \<Rightarrow> nat set \<Rightarrow> bool" where
  "heap_state h L A \<longleftrightarrow>
     (if freep h = 0 then L = [base h] \<and> A = {} \<and> h_size h (base h) = 0 \<and> 0 < base h \<and> base h < brk h else heap_ok h L A)"

definition malloc_start :: "umem \<Rightarrow> umem" where
  "malloc_start h = (if freep h = 0 then (set_size (base h) 0 (set_ptr (base h) (base h) h))\<lparr>freep := base h\<rparr> else h)"

lemma malloc_start_spec:
  assumes "heap_state h L A"
  shows "heap_ok (malloc_start h) L A" "h_size (malloc_start h) = h_size h" "brk (malloc_start h) = brk h" "brk_max (malloc_start h) = brk_max h"
proof -
  show s: "h_size (malloc_start h) = h_size h" "brk (malloc_start h) = brk h" "brk_max (malloc_start h) = brk_max h"
    using assms by (auto simp: malloc_start_def heap_state_def set_size_def set_ptr_def)
  show "heap_ok (malloc_start h) L A"
  proof (cases "freep h = 0")
    case True
    then show ?thesis using assms
      by (auto simp: malloc_start_def heap_state_def heap_ok_def free_ring_def set_size_def set_ptr_def block_def)
  qed (use assms in \<open>simp add: malloc_start_def heap_state_def\<close>)
qed

lemma granted_start: "heap_state h L A \<Longrightarrow> granted n (malloc_start h) L A r h' L' \<Longrightarrow> granted n h L A r h' L'"
  using malloc_start_spec [of h L A] units_cong [of L "malloc_start h" h] by (simp add: granted_def)

lemma malloc_eq: "malloc nbytes h = malloc_loop (nunits nbytes) (freep (malloc_start h)) (h_ptr (malloc_start h) (freep (malloc_start h))) (malloc_start h)"
  by (simp add: malloc_def malloc_start_def Let_def)

text \<open>
  C39: \<^verbatim>\<open>malloc\<close> returns for every request of fewer than \<open>2 ^ 31 - 31\<close> bytes. It returns null exactly when no free block is large enough and the kernel
  refuses to grow the process, and then no block changes. Otherwise it returns a block that holds the bytes asked for, that
  overlaps no other block in use and no free block; the blocks in use keep their sizes, and all memory of the
  heap, what the kernel added included, is either free or in use.
\<close>

theorem malloc_serves_request:
  assumes "heap_state h L A" "nbytes < 2 ^ 31 - 31"
  shows "if (\<forall>x \<in> set L. h_size h x < nunits nbytes) \<and> brk_max h < brk h + max (nunits nbytes) 4096
    then \<exists>h'. malloc nbytes h = Some (0, h') \<and> heap_ok h' L A \<and> h_size h' = h_size h \<and> brk h' = brk h
    else \<exists>r h' L'. malloc nbytes h = Some (r + 1, h') \<and> granted (nunits nbytes) h L A r h' L' \<and> nbytes \<le> 16 * (h_size h' r - 1)"
proof -
  have n: "0 < nunits nbytes" "nunits nbytes < 2 ^ 27" "nbytes \<le> 16 * (nunits nbytes - 1)" using assms(2) by (auto simp: nunits_def)
  note s = malloc_start_spec [OF assms(1)]
  note loop = malloc_loop_spec [OF s(1) n(1,2), folded malloc_eq, unfolded s(2-4)]
  show ?thesis
  proof (cases "(\<forall>x \<in> set L. h_size h x < nunits nbytes) \<and> brk_max h < brk h + max (nunits nbytes) 4096")
    case True
    then show ?thesis using loop s by simp
  next
    case False
    then obtain r h' L' where "malloc nbytes h = Some (r + 1, h')" "granted (nunits nbytes) (malloc_start h) L A r h' L'" using loop by (simp only: if_False) blast
    moreover then have "granted (nunits nbytes) h L A r h' L'" using granted_start [OF assms(1)] by blast
    moreover then have "nbytes \<le> 16 * (h_size h' r - 1)" using n(3) by (simp add: granted_def)
    ultimately show ?thesis using False by (simp only: if_False) blast
  qed
qed

definition demo_heap :: umem where
  "demo_heap = \<lparr>h_ptr = (\<lambda>p. 0), h_size = (\<lambda>p. 0), base = 1, freep = 0, brk = 2, brk_max = 10000\<rparr>"

theorem malloc_serves_request_witness:
  "\<exists>r h' L'. malloc 100 demo_heap = Some (r + 1, h') \<and> granted 8 demo_heap [1] {} r h' L' \<and> 100 \<le> 16 * (h_size h' r - 1)"
  using malloc_serves_request [of demo_heap "[1]" "{}" 100] by (simp add: demo_heap_def heap_state_def nunits_def)

text \<open>
  C40: \<^verbatim>\<open>free\<close> of a block in use returns. The memory free afterwards is the memory free before and the block, in a list that is again
  ordered by address with no two adjacent blocks left apart; the other blocks in use keep their sizes and stay apart from it.
\<close>

theorem free_returns_block:
  assumes "heap_ok h L A" "a \<in> A"
  shows "\<exists>h' L'. free (a + 1) h = Some h' \<and> heap_ok h' L' (A - {a}) \<and> units h' L' = units h L \<union> block h a
    \<and> (\<forall>b \<in> A - {a}. h_size h' b = h_size h b) \<and> brk h' = brk h"
  using free_spec [OF assms] by blast

definition demo_used :: umem where
  "demo_used = \<lparr>h_ptr = (\<lambda>p. if p = 1 then 10 else 1), h_size = (\<lambda>p. if p = 10 then 5 else if p = 15 then 3 else if p = 18 then 2 else 0),
     base = 1, freep = 10, brk = 20, brk_max = 20\<rparr>"

theorem free_returns_block_witness:
  "\<exists>h' L'. free 16 demo_used = Some h' \<and> heap_ok h' L' {18} \<and> units h' L' = {10..<18} \<and> h_size h' 18 = 2"
proof -
  have ok: "heap_ok demo_used [1, 10] {15, 18}"
    by (auto simp: demo_used_def heap_ok_def free_ring_def gap_def block_def)
  have d: "{15, 18} - {15 :: nat} = {18}" by auto
  have "units demo_used [1, 10] \<union> block demo_used 15 = {10..<18}" by (auto simp: demo_used_def block_def)
  moreover have "h_size demo_used 18 = 2" by (simp add: demo_used_def)
  ultimately show ?thesis using free_returns_block [OF ok, of 15] unfolding d by auto
qed

end
