(* ===== verification/Spec2Isabelle.thy ===== *)
theory Spec2Isabelle
  imports Boot Files Reap Grep ShRun Umalloc
begin

text \<open>
  A verification library for hexv6, a small Unix-like kernel for RISC-V derived from xv6 with four scheduling policies
  (\<^verbatim>\<open>src/kernel\<close>), and for some of its user programs (\<^verbatim>\<open>src/user\<close>).

  \<^bold>\<open>The program.\<close> The kernel is one C program that all CPUs run. At the bottom are the spin locks, the page
  allocator and the page tables; on them the process table with \<^verbatim>\<open>sleep\<close>, \<^verbatim>\<open>wakeup\<close>, \<^verbatim>\<open>wait\<close> and the
  schedulers; on these the disk driver, the buffer cache, the write-ahead log and the file system, and beside them pipes, the
  serial port and the console. System calls and traps enter it from above. User programs see only the system calls.

  \<^bold>\<open>How the C code is modelled.\<close> A kernel routine is a function from the state to an outcome (theory
  \<open>Prelude\<close>): \<open>Ret\<close> with a value and the new state, or \<open>Stop\<close>, for a panic, for undefined
  behaviour such as a null dereference, for spinning on a taken lock, and for giving the CPU away. The definitions follow the statements of the source in
  their order, early returns and error paths included. The state is a record that grows with the components: \<open>mach\<close> (memory, CPUs,
  locks), \<open>kmem\<close> (free list), \<open>vm\<close>, \<open>ptab\<close> (process table), \<open>kern\<close> (all the rest).
  Memory is a function from 64-bit addresses to bytes; free pages, page tables, trapframes and user pages live in it as in
  the source. The other structures of the kernel are records in tables, and a pointer to one is its index. Machine
  integers are words of their width wherever the code can wrap around.

  \<^bold>\<open>Giving the CPU away.\<close> A routine that reaches \<^verbatim>\<open>swtch\<close> stops with \<open>Switch\<close>, in the state it leaves behind. What it does when it is
  switched back to is a definition of its own (\<open>sleep_resume\<close>, \<open>acquiresleep_resume\<close>, \<open>wait_resume\<close>, \<open>piperead_resume\<close> and
  so on), started in whatever state the others have left. A loop around a sleep is a \<open>_turn\<close> definition that both use. One
  exception: a process that waits for the disk has its request served in one piece (\<open>virtio_wait\<close>), so that the cache, the log and
  the file system above run to their end. A system call that sleeps below \<^verbatim>\<open>syscall\<close> is modelled up to the switch.

  \<^bold>\<open>The theories.\<close>

  \<^item> \<open>Prelude\<close>, \<open>Machine\<close>: the outcomes, their laws, and the reasoning by \<open>keeps\<close>; memory,
    words and the address macros (riscv.h, memlayout.h, types.h, struct cpu, struct spinlock).
  \<^item> \<open>Spinlock\<close> (spinlock.c): the routines, run by one CPU, and their interleaving on many CPUs as a step relation,
    with mutual exclusion by rule induction.
  \<^item> \<open>CString\<close> (string.c): what each byte loop computes.
  \<^item> \<open>Kalloc\<close> (kalloc.c): the free list in the pages read as a list, the locale \<open>page_allocator\<close> of
    what its clients rely on, and its interpretation.
  \<^item> \<open>Vm\<close>, \<open>PageTable\<close>, \<open>UserCopy\<close> (vm.c): the routines; page tables as trees of pages that represent
    a map, refined by \<^verbatim>\<open>mappages\<close> and \<^verbatim>\<open>uvmunmap\<close>; user memory through that map.
  \<^item> \<open>Frames\<close>: the locale \<open>mem_blind\<close>, what the memory routines leave alone.
  \<^item> \<open>Proc\<close>, \<open>Reap\<close>, \<open>Scheduler\<close> (proc.c): slots, \<^verbatim>\<open>sleep\<close> and \<^verbatim>\<open>wakeup\<close>, accounting; \<^verbatim>\<open>wait\<close> with
    the return of all memory of a dead process; the policies, two of them instances of the locale \<open>min_scan\<close>.
  \<^item> \<open>Kern\<close>, \<open>Sleeplock\<close> (sleeplock.c): the state of the whole kernel; the sleep lock and its protocol.
  \<^item> \<open>Virtio\<close> (virtio_disk.c), \<open>Bio\<close> (bio.c), \<open>Log\<close> (log.c): the rings and the device, the cache as a list
    in order of use, and the log, whose commit is atomic under a power failure before any block write.
  \<^item> \<open>Ring\<close>, \<open>Pipe\<close> (pipe.c), \<open>Uart\<close> (uart.c), \<open>Printf\<close> (printf.c), \<open>Console\<close>
    (console.c): three ring buffers as interpretations of one locale of queues, numerals that read back, the line editor.
  \<^item> \<open>Fs\<close>, \<open>Blocks\<close>, \<open>Contents\<close>, \<open>Paths\<close> (fs.c): the routines; bitmap and
    stored inodes; files as byte sequences, inode table, directories as maps; path names.
  \<^item> \<open>File\<close> (file.c), \<open>ProcLife\<close> (proc.c), \<open>Args\<close>, \<open>Syscall\<close> (syscall.c),
    \<open>Sysproc\<close> (sysproc.c), \<open>Exec\<close> (exec.c), \<open>Sysfile\<close> (sysfile.c): open files, \<^verbatim>\<open>fork\<close> and
    \<^verbatim>\<open>exit\<close>, and the system calls.
  \<^item> \<open>IoFrames\<close>, \<open>Files\<close>: the locale \<open>io_blind\<close>, and by it the balance of descriptors and reference counts over
    all sequences of system calls.
  \<^item> \<open>Trap\<close> (trap.c, plic.c), \<open>Boot\<close> (start.c, main.c): traps, interrupts and the start of the machine, which
    establishes the invariant of the buffer cache.
  \<^item> \<open>Ulib\<close> (ulib.c), \<open>Grep\<close> (grep.c, wc.c, cat.c), \<open>Sh\<close>, \<open>ShRun\<close> (sh.c), \<open>Umalloc\<close>
    (umalloc.c): the matcher against the language of its patterns, the parser of the shell and what a line executes with which
    descriptors, and the user allocator, whose searches end and whose blocks never overlap.

  \<^bold>\<open>Recursion and fuel.\<close> Loops are recursive functions with a termination proof where the source terminates by itself. \<^verbatim>\<open>freewalk\<close> has
    a depth, and 3 is enough for every tree of three levels; the loops of \<^verbatim>\<open>readi\<close>, \<^verbatim>\<open>writei\<close> and \<^verbatim>\<open>filewrite\<close> have
    the number of bytes to move, each turn moving at least one; the searches of the buffer list stop after its 30 buffers; the parser of the shell has four times the length of the
    line plus 4, and more gives the same result. Loops that run to a NUL byte, and the searches of \<^verbatim>\<open>malloc\<close> and \<^verbatim>\<open>free\<close>,
    are partial functions, and the lemmas show when they return.

  \<^bold>\<open>Abstractions.\<close> The disk performs its block writes in order, each whole, and loses power before one of them. The transmitter of the serial port
    drains while it is polled. A buffer of the kernel that a copy routine fills is the list of its bytes: the
    name \<^verbatim>\<open>skipelem\<close> yields, a string that \<^verbatim>\<open>fetchstr\<close> fetches, a directory entry that \<^verbatim>\<open>readi\<close> reads. Values that the
    code reads uninitialised from the stack are arguments. User programs read a descriptor as the chunks that
    successive reads deliver. In \<open>Umalloc\<close> addresses count headers of 16 bytes and have no upper bound, and \<open>sbrk\<close> is what the system
    call promises a process below 2 GiB.

  \<^bold>\<open>Not modelled.\<close> The assembly code (entry, \<^verbatim>\<open>swtch\<close>, trap vectors, system call stubs) and the linker script; weak memory between CPUs outside
    the spin lock; \<^verbatim>\<open>ramdisk.c\<close>, which is not linked; \<^verbatim>\<open>mkfs.c\<close>, a program of the host; the test programs
    \<^verbatim>\<open>usertests\<close>, \<^verbatim>\<open>grind\<close>, \<^verbatim>\<open>forktest\<close>, \<^verbatim>\<open>stressfs\<close> and \<^verbatim>\<open>schedulertest\<close>; \<^verbatim>\<open>init\<close> and the small commands, which make one or two system
    calls each; \<^verbatim>\<open>printf\<close> of the user library.
\<close>

end
